(* ===== verification/Prelude.thy ===== *)
theory Prelude
  imports Main "HOL-Library.Word" "HOL-Library.Monad_Syntax"
begin

text \<open>
  Shared base of the McLinOS development: the machine types the kernel uses, the error
  numbers, the outcome type of code that can fault or fail to return, and the generic
  lemmas the component theories share.

  Outcomes. A C function that dereferences pointers or loops on memory is a function into
  \<^typ>\<open>'a option\<close>: \<^term>\<open>None\<close> is "dereferences NULL, leaves the object it may touch, or never
  returns", \<^term>\<open>Some r\<close> is a normal return. Addresses are natural numbers, 0 is NULL.
\<close>

type_synonym u8 = "8 word"
type_synonym u16 = "16 word"
type_synonym u32 = "32 word"
type_synonym u64 = "64 word"

text \<open>\<open>size_t\<close> is 32 bits wide on every target; \<open>sz\<close> is the truncation of a result to it.\<close>

abbreviation (input) sz :: "nat \<Rightarrow> nat" where
  "sz n \<equiv> n mod 4294967296"

text \<open>Error numbers of \<^verbatim>\<open>include/asm-generic/errno-base.h\<close> and \<^verbatim>\<open>include/linux/errno.h\<close>, returned negated.\<close>

abbreviation (input) EPERM :: int where "EPERM \<equiv> 1"
abbreviation (input) ENOENT :: int where "ENOENT \<equiv> 2"
abbreviation (input) EIO :: int where "EIO \<equiv> 5"
abbreviation (input) EBADF :: int where "EBADF \<equiv> 9"
abbreviation (input) ENOMEM :: int where "ENOMEM \<equiv> 12"
abbreviation (input) EFAULT :: int where "EFAULT \<equiv> 14"
abbreviation (input) EBUSY :: int where "EBUSY \<equiv> 16"
abbreviation (input) EEXIST :: int where "EEXIST \<equiv> 17"
abbreviation (input) ENODEV :: int where "ENODEV \<equiv> 19"
abbreviation (input) ENOTDIR :: int where "ENOTDIR \<equiv> 20"
abbreviation (input) EINVAL :: int where "EINVAL \<equiv> 22"
abbreviation (input) EMFILE :: int where "EMFILE \<equiv> 24"
abbreviation (input) EROFS :: int where "EROFS \<equiv> 30"
abbreviation (input) ENAMETOOLONG :: int where "ENAMETOOLONG \<equiv> 63"
abbreviation (input) ENOSYS :: int where "ENOSYS \<equiv> 78"

section \<open>Pointer stores\<close>

text \<open>
  A store maps every address to the object its bytes read as; only NULL faults. Writing an
  object changes that object alone: the objects of one store never overlap, which the
  components keep as an invariant where it matters.
\<close>

type_synonym 'a store = "nat \<Rightarrow> 'a"

definition ld :: "'a store \<Rightarrow> nat \<Rightarrow> 'a option" where
  "ld m a = (if a = 0 then None else Some (m a))"

definition st :: "'a store \<Rightarrow> nat \<Rightarrow> 'a \<Rightarrow> 'a store option" where
  "st m a v = (if a = 0 then None else Some (m(a := v)))"

lemma ld_simps [simp]: "ld m 0 = None" "0 < a \<Longrightarrow> ld m a = Some (m a)"
  by (simp_all add: ld_def)

lemma st_simps [simp]: "st m 0 v = None" "0 < a \<Longrightarrow> st m a v = Some (m(a := v))"
  by (simp_all add: st_def)

lemma ld_eq_Some: "ld m a = Some v \<longleftrightarrow> 0 < a \<and> v = m a"
  by (auto simp: ld_def)

lemma st_eq_Some: "st m a v = Some m' \<longleftrightarrow> 0 < a \<and> m' = m(a := v)"
  by (auto simp: st_def)

section \<open>Object maps\<close>

text \<open>
  Objects that are allocated and freed live in partial maps: an address outside the map was
  never allocated or was freed, and following it faults, as does following NULL.
\<close>

definition at :: "(nat \<Rightarrow> 'a option) \<Rightarrow> nat \<Rightarrow> 'a option" where
  "at m a = (if a = 0 then None else m a)"

text \<open>A store to one member of an object: read it, write it back with the member replaced.\<close>

definition upd :: "(nat \<Rightarrow> 'a option) \<Rightarrow> nat \<Rightarrow> ('a \<Rightarrow> 'a) \<Rightarrow> (nat \<Rightarrow> 'a option) option" where
  "upd m a f = do { v \<leftarrow> at m a; Some (m(a \<mapsto> f v)) }"

text \<open>\<open>kfree\<close> of an object.\<close>

definition free_at :: "(nat \<Rightarrow> 'a option) \<Rightarrow> nat \<Rightarrow> nat \<Rightarrow> 'a option" where
  "free_at m a = m(a := None)"

lemma at_0 [simp]: "at m 0 = None"
  by (simp add: at_def)

lemma at_pos [simp]: "0 < a \<Longrightarrow> at m a = m a"
  by (simp add: at_def)

lemma at_Some: "at m a = Some v \<longleftrightarrow> 0 < a \<and> m a = Some v"
  by (simp add: at_def)

lemma upd_Some: "upd m a f = Some m' \<longleftrightarrow> 0 < a \<and> (\<exists>v. m a = Some v \<and> m' = m(a \<mapsto> f v))"
  by (auto simp: upd_def at_def bind_eq_Some_conv)

lemma upd_eval [simp]: "0 < a \<Longrightarrow> m a = Some v \<Longrightarrow> upd m a f = Some (m(a \<mapsto> f v))"
  by (simp add: upd_def)

lemma upd_0 [simp]: "upd m 0 f = None"
  by (simp add: upd_def)

lemma free_at_apply [simp]: "free_at m a x = (if x = a then None else m x)"
  by (simp add: free_at_def)

text \<open>
  A list threaded through \<open>list_head\<close> members is the list of the addresses of their owners.
  \<open>list_add\<close> writes to the node that was first, \<open>list_del\<close> to both neighbours (\<open>p\<close> is the previous
  one, 0 the list's own head); a node on no list is linked to itself and removing it does nothing.
\<close>

definition list_add :: "(nat \<Rightarrow> 'a option) \<Rightarrow> nat \<Rightarrow> nat list \<Rightarrow> nat list option" where
  "list_add m new xs = (if xs \<noteq> [] \<and> m (hd xs) = None then None else Some (new # xs))"

fun list_del :: "(nat \<Rightarrow> 'a option) \<Rightarrow> nat \<Rightarrow> nat \<Rightarrow> nat list \<Rightarrow> nat list option" where
  "list_del m p x [] = Some []"
| "list_del m p x (y # ys) = (if y = x
     then (if (p \<noteq> 0 \<and> m p = None) \<or> (ys \<noteq> [] \<and> m (hd ys) = None) then None else Some ys)
     else map_option (Cons y) (list_del m y x ys))"

lemma list_del_live: "(\<And>y. y \<in> set ys \<Longrightarrow> m y \<noteq> None) \<Longrightarrow> p = 0 \<or> m p \<noteq> None \<Longrightarrow> list_del m p x ys = Some (remove1 x ys)"
proof (induction ys arbitrary: p)
  case (Cons y ys)
  then have "m y \<noteq> None" "ys \<noteq> [] \<Longrightarrow> m (hd ys) \<noteq> None" by simp_all
  moreover have "list_del m y x ys = Some (remove1 x ys)" using Cons by simp
  ultimately show ?case using Cons.prems(2) by auto
qed simp

lemma list_add_live: "(\<And>y. y \<in> set xs \<Longrightarrow> m y \<noteq> None) \<Longrightarrow> list_add m x xs = Some (x # xs)"
  by (cases xs) (auto simp: list_add_def)

text \<open>
  The search of a threaded list for the object with a given name, as a directory and the dentry cache do it:
  the address of the first match or 0, a fault when an entry or its name is missing. \<open>find_in\<close> is the code's loop.
\<close>

locale name_search =
  fixes name_of :: "'o \<Rightarrow> 'n option" and find_in :: "(nat \<Rightarrow> 'o option) \<Rightarrow> nat list \<Rightarrow> 'n \<Rightarrow> nat option"
  assumes find_Nil: "find_in m [] name = Some 0"
    and find_Cons: "find_in m (d # l) name = do {
      e \<leftarrow> at m d;
      n \<leftarrow> name_of e;
      if n = name then Some d else find_in m l name }"
begin

lemma find_frame: "(\<And>x. x \<in> set l \<Longrightarrow> m' x = m x) \<Longrightarrow> find_in m' l name = find_in m l name"
  by (induction l) (auto simp: find_Nil find_Cons at_def cong: if_cong)

lemma find_names: "(\<And>x. x \<in> set l \<Longrightarrow> map_option name_of (m' x) = map_option name_of (m x)) \<Longrightarrow> find_in m' l name = find_in m l name"
proof (induction l)
  case (Cons d l)
  have "map_option name_of (m' d) = map_option name_of (m d)" using Cons.prems by simp
  then show ?case using Cons by (cases "m' d"; cases "m d") (simp_all add: find_Cons at_def cong: if_cong)
qed (simp add: find_Nil)

lemma find_first: "0 < d \<Longrightarrow> m d = Some e \<Longrightarrow> name_of e = Some name \<Longrightarrow> find_in m (d # l) name = Some d"
  by (simp add: find_Cons)

lemma find_result: "find_in m l name = Some d \<Longrightarrow> d \<noteq> 0 \<Longrightarrow> d \<in> set l \<and> (\<exists>e. m d = Some e \<and> name_of e = Some name)"
  by (induction l) (auto simp: find_Nil find_Cons bind_eq_Some_conv at_def split: if_splits)

lemma find_total: "(\<And>x. x \<in> set l \<Longrightarrow> 0 < x \<and> (\<exists>e n. m x = Some e \<and> name_of e = Some n)) \<Longrightarrow> \<exists>r. find_in m l name = Some r"
proof (induction l)
  case (Cons x l)
  then obtain e n where "0 < x" "m x = Some e" "name_of e = Some n" by fastforce
  then show ?case using Cons by (auto simp: find_Cons)
qed (simp add: find_Nil)

end

section \<open>Words\<close>

unbundle bit_operations_syntax

lemma and_not_and_self [simp]: "(x AND NOT y) AND y = (0 :: 'a :: len word)"
  by (simp add: and.assoc)

lemma or_and_self [simp]: "(x OR y) AND y = (y :: 'a :: len word)"
  by (rule bit_word_eqI) (auto simp: bit_simps)

lemma unat_le_word: "unat (x :: 'a :: len word) < 2 ^ LENGTH('a)"
  by simp

lemma unat_and_not_mask: "unat (w AND NOT (mask n)) = unat w - unat (w :: 'a :: len word) mod 2 ^ n"
proof -
  have e: "w AND NOT (mask n) = push_bit n (drop_bit n w)"
    by (rule bit_word_eqI) (auto simp: bit_simps)
  have d: "unat w div 2 ^ n * 2 ^ n = unat w - unat w mod 2 ^ n" by (simp add: minus_mod_eq_div_mult)
  have "unat w div 2 ^ n * 2 ^ n \<le> unat w" by simp
  also have "unat w < 2 ^ LENGTH('a)" by simp
  finally have "take_bit LENGTH('a) (push_bit n (drop_bit n (unat w))) = unat w - unat w mod 2 ^ n"
    by (simp add: push_bit_eq_mult drop_bit_eq_div take_bit_nat_eq_self d)
  then show ?thesis unfolding e by (simp add: unsigned_push_bit_eq unat_drop_bit_eq)
qed

lemma unat_of_nat_small: "k < 2 ^ LENGTH('a) \<Longrightarrow> unat (of_nat k :: 'a :: len word) = k"
  by (simp add: unsigned_of_nat take_bit_nat_eq_self)

lemma sint_length: "n < 2147483648 \<Longrightarrow> sint (of_nat n :: u32) = int n"
proof -
  assume n: "n < 2147483648"
  then have "uint (of_nat n :: u32) = int n" by (simp add: unsigned_of_nat take_bit_nat_eq_self)
  then show ?thesis using n by (simp add: sint_uint signed_take_bit_int_eq_self)
qed

section \<open>Lists\<close>

lemma length_takeWhile_less: "\<exists>x \<in> set xs. \<not> P x \<Longrightarrow> length (takeWhile P xs) < length xs"
  by (induction xs) auto

end
