(* ===== verification/Heap.thy ===== *)
theory Heap
  imports Prelude
begin

text \<open>
  The kernel heap: \<^verbatim>\<open>include/linux/mempool_super_haper.h\<close>.

  An arena is a region of memory tiled by blocks; each block is a header
  (\<open>memory_block\<close>) followed by \<open>block_size\<close> bytes of payload, and the headers form a doubly
  linked list in address order. The store holds the headers by address
  (\<open>memory_block store\<close>); payload bytes are not modelled, except that \<open>clean_block\<close> also
  clears every header that lies in the range of bytes it zeroes. Addresses and sizes are
  natural numbers and every sum the code computes in \<open>size_t\<close> is reduced with \<open>sz\<close>.
\<close>

section \<open>Data\<close>

record memory_block =
  flag :: u8
  magic :: u16
  owner :: u8
  block_size :: nat
  next_block :: nat
  priv_block :: nat

record haper2 =
  mode :: u8
  space :: nat
  lock :: bool
  memory_size :: nat
  start_addr :: nat

type_synonym hmem = "memory_block store"

definition BASE_MAGIC :: u16 where "BASE_MAGIC = 0xABCD"
definition use_flag :: u8 where "use_flag = 1"

text \<open>\<open>sizeof(struct memory_block)\<close>: 1 + pad 1 + 2 + 1 + pad 3 + 4 + 4 + 4.\<close>

abbreviation HDR :: nat where "HDR \<equiv> 20"

abbreviation minimum_size :: nat where "minimum_size \<equiv> 8"

definition reset_block_status :: "memory_block \<Rightarrow> u8 \<Rightarrow> memory_block" where
  "reset_block_status b s = b\<lparr>flag := flag b AND NOT s\<rparr>"

definition set_block_status :: "memory_block \<Rightarrow> u8 \<Rightarrow> memory_block" where
  "set_block_status b s = b\<lparr>flag := flag b OR s\<rparr>"

definition get_block_status :: "memory_block \<Rightarrow> u8 \<Rightarrow> bool" where
  "get_block_status b s \<longleftrightarrow> flag b AND s \<noteq> 0"

definition zero_block :: memory_block where
  "zero_block = \<lparr>flag = 0, magic = 0, owner = 0, block_size = 0, next_block = 0, priv_block = 0\<rparr>"

definition clean_block :: "hmem \<Rightarrow> nat \<Rightarrow> hmem" where
  "clean_block m a =
     (if a = 0 then m
      else (\<lambda>x. if a \<le> x \<and> x < a + (HDR + block_size (m a)) then zero_block else m x))"

section \<open>Operations\<close>

definition spin_lock :: "haper2 \<Rightarrow> haper2 option" where
  \<comment> \<open>a lock already held spins for ever\<close>
  "spin_lock h = (if lock h then None else Some (h\<lparr>lock := True\<rparr>))"

definition spin_unlock :: "haper2 \<Rightarrow> haper2" where
  "spin_unlock h = h\<lparr>lock := False\<rparr>"

definition haper2_init :: "haper2 \<Rightarrow> hmem \<Rightarrow> nat \<Rightarrow> nat \<Rightarrow> u8 \<Rightarrow> (int \<times> haper2 \<times> hmem) option" where
  "haper2_init h m spc space_size md =
     (if space_size < HDR
      then Some (-1, h\<lparr>memory_size := 0, mode := 0, start_addr := 0, space := 0\<rparr>, m)
      else do {
        root \<leftarrow> ld m spc;
        let root = root\<lparr>block_size := space_size - HDR, magic := BASE_MAGIC\<rparr>;
        let root = (reset_block_status root use_flag)\<lparr>priv_block := 0, next_block := 0\<rparr>;
        m \<leftarrow> st m spc root;
        Some (0, h\<lparr>space := spc, mode := md, lock := False, memory_size := space_size,
                   start_addr := spc\<rparr>, m)
      })"

definition incise_free_block :: "hmem \<Rightarrow> nat \<Rightarrow> nat \<Rightarrow> (nat \<times> hmem) option" where
  "incise_free_block m father want =
     (if father = 0 \<or> want = 0 then Some (0, m)
      else do {
        f \<leftarrow> ld m father;
        if sz (want + HDR) > block_size f then Some (0, m)
        else if get_block_status f use_flag then Some (0, m)
        else do {
          let memory_offset = sz (HDR + want);
          let new = father + memory_offset;
          n \<leftarrow> ld m new;
          let n = reset_block_status (n\<lparr>block_size := block_size f - memory_offset\<rparr>) use_flag;
          let n = n\<lparr>next_block := next_block f, magic := BASE_MAGIC\<rparr>;
          m \<leftarrow> st m father (f\<lparr>block_size := want\<rparr>);
          m \<leftarrow> st m new n;
          m \<leftarrow> (if next_block f \<noteq> 0
               then do { x \<leftarrow> ld m (next_block f); st m (next_block f) (x\<lparr>priv_block := new\<rparr>) }
               else Some m);
          f \<leftarrow> ld m father;
          m \<leftarrow> st m father (f\<lparr>next_block := new\<rparr>);
          n \<leftarrow> ld m new;
          m \<leftarrow> st m new (n\<lparr>priv_block := father\<rparr>);
          Some (father, m)
        }
      })"

text \<open>\<open>p && get_block_status(p, use_flag) == 0\<close>.\<close>

definition is_free_at :: "hmem \<Rightarrow> nat \<Rightarrow> bool" where
  "is_free_at m a \<longleftrightarrow> a \<noteq> 0 \<and> \<not> get_block_status (m a) use_flag"

definition free_block :: "hmem \<Rightarrow> nat \<Rightarrow> (nat \<times> hmem) option" where
  "free_block m block =
     (if block = 0 then Some (0, m)
      else do {
        b \<leftarrow> ld m block;
        let priv = priv_block b;
        let nxt = next_block b;
        m \<leftarrow> st m block (reset_block_status b use_flag);
        if is_free_at m priv then do {
          p \<leftarrow> ld m priv;
          m \<leftarrow> st m priv (p\<lparr>block_size := sz (block_size p + sz (HDR + block_size b)),
                            next_block := nxt\<rparr>);
          m \<leftarrow> (if nxt \<noteq> 0 then do { n \<leftarrow> ld m nxt; st m nxt (n\<lparr>priv_block := priv\<rparr>) } else Some m);
          Some (priv, clean_block m block)
        }
        else if is_free_at m nxt then do {
          n \<leftarrow> ld m nxt;
          b \<leftarrow> ld m block;
          m \<leftarrow> st m block (b\<lparr>block_size := sz (block_size b + sz (HDR + block_size n)),
                             next_block := next_block n\<rparr>);
          m \<leftarrow> (if next_block n \<noteq> 0
               then do { x \<leftarrow> ld m (next_block n); st m (next_block n) (x\<lparr>priv_block := block\<rparr>) }
               else Some m);
          Some (block, clean_block m nxt)
        }
        else Some (block, m)
      })"

text \<open>The loop of \<open>free_memory\<close>: merge until the size of the block stops changing.\<close>

partial_function (option) free_loop :: "hmem \<Rightarrow> nat \<Rightarrow> nat \<Rightarrow> hmem option" where
  "free_loop m bs new_block =
     Option.bind (ld m new_block) (\<lambda>b.
       if bs \<noteq> block_size b
       then Option.bind (free_block m new_block) (\<lambda>r. free_loop (snd r) (block_size b) (fst r))
       else Some m)"

definition free_memory :: "hmem \<Rightarrow> nat \<Rightarrow> hmem option" where
  "free_memory m block = (if block = 0 then Some m else free_loop m 0 block)"

text \<open>
  \<open>memory_block_laterator\<close>: walks the list, giving every block to a callback that returns
  whether to go on and the new value of its \<open>data\<close> argument.
\<close>

partial_function (option) laterator_loop ::
    "(memory_block \<Rightarrow> nat \<Rightarrow> 'd \<Rightarrow> bool \<times> 'd) \<Rightarrow> hmem \<Rightarrow> nat \<Rightarrow> 'd \<Rightarrow> 'd option" where
  "laterator_loop op m cur d =
     (if cur = 0 then Some d
      else (let r = op (m cur) cur d in
            if \<not> fst r then Some (snd r)
            else laterator_loop op m (next_block (m cur)) (snd r)))"

definition memory_block_laterator ::
    "haper2 \<Rightarrow> hmem \<Rightarrow> (memory_block \<Rightarrow> nat \<Rightarrow> 'd \<Rightarrow> bool \<times> 'd) \<Rightarrow> 'd \<Rightarrow> 'd option" where
  "memory_block_laterator h m op d =
     (if start_addr h = 0 then Some d else laterator_loop op m (start_addr h) d)"

definition memory_block_free_size_counter :: "memory_block \<Rightarrow> nat \<Rightarrow> nat \<Rightarrow> bool \<times> nat" where
  "memory_block_free_size_counter b a acc =
     (True, if get_block_status b use_flag then acc else sz (acc + block_size b))"

definition get_free_space :: "haper2 \<Rightarrow> hmem \<Rightarrow> nat option" where
  "get_free_space h m = memory_block_laterator h m memory_block_free_size_counter 0"

partial_function (option) best_fit_scan :: "hmem \<Rightarrow> nat \<Rightarrow> nat \<Rightarrow> nat \<Rightarrow> nat option" where
  "best_fit_scan m want cur best =
     (if cur = 0 then Some best
      else best_fit_scan m want (next_block (m cur))
             (if \<not> get_block_status (m cur) use_flag \<and> want \<le> block_size (m cur)
              then if best = 0 \<or> block_size (m cur) \<le> block_size (m best) then cur else best
              else best))"

definition best_fit_alloc :: "haper2 \<Rightarrow> hmem \<Rightarrow> nat \<Rightarrow> (nat \<times> haper2 \<times> hmem) option" where
  "best_fit_alloc h m want =
     (if want = 0 then Some (0, h, m)
      else do {
        h \<leftarrow> spin_lock h;
        best \<leftarrow> best_fit_scan m want (start_addr h) 0;
        if best = 0 then Some (0, spin_unlock h, m)
        else do {
          b \<leftarrow> ld m best;
          m \<leftarrow> (if sz (want + HDR + minimum_size) \<le> block_size b
               then map_option snd (incise_free_block m best want) else Some m);
          b \<leftarrow> ld m best;
          m \<leftarrow> st m best (set_block_status b use_flag);
          Some (best + HDR, spin_unlock h, m)
        }
      })"

text \<open>The scan of \<open>first_fit_alloc\<close>; \<open>best_block\<close> is NULL until the \<open>break\<close>.\<close>

partial_function (option) first_fit_scan :: "hmem \<Rightarrow> nat \<Rightarrow> nat \<Rightarrow> nat option" where
  "first_fit_scan m want cur =
     (if cur = 0 then Some 0
      else if \<not> get_block_status (m cur) use_flag \<and> want \<le> block_size (m cur) then Some cur
      else first_fit_scan m want (next_block (m cur)))"

definition first_fit_alloc :: "haper2 \<Rightarrow> hmem \<Rightarrow> nat \<Rightarrow> (nat \<times> haper2 \<times> hmem) option" where
  "first_fit_alloc h m want =
     (if want = 0 then Some (0, h, m)
      else do {
        h \<leftarrow> spin_lock h;
        best \<leftarrow> first_fit_scan m want (start_addr h);
        if best = 0 then Some (0, spin_unlock h, m)
        else do {
          b \<leftarrow> ld m best;
          m \<leftarrow> (if sz (want + HDR) \<le> block_size b
               then map_option snd (incise_free_block m best want) else Some m);
          b \<leftarrow> ld m best;
          m \<leftarrow> st m best (set_block_status b use_flag);
          Some (best + HDR, spin_unlock h, m)
        }
      })"

text \<open>\<open>get_block\<close>: the callback that stops at the block whose payload starts at \<open>addr\<close>.\<close>

definition get_block :: "nat \<Rightarrow> memory_block \<Rightarrow> nat \<Rightarrow> nat \<Rightarrow> bool \<times> nat" where
  "get_block addr b a found = (if a + HDR = addr then (False, a) else (True, found))"

definition free_haper_block :: "haper2 \<Rightarrow> hmem \<Rightarrow> nat \<Rightarrow> (int \<times> haper2 \<times> hmem) option" where
  "free_haper_block h m ptr =
     (if ptr = 0 then Some (-1, h, m)
      else do {
        h \<leftarrow> spin_lock h;
        block \<leftarrow> memory_block_laterator h m (get_block ptr) 0;
        if block = 0 then Some (-1, spin_unlock h, m)
        else do {
          m \<leftarrow> free_memory m block;
          Some (0, spin_unlock h, m)
        }
      })"

definition check_blocks :: "memory_block \<Rightarrow> nat \<Rightarrow> nat \<Rightarrow> bool \<times> nat" where
  "check_blocks b a flg =
     (if flg = 1 then (False, flg)
      else if magic b \<noteq> BASE_MAGIC then (False, 1)
      else (True, flg))"

definition check_blocks_completeness :: "haper2 \<Rightarrow> hmem \<Rightarrow> nat option" where
  "check_blocks_completeness h m = memory_block_laterator h m check_blocks 0"

end
