(* ===== verification/HeapSpec.thy ===== *)
theory HeapSpec
  imports Heap
begin

text \<open>
  The contract of the kernel heap. The abstract state of an arena is the list of its blocks
  in address order, each a payload size and a used bit; \<open>arena m s bs\<close> says that the headers
  in the store \<open>m\<close> tile the region from \<open>s\<close> as the list \<open>bs\<close>. Every operation of
  \<open>Heap\<close> is shown to refine an operation on the list.
\<close>

type_synonym blocks = "(nat \<times> bool) list"

fun span :: "blocks \<Rightarrow> nat" where
  "span [] = 0"
| "span ((s, u) # bs) = HDR + s + span bs"

fun lastb :: "nat \<Rightarrow> nat \<Rightarrow> blocks \<Rightarrow> nat" where
  "lastb p a [] = p"
| "lastb p a ((s, u) # bs) = lastb a (a + HDR + s) bs"

definition blk_ok :: "hmem \<Rightarrow> nat \<Rightarrow> nat \<Rightarrow> nat \<Rightarrow> nat \<Rightarrow> bool \<Rightarrow> bool" where
  "blk_ok m lim p a s u \<longleftrightarrow>
     block_size (m a) = s \<and> get_block_status (m a) use_flag = u \<and> magic (m a) = BASE_MAGIC \<and>
     priv_block (m a) = p \<and> next_block (m a) = (if a + HDR + s = lim then 0 else a + HDR + s)"

fun chain :: "hmem \<Rightarrow> nat \<Rightarrow> nat \<Rightarrow> nat \<Rightarrow> blocks \<Rightarrow> bool" where
  "chain m lim p a [] \<longleftrightarrow> True"
| "chain m lim p a ((s, u) # bs) \<longleftrightarrow> blk_ok m lim p a s u \<and> chain m lim a (a + HDR + s) bs"

definition arena :: "hmem \<Rightarrow> nat \<Rightarrow> blocks \<Rightarrow> bool" where
  "arena m a bs \<longleftrightarrow>
     0 < a \<and> bs \<noteq> [] \<and> a + span bs < 4294967296 \<and> chain m (a + span bs) 0 a bs \<and>
     (\<forall>(s, u) \<in> set bs. u \<longrightarrow> 0 < s)"

section \<open>Chains\<close>

lemma span_append [simp]: "span (xs @ ys) = span xs + span ys"
  by (induction xs rule: span.induct) auto

lemma span_pos: "bs \<noteq> [] \<Longrightarrow> HDR \<le> span bs"
  by (cases bs rule: span.cases) auto

lemma span_0 [simp]: "span bs = 0 \<longleftrightarrow> bs = []"
  by (cases bs rule: span.cases) auto

lemma lastb_append [simp]: "lastb p a (xs @ ys) = lastb (lastb p a xs) (a + span xs) ys"
  by (induction p a xs rule: lastb.induct) (auto simp: add.assoc)

lemma lastb_less: "xs \<noteq> [] \<Longrightarrow> a \<le> lastb p a xs \<and> lastb p a xs < a + span xs"
proof (induction p a xs rule: lastb.induct)
  case (2 p a s u bs)
  show ?case
  proof (cases "bs = []")
    case False
    then show ?thesis using "2.IH" by simp
  qed simp
qed simp

lemma chain_append:
  "chain m lim p a (xs @ ys) \<longleftrightarrow> chain m lim p a xs \<and> chain m lim (lastb p a xs) (a + span xs) ys"
  by (induction m lim p a xs rule: chain.induct) (auto simp: add.assoc)

lemma chain_frame:
  "chain m lim p a xs \<Longrightarrow> (\<And>x. a \<le> x \<Longrightarrow> x < a + span xs \<Longrightarrow> m' x = m x) \<Longrightarrow> chain m' lim p a xs"
proof (induction m lim p a xs rule: chain.induct)
  case (2 m lim p a s u bs)
  have "m' a = m a" by (rule "2.prems"(2)) auto
  moreover have "chain m' lim a (a + HDR + s) bs"
    using "2.IH" "2.prems" by simp
  ultimately show ?case using "2.prems"(1) by (simp add: blk_ok_def)
qed simp

lemma blk_ok_upd_other [simp]: "x \<noteq> a \<Longrightarrow> blk_ok (m(x := v)) lim p a s u = blk_ok m lim p a s u"
  by (simp add: blk_ok_def)

lemma chain_upd_below [simp]: "x < a \<Longrightarrow> chain (m(x := v)) lim p a bs = chain m lim p a bs"
  by (induction m lim p a bs rule: chain.induct) auto

lemma chain_upd_above: "a + span bs \<le> x \<Longrightarrow> chain (m(x := v)) lim p a bs = chain m lim p a bs"
  by (induction m lim p a bs rule: chain.induct) auto

text \<open>Agreement of two stores outside a range: what an operation of one arena leaves alone.\<close>

definition outside :: "nat \<Rightarrow> nat \<Rightarrow> hmem \<Rightarrow> hmem \<Rightarrow> bool" where
  "outside lo hi m m' \<longleftrightarrow> (\<forall>x. x < lo \<or> hi \<le> x \<longrightarrow> m' x = m x)"

lemma outside_refl [simp]: "outside lo hi m m"
  by (simp add: outside_def)

lemma outside_trans: "outside lo hi m m' \<Longrightarrow> outside lo hi m' m'' \<Longrightarrow> outside lo hi m m''"
  by (simp add: outside_def)

lemma arena_outside:
  assumes "outside lo hi m m'" and "hi \<le> a \<or> a + span bs \<le> lo"
  shows "arena m' a bs = arena m a bs"
proof -
  have "m' x = m x" if "a \<le> x" "x < a + span bs" for x
    using assms that unfolding outside_def by auto
  then have "chain m' (a + span bs) 0 a bs = chain m (a + span bs) 0 a bs"
    by (metis chain_frame)
  then show ?thesis by (simp add: arena_def)
qed

section \<open>Splitting and merging\<close>

lemma status_reset [simp]: "\<not> get_block_status (reset_block_status b s) s"
  by (simp add: get_block_status_def reset_block_status_def)

lemma status_set [simp]: "get_block_status (set_block_status b use_flag) use_flag"
  by (simp add: get_block_status_def set_block_status_def use_flag_def)

lemma status_simps [simp]:
  "get_block_status (b\<lparr>block_size := x\<rparr>) s = get_block_status b s"
  "get_block_status (b\<lparr>next_block := x\<rparr>) s = get_block_status b s"
  "get_block_status (b\<lparr>priv_block := x\<rparr>) s = get_block_status b s"
  "get_block_status (b\<lparr>magic := y\<rparr>) s = get_block_status b s"
  by (simp_all add: get_block_status_def)

lemma reset_fields [simp]:
  "block_size (reset_block_status b s) = block_size b"
  "magic (reset_block_status b s) = magic b"
  "next_block (reset_block_status b s) = next_block b"
  "priv_block (reset_block_status b s) = priv_block b"
  by (simp_all add: reset_block_status_def)

lemma set_fields [simp]:
  "block_size (set_block_status b s) = block_size b"
  "magic (set_block_status b s) = magic b"
  "next_block (set_block_status b s) = next_block b"
  "priv_block (set_block_status b s) = priv_block b"
  by (simp_all add: set_block_status_def)

lemma incise_chain:
  assumes ch: "chain m lim p a ((s, False) # ys)" and lim: "lim = a + span ((s, False) # ys)"
    and a: "0 < a" and small: "lim < 4294967296" and want: "0 < want" "want + HDR \<le> s"
  shows "\<exists>m'. incise_free_block m a want = Some (a, m') \<and>
     chain m' lim p a ((want, False) # (s - want - HDR, False) # ys) \<and> outside a lim m m'"
proof (cases ys)
  case Nil
  with assms show ?thesis
    by (auto simp: incise_free_block_def blk_ok_def outside_def Let_def)
next
  case (Cons y zs)
  then obtain s2 u2 where y: "ys = (s2, u2) # zs" by (cases y) auto
  show ?thesis
    using assms unfolding y
    by (auto simp: incise_free_block_def blk_ok_def outside_def Let_def add_ac)
qed

lemma set_used_chain:
  assumes "chain m lim p a ((s, u) # ys)"
  shows "chain (m(a := set_block_status (m a) use_flag)) lim p a ((s, True) # ys)"
  using assms by (auto simp: blk_ok_def)

lemma clean_block_other [simp]:
  "y < x \<or> x + HDR + block_size (m x) \<le> y \<Longrightarrow> clean_block m x y = m y"
  by (auto simp: clean_block_def)

lemma chain_clean [simp]:
  "x + HDR + block_size (m x) \<le> b \<Longrightarrow> chain (clean_block m x) lim p b bs = chain m lim p b bs"
  using chain_frame [of m lim p b bs "clean_block m x"] chain_frame [of "clean_block m x" lim p b bs m]
  by auto

lemma blk_ok_clean [simp]:
  "b < x \<or> x + HDR + block_size (m x) \<le> b \<Longrightarrow> blk_ok (clean_block m x) lim p b s u = blk_ok m lim p b s u"
  by (simp add: blk_ok_def)

lemma outside_upd [simp]:
  "lo \<le> x \<Longrightarrow> x < hi \<Longrightarrow> outside lo hi m (m'(x := v)) = outside lo hi m m'"
  by (auto simp: outside_def)

lemma outside_clean [simp]:
  "lo \<le> x \<Longrightarrow> x + HDR + block_size (m' x) \<le> hi \<Longrightarrow>
   outside lo hi m (clean_block m' x) = outside lo hi m m'"
  by (auto simp: outside_def)

lemma is_free_at_reset [simp]: "is_free_at (m(a := reset_block_status b use_flag)) q =
   (if q = a then a \<noteq> 0 else is_free_at m q)"
  by (simp add: is_free_at_def)

text \<open>The three outcomes of \<open>free_block\<close>: absorbed by the block before, absorbing the block after, alone.\<close>

lemma free_block_priv:
  assumes ch: "chain m lim p pa ((s1, False) # (s, u) # ys)"
    and lim: "lim = pa + span ((s1, False) # (s, u) # ys)" "lim < 4294967296" and a: "0 < pa"
    and b: "b = pa + HDR + s1"
  shows "\<exists>m'. free_block m b = Some (pa, m') \<and>
     chain m' lim p pa ((s1 + HDR + s, False) # ys) \<and> outside pa lim m m'"
proof -
  define c where "c = b + HDR + s"
  have pa: "blk_ok m lim p pa s1 False" and bb: "blk_ok m lim pa b s u" and ys: "chain m lim b c ys"
    using ch b c_def by auto
  have ab: "pa < b" "b < c" "c \<le> lim" "c = lim \<longleftrightarrow> ys = []" "b \<noteq> lim" "b + (HDR + s) = c"
    "pa + (HDR + s1) = b" "pa + HDR + s1 = b" "b + HDR + s = c" "pa + HDR + (s1 + HDR + s) = c"
    using b c_def lim by (auto simp: neq_Nil_conv dest: span_pos)
  have sz: "sz (s1 + sz (HDR + s)) = s1 + HDR + s" using lim by simp
  show ?thesis
  proof (cases ys)
    case Nil
    with pa bb ab a sz show ?thesis
      by (auto simp: free_block_def blk_ok_def Let_def is_free_at_def)
  next
    case (Cons y zs)
    then obtain s2 u2 where y: "ys = (s2, u2) # zs" by (cases y) auto
    have "blk_ok m lim b c s2 u2" "chain m lim c (c + HDR + s2) zs"
      using ys y by auto
    with pa bb ab a sz y show ?thesis
      by (auto simp: free_block_def blk_ok_def Let_def is_free_at_def)
  qed
qed

lemma free_block_next:
  assumes ch: "chain m lim p b ((s, u) # (s1, False) # ys)"
    and lim: "lim = b + span ((s, u) # (s1, False) # ys)" "lim < 4294967296" and a: "0 < b"
    and p: "\<not> is_free_at m p" "p \<noteq> b"
  shows "\<exists>m'. free_block m b = Some (b, m') \<and>
     chain m' lim p b ((s + HDR + s1, False) # ys) \<and> outside b lim m m'"
proof -
  define n where "n = b + HDR + s"
  define c where "c = n + HDR + s1"
  have bb: "blk_ok m lim p b s u" and nn: "blk_ok m lim b n s1 False" and ys: "chain m lim n c ys"
    using ch n_def c_def by auto
  have ab: "b < n" "n < c" "c \<le> lim" "c = lim \<longleftrightarrow> ys = []" "n \<noteq> lim" "n + (HDR + s1) = c"
    "b + (HDR + s) = n" "n + HDR + s1 = c" "b + HDR + s = n" "b + HDR + (s + HDR + s1) = c"
    using n_def c_def lim by (auto simp: neq_Nil_conv dest: span_pos)
  have sz: "sz (s + sz (HDR + s1)) = s + HDR + s1" using lim by simp
  show ?thesis
  proof (cases ys)
    case Nil
    with bb nn ab a p sz show ?thesis
      by (auto simp: free_block_def blk_ok_def Let_def is_free_at_def)
  next
    case (Cons y zs)
    then obtain s2 u2 where y: "ys = (s2, u2) # zs" by (cases y) auto
    have "blk_ok m lim n c s2 u2" "chain m lim c (c + HDR + s2) zs"
      using ys y by auto
    with bb nn ab a p sz y show ?thesis
      by (auto simp: free_block_def blk_ok_def Let_def is_free_at_def)
  qed
qed

lemma free_block_alone:
  assumes ch: "chain m lim p b ((s, u) # ys)"
    and lim: "lim = b + span ((s, u) # ys)" and a: "0 < b"
    and p: "\<not> is_free_at m p" "p \<noteq> b" and ys: "ys = [] \<or> snd (hd ys)"
  shows "free_block m b = Some (b, m(b := reset_block_status (m b) use_flag)) \<and>
     chain (m(b := reset_block_status (m b) use_flag)) lim p b ((s, False) # ys)"
proof (cases ys)
  case Nil
  with assms show ?thesis by (auto simp: free_block_def blk_ok_def Let_def is_free_at_def)
next
  case (Cons y zs)
  then obtain s2 where "ys = (s2, True) # zs" using ys by (cases y) auto
  with assms show ?thesis by (auto simp: free_block_def blk_ok_def Let_def is_free_at_def)
qed

text \<open>What freeing a block of size \<open>s\<close> between \<open>xs\<close> and \<open>ys\<close> amounts to.\<close>

definition coalesce :: "blocks \<Rightarrow> nat \<Rightarrow> blocks \<Rightarrow> blocks" where
  "coalesce xs s ys =
     rev (dropWhile (\<lambda>b. \<not> snd b) (rev xs)) @
     (span (takeWhile (\<lambda>b. \<not> snd b) (rev xs)) + s + span (takeWhile (\<lambda>b. \<not> snd b) ys), False) #
     dropWhile (\<lambda>b. \<not> snd b) ys"

lemma span_rev [simp]: "span (rev xs) = span xs"
  by (induction xs rule: span.induct) auto

lemma span_takeWhile_dropWhile: "span (takeWhile P xs) + span (dropWhile P xs) = span xs"
  by (induction xs rule: span.induct) auto

lemma span_coalesce: "span (coalesce xs s ys) = span (xs @ (s, u) # ys)"
proof -
  have "span xs = span (takeWhile (\<lambda>b. \<not> snd b) (rev xs)) + span (dropWhile (\<lambda>b. \<not> snd b) (rev xs))"
    using span_takeWhile_dropWhile [of _ "rev xs"] by simp
  moreover have "span ys = span (takeWhile (\<lambda>b. \<not> snd b) ys) + span (dropWhile (\<lambda>b. \<not> snd b) ys)"
    by (simp add: span_takeWhile_dropWhile)
  ultimately show ?thesis by (simp add: coalesce_def)
qed

lemma coalesce_left: "coalesce (xs @ [(s1, False)]) s ys = coalesce xs (s1 + HDR + s) ys"
  by (simp add: coalesce_def)

lemma coalesce_right:
  "xs = [] \<or> snd (last xs) \<Longrightarrow> coalesce xs s ((s1, False) # ys) = coalesce xs (s + HDR + s1) ys"
  by (cases xs rule: rev_cases) (auto simp: coalesce_def)

lemma coalesce_alone:
  "xs = [] \<or> snd (last xs) \<Longrightarrow> ys = [] \<or> snd (hd ys) \<Longrightarrow> coalesce xs s ys = xs @ (s, False) # ys"
  by (cases xs rule: rev_cases; cases ys) (auto simp: coalesce_def)

lemma last_used_not_free:
  assumes "chain m lim 0 a xs" "xs = [] \<or> snd (last xs)"
  shows "\<not> is_free_at m (lastb 0 a xs)"
proof (cases xs rule: rev_cases)
  case Nil
  then show ?thesis by (simp add: is_free_at_def)
next
  case (snoc xs' y)
  then obtain s1 where "xs = xs' @ [(s1, True)]" using assms(2) by (cases y) auto
  then show ?thesis using assms(1) by (simp add: chain_append blk_ok_def is_free_at_def)
qed

lemma free_loop_chain:
  assumes "chain m lim 0 a (xs @ (s, u) # ys)" "lim = a + span (xs @ (s, u) # ys)" "lim < 4294967296"
    and "0 < a" and "bs \<noteq> s"
  shows "\<exists>m'. free_loop m bs (a + span xs) = Some m' \<and> chain m' lim 0 a (coalesce xs s ys) \<and> outside a lim m m'"
  using assms
proof (induction "length xs + length ys" arbitrary: m xs s u ys bs rule: less_induct)
  case less
  let ?b = "a + span xs"
  have ch: "chain m lim 0 a xs" "chain m lim (lastb 0 a xs) ?b ((s, u) # ys)"
    using less.prems(1) by (auto simp: chain_append)
  have b: "0 < ?b" "block_size (m ?b) = s" using less.prems(4) ch(2) by (auto simp: blk_ok_def)
  show ?case
  proof (cases "xs = [] \<or> snd (last xs)")
    case False
    then obtain xs' s1 where xs: "xs = xs' @ [(s1, False)]"
      by (metis append_butlast_last_id prod.collapse)
    let ?pa = "a + span xs'"
    have "chain m lim (lastb 0 a xs') ?pa ((s1, False) # (s, u) # ys)" and xs': "chain m lim 0 a xs'"
      using less.prems(1) xs by (auto simp: chain_append)
    then obtain m1 where m1: "free_block m ?b = Some (?pa, m1)"
        "chain m1 lim (lastb 0 a xs') ?pa ((s1 + HDR + s, False) # ys)" "outside ?pa lim m m1"
      using free_block_priv [of m lim "lastb 0 a xs'" ?pa s1 s u ys ?b] less.prems xs
      by (auto simp: add.assoc)
    have "chain m1 lim 0 a xs'"
      using xs' by (rule chain_frame) (use m1(3) in \<open>simp add: outside_def\<close>)
    then have c1: "chain m1 lim 0 a (xs' @ (s1 + HDR + s, False) # ys)"
      using m1(2) by (simp add: chain_append)
    obtain m2 where m2: "free_loop m1 s ?pa = Some m2"
        "chain m2 lim 0 a (coalesce xs' (s1 + HDR + s) ys)" "outside a lim m1 m2"
      using less.hyps [OF _ c1, of s] less.prems xs by auto
    have "outside a lim m m1" using m1(3) by (auto simp: outside_def)
    then have "outside a lim m m2" using m2(3) by (rule outside_trans)
    moreover have "free_loop m bs ?b = Some m2"
      using m1(1) m2(1) b less.prems(5) by (subst free_loop.simps) simp
    ultimately show ?thesis using m2(2) xs by (auto simp: coalesce_left)
  next
    case left: True
    have p: "\<not> is_free_at m (lastb 0 a xs)" "lastb 0 a xs \<noteq> ?b"
      using last_used_not_free [OF ch(1) left] lastb_less [of xs a 0] less.prems(4)
      by (cases "xs = []"; force)+
    show ?thesis
    proof (cases "ys = [] \<or> snd (hd ys)")
      case False
      then obtain s1 ys' where ys: "ys = (s1, False) # ys'"
        by (cases ys) auto
      obtain m1 where m1: "free_block m ?b = Some (?b, m1)"
          "chain m1 lim (lastb 0 a xs) ?b ((s + HDR + s1, False) # ys')" "outside ?b lim m m1"
        using free_block_next [of m lim "lastb 0 a xs" ?b s u s1 ys'] ch(2) less.prems p b ys
        by (auto simp: add.assoc)
      have "chain m1 lim 0 a xs"
        using ch(1) by (rule chain_frame) (use m1(3) in \<open>simp add: outside_def\<close>)
      then have c1: "chain m1 lim 0 a (xs @ (s + HDR + s1, False) # ys')"
        using m1(2) by (simp add: chain_append)
      obtain m2 where m2: "free_loop m1 s ?b = Some m2"
          "chain m2 lim 0 a (coalesce xs (s + HDR + s1) ys')" "outside a lim m1 m2"
        using less.hyps [OF _ c1, of s] less.prems ys by auto
      have "outside a lim m m1" using m1(3) by (auto simp: outside_def)
      then have "outside a lim m m2" using m2(3) by (rule outside_trans)
      moreover have "free_loop m bs ?b = Some m2"
        using m1(1) m2(1) b less.prems(5) by (subst free_loop.simps) simp
      ultimately show ?thesis using m2(2) ys left by (auto simp: coalesce_right)
    next
      case True
      let ?m1 = "m(?b := reset_block_status (m ?b) use_flag)"
      have m1: "free_block m ?b = Some (?b, ?m1)" "chain ?m1 lim (lastb 0 a xs) ?b ((s, False) # ys)"
        using free_block_alone [OF ch(2) _ b(1) p True] less.prems(2) by auto
      have "free_loop m bs ?b = Some ?m1"
        using m1(1) b less.prems(5) by (subst free_loop.simps) (simp add: free_loop.simps [of ?m1])
      moreover have "chain ?m1 lim 0 a (xs @ (s, False) # ys)"
        using ch(1) m1(2) by (simp add: chain_append chain_upd_above)
      moreover have "outside a lim m ?m1"
        using less.prems(2) by (simp add: outside_def)
      ultimately show ?thesis using coalesce_alone [OF left True] by auto
    qed
  qed
qed

end
