(* ===== verification/HeapAlloc.thy ===== *)
theory HeapAlloc
  imports HeapSpec
begin

text \<open>
  The list walks of the heap and the contract of allocation and release: the iterator
  \<open>memory_block_laterator\<close>, the two scans, and the refinement of \<open>best_fit_alloc\<close>,
  \<open>first_fit_alloc\<close> and \<open>free_haper_block\<close> to splitting and merging in the list of blocks.
\<close>

section \<open>Walks\<close>

abbreviation nptr :: "nat \<Rightarrow> nat \<Rightarrow> nat" where
  "nptr lim a \<equiv> if a = lim then 0 else a"

fun iter_blocks :: "(memory_block \<Rightarrow> nat \<Rightarrow> 'd \<Rightarrow> bool \<times> 'd) \<Rightarrow> hmem \<Rightarrow> nat \<Rightarrow> blocks \<Rightarrow> 'd \<Rightarrow> 'd" where
  "iter_blocks op m a [] d = d"
| "iter_blocks op m a ((s, u) # bs) d =
     (let r = op (m a) a d in if \<not> fst r then snd r else iter_blocks op m (a + HDR + s) bs (snd r))"

lemma laterator_chain:
  "chain m lim p a bs \<Longrightarrow> lim = a + span bs \<Longrightarrow> 0 < a \<Longrightarrow>
   laterator_loop op m (nptr lim a) d = Some (iter_blocks op m a bs d)"
proof (induction bs arbitrary: p a d rule: span.induct)
  case 1
  then show ?case by (simp add: laterator_loop.simps)
next
  case (2 s u bs)
  have "next_block (m a) = nptr lim (a + HDR + s)" "a \<noteq> lim"
    using "2.prems" by (auto simp: blk_ok_def)
  moreover have "laterator_loop op m (nptr lim (a + HDR + s)) (snd (op (m a) a d)) =
      Some (iter_blocks op m (a + HDR + s) bs (snd (op (m a) a d)))"
    by (rule "2.IH") (use "2.prems" in auto)
  ultimately show ?case using "2.prems"(3)
    by (subst laterator_loop.simps) (simp add: Let_def)
qed

definition haper_ok :: "haper2 \<Rightarrow> hmem \<Rightarrow> blocks \<Rightarrow> bool" where
  "haper_ok h m bs \<longleftrightarrow> arena m (start_addr h) bs \<and> memory_size h = span bs \<and> \<not> lock h"

lemma haper_chain:
  "haper_ok h m bs \<Longrightarrow> chain m (start_addr h + span bs) 0 (start_addr h) bs \<and> 0 < start_addr h \<and>
     start_addr h \<noteq> start_addr h + span bs"
  by (auto simp: haper_ok_def arena_def)

lemma laterator_arena:
  assumes "arena m (start_addr h) bs"
  shows "memory_block_laterator h m op d = Some (iter_blocks op m (start_addr h) bs d)"
proof -
  have "nptr (start_addr h + span bs) (start_addr h) = start_addr h" "0 < start_addr h"
    "chain m (start_addr h + span bs) 0 (start_addr h) bs"
    using assms by (auto simp: arena_def)
  then show ?thesis
    using laterator_chain [of m "start_addr h + span bs" 0 "start_addr h" bs op d]
    by (simp add: memory_block_laterator_def)
qed

lemma counter_step:
  "fst (memory_block_free_size_counter b a d)"
  "snd (memory_block_free_size_counter b a d) =
     (if get_block_status b use_flag then d else sz (d + block_size b))"
  by (simp_all add: memory_block_free_size_counter_def)

lemma get_block_step:
  "a + HDR = p \<Longrightarrow> get_block p b a d = (False, a)"
  "a + HDR \<noteq> p \<Longrightarrow> get_block p b a d = (True, d)"
  by (simp_all add: get_block_def)

lemma iter_free_size:
  "chain m lim p a bs \<Longrightarrow> d + sum_list (map fst (filter (\<lambda>b. \<not> snd b) bs)) < 4294967296 \<Longrightarrow>
   iter_blocks memory_block_free_size_counter m a bs d = d + sum_list (map fst (filter (\<lambda>b. \<not> snd b) bs))"
proof (induction bs arbitrary: p a d rule: span.induct)
  case (2 s u bs)
  have "block_size (m a) = s" "get_block_status (m a) use_flag = u" "chain m lim a (a + HDR + s) bs"
    using "2.prems" by (auto simp: blk_ok_def)
  then show ?case using "2.IH" [of a "a + HDR + s"] "2.prems"(2)
    by (cases u) (simp_all add: counter_step Let_def add_ac)
qed simp

lemma free_sum_span: "sum_list (map fst (filter (\<lambda>b. \<not> snd b) bs)) \<le> span bs"
  by (induction bs rule: span.induct) auto

lemma iter_check: "chain m lim p a bs \<Longrightarrow> iter_blocks check_blocks m a bs 0 = 0"
  by (induction bs arbitrary: p a rule: span.induct) (auto simp: check_blocks_def blk_ok_def Let_def)

lemma iter_get_block_hit: "iter_blocks (get_block (a + span xs + HDR)) m a (xs @ (s, u) # ys) d = a + span xs"
proof (induction xs arbitrary: a rule: span.induct)
  case (2 s u bs)
  then show ?case using "2" [of "a + HDR + s"] by (simp add: get_block_step Let_def add_ac)
qed (simp add: get_block_step Let_def)

lemma iter_get_block_miss:
  "(\<And>xs s u ys. bs = xs @ (s, u) # ys \<Longrightarrow> p \<noteq> a + span xs + HDR) \<Longrightarrow>
   iter_blocks (get_block p) m a bs d = d"
proof (induction bs arbitrary: a rule: span.induct)
  case (2 s u bs)
  have "a + HDR \<noteq> p" using "2.prems" [of "[]"] by auto
  moreover have "iter_blocks (get_block p) m (a + HDR + s) bs d = d"
    by (rule "2.IH") (use "2.prems" [of "(s, u) # _"] in \<open>simp add: add_ac\<close>)
  ultimately show ?case by (simp add: get_block_step Let_def)
qed simp

section \<open>Choosing a block\<close>

definition fits :: "nat \<Rightarrow> nat \<times> bool \<Rightarrow> bool" where
  "fits want b \<longleftrightarrow> \<not> snd b \<and> want \<le> fst b"

text \<open>The last among the smallest free blocks that are large enough.\<close>

definition best_split :: "nat \<Rightarrow> blocks \<Rightarrow> nat \<Rightarrow> blocks \<Rightarrow> bool" where
  "best_split want xs s ys \<longleftrightarrow>
     want \<le> s \<and> (\<forall>b \<in> set xs. fits want b \<longrightarrow> s \<le> fst b) \<and> (\<forall>b \<in> set ys. fits want b \<longrightarrow> s < fst b)"

definition best_ok :: "nat \<Rightarrow> blocks \<Rightarrow> nat \<Rightarrow> nat \<Rightarrow> bool" where
  "best_ok a bs want r \<longleftrightarrow>
     (if r = 0 then \<forall>b \<in> set bs. \<not> fits want b
      else \<exists>xs s ys. bs = xs @ (s, False) # ys \<and> r = a + span xs \<and> best_split want xs s ys)"

lemma best_ok_step:
  assumes ok: "best_ok a bs want r" and ch: "chain m lim p a (bs @ (s, u) # zs)" and a: "0 < a"
  shows "best_ok a (bs @ [(s, u)]) want
     (if \<not> u \<and> want \<le> s then if r = 0 \<or> s \<le> block_size (m r) then a + span bs else r else r)"
proof (cases "fits want (s, u)")
  case False
  then have "\<not> (\<not> u \<and> want \<le> s)" by (auto simp: fits_def)
  moreover have "best_ok a (bs @ [(s, u)]) want r"
  proof (cases "r = 0")
    case True
    then show ?thesis using ok False by (auto simp: best_ok_def)
  next
    case nz: False
    then obtain xs t ys where "bs = xs @ (t, False) # ys" "r = a + span xs" "best_split want xs t ys"
      using ok by (auto simp: best_ok_def)
    moreover from this have "best_split want xs t (ys @ [(s, u)])"
      using False by (auto simp: best_split_def)
    ultimately show ?thesis using nz by (fastforce simp: best_ok_def)
  qed
  ultimately show ?thesis by auto
next
  case fit: True
  then have u: "\<not> u \<and> want \<le> s" by (simp add: fits_def)
  show ?thesis
  proof (cases "r = 0")
    case True
    then have "best_split want bs s []"
      using ok u by (auto simp: best_ok_def best_split_def)
    then show ?thesis using True u a by (fastforce simp: best_ok_def)
  next
    case False
    then obtain xs t ys where xs: "bs = xs @ (t, False) # ys" "r = a + span xs" "best_split want xs t ys"
      using ok by (auto simp: best_ok_def)
    have t: "block_size (m r) = t"
      using ch xs by (auto simp: chain_append blk_ok_def)
    show ?thesis
    proof (cases "s \<le> t")
      case True
      then have "best_split want bs s []"
        using xs u by (force simp: best_split_def fits_def)
      then show ?thesis using True t u a False by (auto simp: best_ok_def)
    next
      case nle: False
      then have "best_split want xs t (ys @ [(s, u)])"
        using xs u by (force simp: best_split_def fits_def)
      then show ?thesis using nle t u False xs by (fastforce simp: best_ok_def)
    qed
  qed
qed

lemma best_fit_scan_chain:
  "chain m lim 0 a (bs @ cs) \<Longrightarrow> lim = a + span (bs @ cs) \<Longrightarrow> 0 < a \<Longrightarrow> best_ok a bs want r \<Longrightarrow>
   \<exists>r'. best_fit_scan m want (nptr lim (a + span bs)) r = Some r' \<and> best_ok a (bs @ cs) want r'"
proof (induction cs arbitrary: bs r rule: span.induct)
  case 1
  then show ?case by (simp add: best_fit_scan.simps)
next
  case (2 s u cs)
  let ?b = "a + span bs"
  define r1 where "r1 = (if \<not> u \<and> want \<le> s then if r = 0 \<or> s \<le> block_size (m r) then ?b else r else r)"
  have blk: "blk_ok m lim (lastb 0 a bs) ?b s u" "?b \<noteq> lim" "0 < ?b"
    using "2.prems" by (auto simp: chain_append)
  have "best_ok a (bs @ [(s, u)]) want r1"
    unfolding r1_def by (rule best_ok_step [OF "2.prems"(4) "2.prems"(1) "2.prems"(3)])
  then obtain r' where r': "best_fit_scan m want (nptr lim (a + span (bs @ [(s, u)]))) r1 = Some r'"
      "best_ok a (bs @ (s, u) # cs) want r'"
    using "2.IH" [of "bs @ [(s, u)]" r1] "2.prems" by auto
  have "best_fit_scan m want (nptr lim ?b) r = best_fit_scan m want (nptr lim (?b + HDR + s)) r1"
    using blk by (subst best_fit_scan.simps) (auto simp: blk_ok_def r1_def)
  then show ?case using r' by (auto simp: add_ac)
qed

definition first_ok :: "nat \<Rightarrow> blocks \<Rightarrow> nat \<Rightarrow> nat \<Rightarrow> bool" where
  "first_ok a bs want r \<longleftrightarrow>
     (if r = 0 then \<forall>b \<in> set bs. \<not> fits want b
      else \<exists>xs s ys. bs = xs @ (s, False) # ys \<and> r = a + span xs \<and> want \<le> s \<and> (\<forall>b \<in> set xs. \<not> fits want b))"

lemma first_fit_scan_chain:
  "chain m lim p a bs \<Longrightarrow> lim = a + span bs \<Longrightarrow> 0 < a \<Longrightarrow>
   \<exists>r. first_fit_scan m want (nptr lim a) = Some r \<and> first_ok a bs want r"
proof (induction bs arbitrary: p a rule: span.induct)
  case 1
  then show ?case by (simp add: first_fit_scan.simps first_ok_def)
next
  case (2 s u bs)
  have blk: "blk_ok m lim p a s u" "a \<noteq> lim" using "2.prems" by auto
  show ?case
  proof (cases "fits want (s, u)")
    case True
    then have "first_fit_scan m want (nptr lim a) = Some a"
      using blk "2.prems" by (subst first_fit_scan.simps) (auto simp: blk_ok_def fits_def)
    moreover have "first_ok a ((s, u) # bs) want a"
      using True "2.prems" unfolding first_ok_def fits_def
      by (auto intro: exI [of _ "[]"])
    ultimately show ?thesis by blast
  next
    case False
    obtain r where r: "first_fit_scan m want (nptr lim (a + HDR + s)) = Some r" "first_ok (a + HDR + s) bs want r"
      using "2.IH" [of a "a + HDR + s"] "2.prems" by auto
    have "first_fit_scan m want (nptr lim a) = Some r"
      using blk "2.prems" False r(1) by (subst first_fit_scan.simps) (auto simp: blk_ok_def fits_def)
    moreover have "first_ok a ((s, u) # bs) want r"
    proof (cases "r = 0")
      case True
      then show ?thesis using r(2) False by (simp add: first_ok_def)
    next
      case nz: False
      then obtain xs t ys where "bs = xs @ (t, False) # ys" "r = a + HDR + s + span xs" "want \<le> t"
          "\<forall>b \<in> set xs. \<not> fits want b"
        using r(2) by (auto simp: first_ok_def)
      then have "(s, u) # bs = ((s, u) # xs) @ (t, False) # ys \<and> r = a + span ((s, u) # xs) \<and> want \<le> t \<and>
          (\<forall>b \<in> set ((s, u) # xs). \<not> fits want b)"
        using False by auto
      then show ?thesis using nz unfolding first_ok_def by (metis (no_types, lifting))
    qed
    ultimately show ?thesis by blast
  qed
qed

section \<open>Allocation\<close>

text \<open>What an allocation makes of the free block of size \<open>s\<close> it chose.\<close>

definition carve :: "nat \<Rightarrow> nat \<Rightarrow> nat \<Rightarrow> blocks" where
  "carve slack want s =
     (if want + HDR + slack \<le> s then [(want, True), (s - want - HDR, False)] else [(s, True)])"

lemma span_carve [simp]: "want \<le> s \<Longrightarrow> span (carve slack want s) = HDR + s"
  by (simp add: carve_def)

text \<open>The tail the two allocators share: split the block if it is large enough, then mark it used.\<close>

definition take_block :: "hmem \<Rightarrow> nat \<Rightarrow> nat \<Rightarrow> nat \<Rightarrow> hmem option" where
  "take_block m slack want best =
     do {
       b \<leftarrow> ld m best;
       m \<leftarrow> (if sz (want + HDR + slack) \<le> block_size b
            then map_option snd (incise_free_block m best want) else Some m);
       b \<leftarrow> ld m best;
       st m best (set_block_status b use_flag)
     }"

lemma take_block_chain:
  assumes ch: "chain m lim p a ((s, False) # ys)" and lim: "lim = a + span ((s, False) # ys)" "lim < 4294967296"
    and a: "0 < a" and want: "0 < want" "want \<le> s" and slack: "slack \<le> 8"
  shows "\<exists>m'. take_block m slack want a = Some m' \<and> chain m' lim p a (carve slack want s @ ys) \<and> outside a lim m m'"
proof -
  have s: "block_size (m a) = s" "\<not> get_block_status (m a) use_flag" using ch by (auto simp: blk_ok_def)
  have small: "s + HDR < 4294967295" using lim a by simp
  show ?thesis
  proof (cases "want + HDR + slack \<le> s")
    case True
    then obtain m1 where m1: "incise_free_block m a want = Some (a, m1)"
        "chain m1 lim p a ((want, False) # (s - want - HDR, False) # ys)" "outside a lim m m1"
      using incise_chain [OF ch lim(1) a lim(2) want(1)] by auto
    have "take_block m slack want a = Some (m1(a := set_block_status (m1 a) use_flag))"
      using True s m1(1) a small by (simp add: take_block_def)
    moreover have "outside a lim m (m1(a := set_block_status (m1 a) use_flag))"
      using m1(3) lim by simp
    ultimately show ?thesis
      using set_used_chain [OF m1(2)] True by (auto simp: carve_def)
  next
    case False
    have "incise_free_block m a want = Some (0, m) \<or> \<not> sz (want + HDR + slack) \<le> s"
    proof (cases "want + HDR + slack < 4294967296")
      case True
      then show ?thesis using False by simp
    next
      case nolt: False
      then have "s < want + HDR" using small slack by linarith
      moreover have "sz (want + HDR) = want + HDR" using want small by simp
      ultimately show ?thesis using s a want by (simp add: incise_free_block_def)
    qed
    then have "take_block m slack want a = Some (m(a := set_block_status (m a) use_flag))"
      using s a by (auto simp: take_block_def)
    moreover have "outside a lim m (m(a := set_block_status (m a) use_flag))" using lim by simp
    ultimately show ?thesis using set_used_chain [OF ch] False by (auto simp: carve_def)
  qed
qed

lemma take_block_arena:
  assumes ok: "haper_ok h m (xs @ (s, False) # ys)" and want: "0 < want" "want \<le> s" and slack: "slack \<le> 8"
  shows "\<exists>m'. take_block m slack want (start_addr h + span xs) = Some m' \<and>
     haper_ok h m' (xs @ carve slack want s @ ys) \<and>
     outside (start_addr h) (start_addr h + memory_size h) m m'"
proof -
  let ?a = "start_addr h" let ?b = "?a + span xs" let ?lim = "?a + span (xs @ (s, False) # ys)"
  have ar: "0 < ?a" "?lim < 4294967296" "chain m ?lim 0 ?a xs" "chain m ?lim (lastb 0 ?a xs) ?b ((s, False) # ys)"
    and used: "\<forall>(s, u) \<in> set (xs @ (s, False) # ys). u \<longrightarrow> 0 < s"
    using ok by (auto simp: haper_ok_def arena_def chain_append)
  obtain m' where m': "take_block m slack want ?b = Some m'"
      "chain m' ?lim (lastb 0 ?a xs) ?b (carve slack want s @ ys)" "outside ?b ?lim m m'"
    using take_block_chain [OF ar(4) _ ar(2) _ want slack] ar(1) by auto
  have "chain m' ?lim 0 ?a xs"
    using ar(3) by (rule chain_frame) (use m'(3) in \<open>simp add: outside_def\<close>)
  then have "chain m' ?lim 0 ?a (xs @ carve slack want s @ ys)"
    using m'(2) by (simp add: chain_append)
  moreover have "?lim = ?a + span (xs @ carve slack want s @ ys)" using want by simp
  moreover have "\<forall>(s, u) \<in> set (xs @ carve slack want s @ ys). u \<longrightarrow> 0 < s"
    using used want by (auto simp: carve_def)
  moreover have "carve slack want s \<noteq> []" by (simp add: carve_def)
  ultimately have "haper_ok h m' (xs @ carve slack want s @ ys)"
    using ok ar(1,2) want by (simp add: haper_ok_def arena_def)
  moreover have "outside ?a (?a + memory_size h) m m'"
    using m'(3) ok by (auto simp: outside_def haper_ok_def)
  ultimately show ?thesis using m'(1) by blast
qed

lemma lock_unlock [simp]: "\<not> lock h \<Longrightarrow> spin_unlock (h\<lparr>lock := True\<rparr>) = h"
  by (cases h) (simp add: spin_unlock_def)

lemma best_fit_alloc_unfold:
  "0 < want \<Longrightarrow> \<not> lock h \<Longrightarrow> best_fit_alloc h m want =
     do { best \<leftarrow> best_fit_scan m want (start_addr h) 0;
          if best = 0 then Some (0, h, m)
          else do { m \<leftarrow> take_block m 8 want best; Some (best + HDR, h, m) } }"
  by (simp add: best_fit_alloc_def take_block_def spin_lock_def cong: if_cong)

lemma first_fit_alloc_unfold:
  "0 < want \<Longrightarrow> \<not> lock h \<Longrightarrow> first_fit_alloc h m want =
     do { best \<leftarrow> first_fit_scan m want (start_addr h);
          if best = 0 then Some (0, h, m)
          else do { m \<leftarrow> take_block m 0 want best; Some (best + HDR, h, m) } }"
  by (simp add: first_fit_alloc_def take_block_def spin_lock_def cong: if_cong)

text \<open>The outcome of an allocation, by the rule that chose the block.\<close>

definition alloc_post ::
    "(nat \<Rightarrow> blocks \<Rightarrow> nat \<Rightarrow> blocks \<Rightarrow> bool) \<Rightarrow> nat \<Rightarrow> nat \<Rightarrow> haper2 \<Rightarrow> hmem \<Rightarrow> blocks \<Rightarrow> nat \<Rightarrow> hmem \<Rightarrow> bool" where
  "alloc_post chosen slack want h m bs r m' \<longleftrightarrow>
     (if r = 0 then m' = m \<and> (\<forall>b \<in> set bs. \<not> fits want b)
      else \<exists>xs s ys. bs = xs @ (s, False) # ys \<and> want \<le> s \<and> chosen want xs s ys \<and>
        r = start_addr h + span xs + HDR \<and> haper_ok h m' (xs @ carve slack want s @ ys) \<and>
        outside (start_addr h) (start_addr h + memory_size h) m m')"

definition first_split :: "nat \<Rightarrow> blocks \<Rightarrow> nat \<Rightarrow> blocks \<Rightarrow> bool" where
  "first_split want xs s ys \<longleftrightarrow> (\<forall>b \<in> set xs. \<not> fits want b)"

lemma best_fit_scan_arena:
  assumes "haper_ok h m bs"
  shows "\<exists>r. best_fit_scan m want (start_addr h) 0 = Some r \<and> best_ok (start_addr h) bs want r"
proof -
  let ?a = "start_addr h" let ?lim = "?a + span ([] @ bs)"
  have c: "chain m ?lim 0 ?a ([] @ bs)" "0 < ?a" "?a \<noteq> ?lim" using haper_chain [OF assms] by auto
  have "best_ok ?a [] want 0" by (simp add: best_ok_def)
  from best_fit_scan_chain [OF c(1) refl c(2) this]
  obtain r where "best_fit_scan m want (nptr ?lim (?a + span [])) 0 = Some r" "best_ok ?a ([] @ bs) want r"
    by blast
  then show ?thesis using c(3) by auto
qed

lemma first_fit_scan_arena:
  assumes "haper_ok h m bs"
  shows "\<exists>r. first_fit_scan m want (start_addr h) = Some r \<and> first_ok (start_addr h) bs want r"
proof -
  let ?a = "start_addr h" let ?lim = "?a + span bs"
  have c: "chain m ?lim 0 ?a bs" "0 < ?a" "?a \<noteq> ?lim" using haper_chain [OF assms] by auto
  from first_fit_scan_chain [OF c(1) refl c(2)]
  obtain r where "first_fit_scan m want (nptr ?lim ?a) = Some r" "first_ok ?a bs want r"
    by blast
  then show ?thesis using c(3) by auto
qed

lemma best_fit_alloc_correct:
  assumes ok: "haper_ok h m bs" and want: "0 < want"
  shows "\<exists>r m'. best_fit_alloc h m want = Some (r, h, m') \<and> alloc_post best_split 8 want h m bs r m'"
proof -
  have unl: "\<not> lock h" using ok by (simp add: haper_ok_def)
  obtain r where r: "best_fit_scan m want (start_addr h) 0 = Some r" "best_ok (start_addr h) bs want r"
    using best_fit_scan_arena [OF ok] by blast
  show ?thesis
  proof (cases "r = 0")
    case True
    then show ?thesis using r unl want by (auto simp: best_fit_alloc_unfold best_ok_def alloc_post_def)
  next
    case False
    then obtain xs s ys where xs: "bs = xs @ (s, False) # ys" "r = start_addr h + span xs" "best_split want xs s ys"
      using r(2) by (auto simp: best_ok_def)
    then have s: "want \<le> s" by (simp add: best_split_def)
    obtain m' where m': "take_block m 8 want r = Some m'" "haper_ok h m' (xs @ carve 8 want s @ ys)"
        "outside (start_addr h) (start_addr h + memory_size h) m m'"
      using take_block_arena [of h m xs s ys want 8] ok xs s want by auto
    have "best_fit_alloc h m want = Some (r + HDR, h, m')"
      using r(1) False m'(1) by (simp add: best_fit_alloc_unfold [OF want unl])
    moreover have "alloc_post best_split 8 want h m bs (r + HDR) m'"
      using xs s m' by (fastforce simp add: alloc_post_def)
    ultimately show ?thesis by blast
  qed
qed

lemma first_fit_alloc_correct:
  assumes ok: "haper_ok h m bs" and want: "0 < want"
  shows "\<exists>r m'. first_fit_alloc h m want = Some (r, h, m') \<and> alloc_post first_split 0 want h m bs r m'"
proof -
  have unl: "\<not> lock h" using ok by (simp add: haper_ok_def)
  obtain r where r: "first_fit_scan m want (start_addr h) = Some r" "first_ok (start_addr h) bs want r"
    using first_fit_scan_arena [OF ok] by blast
  show ?thesis
  proof (cases "r = 0")
    case True
    then show ?thesis using r unl want by (auto simp: first_fit_alloc_unfold first_ok_def alloc_post_def)
  next
    case False
    then obtain xs s ys where xs: "bs = xs @ (s, False) # ys" "r = start_addr h + span xs" "first_split want xs s ys"
        and s: "want \<le> s"
      using r(2) by (auto simp: first_ok_def first_split_def)
    obtain m' where m': "take_block m 0 want r = Some m'" "haper_ok h m' (xs @ carve 0 want s @ ys)"
        "outside (start_addr h) (start_addr h + memory_size h) m m'"
      using take_block_arena [of h m xs s ys want 0] ok xs s want by auto
    have "first_fit_alloc h m want = Some (r + HDR, h, m')"
      using r(1) False m'(1) by (simp add: first_fit_alloc_unfold [OF want unl])
    moreover have "alloc_post first_split 0 want h m bs (r + HDR) m'"
      using xs s m' by (fastforce simp add: alloc_post_def)
    ultimately show ?thesis by blast
  qed
qed

section \<open>Release\<close>

lemma free_haper_block_used:
  assumes ok: "haper_ok h m (xs @ (s, u) # ys)" and s: "0 < s"
  shows "\<exists>m'. free_haper_block h m (start_addr h + span xs + HDR) = Some (0, h, m') \<and>
     haper_ok h m' (coalesce xs s ys) \<and> outside (start_addr h) (start_addr h + memory_size h) m m'"
proof -
  let ?a = "start_addr h" let ?lim = "?a + span (xs @ (s, u) # ys)"
  have ar: "arena m ?a (xs @ (s, u) # ys)" "\<not> lock h" using ok by (auto simp: haper_ok_def)
  obtain m' where m': "free_loop m 0 (?a + span xs) = Some m'" "chain m' ?lim 0 ?a (coalesce xs s ys)"
      "outside ?a ?lim m m'"
    using free_loop_chain [of m ?lim a0 xs s u ys 0 for a0] ar s by (auto simp: arena_def)
  have "memory_block_laterator (h\<lparr>lock := True\<rparr>) m (get_block (?a + span xs + HDR)) 0 = Some (?a + span xs)"
    by (simp add: laterator_arena [of m "h\<lparr>lock := True\<rparr>", simplified, OF ar(1)] iter_get_block_hit)
  then have "free_haper_block h m (?a + span xs + HDR) = Some (0, h, m')"
    using m'(1) ar by (simp add: free_haper_block_def spin_lock_def free_memory_def arena_def)
  moreover have "haper_ok h m' (coalesce xs s ys)"
  proof -
    have "set (coalesce xs s ys) \<subseteq> set xs \<union> set ys \<union> {b. \<not> snd b}"
      by (auto simp: coalesce_def dest: set_dropWhileD)
    then have "\<forall>(s, u) \<in> set (coalesce xs s ys). u \<longrightarrow> 0 < s"
      using ar(1) unfolding arena_def by fastforce
    moreover have "coalesce xs s ys \<noteq> []" by (simp add: coalesce_def)
    ultimately show ?thesis using ok m'(2) span_coalesce [of xs s ys u]
      by (auto simp: haper_ok_def arena_def)
  qed
  moreover have "outside ?a (?a + memory_size h) m m'" using m'(3) ok by (simp add: haper_ok_def)
  ultimately show ?thesis by blast
qed

lemma free_haper_block_unknown:
  assumes ok: "haper_ok h m bs" and p: "\<And>xs s u ys. bs = xs @ (s, u) # ys \<Longrightarrow> p \<noteq> start_addr h + span xs + HDR"
  shows "free_haper_block h m p = Some (-1, h, m)"
proof (cases "p = 0")
  case False
  have ar: "arena m (start_addr h) bs" "\<not> lock h" using ok by (auto simp: haper_ok_def)
  have "memory_block_laterator (h\<lparr>lock := True\<rparr>) m (get_block p) 0 = Some 0"
    using iter_get_block_miss [of bs p "start_addr h" m 0, OF p]
    by (simp add: laterator_arena [of m "h\<lparr>lock := True\<rparr>", simplified, OF ar(1)])
  then show ?thesis using ar False by (simp add: free_haper_block_def spin_lock_def)
qed (simp add: free_haper_block_def)

section \<open>Initialisation and audits\<close>

lemma haper2_init_correct:
  assumes "HDR \<le> n" "0 < a" "a + n < 4294967296"
  shows "\<exists>h' m'. haper2_init h m a n md = Some (0, h', m') \<and> haper_ok h' m' [(n - HDR, False)] \<and>
     start_addr h' = a \<and> memory_size h' = n \<and> outside a (a + n) m m'"
  using assms
  by (auto simp: haper2_init_def Let_def haper_ok_def arena_def blk_ok_def get_block_status_def
      reset_block_status_def outside_def)

lemma get_free_space_correct:
  assumes "haper_ok h m bs"
  shows "get_free_space h m = Some (sum_list (map fst (filter (\<lambda>b. \<not> snd b) bs)))"
proof -
  have ar: "arena m (start_addr h) bs" using assms by (simp add: haper_ok_def)
  then have "sum_list (map fst (filter (\<lambda>b. \<not> snd b) bs)) < 4294967296"
    using free_sum_span [of bs] by (simp add: arena_def)
  then show ?thesis
    using iter_free_size [of m "start_addr h + span bs" 0 "start_addr h" bs 0] ar
    by (simp add: get_free_space_def laterator_arena [OF ar] arena_def)
qed

lemma check_blocks_correct: "haper_ok h m bs \<Longrightarrow> check_blocks_completeness h m = Some 0"
  using iter_check [of m "start_addr h + span bs" 0 "start_addr h" bs]
  by (simp add: check_blocks_completeness_def haper_ok_def laterator_arena [of m h bs] arena_def)

end
