(* ===== verification/KHeap.thy ===== *)
theory KHeap
  imports HeapAlloc
begin

text \<open>
  The kernel's allocation entry points (\<^verbatim>\<open>kernel/mm/haper.c\<close>) over the seven arenas of
  \<open>hapers[]\<close>, and the contract every client of \<open>kmalloc\<close>/\<open>kfree\<close> relies on: the locale
  \<open>allocator\<close>, interpreted on a single arena and on the whole kernel heap.
\<close>

section \<open>Entry points\<close>

text \<open>\<open>kheap\<close>: the array \<open>hapers[]\<close> in its order, six expansion heaps and the main heap last, and the store.\<close>

record kheap =
  hapers :: "haper2 list"
  hstore :: hmem

definition GFP_NOWAIT :: u32 where "GFP_NOWAIT = 0x2800"
definition GFP_KERNEL :: u32 where "GFP_KERNEL = 0xCC0"

fun alloc_loop ::
    "(haper2 \<Rightarrow> hmem \<Rightarrow> nat \<Rightarrow> (nat \<times> haper2 \<times> hmem) option) \<Rightarrow> haper2 list \<Rightarrow> hmem \<Rightarrow> nat \<Rightarrow>
     (nat \<times> haper2 list \<times> hmem) option" where
  "alloc_loop alloc [] m n = Some (0, [], m)"
| "alloc_loop alloc (h # hs) m n = do {
     (addr, h, m) \<leftarrow> alloc h m n;
     if addr \<noteq> 0 then Some (addr, h # hs, m)
     else do { (addr, hs, m) \<leftarrow> alloc_loop alloc hs m n; Some (addr, h # hs, m) } }"

definition smalloc :: "kheap \<Rightarrow> nat \<Rightarrow> (nat \<times> kheap) option" where
  "smalloc k n =
     (if n = 0 then Some (0, k)
      else do {
        let use_memory_size = sz (n + 7) div 8 * 8;
        (addr, hs, m) \<leftarrow> alloc_loop best_fit_alloc (hapers k) (hstore k) use_memory_size;
        Some (addr, k\<lparr>hapers := hs, hstore := m\<rparr>)
      })"

fun sfree_loop :: "haper2 list \<Rightarrow> hmem \<Rightarrow> nat \<Rightarrow> (haper2 list \<times> hmem) option" where
  "sfree_loop [] m p = Some ([], m)"
| "sfree_loop (h # hs) m p = do {
     (r, h, m) \<leftarrow> free_haper_block h m p;
     if 0 < r then Some (h # hs, m)
     else do { (hs, m) \<leftarrow> sfree_loop hs m p; Some (h # hs, m) } }"

definition sfree :: "kheap \<Rightarrow> nat \<Rightarrow> kheap option" where
  "sfree k p = do { (hs, m) \<leftarrow> sfree_loop (hapers k) (hstore k) p; Some (k\<lparr>hapers := hs, hstore := m\<rparr>) }"

fun completeness_loop :: "haper2 list \<Rightarrow> hmem \<Rightarrow> nat option" where
  "completeness_loop [] m = Some 0"
| "completeness_loop (h # hs) m = do {
     j \<leftarrow> check_blocks_completeness h m;
     f \<leftarrow> completeness_loop hs m;
     Some (j + f) }"

definition check_haper_completeness :: "kheap \<Rightarrow> nat option" where
  "check_haper_completeness k = completeness_loop (hapers k) (hstore k)"

fun heap_size_loop :: "haper2 list \<Rightarrow> hmem \<Rightarrow> nat \<Rightarrow> nat option" where
  "heap_size_loop [] m acc = Some acc"
| "heap_size_loop (h # hs) m acc = do {
     j \<leftarrow> get_free_space h m;
     heap_size_loop hs m (sz (acc + j)) }"

definition get_global_heap_size :: "kheap \<Rightarrow> nat option" where
  "get_global_heap_size k = heap_size_loop (hapers k) (hstore k) 0"

text \<open>
  \<open>__task_malloc\<close>: each expansion heap takes part only if its \<open>CONFIG_EXPAND_HEAP_i\<close> option
  is compiled in (\<open>cfg\<close>, one flag for each of the six); the main heap always does.
\<close>

fun task_malloc_loop :: "bool list \<Rightarrow> haper2 list \<Rightarrow> hmem \<Rightarrow> nat \<Rightarrow> (nat \<times> haper2 list \<times> hmem) option" where
  "task_malloc_loop cfg [] m n = Some (0, [], m)"
| "task_malloc_loop [] (h # hs) m n = do {
     (addr, h, m) \<leftarrow> first_fit_alloc h m n;
     Some (addr, h # hs, m) }"
| "task_malloc_loop (c # cfg) (h # hs) m n =
     (if c then do {
        (addr, h, m) \<leftarrow> first_fit_alloc h m n;
        if addr \<noteq> 0 then Some (addr, h # hs, m)
        else do { (addr, hs, m) \<leftarrow> task_malloc_loop cfg hs m n; Some (addr, h # hs, m) } }
      else do { (addr, hs, m) \<leftarrow> task_malloc_loop cfg hs m n; Some (addr, h # hs, m) })"

definition task_malloc :: "bool list \<Rightarrow> kheap \<Rightarrow> nat \<Rightarrow> (nat \<times> kheap) option" where
  "task_malloc cfg k n =
     (if n = 0 then Some (0, k)
      else do {
        let use_memory_size = sz (n + 3) div 4 * 4;
        (addr, hs, m) \<leftarrow> task_malloc_loop cfg (hapers k) (hstore k) use_memory_size;
        Some (addr, k\<lparr>hapers := hs, hstore := m\<rparr>)
      })"

definition smalloc_gfp :: "bool list \<Rightarrow> kheap \<Rightarrow> nat \<Rightarrow> u32 \<Rightarrow> (nat \<times> kheap) option" where
  "smalloc_gfp cfg k n flags =
     (if flags = GFP_NOWAIT then task_malloc cfg k n else smalloc k n)"

definition sfree_gfp :: "kheap \<Rightarrow> nat \<Rightarrow> kheap option" where
  "sfree_gfp k addr = sfree k addr"

text \<open>Boot: one \<open>haper2_init\<close> for each heap, from its configured start address and size.\<close>

fun init_heaps :: "haper2 list \<Rightarrow> hmem \<Rightarrow> (nat \<times> nat) list \<Rightarrow> (haper2 list \<times> hmem) option" where
  "init_heaps (h # hs) m ((a, n) # cs) = do {
     (r, h, m) \<leftarrow> haper2_init h m a n 0;
     (hs, m) \<leftarrow> init_heaps hs m cs;
     Some (h # hs, m) }"
| "init_heaps hs m cs = Some (hs, m)"

definition sys_expand_heap_init :: "kheap \<Rightarrow> (nat \<times> nat) list \<Rightarrow> kheap option" where
  "sys_expand_heap_init k cs = do {
     (hs, m) \<leftarrow> init_heaps (take 6 (hapers k)) (hstore k) (take 6 cs);
     Some (k\<lparr>hapers := hs @ drop 6 (hapers k), hstore := m\<rparr>) }"

definition sys_heap_init :: "kheap \<Rightarrow> nat \<Rightarrow> nat \<Rightarrow> kheap option" where
  "sys_heap_init k a n = do {
     h \<leftarrow> (if length (hapers k) = 7 then Some (hapers k ! 6) else None);
     (r, h, m) \<leftarrow> haper2_init h (hstore k) a n 0;
     Some (k\<lparr>hapers := (hapers k)[6 := h], hstore := m\<rparr>) }"

section \<open>Settled lists and live blocks\<close>

text \<open>No two neighbours are both free: what every release leaves behind.\<close>

fun settled :: "blocks \<Rightarrow> bool" where
  "settled (b # c # bs) \<longleftrightarrow> (snd b \<or> snd c) \<and> settled (c # bs)"
| "settled _ \<longleftrightarrow> True"

lemma settled_append:
  "settled (xs @ ys) \<longleftrightarrow> settled xs \<and> settled ys \<and> (xs = [] \<or> ys = [] \<or> snd (last xs) \<or> snd (hd ys))"
  by (induction xs rule: settled.induct) (cases ys; auto)+

lemma settled_rev [simp]: "settled (rev xs) = settled xs"
  by (induction xs rule: settled.induct) (auto simp: settled_append)

lemma settled_Cons: "settled (b # bs) \<longleftrightarrow> settled bs \<and> (bs = [] \<or> snd b \<or> snd (hd bs))"
  by (cases bs) auto

lemma settled_dropWhile: "settled xs \<Longrightarrow> settled (dropWhile P xs)"
  by (induction xs) (auto simp: settled_Cons)

lemma settled_coalesce:
  assumes "settled (xs @ (s, u) # ys)" shows "settled (coalesce xs s ys)"
proof -
  have "settled (rev xs)" "settled ys" using assms by (auto simp: settled_append settled_Cons)
  then have d: "settled (dropWhile (\<lambda>b. \<not> snd b) (rev xs))" "settled (dropWhile (\<lambda>b. \<not> snd b) ys)"
    by (auto intro: settled_dropWhile)
  have hd: "dropWhile (\<lambda>b. \<not> snd b) zs = [] \<or> snd (hd (dropWhile (\<lambda>b. \<not> snd b) zs))" for zs :: blocks
    using hd_dropWhile [of "\<lambda>b. \<not> snd b" zs] by blast
  show ?thesis using d hd [of "rev xs"] hd [of ys]
    by (simp add: coalesce_def settled_append settled_Cons last_rev)
qed

lemma settled_carve: "settled (xs @ (s, False) # ys) \<Longrightarrow> settled (xs @ carve slack want s @ ys)"
  by (auto simp: carve_def settled_append settled_Cons)

fun live_of :: "nat \<Rightarrow> blocks \<Rightarrow> (nat \<times> nat) set" where
  "live_of a [] = {}"
| "live_of a ((s, u) # bs) = (if u then {(a + HDR, s)} else {}) \<union> live_of (a + HDR + s) bs"

lemma live_append: "live_of a (xs @ ys) = live_of a xs \<union> live_of (a + span xs) ys"
  by (induction a xs rule: live_of.induct) (auto simp: add_ac)

lemma live_range: "(p, k) \<in> live_of a bs \<Longrightarrow> a + HDR \<le> p \<and> p + k \<le> a + span bs"
  by (induction a bs rule: live_of.induct) (auto split: if_splits)

lemma live_pos: "(p, k) \<in> live_of a bs \<Longrightarrow> \<forall>(s, u) \<in> set bs. u \<longrightarrow> 0 < s \<Longrightarrow> 0 < k"
  by (induction a bs rule: live_of.induct) (auto split: if_splits)

lemma live_free: "\<forall>b \<in> set bs. \<not> snd b \<Longrightarrow> live_of a bs = {}"
  by (induction a bs rule: live_of.induct) auto

lemma live_split: "(p, k) \<in> live_of a bs \<Longrightarrow> \<exists>xs ys. bs = xs @ (k, True) # ys \<and> p = a + span xs + HDR"
proof (induction a bs rule: live_of.induct)
  case (2 a s u bs)
  show ?case
  proof (cases "u \<and> (p, k) = (a + HDR, s)")
    case True
    then have "(s, u) # bs = [] @ (k, True) # bs" "p = a + span [] + HDR" by auto
    then show ?thesis by blast
  next
    case False
    then obtain xs ys where "bs = xs @ (k, True) # ys" "p = a + HDR + s + span xs + HDR"
      using "2" by (auto split: if_splits)
    then have "(s, u) # bs = ((s, u) # xs) @ (k, True) # ys" "p = a + span ((s, u) # xs) + HDR" by auto
    then show ?thesis by blast
  qed
qed simp

lemma live_disjoint:
  "(p, k) \<in> live_of a bs \<Longrightarrow> (q, l) \<in> live_of a bs \<Longrightarrow> (p, k) = (q, l) \<or> p + k \<le> q \<or> q + l \<le> p"
proof (induction a bs rule: live_of.induct)
  case (2 a s u bs)
  then show ?case
    using live_range [of p k "a + HDR + s" bs] live_range [of q l "a + HDR + s" bs]
    by (auto split: if_splits)
qed simp

lemma live_merge:
  assumes "\<forall>b \<in> set l. \<not> snd b" "\<forall>b \<in> set r. \<not> snd b"
  shows "live_of a (xs @ (span l + s + span r, False) # ys) =
    live_of a (xs @ l) \<union> live_of (a + span (xs @ l) + HDR + s) (r @ ys)"
  using assms by (simp add: live_append live_free add_ac)

lemma live_coalesce:
  "live_of a (coalesce xs s ys) = live_of a xs \<union> live_of (a + span xs + HDR + s) ys"
proof -
  let ?P = "\<lambda>b::nat \<times> bool. \<not> snd b"
  let ?l = "rev (takeWhile ?P (rev xs))" let ?xs = "rev (dropWhile ?P (rev xs))"
  have xs: "?xs @ ?l = xs"
    by (metis rev_append rev_rev_ident takeWhile_dropWhile_id)
  have "\<forall>b \<in> set ?l. ?P b" "\<forall>b \<in> set (takeWhile ?P ys). ?P b"
    by (auto dest: set_takeWhileD)
  from live_merge [OF this, of a ?xs s "dropWhile ?P ys"] show ?thesis
    unfolding coalesce_def xs by simp
qed

lemma live_carve:
  "want \<le> s \<Longrightarrow> live_of a (xs @ carve slack want s @ ys) =
   insert (a + span xs + HDR, if want + HDR + slack \<le> s then want else s) (live_of a (xs @ (s, False) # ys))"
  by (auto simp: live_append carve_def add_ac)

section \<open>One arena\<close>

text \<open>An arena in a kernel state: never initialised, or tiled by a settled list of blocks.\<close>

definition karena :: "haper2 \<Rightarrow> hmem \<Rightarrow> blocks \<Rightarrow> bool" where
  "karena h m bs \<longleftrightarrow>
     (if bs = [] then start_addr h = 0 \<and> memory_size h = 0 \<and> \<not> lock h else haper_ok h m bs \<and> settled bs)"

definition karena_live :: "haper2 \<Rightarrow> hmem \<Rightarrow> (nat \<times> nat) set" where
  "karena_live h m = {x. \<exists>bs. karena h m bs \<and> x \<in> live_of (start_addr h) bs}"

lemma chain_unique:
  "chain m lim p a bs \<Longrightarrow> chain m lim p a cs \<Longrightarrow> a + span bs = lim \<Longrightarrow> a + span cs = lim \<Longrightarrow> bs = cs"
proof (induction bs arbitrary: p a cs rule: span.induct)
  case 1
  then show ?case using span_0 [of cs] by simp
next
  case (2 s u bs)
  then obtain t v ds where cs: "cs = (t, v) # ds"
    by (cases cs rule: span.cases) auto
  then have "t = s" "v = u" using "2.prems" by (auto simp: blk_ok_def)
  moreover have "bs = ds" by (rule "2.IH") (use "2.prems" cs calculation in auto)
  ultimately show ?case using cs by simp
qed

lemma haper_ok_unique:
  assumes "haper_ok h m bs" "haper_ok h m cs" shows "bs = cs"
proof (rule chain_unique)
  show "chain m (start_addr h + memory_size h) 0 (start_addr h) bs" using assms(1) by (simp add: haper_ok_def arena_def)
  show "chain m (start_addr h + memory_size h) 0 (start_addr h) cs" using assms(2) by (simp add: haper_ok_def arena_def)
  show "start_addr h + span bs = start_addr h + memory_size h" using assms(1) by (simp add: haper_ok_def)
  show "start_addr h + span cs = start_addr h + memory_size h" using assms(2) by (simp add: haper_ok_def)
qed

lemma karena_unique: "karena h m bs \<Longrightarrow> karena h m cs \<Longrightarrow> bs = cs"
  unfolding karena_def by (metis haper_ok_unique haper_ok_def arena_def less_irrefl)

lemma karena_live_eq: "karena h m bs \<Longrightarrow> karena_live h m = live_of (start_addr h) bs"
  using karena_unique by (auto simp: karena_live_def)

lemma karena_size: "karena h m bs \<Longrightarrow> memory_size h = span bs"
  by (auto simp: karena_def haper_ok_def split: if_splits)

lemma karena_live_range:
  "karena h m bs \<Longrightarrow> (p, k) \<in> karena_live h m \<Longrightarrow>
   start_addr h + HDR \<le> p \<and> p + k \<le> start_addr h + memory_size h \<and> 0 < k"
  using live_range [of p k "start_addr h" bs] live_pos [of p k "start_addr h" bs] karena_size [of h m bs]
  by (auto simp: karena_live_eq karena_def haper_ok_def arena_def split: if_splits)

lemma karena_outside:
  assumes "outside lo hi m m'" "hi \<le> start_addr h \<or> start_addr h + memory_size h \<le> lo"
  shows "karena h m' bs = karena h m bs"
  using assms arena_outside [of lo hi m m' "start_addr h" bs]
  by (auto simp: karena_def haper_ok_def)

lemma live_fresh:
  assumes "bs = xs @ (s, False) # ys"
  shows "(a + span xs + HDR, k) \<notin> live_of a bs"
proof
  assume "(a + span xs + HDR, k) \<in> live_of a bs"
  then consider "(a + span xs + HDR, k) \<in> live_of a xs"
    | "(a + span xs + HDR, k) \<in> live_of (a + span xs + HDR + s) ys"
    using assms by (auto simp: live_append)
  then show False
  proof cases
    case 1
    then show ?thesis using live_range by fastforce
  next
    case 2
    then show ?thesis using live_range by fastforce
  qed
qed

definition alloc_ok :: "haper2 \<Rightarrow> hmem \<Rightarrow> nat \<Rightarrow> nat \<Rightarrow> hmem \<Rightarrow> bool" where
  "alloc_ok h m n r m' \<longleftrightarrow>
     (\<exists>bs. karena h m' bs) \<and> outside (start_addr h) (start_addr h + memory_size h) m m' \<and>
     (if r = 0 then m' = m
      else \<exists>k \<ge> n. (\<forall>l. (r, l) \<notin> karena_live h m) \<and> karena_live h m' = insert (r, k) (karena_live h m))"

lemma alloc_post_ok:
  assumes k: "karena h m bs" "bs \<noteq> []" and post: "alloc_post ch slack n h m bs r m'"
  shows "alloc_ok h m n r m'"
proof (cases "r = 0")
  case True
  then show ?thesis using k post by (auto simp: alloc_ok_def alloc_post_def)
next
  case False
  then obtain xs s ys where xs: "bs = xs @ (s, False) # ys" "n \<le> s" "r = start_addr h + span xs + HDR"
      "haper_ok h m' (xs @ carve slack n s @ ys)" "outside (start_addr h) (start_addr h + memory_size h) m m'"
    using post by (auto simp: alloc_post_def)
  have k': "karena h m' (xs @ carve slack n s @ ys)"
    using k xs settled_carve [of xs s ys slack n] by (auto simp: karena_def carve_def split: if_splits)
  have "karena_live h m' = insert (r, if n + HDR + slack \<le> s then n else s) (karena_live h m)"
    using live_carve [OF xs(2), of "start_addr h" xs slack ys] xs by (simp add: karena_live_eq [OF k'] karena_live_eq [OF k(1)])
  moreover have "(r, l) \<notin> karena_live h m" for l
    using live_fresh [OF xs(1)] xs(3) by (simp add: karena_live_eq [OF k(1)])
  ultimately show ?thesis using False k' xs by (auto simp: alloc_ok_def intro: exI [of _ "if n + HDR + slack \<le> s then n else s"])
qed

lemma empty_alloc:
  assumes "karena h m []"
  shows "best_fit_alloc h m n = Some (0, h, m)" "first_fit_alloc h m n = Some (0, h, m)"
  using assms by (auto simp: karena_def best_fit_alloc_def first_fit_alloc_def spin_lock_def
      best_fit_scan.simps first_fit_scan.simps)

lemma arena_best_fit:
  assumes "karena h m bs"
  shows "\<exists>r m'. best_fit_alloc h m n = Some (r, h, m') \<and> alloc_ok h m n r m'"
proof (cases "bs = [] \<or> n = 0")
  case True
  then have "best_fit_alloc h m n = Some (0, h, m)"
    using assms empty_alloc(1) [of h m n] by (cases "n = 0") (simp_all add: best_fit_alloc_def)
  moreover have "alloc_ok h m n 0 m" using assms by (auto simp: alloc_ok_def)
  ultimately show ?thesis by blast
next
  case False
  then have "haper_ok h m bs" "0 < n" using assms by (auto simp: karena_def)
  then obtain r m' where "best_fit_alloc h m n = Some (r, h, m')" "alloc_post best_split 8 n h m bs r m'"
    using best_fit_alloc_correct by blast
  then show ?thesis using alloc_post_ok [OF assms] False by blast
qed

lemma arena_first_fit:
  assumes "karena h m bs"
  shows "\<exists>r m'. first_fit_alloc h m n = Some (r, h, m') \<and> alloc_ok h m n r m'"
proof (cases "bs = [] \<or> n = 0")
  case True
  then have "first_fit_alloc h m n = Some (0, h, m)"
    using assms empty_alloc(2) [of h m n] by (cases "n = 0") (simp_all add: first_fit_alloc_def)
  moreover have "alloc_ok h m n 0 m" using assms by (auto simp: alloc_ok_def)
  ultimately show ?thesis by blast
next
  case False
  then have "haper_ok h m bs" "0 < n" using assms by (auto simp: karena_def)
  then obtain r m' where "first_fit_alloc h m n = Some (r, h, m')" "alloc_post first_split 0 n h m bs r m'"
    using first_fit_alloc_correct by blast
  then show ?thesis using alloc_post_ok [OF assms] False by blast
qed

lemma free_empty_block:
  assumes "haper_ok h m (xs @ (0, u) # ys)"
  shows "free_haper_block h m (start_addr h + span xs + HDR) = Some (0, h, m)"
proof -
  have ar: "arena m (start_addr h) (xs @ (0, u) # ys)" "\<not> lock h" using assms by (auto simp: haper_ok_def)
  have "memory_block_laterator (h\<lparr>lock := True\<rparr>) m (get_block (start_addr h + span xs + HDR)) 0 =
      Some (start_addr h + span xs)"
    by (simp add: laterator_arena [of m "h\<lparr>lock := True\<rparr>", simplified, OF ar(1)] iter_get_block_hit)
  moreover have "block_size (m (start_addr h + span xs)) = 0" "0 < start_addr h"
    using ar(1) by (auto simp: arena_def chain_append blk_ok_def)
  ultimately show ?thesis using ar
    by (simp add: free_haper_block_def spin_lock_def free_memory_def free_loop.simps [of m 0])
qed

lemma live_remove:
  assumes "bs = xs @ (s, u) # ys"
  shows "live_of a (coalesce xs s ys) = live_of a bs - {(a + span xs + HDR, s)}"
proof -
  have "(a + span xs + HDR, s) \<notin> live_of a xs \<union> live_of (a + span xs + HDR + s) ys"
    using live_fresh [OF refl, of a xs s s ys] by (auto simp: live_append)
  then show ?thesis using assms by (auto simp: live_coalesce live_append)
qed

lemma arena_free:
  assumes k: "karena h m bs"
  shows "\<exists>r m'. free_haper_block h m p = Some (r, h, m') \<and> r \<le> 0 \<and> (\<exists>bs'. karena h m' bs') \<and>
     outside (start_addr h) (start_addr h + memory_size h) m m' \<and>
     karena_live h m' = {x \<in> karena_live h m. fst x \<noteq> p}"
proof (cases "bs \<noteq> [] \<and> (\<exists>xs s u ys. bs = xs @ (s, u) # ys \<and> p = start_addr h + span xs + HDR)")
  case False
  have "free_haper_block h m p = Some (-1, h, m)"
  proof (cases "bs = []")
    case True
    then show ?thesis using k
      by (auto simp: karena_def free_haper_block_def spin_lock_def memory_block_laterator_def)
  next
    case ne: False
    then show ?thesis using k False free_haper_block_unknown [of h m bs p] by (auto simp: karena_def)
  qed
  moreover have "fst x \<noteq> p" if "x \<in> karena_live h m" for x
    using that False live_split [of "fst x" "snd x" "start_addr h" bs]
    by (cases "bs = []") (auto simp: karena_live_eq [OF k])
  ultimately show ?thesis using k by auto
next
  case True
  then obtain xs s u ys where xs: "bs = xs @ (s, u) # ys" "p = start_addr h + span xs + HDR" and ne: "bs \<noteq> []"
    by auto
  have ok: "haper_ok h m (xs @ (s, u) # ys)" "settled (xs @ (s, u) # ys)" using k xs ne by (auto simp: karena_def)
  have rm: "live_of (start_addr h) bs - {(p, s)} = {x \<in> live_of (start_addr h) bs. fst x \<noteq> p}"
    using live_disjoint [of p _ "start_addr h" bs p s] live_fresh [OF refl, of "start_addr h" xs _ s ys] xs
    by (auto simp: live_append)
  show ?thesis
  proof (cases "s = 0")
    case s0: True
    then have "\<not> u" using ok(1) by (auto simp: haper_ok_def arena_def)
    then have "fst x \<noteq> p" if "x \<in> karena_live h m" for x
      using that live_fresh [of bs xs s ys "start_addr h" "snd x"] xs by (cases x) (auto simp: karena_live_eq [OF k])
    then show ?thesis using free_empty_block [of h m xs u ys] ok(1) s0 k xs by auto
  next
    case False
    then obtain m' where m': "free_haper_block h m p = Some (0, h, m')" "haper_ok h m' (coalesce xs s ys)"
        "outside (start_addr h) (start_addr h + memory_size h) m m'"
      using free_haper_block_used [OF ok(1)] xs(2) by auto
    have k': "karena h m' (coalesce xs s ys)"
      using m'(2) settled_coalesce [OF ok(2)] by (auto simp: karena_def coalesce_def)
    have "karena_live h m' = {x \<in> karena_live h m. fst x \<noteq> p}"
      using live_remove [OF xs(1), of "start_addr h"] rm xs(2)
      by (simp add: karena_live_eq [OF k'] karena_live_eq [OF k])
    then show ?thesis using m' k' by auto
  qed
qed

section \<open>The allocator interface\<close>

text \<open>
  What a client of an allocator may rely on. \<open>live s\<close> is the set of payloads (address and
  size) the allocator has given out and not yet taken back.
\<close>

locale allocator =
  fixes alloc :: "'s \<Rightarrow> nat \<Rightarrow> (nat \<times> 's) option"
    and release :: "'s \<Rightarrow> nat \<Rightarrow> 's option"
    and live :: "'s \<Rightarrow> (nat \<times> nat) set"
    and inv :: "'s \<Rightarrow> bool"
  assumes alloc_total: "inv s \<Longrightarrow> n < 4294967296 \<Longrightarrow> \<exists>p s'. alloc s n = Some (p, s') \<and> inv s' \<and>
      (if p = 0 then live s' = live s
       else \<exists>k \<ge> n. (\<forall>l. (p, l) \<notin> live s) \<and> live s' = insert (p, k) (live s))"
    and release_total: "inv s \<Longrightarrow> \<exists>s'. release s p = Some s' \<and> inv s' \<and> live s' = {x \<in> live s. fst x \<noteq> p}"
    and live_apart: "inv s \<Longrightarrow> (p, k) \<in> live s \<Longrightarrow> (q, l) \<in> live s \<Longrightarrow>
      (p, k) = (q, l) \<or> p + k \<le> q \<or> q + l \<le> p"
    and live_size: "inv s \<Longrightarrow> (p, k) \<in> live s \<Longrightarrow> 0 < k"

text \<open>A client's session: requests in any order, sane or not.\<close>

datatype request = Get nat | Put nat

fun run_requests ::
    "('s \<Rightarrow> nat \<Rightarrow> (nat \<times> 's) option) \<Rightarrow> ('s \<Rightarrow> nat \<Rightarrow> 's option) \<Rightarrow> request list \<Rightarrow> 's \<Rightarrow> 's option" where
  "run_requests alloc release [] s = Some s"
| "run_requests alloc release (Get n # rs) s = do { (p, s) \<leftarrow> alloc s n; run_requests alloc release rs s }"
| "run_requests alloc release (Put p # rs) s = do { s \<leftarrow> release s p; run_requests alloc release rs s }"

definition size_ok :: "request \<Rightarrow> bool" where
  "size_ok r \<longleftrightarrow> (case r of Get n \<Rightarrow> n < 4294967296 | Put p \<Rightarrow> True)"

context allocator
begin

lemma alloc_cases:
  assumes "inv s" "n < 4294967296"
  obtains (refused) s' where "alloc s n = Some (0, s')" "inv s'" "live s' = live s"
    | (granted) p k s' where "alloc s n = Some (p, s')" "p \<noteq> 0" "inv s'" "n \<le> k" "\<forall>l. (p, l) \<notin> live s" "live s' = insert (p, k) (live s)"
proof -
  obtain p s' where r: "alloc s n = Some (p, s')" "inv s'"
    "if p = 0 then live s' = live s else \<exists>k \<ge> n. (\<forall>l. (p, l) \<notin> live s) \<and> live s' = insert (p, k) (live s)"
    using alloc_total [OF assms] by blast
  show thesis
  proof (cases "p = 0")
    case True
    then show thesis using refused r by simp
  next
    case False
    then show thesis using granted r by auto
  qed
qed

lemma release_newest:
  assumes "inv s" "live s = insert (p, k) L" "\<forall>l. (p, l) \<notin> L"
  obtains s' where "release s p = Some s'" "inv s'" "live s' = L"
proof -
  obtain s' where "release s p = Some s'" "inv s'" "live s' = {x \<in> live s. fst x \<noteq> p}" using release_total [OF assms(1)] by blast
  moreover have "{x \<in> live s. fst x \<noteq> p} = L" using assms(2,3) by auto
  ultimately show thesis using that by simp
qed

lemma run_total: "inv s \<Longrightarrow> \<forall>r \<in> set rs. size_ok r \<Longrightarrow> \<exists>s'. run_requests alloc release rs s = Some s' \<and> inv s'"
proof (induction rs arbitrary: s)
  case (Cons r rs)
  show ?case
  proof (cases r)
    case (Get n)
    then obtain p s' where "alloc s n = Some (p, s')" "inv s'"
      using alloc_total [of s n] Cons.prems by (auto simp: size_ok_def)
    then show ?thesis using Cons Get by simp
  next
    case (Put p)
    obtain s' where "release s p = Some s'" "inv s'" using release_total Cons.prems(1) by blast
    then show ?thesis using Cons Put by simp
  qed
qed simp

lemma live_unique: "inv s \<Longrightarrow> (p, k) \<in> live s \<Longrightarrow> (p, l) \<in> live s \<Longrightarrow> k = l"
  using live_apart [of s p k p l] live_size [of s p k] live_size [of s p l] by auto

lemma alloc_release:
  assumes "inv s" "n < 4294967296" "alloc s n = Some (p, s1)" "p \<noteq> 0"
  shows "\<exists>s2. release s1 p = Some s2 \<and> inv s2 \<and> live s2 = live s"
proof -
  obtain k where s1: "inv s1" "\<forall>l. (p, l) \<notin> live s" "live s1 = insert (p, k) (live s)"
    using alloc_total [OF assms(1,2)] assms(3,4) by auto
  then have "{x \<in> live s1. fst x \<noteq> p} = live s" by force
  then show ?thesis using release_total [OF s1(1), of p] by auto
qed

end

section \<open>The kernel heap as an allocator\<close>

definition apart :: "haper2 \<Rightarrow> haper2 \<Rightarrow> bool" where
  "apart h h' \<longleftrightarrow> start_addr h + memory_size h \<le> start_addr h' \<or> start_addr h' + memory_size h' \<le> start_addr h"

definition arenas_ok :: "haper2 list \<Rightarrow> hmem \<Rightarrow> bool" where
  "arenas_ok hs m \<longleftrightarrow> (\<forall>h \<in> set hs. \<exists>bs. karena h m bs) \<and> sorted_wrt apart hs"

definition arenas_live :: "haper2 list \<Rightarrow> hmem \<Rightarrow> (nat \<times> nat) set" where
  "arenas_live hs m = (\<Union>h \<in> set hs. karena_live h m)"

definition kheap_ok :: "kheap \<Rightarrow> bool" where "kheap_ok k \<longleftrightarrow> arenas_ok (hapers k) (hstore k)"
definition kheap_live :: "kheap \<Rightarrow> (nat \<times> nat) set" where "kheap_live k = arenas_live (hapers k) (hstore k)"

lemma arenas_ok_Cons:
  "arenas_ok (h # hs) m \<longleftrightarrow> (\<exists>bs. karena h m bs) \<and> (\<forall>h' \<in> set hs. apart h h') \<and> arenas_ok hs m"
  by (auto simp: arenas_ok_def)

lemma arenas_live_simps [simp]:
  "arenas_live [] m = {}" "arenas_live (h # hs) m = karena_live h m \<union> arenas_live hs m"
  by (auto simp: arenas_live_def)

lemma apart_frame:
  assumes "outside (start_addr h) (start_addr h + memory_size h) m m'" "apart h h'"
  shows "karena h' m' bs = karena h' m bs" "karena_live h' m' = karena_live h' m"
proof -
  show k: "karena h' m' bs = karena h' m bs" for bs
    using karena_outside [OF assms(1), of h' bs] assms(2) by (auto simp: apart_def)
  then show "karena_live h' m' = karena_live h' m" by (simp add: karena_live_def)
qed

lemma apart_sym: "apart h h' \<Longrightarrow> apart h' h" by (auto simp: apart_def)

lemma tail_frame:
  assumes "outside (start_addr h) (start_addr h + memory_size h) m m'" "\<forall>h' \<in> set hs. apart h h'"
  shows "arenas_ok hs m' = arenas_ok hs m" "arenas_live hs m' = arenas_live hs m"
  using assms apart_frame by (simp_all add: arenas_ok_def arenas_live_def)

lemma live_not_in_other:
  assumes "karena h m bs" "karena h' m' cs" "apart h h'" "(p, k) \<in> karena_live h m"
  shows "(p, l) \<notin> karena_live h' m'"
  using karena_live_range [OF assms(1,4)] karena_live_range [OF assms(2), of p l] assms(3)
  by (auto simp: apart_def)

text \<open>Arenas whose regions an operation on the others may touch.\<close>

definition frame :: "haper2 list \<Rightarrow> hmem \<Rightarrow> hmem \<Rightarrow> bool" where
  "frame hs m m' \<longleftrightarrow> (\<forall>x. m' x \<noteq> m x \<longrightarrow> (\<exists>h \<in> set hs. start_addr h \<le> x \<and> x < start_addr h + memory_size h))"

lemma outside_frame:
  assumes "outside (start_addr h) (start_addr h + memory_size h) m m'" "h \<in> set hs"
  shows "frame hs m m'"
  unfolding frame_def
proof (intro allI impI)
  fix x assume "m' x \<noteq> m x"
  then have "start_addr h \<le> x \<and> x < start_addr h + memory_size h"
    using assms(1) unfolding outside_def by (metis not_le)
  then show "\<exists>h \<in> set hs. start_addr h \<le> x \<and> x < start_addr h + memory_size h" using assms(2) by blast
qed

lemma haper_ok_cong:
  assumes ok: "haper_ok h m bs"
    and eq: "\<And>x. start_addr h \<le> x \<Longrightarrow> x < start_addr h + memory_size h \<Longrightarrow> m' x = m x"
  shows "haper_ok h m' bs"
proof -
  have sp: "memory_size h = span bs" and ch: "chain m (start_addr h + span bs) 0 (start_addr h) bs"
    using ok by (auto simp: haper_ok_def arena_def)
  have "chain m' (start_addr h + span bs) 0 (start_addr h) bs"
    using ch by (rule chain_frame) (simp add: eq sp)
  then show ?thesis using ok by (simp add: haper_ok_def arena_def)
qed

lemma frame_apart:
  assumes "frame hs m m'" "\<forall>h' \<in> set hs. apart h h'"
  shows "karena h m' bs = karena h m bs" "karena_live h m' = karena_live h m"
proof -
  have eq: "m' x = m x" if "start_addr h \<le> x" "x < start_addr h + memory_size h" for x
  proof (rule ccontr)
    assume "m' x \<noteq> m x"
    then obtain h' where "h' \<in> set hs" "start_addr h' \<le> x" "x < start_addr h' + memory_size h'"
      using assms(1) unfolding frame_def by blast
    then show False using assms(2) that unfolding apart_def by fastforce
  qed
  show k: "karena h m' bs = karena h m bs" for bs
    using haper_ok_cong [of h m bs m'] haper_ok_cong [of h m' bs m] eq unfolding karena_def by metis
  then show "karena_live h m' = karena_live h m" by (simp add: karena_live_def)
qed

lemma frame_refl [simp]: "frame hs m m" by (simp add: frame_def)

lemma frame_Cons: "frame hs m m' \<Longrightarrow> frame (h # hs) m m'" by (auto simp: frame_def)

lemma frame_trans: "frame hs m m1 \<Longrightarrow> frame hs m1 m2 \<Longrightarrow> frame hs m m2"
  unfolding frame_def by metis

text \<open>The post-state of an allocation that may use any arena of \<open>hs\<close>.\<close>

definition list_alloc_ok :: "haper2 list \<Rightarrow> hmem \<Rightarrow> nat \<Rightarrow> nat \<Rightarrow> hmem \<Rightarrow> bool" where
  "list_alloc_ok hs m n r m' \<longleftrightarrow> arenas_ok hs m' \<and> frame hs m m' \<and>
     (if r = 0 then m' = m
      else \<exists>k \<ge> n. (\<forall>l. (r, l) \<notin> arenas_live hs m) \<and> arenas_live hs m' = insert (r, k) (arenas_live hs m))"

lemma list_alloc_head:
  assumes ok: "arenas_ok (h # hs) m" and a: "alloc_ok h m n r m'" and r: "r \<noteq> 0"
  shows "list_alloc_ok (h # hs) m n r m'"
proof -
  obtain bs where bs: "karena h m' bs" and out: "outside (start_addr h) (start_addr h + memory_size h) m m'"
    using a by (auto simp: alloc_ok_def)
  obtain k where k: "n \<le> k" "\<forall>l. (r, l) \<notin> karena_live h m" "karena_live h m' = insert (r, k) (karena_live h m)"
    using a r by (auto simp: alloc_ok_def)
  have ap: "\<forall>h' \<in> set hs. apart h h'" and okt: "arenas_ok hs m" using ok by (auto simp: arenas_ok_Cons)
  have "(r, l) \<notin> arenas_live hs m" for l
    using live_not_in_other [OF bs _ _, of _ m _ r k l] k(3) ap okt
    by (auto simp: arenas_live_def arenas_ok_def)
  then show ?thesis using bs out k r ap okt tail_frame [OF out ap] outside_frame [OF out, of "h # hs"]
    by (auto simp: list_alloc_ok_def arenas_ok_Cons)
qed

lemma list_alloc_tail:
  assumes ok: "arenas_ok (h # hs) m" and t: "list_alloc_ok hs m n r m'"
  shows "list_alloc_ok (h # hs) m n r m'"
proof (cases "r = 0")
  case True
  then show ?thesis using ok t by (auto simp: list_alloc_ok_def)
next
  case False
  obtain bs where bs: "karena h m bs" and ap: "\<forall>h' \<in> set hs. apart h h'" using ok by (auto simp: arenas_ok_Cons)
  obtain k where k: "n \<le> k" "\<forall>l. (r, l) \<notin> arenas_live hs m" "arenas_live hs m' = insert (r, k) (arenas_live hs m)"
    and fr: "frame hs m m'" and ok': "arenas_ok hs m'"
    using t False by (auto simp: list_alloc_ok_def)
  have "(r, k) \<in> arenas_live hs m'" using k by simp
  then obtain h' cs where h': "h' \<in> set hs" "karena h' m' cs" "(r, k) \<in> karena_live h' m'"
    using ok' by (auto simp: arenas_live_def arenas_ok_def)
  then have "(r, l) \<notin> karena_live h m" for l
    using live_not_in_other [OF h'(2) bs _ h'(3)] ap apart_sym by blast
  then show ?thesis using bs k ok' ap False frame_apart [OF fr ap] frame_Cons [OF fr]
    by (auto simp: list_alloc_ok_def arenas_ok_Cons)
qed

lemma alloc_loop_total:
  assumes "arenas_ok hs m"
    and "\<And>h m bs. karena h m bs \<Longrightarrow> \<exists>r m'. al h m n = Some (r, h, m') \<and> alloc_ok h m n r m'"
  shows "\<exists>r m'. alloc_loop al hs m n = Some (r, hs, m') \<and> list_alloc_ok hs m n r m'"
  using assms(1)
proof (induction hs)
  case Nil
  then show ?case by (simp add: list_alloc_ok_def)
next
  case (Cons h hs)
  obtain r m' where r: "al h m n = Some (r, h, m')" "alloc_ok h m n r m'"
    using Cons.prems assms(2) unfolding arenas_ok_Cons by blast
  show ?case
  proof (cases "r = 0")
    case True
    then have "m' = m" using r(2) by (simp add: alloc_ok_def)
    moreover obtain r2 m2 where "alloc_loop al hs m n = Some (r2, hs, m2)" "list_alloc_ok hs m n r2 m2"
      using Cons by (auto simp: arenas_ok_Cons)
    ultimately show ?thesis using r True list_alloc_tail [OF Cons.prems] by auto
  next
    case False
    then show ?thesis using r list_alloc_head [OF Cons.prems r(2)] by auto
  qed
qed

lemma task_malloc_loop_total:
  assumes "arenas_ok hs m"
  shows "\<exists>r m'. task_malloc_loop cfg hs m n = Some (r, hs, m') \<and> list_alloc_ok hs m n r m'"
  using assms
proof (induction cfg hs m n rule: task_malloc_loop.induct)
  case (1 cfg m n)
  then show ?case by (simp add: list_alloc_ok_def)
next
  case (2 h hs m n)
  obtain r m' where r: "first_fit_alloc h m n = Some (r, h, m')" "alloc_ok h m n r m'"
    using 2 arena_first_fit unfolding arenas_ok_Cons by blast
  show ?case
  proof (cases "r = 0")
    case True
    then show ?thesis using r 2 by (auto simp: alloc_ok_def list_alloc_ok_def)
  next
    case False
    then show ?thesis using r list_alloc_head [OF 2 r(2)] by auto
  qed
next
  case (3 c cfg h hs m n)
  obtain r m' where r: "first_fit_alloc h m n = Some (r, h, m')" "alloc_ok h m n r m'"
    using "3.prems" arena_first_fit unfolding arenas_ok_Cons by blast
  have ok: "arenas_ok hs m" using "3.prems" by (simp add: arenas_ok_Cons)
  show ?case
  proof (cases "c \<and> r \<noteq> 0")
    case True
    then show ?thesis using r list_alloc_head [OF "3.prems" r(2)] by auto
  next
    case False
    obtain r2 m2 where t: "task_malloc_loop cfg hs m n = Some (r2, hs, m2)" "list_alloc_ok hs m n r2 m2"
    proof (cases c)
      case True
      then have "r = 0" "m' = m" using False r(2) by (auto simp: alloc_ok_def)
      then show ?thesis using "3.IH"(1) [OF True r(1)] ok that by auto
    qed (use "3.IH"(2) ok that in auto)
    show ?thesis
    proof (cases c)
      case True
      then have "r = 0" "m' = m" using False r(2) by (auto simp: alloc_ok_def)
      then show ?thesis using True r t list_alloc_tail [OF "3.prems" t(2)] by auto
    qed (use t list_alloc_tail [OF "3.prems" t(2)] in auto)
  qed
qed

lemma sfree_loop_total:
  assumes "arenas_ok hs m"
  shows "\<exists>m'. sfree_loop hs m p = Some (hs, m') \<and> arenas_ok hs m' \<and> frame hs m m' \<and>
     arenas_live hs m' = {x \<in> arenas_live hs m. fst x \<noteq> p}"
  using assms
proof (induction hs arbitrary: m)
  case (Cons h hs)
  obtain bs where bs: "karena h m bs" and ap: "\<forall>h' \<in> set hs. apart h h'" and ok: "arenas_ok hs m"
    using Cons.prems by (auto simp: arenas_ok_Cons)
  obtain r m1 bs1 where m1: "free_haper_block h m p = Some (r, h, m1)" "r \<le> 0" "karena h m1 bs1"
      "outside (start_addr h) (start_addr h + memory_size h) m m1"
      "karena_live h m1 = {x \<in> karena_live h m. fst x \<noteq> p}"
    using arena_free [OF bs] by metis
  have ok1: "arenas_ok hs m1" "arenas_live hs m1 = arenas_live hs m"
    using tail_frame [OF m1(4) ap] ok by auto
  obtain m2 where m2: "sfree_loop hs m1 p = Some (hs, m2)" "arenas_ok hs m2" "frame hs m1 m2"
      "arenas_live hs m2 = {x \<in> arenas_live hs m1. fst x \<noteq> p}"
    using Cons.IH [OF ok1(1)] by auto
  have "frame (h # hs) m m2"
    using outside_frame [OF m1(4), of "h # hs"] frame_Cons [OF m2(3)] frame_trans by auto
  then show ?case
    using m1 m2 ap ok1 frame_apart [OF m2(3) ap] by (auto simp: arenas_ok_Cons)
qed (simp add: arenas_ok_def frame_def)

lemma round_up: "n < 4294967296 \<Longrightarrow> 0 < d \<Longrightarrow> d dvd 4294967296 \<Longrightarrow>
   sz (n + (d - 1)) div d * d = 0 \<or> n \<le> sz (n + (d - 1)) div d * d"
proof -
  assume n: "n < 4294967296" and d: "0 < d" "d dvd 4294967296"
  show ?thesis
  proof (cases "n + (d - 1) < 4294967296")
    case True
    have "n + (d - 1) - (n + (d - 1)) mod d = (n + (d - 1)) div d * d"
      by (simp add: minus_mod_eq_div_mult)
    moreover have "(n + (d - 1)) mod d \<le> d - 1"
      using d by (simp add: Suc_leI less_Suc_eq_le [symmetric])
    ultimately have "n \<le> (n + (d - 1)) div d * d" by linarith
    then show ?thesis using True by simp
  next
    case False
    have le: "d \<le> 4294967296" using d(2) by (simp add: dvd_imp_le)
    then have "sz (n + (d - 1)) = n + (d - 1) - 4294967296"
      using False n by (simp add: le_mod_geq)
    then have "sz (n + (d - 1)) < d" using n d le by simp
    then have "sz (n + (d - 1)) div d * d = 0" by (simp only: div_less mult_0)
    then show ?thesis ..
  qed
qed

lemma list_alloc_kheap:
  assumes "list_alloc_ok (hapers k) (hstore k) n r m'" "n' = 0 \<and> r = 0 \<or> n' \<le> n"
  shows "kheap_ok (k\<lparr>hapers := hapers k, hstore := m'\<rparr>) \<and>
    (if r = 0 then kheap_live (k\<lparr>hapers := hapers k, hstore := m'\<rparr>) = kheap_live k
     else \<exists>j \<ge> n'. (\<forall>l. (r, l) \<notin> kheap_live k) \<and>
       kheap_live (k\<lparr>hapers := hapers k, hstore := m'\<rparr>) = insert (r, j) (kheap_live k))"
  using assms by (auto simp: kheap_ok_def kheap_live_def list_alloc_ok_def split: if_splits intro: le_trans)

lemma zero_alloc: "best_fit_alloc h m 0 = Some (0, h, m)" "first_fit_alloc h m 0 = Some (0, h, m)"
  by (simp_all add: best_fit_alloc_def first_fit_alloc_def)

lemma alloc_loop_zero: "alloc_loop best_fit_alloc hs m 0 = Some (0, hs, m)"
  by (induction hs) (simp_all add: zero_alloc)

lemma task_malloc_loop_zero: "task_malloc_loop cfg hs m 0 = Some (0, hs, m)"
  by (induction cfg hs m "0::nat" rule: task_malloc_loop.induct) (simp_all add: zero_alloc)

definition alloc_result :: "kheap \<Rightarrow> nat \<Rightarrow> nat \<Rightarrow> kheap \<Rightarrow> bool" where
  "alloc_result k n p k' \<longleftrightarrow> kheap_ok k' \<and>
     (if p = 0 then kheap_live k' = kheap_live k
      else \<exists>j \<ge> n. (\<forall>l. (p, l) \<notin> kheap_live k) \<and> kheap_live k' = insert (p, j) (kheap_live k))"

lemma smalloc_total:
  assumes ok: "kheap_ok k" and n: "n < 4294967296"
  shows "\<exists>p k'. smalloc k n = Some (p, k') \<and> alloc_result k n p k'"
proof -
  let ?u = "sz (n + 7) div 8 * 8"
  obtain r m' where r: "alloc_loop best_fit_alloc (hapers k) (hstore k) ?u = Some (r, hapers k, m')"
      "list_alloc_ok (hapers k) (hstore k) ?u r m'"
    using alloc_loop_total [of "hapers k" "hstore k" best_fit_alloc ?u] arena_best_fit ok
    unfolding kheap_ok_def by blast
  have u: "?u = 0 \<or> n \<le> ?u" using round_up [OF n, of 8] by simp
  show ?thesis
  proof (cases "n = 0 \<or> ?u = 0")
    case True
    then have "smalloc k n = Some (0, k)"
      by (cases "n = 0") (simp_all add: smalloc_def Let_def alloc_loop_zero)
    then show ?thesis using ok by (simp add: alloc_result_def)
  next
    case False
    then have "n \<le> ?u" using u by metis
    then show ?thesis using r False list_alloc_kheap [OF r(2), of n]
      by (auto simp: smalloc_def Let_def alloc_result_def)
  qed
qed

lemma task_malloc_total:
  assumes ok: "kheap_ok k" and n: "n < 4294967296"
  shows "\<exists>p k'. task_malloc cfg k n = Some (p, k') \<and> alloc_result k n p k'"
proof -
  let ?u = "sz (n + 3) div 4 * 4"
  obtain r m' where r: "task_malloc_loop cfg (hapers k) (hstore k) ?u = Some (r, hapers k, m')"
      "list_alloc_ok (hapers k) (hstore k) ?u r m'"
    using task_malloc_loop_total [of "hapers k" "hstore k" cfg ?u] ok
    unfolding kheap_ok_def by blast
  have u: "?u = 0 \<or> n \<le> ?u" using round_up [OF n, of 4] by simp
  show ?thesis
  proof (cases "n = 0 \<or> ?u = 0")
    case True
    then have "task_malloc cfg k n = Some (0, k)"
      by (cases "n = 0") (simp_all add: task_malloc_def Let_def task_malloc_loop_zero)
    then show ?thesis using ok by (simp add: alloc_result_def)
  next
    case False
    then have "n \<le> ?u" using u by metis
    then show ?thesis using r False list_alloc_kheap [OF r(2), of n]
      by (auto simp: task_malloc_def Let_def alloc_result_def)
  qed
qed

lemma smalloc_gfp_total:
  "kheap_ok k \<Longrightarrow> n < 4294967296 \<Longrightarrow> \<exists>p k'. smalloc_gfp cfg k n flags = Some (p, k') \<and> alloc_result k n p k'"
  using smalloc_total task_malloc_total by (simp add: smalloc_gfp_def)

lemma sfree_total:
  assumes "kheap_ok k"
  shows "\<exists>k'. sfree k p = Some k' \<and> kheap_ok k' \<and> kheap_live k' = {x \<in> kheap_live k. fst x \<noteq> p}"
proof -
  obtain m' where "sfree_loop (hapers k) (hstore k) p = Some (hapers k, m')" "arenas_ok (hapers k) m'"
      "arenas_live (hapers k) m' = {x \<in> arenas_live (hapers k) (hstore k). fst x \<noteq> p}"
    using sfree_loop_total [of "hapers k" "hstore k" p] assms unfolding kheap_ok_def by blast
  then show ?thesis by (auto simp: sfree_def kheap_ok_def kheap_live_def)
qed

lemma arenas_live_apart:
  assumes "arenas_ok hs m" "(p, k) \<in> arenas_live hs m" "(q, l) \<in> arenas_live hs m"
  shows "(p, k) = (q, l) \<or> p + k \<le> q \<or> q + l \<le> p"
  using assms
proof (induction hs)
  case (Cons h hs)
  obtain bs where bs: "karena h m bs" and ap: "\<forall>h' \<in> set hs. apart h h'" and ok: "arenas_ok hs m"
    using Cons.prems(1) by (auto simp: arenas_ok_Cons)
  have same: "(p, k) = (q, l) \<or> p + k \<le> q \<or> q + l \<le> p"
    if "(p, k) \<in> karena_live h m" "(q, l) \<in> karena_live h m"
    using that live_disjoint [of p k "start_addr h" bs q l] by (simp add: karena_live_eq [OF bs])
  have diff: "x + y \<le> z \<or> z + w \<le> x"
    if xy: "(x, y) \<in> karena_live h m" and zw: "(z, w) \<in> arenas_live hs m" for x y z w
  proof -
    obtain h' cs where "h' \<in> set hs" "karena h' m cs" "(z, w) \<in> karena_live h' m"
      using zw ok by (auto simp: arenas_live_def arenas_ok_def)
    then show ?thesis
      using karena_live_range [OF bs xy] karena_live_range [of h' m cs z w] ap
      by (fastforce simp: apart_def)
  qed
  show ?case using Cons.prems(2,3) same diff [of p k q l] diff [of q l p k] Cons.IH [OF ok] by auto
qed simp

interpretation kernel_heap: allocator smalloc sfree kheap_live kheap_ok
proof unfold_locales
  fix s and n :: nat assume "kheap_ok s" "n < 4294967296"
  from smalloc_total [OF this] show "\<exists>p s'. smalloc s n = Some (p, s') \<and> kheap_ok s' \<and>
      (if p = 0 then kheap_live s' = kheap_live s
       else \<exists>k \<ge> n. (\<forall>l. (p, l) \<notin> kheap_live s) \<and> kheap_live s' = insert (p, k) (kheap_live s))"
    unfolding alloc_result_def by blast
next
  fix s p assume "kheap_ok s"
  then show "\<exists>s'. sfree s p = Some s' \<and> kheap_ok s' \<and> kheap_live s' = {x \<in> kheap_live s. fst x \<noteq> p}"
    by (rule sfree_total)
next
  fix s p k q l assume "kheap_ok s" "(p, k) \<in> kheap_live s" "(q, l) \<in> kheap_live s"
  then show "(p, k) = (q, l) \<or> p + k \<le> q \<or> q + l \<le> p"
    unfolding kheap_ok_def kheap_live_def by (rule arenas_live_apart)
next
  fix s p k assume "kheap_ok s" "(p, k) \<in> kheap_live s"
  then obtain h bs where "karena h (hstore s) bs" "(p, k) \<in> karena_live h (hstore s)"
    by (auto simp: kheap_ok_def kheap_live_def arenas_live_def arenas_ok_def)
  then show "0 < k" using karena_live_range by blast
qed

text \<open>A task pool's view of the same heap: first fit from the arenas enabled for tasks.\<close>

interpretation task_heap: allocator "task_malloc cfg" sfree kheap_live kheap_ok for cfg
proof unfold_locales
  fix s and n :: nat assume "kheap_ok s" "n < 4294967296"
  from task_malloc_total [OF this] show "\<exists>p s'. task_malloc cfg s n = Some (p, s') \<and> kheap_ok s' \<and>
      (if p = 0 then kheap_live s' = kheap_live s
       else \<exists>k \<ge> n. (\<forall>l. (p, l) \<notin> kheap_live s) \<and> kheap_live s' = insert (p, k) (kheap_live s))"
    unfolding alloc_result_def by blast
qed (fact kernel_heap.release_total kernel_heap.live_apart kernel_heap.live_size)+

lemma completeness_total: "arenas_ok hs m \<Longrightarrow> completeness_loop hs m = Some 0"
proof (induction hs)
  case (Cons h hs)
  obtain bs where bs: "karena h m bs" using Cons.prems by (auto simp: arenas_ok_Cons)
  have "check_blocks_completeness h m = Some 0"
    using bs check_blocks_correct [of h m bs]
    by (cases "bs = []") (auto simp: karena_def check_blocks_completeness_def memory_block_laterator_def)
  then show ?case using Cons by (simp add: arenas_ok_Cons)
qed simp

lemma init_karena:
  assumes "0 < a" "a + n < 4294967296" "HDR \<le> n" "haper2_init h m a n md = Some (r, h', m')"
  shows "karena h' m' [(n - HDR, False)] \<and> start_addr h' = a \<and> memory_size h' = n \<and> outside a (a + n) m m'"
  using haper2_init_correct [OF assms(3,1,2), of h m md] assms(4) by (auto simp: karena_def)

lemma karena_free_space:
  assumes bs: "karena h m bs"
  shows "get_free_space h m = Some (sum_list (map fst (filter (\<lambda>b. \<not> snd b) bs)))"
proof (cases "bs = []")
  case True
  then show ?thesis using bs by (simp add: karena_def get_free_space_def memory_block_laterator_def)
next
  case False
  then show ?thesis using bs get_free_space_correct by (simp add: karena_def)
qed

lemma heap_size_total: "arenas_ok hs m \<Longrightarrow> \<exists>n. heap_size_loop hs m acc = Some n"
proof (induction hs arbitrary: acc)
  case (Cons h hs)
  then obtain bs where "karena h m bs" by (auto simp: arenas_ok_Cons)
  then show ?case using Cons karena_free_space by (fastforce simp: arenas_ok_Cons)
qed simp

lemma global_heap_size_total: "kheap_ok k \<Longrightarrow> \<exists>n. get_global_heap_size k = Some n"
  using heap_size_total by (simp add: kheap_ok_def get_global_heap_size_def)

section \<open>Properties\<close>

definition zero_haper :: haper2 where
  "zero_haper = \<lparr>mode = 0, space = 0, lock = False, memory_size = 0, start_addr = 0\<rparr>"

text \<open>The kernel's static data before boot: seven zeroed arenas over a memory with any contents.\<close>

definition bss_kheap :: "hmem \<Rightarrow> kheap" where
  "bss_kheap m = \<lparr>hapers = replicate 7 zero_haper, hstore = m\<rparr>"

lemma karena_zero: "karena zero_haper m []"
  by (simp add: karena_def zero_haper_def)

lemma live_zero: "karena_live zero_haper m = {}"
  using karena_live_eq [OF karena_zero] by simp

lemma boot_state:
  assumes "HDR \<le> n" "0 < a" "a + n < 4294967296"
  shows "\<exists>h m'. sys_heap_init (bss_kheap m) a n = Some \<lparr>hapers = replicate 6 zero_haper @ [h], hstore = m'\<rparr> \<and>
     haper_ok h m' [(n - HDR, False)]"
proof -
  obtain h m' where "haper2_init zero_haper m a n 0 = Some (0, h, m')" "haper_ok h m' [(n - HDR, False)]"
    using haper2_init_correct [OF assms, of zero_haper m 0] by blast
  then show ?thesis by (simp add: sys_heap_init_def bss_kheap_def numeral_eq_Suc)
qed

lemma boot_ok:
  assumes "haper_ok h m [(n, False)]"
  shows "kheap_ok \<lparr>hapers = replicate 6 zero_haper @ [h], hstore = m\<rparr>"
    "kheap_live \<lparr>hapers = replicate 6 zero_haper @ [h], hstore = m\<rparr> = {}"
proof -
  have k: "karena h m [(n, False)]" using assms by (simp add: karena_def)
  have ap: "apart zero_haper zero_haper" "apart zero_haper h" by (simp_all add: apart_def zero_haper_def)
  have kx: "\<exists>bs. karena h m bs" "\<exists>bs. karena zero_haper m bs" using k karena_zero by blast+
  have "\<exists>bs. karena g m bs" if "g \<in> set (replicate 6 zero_haper @ [h])" for g
  proof -
    have "g = zero_haper \<or> g = h" using that by auto
    then show ?thesis using kx by metis
  qed
  moreover have "sorted_wrt apart (replicate 6 zero_haper @ [h])"
    using ap by (simp add: numeral_eq_Suc)
  ultimately show "kheap_ok \<lparr>hapers = replicate 6 zero_haper @ [h], hstore = m\<rparr>"
    unfolding kheap_ok_def arenas_ok_def kheap.simps by blast
  show "kheap_live \<lparr>hapers = replicate 6 zero_haper @ [h], hstore = m\<rparr> = {}"
    using live_zero karena_live_eq [OF k] by (simp add: kheap_live_def numeral_eq_Suc)
qed

lemma free_space_zero: "get_free_space zero_haper m = Some 0"
  by (simp add: get_free_space_def memory_block_laterator_def zero_haper_def)

text \<open>C10: From the zeroed static data, \<open>sys_heap_init\<close> on any region of at least one header that fits the
  address space succeeds, establishes the heap invariant with nothing allocated, and makes the
  whole region less one header available.\<close>

theorem kernel_heap_boot:
  assumes "HDR \<le> n" "0 < a" "a + n < 4294967296"
  shows "\<exists>k. sys_heap_init (bss_kheap m) a n = Some k \<and> kheap_ok k \<and> kheap_live k = {} \<and>
     get_global_heap_size k = Some (n - HDR)"
proof -
  obtain h m' where k: "sys_heap_init (bss_kheap m) a n = Some \<lparr>hapers = replicate 6 zero_haper @ [h], hstore = m'\<rparr>"
      and ok: "haper_ok h m' [(n - HDR, False)]"
    using boot_state [OF assms] by blast
  have rep: "replicate 6 zero_haper = [zero_haper, zero_haper, zero_haper, zero_haper, zero_haper, zero_haper]"
    by (simp add: numeral_eq_Suc)
  have "get_free_space h m' = Some (n - HDR)" using get_free_space_correct [OF ok] by simp
  then have "get_global_heap_size \<lparr>hapers = replicate 6 zero_haper @ [h], hstore = m'\<rparr> = Some (n - HDR)"
    using assms by (simp add: get_global_heap_size_def rep free_space_zero)
  then show ?thesis using k boot_ok [OF ok] by blast
qed

lemma kernel_heap_boot_witness:
  "\<exists>k. sys_heap_init (bss_kheap (\<lambda>_. zero_block)) 536936448 460800 = Some k \<and> kheap_ok k \<and> kheap_live k = {} \<and>
     get_global_heap_size k = Some 460780"
  using kernel_heap_boot [of 460800 536936448 "\<lambda>_. zero_block"] by simp

text \<open>C1: Whatever a client asks for, in any order, double frees and frees of addresses never handed out
  included, \<open>kmalloc\<close> and \<open>kfree\<close> return, never dereference NULL, leave no arena locked, and in the
  state reached any two payloads still allocated are disjoint and non-empty.\<close>

theorem kernel_heap_session:
  assumes "kheap_ok k" and "\<forall>r \<in> set rs. size_ok r"
  shows "\<exists>k'. run_requests smalloc sfree rs k = Some k' \<and> kheap_ok k' \<and>
     (\<forall>p i q j. (p, i) \<in> kheap_live k' \<and> (q, j) \<in> kheap_live k' \<longrightarrow>
        0 < i \<and> ((p, i) = (q, j) \<or> p + i \<le> q \<or> q + j \<le> p))"
proof -
  obtain k' where "run_requests smalloc sfree rs k = Some k'" "kheap_ok k'"
    using kernel_heap.run_total [OF assms] by blast
  then show ?thesis using kernel_heap.live_apart kernel_heap.live_size by blast
qed

lemma kernel_heap_session_witness:
  "\<exists>k k'. sys_heap_init (bss_kheap (\<lambda>_. zero_block)) 4096 8192 = Some k \<and>
     run_requests smalloc sfree [Get 100, Get 7, Put 4116, Put 4116, Put 3, Get 4294967295] k = Some k'"
proof -
  obtain h m where k: "sys_heap_init (bss_kheap (\<lambda>_. zero_block)) 4096 8192 =
      Some \<lparr>hapers = replicate 6 zero_haper @ [h], hstore = m\<rparr>" "haper_ok h m [(8192 - HDR, False)]"
    using boot_state [of 8192 4096 "\<lambda>_. zero_block"] by auto
  show ?thesis
    using kernel_heap_session [OF boot_ok(1) [OF k(2)], of "[Get 100, Get 7, Put 4116, Put 4116, Put 3, Get 4294967295]"] k(1)
    by (auto simp: size_ok_def)
qed

text \<open>C8: \<open>best_fit_alloc\<close> refines its specification on the list of blocks: it returns NULL, changing
  nothing, exactly when no free block is large enough; otherwise it takes the last of the smallest
  free blocks that fit, splits off the rest when at least a header and eight bytes remain, returns
  the address after that block's header and writes nothing outside the arena.\<close>

theorem best_fit_alloc_refines:
  assumes "haper_ok h m bs" and "0 < want"
  shows "\<exists>r m'. best_fit_alloc h m want = Some (r, h, m') \<and>
     (if \<forall>b \<in> set bs. \<not> fits want b then r = 0 \<and> m' = m
      else \<exists>xs s ys. bs = xs @ (s, False) # ys \<and> best_split want xs s ys \<and>
        r = start_addr h + span xs + HDR \<and> haper_ok h m' (xs @ carve 8 want s @ ys) \<and>
        outside (start_addr h) (start_addr h + memory_size h) m m')"
proof -
  obtain r m' where r: "best_fit_alloc h m want = Some (r, h, m')" "alloc_post best_split 8 want h m bs r m'"
    using best_fit_alloc_correct [OF assms] by blast
  show ?thesis
  proof (cases "r = 0")
    case True
    then have "m' = m \<and> (\<forall>b \<in> set bs. \<not> fits want b)" using r(2) by (simp add: alloc_post_def)
    then show ?thesis using r(1) True by auto
  next
    case False
    then obtain xs s ys where xs: "bs = xs @ (s, False) # ys" "want \<le> s" "best_split want xs s ys"
        "r = start_addr h + span xs + HDR" "haper_ok h m' (xs @ carve 8 want s @ ys)"
        "outside (start_addr h) (start_addr h + memory_size h) m m'"
      using r(2) by (auto simp: alloc_post_def)
    then have "\<not> (\<forall>b \<in> set bs. \<not> fits want b)" by (auto simp: fits_def)
    then show ?thesis using r(1) xs by auto
  qed
qed

lemma best_fit_alloc_refines_witness:
  "\<exists>h m r m'. haper_ok h m [(8172, False)] \<and> best_fit_alloc h m 100 = Some (r, h, m') \<and> r = start_addr h + HDR"
proof -
  obtain h m where ok: "haper_ok h m [(8192 - HDR, False)]"
    using haper2_init_correct [of 8192 4096 zero_haper "\<lambda>_. zero_block" 0] by auto
  then have ok': "haper_ok h m [(8172, False)]" by simp
  have fit: "\<not> (\<forall>b \<in> set [(8172, False)]. \<not> fits 100 b)" by (simp add: fits_def)
  obtain r m' xs s ys where r: "best_fit_alloc h m 100 = Some (r, h, m')"
      "[(8172, False)] = xs @ (s, False) # ys" "r = start_addr h + span xs + HDR"
    using best_fit_alloc_refines [OF ok', of 100] unfolding if_not_P [OF fit] by (meson zero_less_numeral)
  then have "r = start_addr h + HDR" by (auto simp: Cons_eq_append_conv)
  then show ?thesis using ok' r(1) by blast
qed

text \<open>Releasing a payload merges its block with every free neighbour on either side, whatever the
  layout, returns 0, and writes nothing outside the arena; the merge loop of \<open>free_memory\<close> always ends.\<close>

theorem free_haper_block_merges:
  assumes "haper_ok h m (xs @ (s, True) # ys)"
  shows "\<exists>m'. free_haper_block h m (start_addr h + span xs + HDR) = Some (0, h, m') \<and>
     haper_ok h m' (coalesce xs s ys) \<and> outside (start_addr h) (start_addr h + memory_size h) m m'"
proof -
  have "0 < s" using assms by (auto simp: haper_ok_def arena_def)
  then show ?thesis by (rule free_haper_block_used [OF assms])
qed

lemma used_arena_example:
  "\<exists>h m. haper_ok h m [(8172, True)]"
proof -
  obtain h m where ok: "haper_ok h m ([] @ (8192 - HDR, False) # [])"
    using haper2_init_correct [of 8192 4096 zero_haper "\<lambda>_. zero_block" 0] by auto
  obtain m' where "haper_ok h m' ([] @ carve 8 8172 (8192 - HDR) @ [])"
    using take_block_arena [OF ok, of 8172 8] by auto
  then show ?thesis by (auto simp: carve_def)
qed

lemma free_haper_block_merges_witness:
  "\<exists>h m m'. free_haper_block h m (start_addr h + HDR) = Some (0, h, m') \<and> haper_ok h m' [(8172, False)]"
proof -
  obtain h m where ok: "haper_ok h m ([] @ (8172, True) # [])" using used_arena_example by auto
  from free_haper_block_merges [OF this] show ?thesis by (auto simp: coalesce_def)
qed

text \<open>Allocation followed by release is the identity on a settled arena: the list of blocks, split and
  merged again, is exactly the one before.\<close>

theorem best_fit_free_roundtrip:
  assumes ok: "haper_ok h m bs" and "settled bs" and want: "0 < want"
    and al: "best_fit_alloc h m want = Some (r, h', m1)" and r: "r \<noteq> 0"
  shows "\<exists>m2. free_haper_block h' m1 r = Some (0, h, m2) \<and> haper_ok h m2 bs"
proof -
  have "h' = h" and "alloc_post best_split 8 want h m bs r m1"
    using best_fit_alloc_correct [OF ok want] al by auto
  then obtain xs s ys where xs: "bs = xs @ (s, False) # ys" "want \<le> s"
      "r = start_addr h + span xs + HDR" "haper_ok h m1 (xs @ carve 8 want s @ ys)"
    using r by (auto simp: alloc_post_def)
  have nb: "xs = [] \<or> snd (last xs)" "ys = [] \<or> snd (hd ys)"
    using \<open>settled bs\<close> xs(1) by (auto simp: settled_append settled_Cons)
  show ?thesis
  proof (cases "want + HDR + 8 \<le> s")
    case True
    then have "haper_ok h m1 (xs @ (want, True) # (s - want - HDR, False) # ys)"
      using xs(4) by (simp add: carve_def)
    moreover have "coalesce xs want ((s - want - HDR, False) # ys) = xs @ (s, False) # ys"
      using True nb by (simp add: coalesce_right coalesce_alone)
    ultimately show ?thesis
      using free_haper_block_used [of h m1 xs want True "(s - want - HDR, False) # ys"] want xs \<open>h' = h\<close> by auto
  next
    case False
    then have "haper_ok h m1 (xs @ (s, True) # ys)" using xs(4) by (simp add: carve_def)
    then show ?thesis
      using free_haper_block_used [of h m1 xs s True ys] want xs \<open>h' = h\<close> coalesce_alone [OF nb] by auto
  qed
qed

lemma best_fit_free_roundtrip_witness:
  "\<exists>h m r m1 m2. best_fit_alloc h m 100 = Some (r, h, m1) \<and> r \<noteq> 0 \<and>
     free_haper_block h m1 r = Some (0, h, m2) \<and> haper_ok h m2 [(8172, False)]"
proof -
  obtain h m where ok: "haper_ok h m [(8172, False)]"
    using haper2_init_correct [of 8192 4096 zero_haper "\<lambda>_. zero_block" 0] by auto
  obtain r m1 where al: "best_fit_alloc h m 100 = Some (r, h, m1)" "alloc_post best_split 8 100 h m [(8172, False)] r m1"
    using best_fit_alloc_correct [OF ok, of 100] by auto
  have r: "r \<noteq> 0"
  proof
    assume "r = 0"
    then have "\<not> fits 100 (8172, False)" using al(2) by (simp add: alloc_post_def)
    then show False by (simp add: fits_def)
  qed
  have st: "settled [(8172, False)]" by (simp add: settled_Cons)
  obtain m2 where "free_haper_block h m1 r = Some (0, h, m2)" "haper_ok h m2 [(8172, False)]"
    using best_fit_free_roundtrip [OF ok st _ al(1) r] by auto
  then show ?thesis using al(1) r by blast
qed

text \<open>The audits agree with the invariant: the completeness check reports no damaged header, and in every
  arena free bytes, allocated bytes and headers add up to the size of the region.\<close>

theorem heap_audits:
  assumes "kheap_ok k"
  shows "check_haper_completeness k = Some 0 \<and>
    (\<forall>h \<in> set (hapers k). \<exists>free bs. get_free_space h (hstore k) = Some free \<and> karena h (hstore k) bs \<and>
       free + sum_list (map fst (filter snd bs)) + HDR * length bs = memory_size h)"
proof
  show "check_haper_completeness k = Some 0"
    using assms completeness_total by (simp add: check_haper_completeness_def kheap_ok_def)
  have sum: "sum_list (map fst (filter (\<lambda>b. \<not> snd b) bs)) + sum_list (map fst (filter snd bs)) + HDR * length bs = span bs" for bs
    by (induction bs rule: span.induct) auto
  show "\<forall>h \<in> set (hapers k). \<exists>free bs. get_free_space h (hstore k) = Some free \<and> karena h (hstore k) bs \<and>
       free + sum_list (map fst (filter snd bs)) + HDR * length bs = memory_size h"
  proof
    fix h assume "h \<in> set (hapers k)"
    then obtain bs where bs: "karena h (hstore k) bs" using assms by (auto simp: kheap_ok_def arenas_ok_def)
    have "get_free_space h (hstore k) = Some (sum_list (map fst (filter (\<lambda>b. \<not> snd b) bs)))" by (rule karena_free_space [OF bs])
    then show "\<exists>free bs. get_free_space h (hstore k) = Some free \<and> karena h (hstore k) bs \<and>
       free + sum_list (map fst (filter snd bs)) + HDR * length bs = memory_size h"
      using bs karena_size [OF bs] sum by metis
  qed
qed

lemma heap_audits_witness:
  "\<exists>k. sys_heap_init (bss_kheap (\<lambda>_. zero_block)) 4096 8192 = Some k \<and> check_haper_completeness k = Some 0"
proof -
  obtain h m where k: "sys_heap_init (bss_kheap (\<lambda>_. zero_block)) 4096 8192 =
      Some \<lparr>hapers = replicate 6 zero_haper @ [h], hstore = m\<rparr>" "haper_ok h m [(8192 - HDR, False)]"
    using boot_state [of 8192 4096 "\<lambda>_. zero_block"] by auto
  then show ?thesis using heap_audits [OF boot_ok(1) [OF k(2)]] by auto
qed

end
