(* ===== verification/Bytes.thy ===== *)
theory Bytes
  imports Prelude
begin

text \<open>
  Byte-addressed memory, for the code that works on characters and buffers: a partial map from
  addresses to bytes. A read or write of NULL or of an unmapped address faults (\<open>None\<close>).
  \<open>put\<close> is the specification of a block of stores, \<open>holds\<close> reads a block back,
  \<open>cstr\<close> and \<open>bstr\<close> are the NUL-terminated string and the string in a buffer of bounded size.
\<close>

type_synonym mem = "nat \<Rightarrow> u8 option"

definition peek :: "mem \<Rightarrow> nat \<Rightarrow> u8 option" where
  "peek m a = (if a = 0 then None else m a)"

definition poke :: "mem \<Rightarrow> nat \<Rightarrow> u8 \<Rightarrow> mem option" where
  "poke m a v = (if a = 0 \<or> m a = None then None else Some (m(a \<mapsto> v)))"

fun holds :: "mem \<Rightarrow> nat \<Rightarrow> u8 list \<Rightarrow> bool" where
  "holds m a [] \<longleftrightarrow> True"
| "holds m a (x # xs) \<longleftrightarrow> peek m a = Some x \<and> holds m (Suc a) xs"

fun put :: "mem \<Rightarrow> nat \<Rightarrow> u8 list \<Rightarrow> mem" where
  "put m a [] = m"
| "put m a (x # xs) = put (m(a \<mapsto> x)) (Suc a) xs"

definition mapped :: "mem \<Rightarrow> nat \<Rightarrow> nat \<Rightarrow> bool" where
  "mapped m a n \<longleftrightarrow> (\<forall>i < n. peek m (a + i) \<noteq> None)"

definition cstr :: "mem \<Rightarrow> nat \<Rightarrow> u8 list \<Rightarrow> bool" where
  "cstr m a xs \<longleftrightarrow> 0 \<notin> set xs \<and> holds m a (xs @ [0])"

definition bstr :: "mem \<Rightarrow> nat \<Rightarrow> nat \<Rightarrow> u8 list \<Rightarrow> bool" where
  "bstr m a n xs \<longleftrightarrow> 0 \<notin> set xs \<and> holds m a xs \<and> length xs \<le> n \<and>
     (length xs = n \<or> peek m (a + length xs) = Some 0)"

text \<open>\<open>poke_all\<close>: the stores of a byte sequence one after the other, as code that stores a wider value does.\<close>

fun poke_all :: "mem \<Rightarrow> nat \<Rightarrow> u8 list \<Rightarrow> mem option" where
  "poke_all m a [] = Some m"
| "poke_all m a (x # xs) = do { m \<leftarrow> poke m a x; poke_all m (Suc a) xs }"

fun peek_all :: "mem \<Rightarrow> nat \<Rightarrow> nat \<Rightarrow> u8 list option" where
  "peek_all m a 0 = Some []"
| "peek_all m a (Suc n) = do { x \<leftarrow> peek m a; xs \<leftarrow> peek_all m (Suc a) n; Some (x # xs) }"

text \<open>The bytes of a word in memory, least significant first, and the word they make.\<close>

definition le_bytes :: "nat \<Rightarrow> 'a::len word \<Rightarrow> u8 list" where
  "le_bytes n v = map (\<lambda>i. ucast (drop_bit (8 * i) v)) [0 ..< n]"

fun of_bytes :: "u8 list \<Rightarrow> 'a::len word" where
  "of_bytes [] = 0"
| "of_bytes (b # bs) = ucast b OR push_bit 8 (of_bytes bs)"

section \<open>Lemmas\<close>

lemma length_le_bytes [simp]: "length (le_bytes n v) = n"
  by (simp add: le_bytes_def)

lemma peek_pos: "peek m a = Some x \<Longrightarrow> 0 < a \<and> m a = Some x"
  by (auto simp: peek_def split: if_splits)

lemma poke_mapped: "peek m a \<noteq> None \<Longrightarrow> poke m a v = Some (m(a \<mapsto> v))"
  by (auto simp: peek_def poke_def split: if_splits)

lemma peek_upd [simp]: "peek (m(a \<mapsto> v)) x = (if x = a \<and> 0 < a then Some v else peek m x)"
  by (simp add: peek_def)

lemma holds_append: "holds m a (xs @ ys) \<longleftrightarrow> holds m a xs \<and> holds m (a + length xs) ys"
  by (induction xs arbitrary: a) auto

lemma holds_nth: "holds m a xs \<longleftrightarrow> (\<forall>i < length xs. peek m (a + i) = Some (xs ! i))"
proof (induction xs arbitrary: a)
  case (Cons x xs)
  show ?case by (simp add: Cons All_less_Suc2)
qed simp

lemma holds_upd: "x < a \<or> a + length xs \<le> x \<Longrightarrow> holds (m(x \<mapsto> v)) a xs = holds m a xs"
  by (induction xs arbitrary: a) auto

lemma holds_drop: "holds m a xs \<Longrightarrow> i \<le> length xs \<Longrightarrow> holds m (a + i) (drop i xs)"
  by (simp add: holds_nth add.assoc)

lemma holds_take: "holds m a xs \<Longrightarrow> holds m a (take i xs)"
  by (simp add: holds_nth)

lemma holds_unique: "holds m a xs \<Longrightarrow> holds m a ys \<Longrightarrow> length xs = length ys \<Longrightarrow> xs = ys"
  by (auto simp: holds_nth intro!: nth_equalityI)

lemma put_apply:
  "put m a xs x = (if a \<le> x \<and> x < a + length xs then Some (xs ! (x - a)) else m x)"
proof (induction xs arbitrary: m a)
  case (Cons v xs)
  then show ?case by (auto simp: nth_Cons' Suc_le_eq)
qed auto

lemma put_append: "put m a (xs @ ys) = put (put m a xs) (a + length xs) ys"
  by (induction xs arbitrary: m a) auto

lemma peek_put:
  "0 < a \<Longrightarrow> peek (put m a xs) x = (if a \<le> x \<and> x < a + length xs then Some (xs ! (x - a)) else peek m x)"
  by (simp add: peek_def put_apply)

lemma holds_put: "0 < a \<Longrightarrow> holds (put m a xs) a xs"
  by (simp add: holds_nth peek_put)

lemma holds_put_other:
  "0 < a \<Longrightarrow> b + length ys \<le> a \<or> a + length xs \<le> b \<Longrightarrow> holds (put m a xs) b ys = holds m b ys"
proof (induction ys arbitrary: b)
  case (Cons y ys)
  then have "peek (put m a xs) b = peek m b" by (auto simp: peek_put)
  then show ?case using Cons by auto
qed simp

lemma mapped_0 [simp]: "mapped m a 0"
  by (simp add: mapped_def)

lemma mapped_Suc: "mapped m a (Suc n) \<longleftrightarrow> peek m a \<noteq> None \<and> mapped m (Suc a) n"
  by (simp add: mapped_def All_less_Suc2)

lemma mapped_upd: "peek m x \<noteq> None \<Longrightarrow> mapped m a n \<Longrightarrow> mapped (m(x \<mapsto> v)) a n"
  by (auto simp: mapped_def)

lemma mapped_put [simp]: "mapped m a n \<Longrightarrow> 0 < b \<Longrightarrow> mapped (put m b xs) a n"
  by (auto simp: mapped_def peek_put)

lemma mapped_le: "mapped m a n \<Longrightarrow> k \<le> n \<Longrightarrow> mapped m a k"
  by (simp add: mapped_def)

lemma mapped_sub: "mapped m a n \<Longrightarrow> i + k \<le> n \<Longrightarrow> mapped m (a + i) k"
  by (simp add: mapped_def add.assoc)

lemma mapped_pos: "mapped m a n \<Longrightarrow> 0 < n \<Longrightarrow> 0 < a"
  by (cases n) (auto simp: mapped_Suc dest: peek_pos)

lemma mapped_poke: "mapped m a n \<Longrightarrow> a \<le> x \<Longrightarrow> x < a + n \<Longrightarrow> poke m x v = Some (m(x \<mapsto> v))"
  unfolding mapped_def by (metis le_Suc_ex nat_add_left_cancel_less poke_mapped)

lemma holds_mapped: "holds m a xs \<Longrightarrow> mapped m a (length xs)"
  by (induction xs arbitrary: a) (auto simp: mapped_Suc)

lemma mapped_holds: "mapped m a n \<Longrightarrow> \<exists>xs. length xs = n \<and> holds m a xs"
proof (induction n arbitrary: a)
  case (Suc n)
  then obtain x where x: "peek m a = Some x" and t: "mapped m (Suc a) n" by (auto simp: mapped_Suc)
  obtain xs where "length xs = n" "holds m (Suc a) xs" using Suc.IH [OF t] by blast
  with x show ?case by (intro exI [of _ "x # xs"]) simp
qed simp

lemma poke_all_put: "mapped m a (length xs) \<Longrightarrow> poke_all m a xs = Some (put m a xs)"
  by (induction xs arbitrary: m a) (auto simp: mapped_Suc poke_mapped mapped_upd)

lemma peek_all_holds: "peek_all m a n = Some xs \<longleftrightarrow> length xs = n \<and> holds m a xs"
proof (induction n arbitrary: a xs)
  case (Suc n)
  then show ?case by (cases xs) (auto simp: bind_eq_Some_conv)
qed auto

lemma cstr_Nil: "cstr m a [] \<longleftrightarrow> peek m a = Some 0"
  by (simp add: cstr_def)

lemma cstr_Cons: "cstr m a (x # xs) \<longleftrightarrow> x \<noteq> 0 \<and> peek m a = Some x \<and> cstr m (Suc a) xs"
  by (auto simp: cstr_def)

lemma cstr_unique: "cstr m a xs \<Longrightarrow> cstr m a ys \<Longrightarrow> xs = ys"
proof (induction xs arbitrary: a ys)
  case Nil
  then show ?case by (cases ys) (auto simp: cstr_Nil cstr_Cons)
next
  case (Cons x xs)
  then show ?case by (cases ys) (auto simp: cstr_Nil cstr_Cons)
qed

lemma cstr_pos: "cstr m a xs \<Longrightarrow> 0 < a"
  by (cases xs) (auto simp: cstr_Nil cstr_Cons dest: peek_pos)

lemma cstr_drop: "cstr m a xs \<Longrightarrow> i \<le> length xs \<Longrightarrow> cstr m (a + i) (drop i xs)"
proof -
  assume "cstr m a xs" "i \<le> length xs"
  then show "cstr m (a + i) (drop i xs)"
    using holds_drop [of m a "xs @ [0]" i] by (auto simp: cstr_def dest: in_set_dropD)
qed

lemma cstr_upd: "cstr m a xs \<Longrightarrow> x < a \<or> a + length xs < x \<Longrightarrow> cstr (m(x \<mapsto> v)) a xs"
  by (auto simp: cstr_def holds_upd simp del: fun_upd_apply)

lemma cstr_put_other:
  "cstr m b ys \<Longrightarrow> 0 < a \<Longrightarrow> b + length ys < a \<or> a + length xs \<le> b \<Longrightarrow> cstr (put m a xs) b ys"
  by (auto simp: cstr_def holds_put_other)

lemma cstr_put: "0 < a \<Longrightarrow> 0 \<notin> set xs \<Longrightarrow> cstr (put m a (xs @ [0])) a xs"
  by (simp add: cstr_def holds_put del: put.simps)

lemma bstr_0 [simp]: "bstr m a 0 xs \<longleftrightarrow> xs = []"
  by (auto simp: bstr_def)

lemma bstr_Nil: "bstr m a (Suc n) [] \<longleftrightarrow> peek m a = Some 0"
  by (simp add: bstr_def)

lemma bstr_Cons: "bstr m a (Suc n) (x # xs) \<longleftrightarrow> x \<noteq> 0 \<and> peek m a = Some x \<and> bstr m (Suc a) n xs"
  by (auto simp: bstr_def)

lemma bstr_cstr: "cstr m a xs \<Longrightarrow> bstr m a n (take n xs)"
  by (cases "length xs \<le> n") (auto simp: bstr_def cstr_def holds_append min_def holds_take dest: in_set_takeD)

lemma bit_of_bytes:
  "bit (of_bytes bs :: 'a::len word) n \<longleftrightarrow> n < LENGTH('a) \<and> n div 8 < length bs \<and> bit (bs ! (n div 8)) (n mod 8)"
proof (induction bs arbitrary: n)
  case (Cons b bs)
  show ?case
  proof (cases "n < 8")
    case True
    then show ?thesis by (auto simp: bit_simps)
  next
    case False
    then have "n div 8 = Suc ((n - 8) div 8)" "n mod 8 = (n - 8) mod 8" by (auto simp: div_if mod_if)
    then show ?thesis using False Cons.IH [of "n - 8"] by (auto simp: bit_simps dest: bit_imp_le_length)
  qed
qed simp

lemma of_bytes_inj:
  assumes "(of_bytes xs :: 'a::len word) = of_bytes ys" "length xs = length ys" "8 * length xs \<le> LENGTH('a)"
  shows "xs = ys"
proof (rule nth_equalityI [OF assms(2)])
  fix i assume i: "i < length xs"
  show "xs ! i = ys ! i"
  proof (rule bit_word_eqI)
    fix n assume "n < LENGTH(8)"
    then have n: "n < 8" by simp
    then have "(8 * i + n) div 8 = i" "(8 * i + n) mod 8 = n" "8 * i + n < LENGTH('a)" using i assms(3) by auto
    then show "bit (xs ! i) n = bit (ys ! i) n"
      using assms(1,2) i bit_of_bytes [of xs "8 * i + n", where ?'a = 'a] bit_of_bytes [of ys "8 * i + n", where ?'a = 'a] by simp
  qed
qed

end
