(* ===== verification/Strings.thy ===== *)
theory Strings
  imports Bytes
begin

text \<open>
  The kernel's string and memory routines, \<^verbatim>\<open>lib/_string.c\<close>, over the byte memory of
  \<open>Bytes\<close>. A routine that only reads returns its result, one that writes its result and the
  new memory; both are \<open>None\<close> when the C code would touch an unmapped byte or run for ever. A
  pointer result is an address, 0 for NULL; an \<open>int\<close> argument that stands for a character is a
  32-bit word, truncated where the code casts it. Pointer comparison and \<open>++\<close> are those of
  addresses; no object lies across the end of the address space.

  On arm_m the routines of \<^verbatim>\<open>arch/arm_m/boot/compressed/string.c\<close> take the place of the generic
  \<open>strlen\<close>, \<open>strnlen\<close>, \<open>strcmp\<close>, \<open>strchr\<close>, \<open>strrchr\<close>, \<open>memcpy\<close>, \<open>memmove\<close>, \<open>memset\<close>,
  \<open>memcmp\<close> and \<open>memchr\<close>, which \<^verbatim>\<open>asm/string.h\<close> switches off. Three of them are other programs and have definitions
  of their own, in the last section; the others are the same loops.
\<close>

section \<open>Copying strings\<close>

text \<open>\<open>while ((*dest++ = *src++) != '\0');\<close>: the final \<open>dest\<close> and the memory.\<close>

partial_function (option) copy_loop :: "mem \<Rightarrow> nat \<Rightarrow> nat \<Rightarrow> (nat \<times> mem) option" where
  "copy_loop m dest src =
     Option.bind (peek m src) (\<lambda>c.
     Option.bind (poke m dest c) (\<lambda>m.
       if c \<noteq> 0 then copy_loop m (dest + 1) (src + 1) else Some (dest + 1, m)))"

definition strcpy :: "mem \<Rightarrow> nat \<Rightarrow> nat \<Rightarrow> (nat \<times> mem) option" where
  "strcpy m dest src = do { (_, m) \<leftarrow> copy_loop m dest src; Some (dest, m) }"

fun strncpy_loop :: "mem \<Rightarrow> nat \<Rightarrow> nat \<Rightarrow> nat \<Rightarrow> mem option" where
  "strncpy_loop m tmp src 0 = Some m"
| "strncpy_loop m tmp src (Suc count) = do {
     c \<leftarrow> peek m src;
     m \<leftarrow> poke m tmp c;
     strncpy_loop m (tmp + 1) (if c \<noteq> 0 then src + 1 else src) count }"

definition strncpy :: "mem \<Rightarrow> nat \<Rightarrow> nat \<Rightarrow> nat \<Rightarrow> (nat \<times> mem) option" where
  "strncpy m dest src count = do { m \<leftarrow> strncpy_loop m dest src count; Some (dest, m) }"

definition stpcpy :: "mem \<Rightarrow> nat \<Rightarrow> nat \<Rightarrow> (nat \<times> mem) option" where
  "stpcpy m dest src = do { (dest, m) \<leftarrow> copy_loop m dest src; Some (dest - 1, m) }"

text \<open>\<open>while (*dest) dest++;\<close>\<close>

partial_function (option) seek_end :: "mem \<Rightarrow> nat \<Rightarrow> nat option" where
  "seek_end m s = Option.bind (peek m s) (\<lambda>c. if c \<noteq> 0 then seek_end m (s + 1) else Some s)"

definition strcat :: "mem \<Rightarrow> nat \<Rightarrow> nat \<Rightarrow> (nat \<times> mem) option" where
  "strcat m dest src = do {
     e \<leftarrow> seek_end m dest;
     (_, m) \<leftarrow> copy_loop m e src;
     Some (dest, m) }"

text \<open>The second loop of \<open>strncat\<close>, entered with a positive \<open>count\<close>.\<close>

fun strncat_loop :: "mem \<Rightarrow> nat \<Rightarrow> nat \<Rightarrow> nat \<Rightarrow> mem option" where
  "strncat_loop m dest src count = do {
     c \<leftarrow> peek m src;
     m \<leftarrow> poke m dest c;
     if c = 0 then Some m
     else if count \<le> 1 then poke m (dest + 1) 0
     else strncat_loop m (dest + 1) (src + 1) (count - 1) }"

definition strncat :: "mem \<Rightarrow> nat \<Rightarrow> nat \<Rightarrow> nat \<Rightarrow> (nat \<times> mem) option" where
  "strncat m dest src count =
     (if count = 0 then Some (dest, m)
      else do {
        e \<leftarrow> seek_end m dest;
        m \<leftarrow> strncat_loop m e src count;
        Some (dest, m) })"

definition strlen :: "mem \<Rightarrow> nat \<Rightarrow> nat option" where
  "strlen m s = do { sc \<leftarrow> seek_end m s; Some (sc - s) }"

fun memcpy_loop :: "mem \<Rightarrow> nat \<Rightarrow> nat \<Rightarrow> nat \<Rightarrow> mem option" where
  "memcpy_loop m tmp s 0 = Some m"
| "memcpy_loop m tmp s (Suc count) = do {
     c \<leftarrow> peek m s;
     m \<leftarrow> poke m tmp c;
     memcpy_loop m (tmp + 1) (s + 1) count }"

definition memcpy :: "mem \<Rightarrow> nat \<Rightarrow> nat \<Rightarrow> nat \<Rightarrow> (nat \<times> mem) option" where
  "memcpy m dest src count = do { m \<leftarrow> memcpy_loop m dest src count; Some (dest, m) }"

text \<open>\<open>BUG_ON\<close> stops the kernel, so a call whose destination string fills its buffer does not return.\<close>

definition strlcat :: "mem \<Rightarrow> nat \<Rightarrow> nat \<Rightarrow> nat \<Rightarrow> (nat \<times> mem) option" where
  "strlcat m dest src count = do {
     dsize \<leftarrow> strlen m dest;
     len \<leftarrow> strlen m src;
     let res = sz (dsize + len);
     if count \<le> dsize then None
     else do {
       let dest = dest + dsize;
       let count = count - dsize;
       let len = (if count \<le> len then count - 1 else len);
       (_, m) \<leftarrow> memcpy m dest src len;
       m \<leftarrow> poke m (dest + len) 0;
       Some (res, m) } }"

section \<open>Comparing and searching strings\<close>

partial_function (option) strcmp :: "mem \<Rightarrow> nat \<Rightarrow> nat \<Rightarrow> int option" where
  "strcmp m cs ct =
     Option.bind (peek m cs) (\<lambda>c1.
     Option.bind (peek m ct) (\<lambda>c2.
       if c1 \<noteq> c2 then Some (if c1 < c2 then -1 else 1)
       else if c1 = 0 then Some 0
       else strcmp m (cs + 1) (ct + 1)))"

fun strncmp :: "mem \<Rightarrow> nat \<Rightarrow> nat \<Rightarrow> nat \<Rightarrow> int option" where
  "strncmp m cs ct 0 = Some 0"
| "strncmp m cs ct (Suc count) = do {
     c1 \<leftarrow> peek m cs;
     c2 \<leftarrow> peek m ct;
     if c1 \<noteq> c2 then Some (if c1 < c2 then -1 else 1)
     else if c1 = 0 then Some 0
     else strncmp m (cs + 1) (ct + 1) count }"

partial_function (option) strchr :: "mem \<Rightarrow> nat \<Rightarrow> u32 \<Rightarrow> nat option" where
  "strchr m s c =
     Option.bind (peek m s) (\<lambda>x.
       if x \<noteq> ucast c then (if x = 0 then Some 0 else strchr m (s + 1) c) else Some s)"

partial_function (option) strchrnul :: "mem \<Rightarrow> nat \<Rightarrow> u32 \<Rightarrow> nat option" where
  "strchrnul m s c =
     Option.bind (peek m s) (\<lambda>x. if x \<noteq> 0 \<and> x \<noteq> ucast c then strchrnul m (s + 1) c else Some s)"

fun strnchrnul :: "mem \<Rightarrow> nat \<Rightarrow> nat \<Rightarrow> u32 \<Rightarrow> nat option" where
  "strnchrnul m s 0 c = Some s"
| "strnchrnul m s (Suc count) c = do {
     x \<leftarrow> peek m s;
     if x \<noteq> 0 \<and> x \<noteq> ucast c then strnchrnul m (s + 1) count c else Some s }"

partial_function (option) strrchr_loop :: "mem \<Rightarrow> nat \<Rightarrow> u32 \<Rightarrow> nat \<Rightarrow> nat option" where
  "strrchr_loop m s c last_hit =
     Option.bind (peek m s) (\<lambda>x.
       let last_hit = (if x = ucast c then s else last_hit) in
       if x \<noteq> 0 then strrchr_loop m (s + 1) c last_hit else Some last_hit)"

definition strrchr :: "mem \<Rightarrow> nat \<Rightarrow> u32 \<Rightarrow> nat option" where
  "strrchr m s c = strrchr_loop m s c 0"

fun strnchr :: "mem \<Rightarrow> nat \<Rightarrow> nat \<Rightarrow> u32 \<Rightarrow> nat option" where
  "strnchr m s 0 c = Some 0"
| "strnchr m s (Suc count) c = do {
     x \<leftarrow> peek m s;
     if x = ucast c then Some s
     else if x = 0 then Some 0
     else strnchr m (s + 1) count c }"

fun strnlen_loop :: "mem \<Rightarrow> nat \<Rightarrow> nat \<Rightarrow> nat option" where
  "strnlen_loop m sc 0 = Some sc"
| "strnlen_loop m sc (Suc count) = do {
     x \<leftarrow> peek m sc;
     if x \<noteq> 0 then strnlen_loop m (sc + 1) count else Some sc }"

definition strnlen :: "mem \<Rightarrow> nat \<Rightarrow> nat \<Rightarrow> nat option" where
  "strnlen m s count = do { sc \<leftarrow> strnlen_loop m s count; Some (sc - s) }"

text \<open>
  The scan \<open>strspn\<close>, \<open>strcspn\<close> and \<open>strpbrk\<close> share: on from \<open>p\<close> while the character
  is not NUL and \<open>strchr\<close> finds it in the set (\<open>stay\<close>) or does not (\<open>\<not> stay\<close>).
\<close>

partial_function (option) span_loop :: "mem \<Rightarrow> bool \<Rightarrow> nat \<Rightarrow> nat \<Rightarrow> nat option" where
  "span_loop m stay p cset =
     Option.bind (peek m p) (\<lambda>x.
       if x = 0 then Some p
       else Option.bind (strchr m cset (ucast x)) (\<lambda>r.
         if (r \<noteq> 0) = stay then span_loop m stay (p + 1) cset else Some p))"

definition strspn :: "mem \<Rightarrow> nat \<Rightarrow> nat \<Rightarrow> nat option" where
  "strspn m s accept = do { p \<leftarrow> span_loop m True s accept; Some (p - s) }"

definition strcspn :: "mem \<Rightarrow> nat \<Rightarrow> nat \<Rightarrow> nat option" where
  "strcspn m s reject = do { p \<leftarrow> span_loop m False s reject; Some (p - s) }"

definition strpbrk :: "mem \<Rightarrow> nat \<Rightarrow> nat \<Rightarrow> nat option" where
  "strpbrk m cs ct = do {
     sc \<leftarrow> span_loop m False cs ct;
     x \<leftarrow> peek m sc;
     Some (if x = 0 then 0 else sc) }"

text \<open>\<open>strsep\<close>: the returned token, the new value of \<open>*s\<close> and the memory.\<close>

definition strsep :: "mem \<Rightarrow> nat \<Rightarrow> nat \<Rightarrow> (nat \<times> nat \<times> mem) option" where
  "strsep m s ct =
     (if s = 0 then Some (0, s, m)
      else do {
        e \<leftarrow> strpbrk m s ct;
        if e \<noteq> 0 then do { m \<leftarrow> poke m e 0; Some (s, e + 1, m) } else Some (s, 0, m) })"

section \<open>Memory blocks\<close>

fun memset_loop :: "mem \<Rightarrow> nat \<Rightarrow> u8 \<Rightarrow> nat \<Rightarrow> mem option" where
  "memset_loop m xs c 0 = Some m"
| "memset_loop m xs c (Suc count) = do { m \<leftarrow> poke m xs c; memset_loop m (xs + 1) c count }"

definition memset :: "mem \<Rightarrow> nat \<Rightarrow> u32 \<Rightarrow> nat \<Rightarrow> (nat \<times> mem) option" where
  "memset m s c count = do { m \<leftarrow> memset_loop m s (ucast c) count; Some (s, m) }"

fun memsetw_loop :: "mem \<Rightarrow> nat \<Rightarrow> u8 list \<Rightarrow> nat \<Rightarrow> mem option" where
  "memsetw_loop m xs bs 0 = Some m"
| "memsetw_loop m xs bs (Suc count) = do { m \<leftarrow> poke_all m xs bs; memsetw_loop m (xs + length bs) bs count }"

definition memset16 :: "mem \<Rightarrow> nat \<Rightarrow> u16 \<Rightarrow> nat \<Rightarrow> (nat \<times> mem) option" where
  "memset16 m s v count = do { m \<leftarrow> memsetw_loop m s (le_bytes 2 v) count; Some (s, m) }"

definition memset32 :: "mem \<Rightarrow> nat \<Rightarrow> u32 \<Rightarrow> nat \<Rightarrow> (nat \<times> mem) option" where
  "memset32 m s v count = do { m \<leftarrow> memsetw_loop m s (le_bytes 4 v) count; Some (s, m) }"

definition memset64 :: "mem \<Rightarrow> nat \<Rightarrow> u64 \<Rightarrow> nat \<Rightarrow> (nat \<times> mem) option" where
  "memset64 m s v count = do { m \<leftarrow> memsetw_loop m s (le_bytes 8 v) count; Some (s, m) }"

text \<open>The descending loop of \<open>memmove\<close>; both pointers start one past their block.\<close>

fun memmove_down :: "mem \<Rightarrow> nat \<Rightarrow> nat \<Rightarrow> nat \<Rightarrow> mem option" where
  "memmove_down m tmp s 0 = Some m"
| "memmove_down m tmp s (Suc count) = do {
     c \<leftarrow> peek m (s - 1);
     m \<leftarrow> poke m (tmp - 1) c;
     memmove_down m (tmp - 1) (s - 1) count }"

definition memmove :: "mem \<Rightarrow> nat \<Rightarrow> nat \<Rightarrow> nat \<Rightarrow> (nat \<times> mem) option" where
  "memmove m dest src count =
     (if dest \<le> src
      then do { m \<leftarrow> memcpy_loop m dest src count; Some (dest, m) }
      else do { m \<leftarrow> memmove_down m (dest + count) (src + count) count; Some (dest, m) })"

fun memcmp :: "mem \<Rightarrow> nat \<Rightarrow> nat \<Rightarrow> nat \<Rightarrow> int option" where
  "memcmp m su1 su2 0 = Some 0"
| "memcmp m su1 su2 (Suc count) = do {
     x \<leftarrow> peek m su1;
     y \<leftarrow> peek m su2;
     let res = uint x - uint y;
     if res \<noteq> 0 then Some res else memcmp m (su1 + 1) (su2 + 1) count }"

definition bcmp :: "mem \<Rightarrow> nat \<Rightarrow> nat \<Rightarrow> nat \<Rightarrow> int option" where
  "bcmp m a b len = memcmp m a b len"

fun memscan :: "mem \<Rightarrow> nat \<Rightarrow> u32 \<Rightarrow> nat \<Rightarrow> nat option" where
  "memscan m p c 0 = Some p"
| "memscan m p c (Suc n) = do { x \<leftarrow> peek m p; if x = ucast c then Some p else memscan m (p + 1) c n }"

text \<open>The loop of \<open>strstr\<close> and of \<open>strnstr\<close>: \<open>l1\<close> bytes are left at \<open>s1\<close>. Both call it with \<open>l2 > 0\<close>.\<close>

fun strstr_loop :: "mem \<Rightarrow> nat \<Rightarrow> nat \<Rightarrow> nat \<Rightarrow> nat \<Rightarrow> nat option" where
  "strstr_loop m s1 s2 l2 l1 =
     (if l1 < l2 \<or> l2 = 0 then Some 0
      else do {
        r \<leftarrow> memcmp m s1 s2 l2;
        if r = 0 then Some s1 else strstr_loop m (s1 + 1) s2 l2 (l1 - 1) })"

definition strstr :: "mem \<Rightarrow> nat \<Rightarrow> nat \<Rightarrow> nat option" where
  "strstr m s1 s2 = do {
     l2 \<leftarrow> strlen m s2;
     if l2 = 0 then Some s1
     else do { l1 \<leftarrow> strlen m s1; strstr_loop m s1 s2 l2 l1 } }"

definition strnstr :: "mem \<Rightarrow> nat \<Rightarrow> nat \<Rightarrow> nat \<Rightarrow> nat option" where
  "strnstr m s1 s2 len = do {
     l2 \<leftarrow> strlen m s2;
     if l2 = 0 then Some s1 else strstr_loop m s1 s2 l2 len }"

fun memchr :: "mem \<Rightarrow> nat \<Rightarrow> u32 \<Rightarrow> nat \<Rightarrow> nat option" where
  "memchr m p c 0 = Some 0"
| "memchr m p c (Suc n) = do { x \<leftarrow> peek m p; if ucast c = x then Some p else memchr m (p + 1) c n }"

fun check_bytes8 :: "mem \<Rightarrow> nat \<Rightarrow> u8 \<Rightarrow> nat \<Rightarrow> nat option" where
  "check_bytes8 m start value 0 = Some 0"
| "check_bytes8 m start value (Suc bytes) = do {
     x \<leftarrow> peek m start;
     if x \<noteq> value then Some start else check_bytes8 m (start + 1) value bytes }"

text \<open>The value \<open>memchr_inv\<close> compares eight bytes with, and its loop over whole words.\<close>

definition spread :: "u8 \<Rightarrow> u64" where
  "spread value =
     (let v = ucast value :: u64; v = v OR push_bit 8 v; v = v OR push_bit 16 v in v OR push_bit 32 v)"

definition load64 :: "mem \<Rightarrow> nat \<Rightarrow> u64 option" where
  "load64 m a = do { bs \<leftarrow> peek_all m a 8; Some (of_bytes bs) }"

fun inv_words :: "mem \<Rightarrow> nat \<Rightarrow> u8 \<Rightarrow> nat \<Rightarrow> (nat + nat) option" where
  "inv_words m start value 0 = Some (Inl start)"
| "inv_words m start value (Suc words) = do {
     v \<leftarrow> load64 m start;
     if v \<noteq> spread value then do { r \<leftarrow> check_bytes8 m start value 8; Some (Inr r) }
     else inv_words m (start + 8) value words }"

definition memchr_inv :: "mem \<Rightarrow> nat \<Rightarrow> u32 \<Rightarrow> nat \<Rightarrow> nat option" where
  "memchr_inv m start c bytes =
     (let value = (ucast c :: u8) in
      if bytes \<le> 16 then check_bytes8 m start value bytes
      else do {
        let prefix = start mod 8;
        let prefix = (if prefix \<noteq> 0 then 8 - prefix else 0);
        r \<leftarrow> (if prefix \<noteq> 0 then check_bytes8 m start value prefix else Some 0);
        if r \<noteq> 0 then Some r
        else do {
          let start = start + prefix;
          let bytes = bytes - prefix;
          w \<leftarrow> inv_words m start value (bytes div 8);
          case w of
            Inr r \<Rightarrow> Some r
          | Inl start \<Rightarrow> check_bytes8 m start value (bytes mod 8) } })"

section \<open>The routines of arm_m\<close>

text \<open>\<open>memcpy\<close>: eight bytes in each turn of the loop, then what the low bits of the length ask for.\<close>

fun arm_memcpy_loop :: "mem \<Rightarrow> nat \<Rightarrow> nat \<Rightarrow> nat \<Rightarrow> mem option" where
  "arm_memcpy_loop m d s 0 = Some m"
| "arm_memcpy_loop m d s (Suc i) = do {
     m \<leftarrow> memcpy_loop m d s 8;
     arm_memcpy_loop m (d + 8) (s + 8) i }"

definition arm_memcpy :: "mem \<Rightarrow> nat \<Rightarrow> nat \<Rightarrow> nat \<Rightarrow> (nat \<times> mem) option" where
  "arm_memcpy m dest src n = do {
     m \<leftarrow> arm_memcpy_loop m dest src (n div 8);
     let i = 8 * (n div 8);
     m \<leftarrow> (if bit n 2 then memcpy_loop m (dest + i) (src + i) 4 else Some m);
     let i = (if bit n 2 then i + 4 else i);
     m \<leftarrow> (if bit n 1 then memcpy_loop m (dest + i) (src + i) 2 else Some m);
     let i = (if bit n 1 then i + 2 else i);
     m \<leftarrow> (if bit n 0 then memcpy_loop m (dest + i) (src + i) 1 else Some m);
     Some (dest, m) }"

text \<open>\<open>while (count--) d[count] = s[count];\<close>\<close>

fun arm_memmove_loop :: "mem \<Rightarrow> nat \<Rightarrow> nat \<Rightarrow> nat \<Rightarrow> mem option" where
  "arm_memmove_loop m d s 0 = Some m"
| "arm_memmove_loop m d s (Suc count) = do {
     c \<leftarrow> peek m (s + count);
     m \<leftarrow> poke m (d + count) c;
     arm_memmove_loop m d s count }"

definition arm_memmove :: "mem \<Rightarrow> nat \<Rightarrow> nat \<Rightarrow> nat \<Rightarrow> (nat \<times> mem) option" where
  "arm_memmove m dest src count =
     (if dest = src then Some (dest, m)
      else if dest < src then arm_memcpy m dest src count
      else do { m \<leftarrow> arm_memmove_loop m dest src count; Some (dest, m) })"

text \<open>\<open>strcmp\<close> returns the difference of the first two bytes that differ.\<close>

partial_function (option) arm_strcmp :: "mem \<Rightarrow> nat \<Rightarrow> nat \<Rightarrow> int option" where
  "arm_strcmp m cs ct =
     Option.bind (peek m cs) (\<lambda>c1.
     Option.bind (peek m ct) (\<lambda>c2.
       let res = uint c1 - uint c2 in
       if res \<noteq> 0 then Some res
       else if c1 \<noteq> 0 then arm_strcmp m (cs + 1) (ct + 1)
       else Some 0))"

end
