(* ===== verification/StringSpec.thy ===== *)
theory StringSpec
  imports Strings "HOL-Library.Sublist"
begin

text \<open>
  What the routines of \<open>Strings\<close> compute, as equations on lists of bytes: a string at an
  address is \<open>cstr\<close>, a bounded one \<open>bstr\<close>, a block \<open>holds\<close>; a write is \<open>put\<close>.
  The component's properties are at the end.
\<close>

section \<open>Copying strings\<close>

lemma copy_loop_put:
  assumes "cstr m src xs" "mapped m dest (Suc (length xs))" "dest \<le> src \<or> src + length xs < dest"
  shows "copy_loop m dest src = Some (dest + length xs + 1, put m dest (xs @ [0]))"
  using assms
proof (induction xs arbitrary: m dest src)
  case Nil
  then show ?case by (subst copy_loop.simps) (simp add: cstr_Nil mapped_Suc poke_mapped)
next
  case (Cons x xs)
  let ?m = "m(dest \<mapsto> x)"
  have x: "peek m src = Some x" "x \<noteq> 0" "cstr m (Suc src) xs" using Cons.prems(1) by (auto simp: cstr_Cons)
  have d: "peek m dest \<noteq> None" "mapped m (Suc dest) (Suc (length xs))"
    using Cons.prems(2) by (simp_all add: mapped_Suc)
  have "cstr ?m (Suc src) xs" using x(3) Cons.prems(3) by (intro cstr_upd) auto
  then have "copy_loop ?m (Suc dest) (Suc src) = Some (Suc dest + length xs + 1, put ?m (Suc dest) (xs @ [0]))"
    using Cons.IH [of ?m "Suc src" "Suc dest"] Cons.prems(3) mapped_upd [OF d(1,2)] by (auto simp del: fun_upd_apply)
  then show ?case using x d by (subst copy_loop.simps) (simp add: poke_mapped)
qed

lemma strcpy_put:
  assumes "cstr m src xs" "mapped m dest (Suc (length xs))" "dest \<le> src \<or> src + length xs < dest"
  shows "strcpy m dest src = Some (dest, put m dest (xs @ [0]))"
    "stpcpy m dest src = Some (dest + length xs, put m dest (xs @ [0]))"
  using copy_loop_put [OF assms] by (simp_all add: strcpy_def stpcpy_def)

lemma seek_end_cstr: "cstr m s xs \<Longrightarrow> seek_end m s = Some (s + length xs)"
proof (induction xs arbitrary: s)
  case Nil
  then show ?case by (subst seek_end.simps) (simp add: cstr_Nil)
next
  case (Cons x xs)
  then show ?case by (subst seek_end.simps) (simp add: cstr_Cons)
qed

lemma strlen_cstr [simp]: "cstr m s xs \<Longrightarrow> strlen m s = Some (length xs)"
  by (simp add: strlen_def seek_end_cstr)

lemma strcat_put:
  assumes "cstr m dest xs" "cstr m src ys" "mapped m dest (length xs + length ys + 1)"
    "src + length ys < dest \<or> dest + length xs + length ys < src"
  shows "strcat m dest src = Some (dest, put m (dest + length xs) (ys @ [0]))"
proof -
  have "mapped m (dest + length xs) (Suc (length ys))" using mapped_sub [OF assms(3), of "length xs"] by simp
  then have "copy_loop m (dest + length xs) src =
      Some (dest + length xs + length ys + 1, put m (dest + length xs) (ys @ [0]))"
    using copy_loop_put [OF assms(2)] assms(4) by auto
  then show ?thesis using assms(1) by (simp add: strcat_def seek_end_cstr)
qed

lemma memcpy_loop_put:
  assumes "holds m src xs" "mapped m dest (length xs)" "dest \<le> src \<or> src + length xs \<le> dest"
  shows "memcpy_loop m dest src (length xs) = Some (put m dest xs)"
  using assms
proof (induction xs arbitrary: m dest src)
  case (Cons x xs)
  let ?m = "m(dest \<mapsto> x)"
  have x: "peek m src = Some x" "holds m (Suc src) xs" using Cons.prems(1) by auto
  have d: "peek m dest \<noteq> None" "mapped m (Suc dest) (length xs)"
    using Cons.prems(2) by (simp_all add: mapped_Suc)
  have "holds ?m (Suc src) xs" using x(2) Cons.prems(3) by (auto simp: holds_upd simp del: fun_upd_apply)
  then have "memcpy_loop ?m (Suc dest) (Suc src) (length xs) = Some (put ?m (Suc dest) xs)"
    using Cons.IH [of ?m "Suc src" "Suc dest"] Cons.prems(3) mapped_upd [OF d(1,2)] by (auto simp del: fun_upd_apply)
  then show ?case using x d by (simp add: poke_mapped)
qed simp

lemma memcpy_put:
  "holds m src xs \<Longrightarrow> mapped m dest (length xs) \<Longrightarrow> dest \<le> src \<or> src + length xs \<le> dest \<Longrightarrow>
   memcpy m dest src (length xs) = Some (dest, put m dest xs)"
  by (simp add: memcpy_def memcpy_loop_put)

lemma memmove_down_put:
  assumes "holds m src xs" "mapped m dest (length xs)" "src < dest"
  shows "memmove_down m (dest + length xs) (src + length xs) (length xs) = Some (put m dest xs)"
  using assms
proof (induction xs arbitrary: m rule: rev_induct)
  case (snoc x xs)
  let ?m = "m(dest + length xs \<mapsto> x)"
  have x: "peek m (src + length xs) = Some x" "holds m src xs" using snoc.prems(1) by (auto simp: holds_append)
  have d: "peek m (dest + length xs) \<noteq> None" "mapped m dest (length xs)"
    using snoc.prems(2) by (simp_all add: mapped_def)
  have "holds ?m src xs" using x(2) snoc.prems(3) by (simp add: holds_upd del: fun_upd_apply)
  then have "memmove_down ?m (dest + length xs) (src + length xs) (length xs) = Some (put ?m dest xs)"
    using snoc.IH [of ?m] mapped_upd [OF d(1,2)] snoc.prems(3) by (simp del: fun_upd_apply)
  moreover have "put ?m dest xs = put m dest (xs @ [x])"
    by (rule ext) (auto simp: put_apply nth_append)
  ultimately show ?case using x d by (simp add: poke_mapped)
qed simp

lemma memmove_put:
  assumes "holds m src xs" "mapped m dest (length xs)"
  shows "memmove m dest src (length xs) = Some (dest, put m dest xs)"
  using assms by (simp add: memmove_def memcpy_loop_put memmove_down_put)

text \<open>What arm_m runs instead computes the same: its \<open>memcpy\<close> for all arguments, its \<open>memmove\<close> wherever
  the block can be copied at all.\<close>

lemma memcpy_loop_add:
  "memcpy_loop m d s (a + b) = do { m \<leftarrow> memcpy_loop m d s a; memcpy_loop m (d + a) (s + a) b }"
  by (induction a arbitrary: m d s) (simp_all add: Option.bind_assoc)

lemma arm_memcpy_loop_eq: "arm_memcpy_loop m d s n = memcpy_loop m d s (8 * n)"
proof (induction n arbitrary: m d s)
  case (Suc n)
  then show ?case using memcpy_loop_add [of m d s 8 "8 * n"] by simp
qed simp

lemma arm_memcpy_eq: "arm_memcpy m dest src n = memcpy m dest src n"
proof -
  have "n = 8 * (n div 8) + (if bit n 2 then 4 else 0) + (if bit n 1 then 2 else 0) + (if bit n 0 then 1 else 0)"
    by (simp add: bit_iff_odd) presburger
  then have "memcpy_loop m dest src n = memcpy_loop m dest src
      (8 * (n div 8) + (if bit n 2 then 4 else 0) + (if bit n 1 then 2 else 0) + (if bit n 0 then 1 else 0))" by (rule arg_cong)
  then show ?thesis
    unfolding arm_memcpy_def arm_memcpy_loop_eq memcpy_def Let_def by (simp add: memcpy_loop_add Option.bind_assoc)
qed

lemma arm_memmove_loop_eq: "arm_memmove_loop m d s n = memmove_down m (d + n) (s + n) n"
  by (induction n arbitrary: m) simp_all

lemma put_holds: "holds m a xs \<Longrightarrow> put m a xs = m"
proof (rule ext)
  fix x
  assume h: "holds m a xs"
  show "put m a xs x = m x"
  proof (cases "a \<le> x \<and> x < a + length xs")
    case True
    then have "x - a < length xs" "a + (x - a) = x" by auto
    then have "peek m x = Some (xs ! (x - a))" using h by (metis holds_nth)
    then show ?thesis using True by (simp add: put_apply peek_def split: if_splits)
  qed (auto simp: put_apply)
qed

lemma arm_memmove_put:
  assumes "holds m src xs" "mapped m dest (length xs)"
  shows "arm_memmove m dest src (length xs) = Some (dest, put m dest xs)"
  using assms put_holds [of m src xs]
  by (auto simp: arm_memmove_def arm_memcpy_eq memcpy_put arm_memmove_loop_eq memmove_down_put)

lemma strncpy_loop_zeros:
  assumes "peek m src = Some 0" "mapped m tmp n" "src < tmp \<or> tmp + n \<le> src"
  shows "strncpy_loop m tmp src n = Some (put m tmp (replicate n 0))"
  using assms
proof (induction n arbitrary: m tmp)
  case (Suc n)
  then have "peek m tmp \<noteq> None" "mapped m (Suc tmp) n" by (simp_all add: mapped_Suc)
  then show ?case using Suc.IH [of "m(tmp \<mapsto> 0)" "Suc tmp"] Suc.prems
    by (auto simp: poke_mapped mapped_upd simp del: fun_upd_apply)
qed simp

lemma strncpy_loop_put:
  assumes "bstr m src n xs" "mapped m tmp n" "src + length xs < tmp \<or> tmp + n \<le> src"
  shows "strncpy_loop m tmp src n = Some (put m tmp (xs @ replicate (n - length xs) 0))"
  using assms
proof (induction xs arbitrary: m tmp src n)
  case Nil
  then show ?case by (cases n) (auto simp: bstr_Nil strncpy_loop_zeros simp del: strncpy_loop.simps(2) replicate_Suc)
next
  case (Cons x xs)
  then obtain k where n: "n = Suc k" by (cases n) (auto simp: bstr_def)
  let ?m = "m(tmp \<mapsto> x)"
  have x: "peek m src = Some x" "x \<noteq> 0" "bstr m (Suc src) k xs" using Cons.prems(1) by (auto simp: n bstr_Cons)
  have d: "peek m tmp \<noteq> None" "mapped m (Suc tmp) k" using Cons.prems(2) by (simp_all add: n mapped_Suc)
  have "bstr ?m (Suc src) k xs"
    using x(3) Cons.prems(3) by (auto simp: bstr_def holds_upd n simp del: fun_upd_apply)
  then show ?case
    using Cons.IH [of ?m "Suc src" k "Suc tmp"] Cons.prems(3) mapped_upd [OF d(1,2)] x d
    by (auto simp: n poke_mapped simp del: fun_upd_apply)
qed

lemma strncpy_put:
  assumes "bstr m src n xs" "mapped m dest n" "src + length xs < dest \<or> dest + n \<le> src"
  shows "strncpy m dest src n = Some (dest, put m dest (xs @ replicate (n - length xs) 0))"
  using strncpy_loop_put [OF assms] by (simp add: strncpy_def)

lemma strncat_loop_put:
  assumes "bstr m src n xs" "0 < n" "mapped m dest (Suc (length xs))" "src + length xs < dest \<or> dest + length xs < src"
  shows "strncat_loop m dest src n = Some (put m dest (xs @ [0]))"
  using assms
proof (induction xs arbitrary: m dest src n)
  case Nil
  then show ?case by (cases n) (auto simp: bstr_Nil mapped_Suc poke_mapped simp del: fun_upd_apply)
next
  case (Cons x xs)
  then obtain k where n: "n = Suc k" by (cases n) auto
  let ?m = "m(dest \<mapsto> x)"
  have x: "peek m src = Some x" "x \<noteq> 0" "bstr m (Suc src) k xs" using Cons.prems(1) by (auto simp: n bstr_Cons)
  have d: "peek m dest \<noteq> None" "mapped m (Suc dest) (Suc (length xs))" using Cons.prems(3) by (simp_all add: mapped_Suc)
  have step: "strncat_loop m dest src n = (if k = 0 then poke ?m (Suc dest) 0 else strncat_loop ?m (Suc dest) (Suc src) k)"
    using x d by (simp add: n poke_mapped)
  show ?case
  proof (cases "k = 0")
    case True
    then have "xs = []" using x(3) by simp
    then show ?thesis using step d True by (simp add: mapped_Suc poke_mapped del: fun_upd_apply strncat_loop.simps)
  next
    case False
    have "bstr ?m (Suc src) k xs"
      using x(3) Cons.prems(4) by (auto simp: bstr_def holds_upd simp del: fun_upd_apply)
    then show ?thesis
      using Cons.IH [of ?m "Suc src" k "Suc dest"] False Cons.prems(4) mapped_upd [OF d(1,2)] step by (auto simp del: fun_upd_apply)
  qed
qed

lemma strncat_put:
  assumes "cstr m dest xs" "bstr m src n ys" "0 < n" "mapped m dest (length xs + length ys + 1)"
    "src + length ys < dest \<or> dest + length xs + length ys < src"
  shows "strncat m dest src n = Some (dest, put m (dest + length xs) (ys @ [0]))"
proof -
  have "mapped m (dest + length xs) (Suc (length ys))" using mapped_sub [OF assms(4), of "length xs"] by simp
  then have "strncat_loop m (dest + length xs) src n = Some (put m (dest + length xs) (ys @ [0]))"
    using strncat_loop_put [OF assms(2,3)] assms(5) by auto
  then show ?thesis using assms(1,3) by (simp add: strncat_def seek_end_cstr del: strncat_loop.simps)
qed

text \<open>\<open>strlcat\<close>: what fits of the source, always terminated, within \<open>count\<close> bytes.\<close>

lemma strlcat_put:
  assumes "cstr m dest xs" "cstr m src ys" "length xs < count" "mapped m dest count"
    "src + length ys < dest \<or> dest + count \<le> src"
  shows "strlcat m dest src count =
    Some (sz (length xs + length ys), put m (dest + length xs) (take (count - length xs - 1) ys @ [0]))"
proof -
  let ?n = "count - length xs" and ?d = "dest + length xs"
  let ?zs = "take (?n - 1) ys"
  have len: "(if ?n \<le> length ys then ?n - 1 else length ys) = length ?zs" by auto
  have mp: "mapped m ?d ?n" using mapped_sub [OF assms(4), of "length xs" ?n] assms(3) by simp
  have fit: "length ?zs < ?n" using assms(3) by simp
  have "holds m src ?zs" using assms(2) by (auto simp: cstr_def holds_append holds_take)
  then have cp: "memcpy m ?d src (length ?zs) = Some (?d, put m ?d ?zs)"
    using memcpy_put [of m src ?zs ?d] mapped_le [OF mp] fit assms(3,5) by auto
  have pos: "0 < ?d" using cstr_pos [OF assms(1)] by simp
  have "poke (put m ?d ?zs) (?d + length ?zs) 0 = Some ((put m ?d ?zs)(?d + length ?zs \<mapsto> 0))"
    using mapped_poke [OF mapped_put [OF mp pos]] fit by simp
  then show ?thesis
    using assms(1-3) cp unfolding strlcat_def by (simp add: len put_append Let_def del: length_take fun_upd_apply)
qed

section \<open>Comparing and searching strings\<close>

text \<open>The order of C strings: lexicographic on unsigned bytes, a proper prefix first.\<close>

fun compare_bytes :: "u8 list \<Rightarrow> u8 list \<Rightarrow> int" where
  "compare_bytes [] [] = 0"
| "compare_bytes [] (y # ys) = -1"
| "compare_bytes (x # xs) [] = 1"
| "compare_bytes (x # xs) (y # ys) = (if x = y then compare_bytes xs ys else if x < y then -1 else 1)"

lemma compare_bytes_eq_0: "compare_bytes xs ys = 0 \<longleftrightarrow> xs = ys"
  by (induction xs ys rule: compare_bytes.induct) auto

lemma compare_bytes_less: "compare_bytes xs ys = -1 \<longleftrightarrow> ord_class.lexordp xs ys"
  by (induction xs ys rule: compare_bytes.induct) auto

lemma compare_bytes_swap: "compare_bytes ys xs = - compare_bytes xs ys"
  by (induction xs ys rule: compare_bytes.induct) auto

lemma strcmp_cstr:
  "cstr m cs xs \<Longrightarrow> cstr m ct ys \<Longrightarrow> strcmp m cs ct = Some (compare_bytes xs ys)"
proof (induction xs ys arbitrary: cs ct rule: compare_bytes.induct)
  case (4 x xs y ys)
  then show ?case by (subst strcmp.simps) (simp add: cstr_Cons)
qed (subst strcmp.simps; simp add: cstr_Nil cstr_Cons word_gt_0)+

lemma uint_pos: "0 < uint (x :: u8) \<longleftrightarrow> x \<noteq> 0"
  using uint_ge_0 [of x] uint_0_iff [of x] by linarith

lemma arm_strcmp_cstr:
  "cstr m cs xs \<Longrightarrow> cstr m ct ys \<Longrightarrow> map_option sgn (arm_strcmp m cs ct) = Some (compare_bytes xs ys)"
proof (induction xs ys arbitrary: cs ct rule: compare_bytes.induct)
  case (4 x xs y ys)
  have "uint x = uint y \<longleftrightarrow> x = y" by (simp add: word_uint_eq_iff)
  then show ?case using 4 by (subst arm_strcmp.simps) (auto simp: cstr_Cons word_less_def sgn_if)
qed (subst arm_strcmp.simps; auto simp: cstr_Nil cstr_Cons uint_0_iff uint_pos sgn_if)+

lemma strncmp_bstr:
  "bstr m cs n xs \<Longrightarrow> bstr m ct n ys \<Longrightarrow> strncmp m cs ct n = Some (compare_bytes xs ys)"
proof (induction xs ys arbitrary: cs ct n rule: compare_bytes.induct)
  case 1
  then show ?case by (cases n) (simp_all add: bstr_Nil)
next
  case (2 y ys)
  then show ?case by (cases n) (simp_all add: bstr_Nil bstr_Cons word_gt_0)
next
  case (3 x xs)
  then show ?case by (cases n) (simp_all add: bstr_Nil bstr_Cons word_gt_0)
next
  case (4 x xs y ys)
  then show ?case by (cases n) (simp_all add: bstr_Cons)
qed

text \<open>\<open>upto c xs\<close>: the part of a string before the first \<open>c\<close>.\<close>

abbreviation upto_char :: "u8 \<Rightarrow> u8 list \<Rightarrow> u8 list" where
  "upto_char c \<equiv> takeWhile (\<lambda>x. x \<noteq> c)"

lemma strchr_cstr:
  "cstr m s xs \<Longrightarrow> strchr m s c =
     Some (if ucast c \<in> insert 0 (set xs) then s + length (upto_char (ucast c) xs) else 0)"
proof (induction xs arbitrary: s)
  case Nil
  then show ?case by (subst strchr.simps) (simp add: cstr_Nil)
next
  case (Cons x xs)
  then show ?case by (subst strchr.simps) (auto simp: cstr_Cons)
qed

lemma strchrnul_cstr:
  "cstr m s xs \<Longrightarrow> strchrnul m s c = Some (s + length (upto_char (ucast c) xs))"
proof (induction xs arbitrary: s)
  case Nil
  then show ?case by (subst strchrnul.simps) (simp add: cstr_Nil)
next
  case (Cons x xs)
  then show ?case by (subst strchrnul.simps) (auto simp: cstr_Cons)
qed

lemma strnchrnul_bstr:
  "bstr m s n xs \<Longrightarrow> strnchrnul m s n c = Some (s + length (upto_char (ucast c) xs))"
proof (induction n arbitrary: s xs)
  case (Suc n)
  then show ?case by (cases xs) (auto simp: bstr_Nil bstr_Cons)
qed simp

lemma strnchr_bstr:
  "bstr m s n xs \<Longrightarrow> strnchr m s n c =
     Some (if ucast c \<in> set xs \<or> ucast c = (0 :: u8) \<and> length xs < n then s + length (upto_char (ucast c) xs) else 0)"
proof (induction n arbitrary: s xs)
  case (Suc n)
  then show ?case by (cases xs) (auto simp: bstr_Nil bstr_Cons)
qed simp

lemma strnlen_bstr: "bstr m s n xs \<Longrightarrow> strnlen m s n = Some (length xs)"
proof -
  have "bstr m s n xs \<Longrightarrow> strnlen_loop m s n = Some (s + length xs)"
  proof (induction n arbitrary: s xs)
    case (Suc n)
    then show ?case by (cases xs) (auto simp: bstr_Nil bstr_Cons)
  qed simp
  then show "bstr m s n xs \<Longrightarrow> strnlen m s n = Some (length xs)" by (simp add: strnlen_def)
qed

text \<open>\<open>strrchr\<close> returns the address of the last occurrence: nothing after it is the character.\<close>

lemma strrchr_loop_cstr:
  "cstr m s xs \<Longrightarrow> strrchr_loop m s c hit =
     Some (if ucast c = (0 :: u8) then s + length xs
           else if ucast c \<in> set xs then s + length xs - Suc (length (upto_char (ucast c) (rev xs)))
           else hit)"
proof (induction xs arbitrary: s hit)
  case Nil
  then show ?case by (subst strrchr_loop.simps) (auto simp: cstr_Nil)
next
  case (Cons x xs)
  have "strrchr_loop m s c hit = strrchr_loop m (Suc s) c (if x = ucast c then s else hit)"
    using Cons.prems by (subst strrchr_loop.simps) (simp add: cstr_Cons)
  moreover have "length (upto_char (ucast c) (rev xs)) < length xs" if "ucast c \<in> set xs"
    using that length_takeWhile_less [of "rev xs" "\<lambda>x. x \<noteq> ucast c"] by auto
  moreover have "upto_char (ucast c) (rev xs @ [x]) = rev xs @ upto_char (ucast c) [x]" if "ucast c \<notin> set xs"
    using that by (intro takeWhile_append2) auto
  ultimately show ?case using Cons by (auto simp: cstr_Cons)
qed

lemma strrchr_cstr:
  assumes "cstr m s xs" and "ucast c \<noteq> (0 :: u8)"
  shows "strrchr m s c = Some (if ucast c \<in> set xs then s + length xs - Suc (length (upto_char (ucast c) (rev xs))) else 0)"
  using assms by (simp add: strrchr_def strrchr_loop_cstr)

lemma strchr_member:
  assumes "cstr m t ts" "x \<noteq> 0"
  shows "\<exists>r. strchr m t (ucast x) = Some r \<and> (r \<noteq> 0) = (x \<in> set ts)"
proof -
  have "ucast (ucast x :: u32) = x" by (rule bit_word_eqI) (auto simp: bit_simps)
  then show ?thesis using strchr_cstr [OF assms(1), of "ucast x"] assms(2) cstr_pos [OF assms(1)] by auto
qed

lemma span_loop_cstr:
  assumes "cstr m t ts"
  shows "cstr m p xs \<Longrightarrow>
    span_loop m stay p t = Some (p + length (takeWhile (\<lambda>x. (x \<in> set ts) = stay) xs))"
proof (induction xs arbitrary: p)
  case Nil
  then show ?case by (subst span_loop.simps) (simp add: cstr_Nil)
next
  case (Cons x xs)
  then have x: "peek m p = Some x" "x \<noteq> 0" "cstr m (Suc p) xs" by (auto simp: cstr_Cons)
  obtain r where "strchr m t (ucast x) = Some r" "(r \<noteq> 0) = (x \<in> set ts)"
    using strchr_member [OF assms x(2)] by blast
  then show ?case using x Cons.IH by (subst span_loop.simps) auto
qed

lemma strspn_cstr:
  "cstr m s xs \<Longrightarrow> cstr m t ts \<Longrightarrow> strspn m s t = Some (length (takeWhile (\<lambda>x. x \<in> set ts) xs))"
  by (simp add: strspn_def span_loop_cstr)

lemma strcspn_cstr:
  "cstr m s xs \<Longrightarrow> cstr m t ts \<Longrightarrow> strcspn m s t = Some (length (takeWhile (\<lambda>x. x \<notin> set ts) xs))"
  by (simp add: strcspn_def span_loop_cstr)

lemma cstr_peek: "cstr m s xs \<Longrightarrow> i \<le> length xs \<Longrightarrow> peek m (s + i) = Some ((xs @ [0]) ! i)"
  by (auto simp: cstr_def holds_nth simp del: holds.simps)

lemma strpbrk_cstr:
  assumes "cstr m s xs" "cstr m t ts"
  shows "strpbrk m s t = Some (if \<exists>x \<in> set xs. x \<in> set ts then s + length (takeWhile (\<lambda>x. x \<notin> set ts) xs) else 0)"
proof -
  let ?k = "length (takeWhile (\<lambda>x. x \<notin> set ts) xs)"
  have k: "?k \<le> length xs" by (rule length_takeWhile_le)
  have pk: "peek m (s + ?k) = Some ((xs @ [0]) ! ?k)" by (rule cstr_peek [OF assms(1) k])
  show ?thesis
  proof (cases "\<exists>x \<in> set xs. x \<in> set ts")
    case True
    then have "?k < length xs" by (metis length_takeWhile_less)
    moreover from this have "xs ! ?k \<noteq> 0" using assms(1) nth_mem by (metis cstr_def)
    ultimately show ?thesis using True pk assms by (simp add: strpbrk_def span_loop_cstr nth_append)
  next
    case False
    then have "takeWhile (\<lambda>x. x \<notin> set ts) xs = xs" by (auto simp: takeWhile_eq_all_conv)
    moreover have "peek m (s + length xs) = Some 0" using cstr_peek [OF assms(1), of "length xs"] by simp
    ultimately show ?thesis using False assms by (simp add: strpbrk_def span_loop_cstr del: takeWhile_eq_all_conv)
  qed
qed

section \<open>Splitting into tokens\<close>

lemma strsep_end:
  assumes "cstr m s xs" "cstr m t ts" "\<forall>x \<in> set xs. x \<notin> set ts"
  shows "strsep m s t = Some (s, 0, m)"
  using strpbrk_cstr [OF assms(1,2)] cstr_pos [OF assms(1)] assms(3) by (auto simp: strsep_def)

lemma strsep_token:
  assumes "cstr m s (xs @ d # ys)" "cstr m t ts" "\<forall>x \<in> set xs. x \<notin> set ts" "d \<in> set ts"
  shows "strsep m s t = Some (s, s + length xs + 1, m(s + length xs \<mapsto> 0))"
    "cstr (m(s + length xs \<mapsto> 0)) s xs" "cstr (m(s + length xs \<mapsto> 0)) (s + length xs + 1) ys"
proof -
  let ?e = "s + length xs"
  have s: "0 < s" using cstr_pos [OF assms(1)] .
  have "takeWhile (\<lambda>x. x \<notin> set ts) (xs @ d # ys) = xs" using assms(3,4) by (simp add: takeWhile_append2)
  then have e: "strpbrk m s t = Some ?e" using strpbrk_cstr [OF assms(1,2)] assms(4) by auto
  have h: "holds m s xs" "cstr m (Suc ?e) ys" "peek m ?e = Some d" "0 \<notin> set xs"
    using assms(1) by (auto simp: cstr_def holds_append)
  then show "strsep m s t = Some (s, ?e + 1, m(?e \<mapsto> 0))"
    using e s by (simp add: strsep_def poke_mapped)
  show "cstr (m(?e \<mapsto> 0)) s xs" "cstr (m(?e \<mapsto> 0)) (?e + 1) ys"
    using h s by (auto simp: cstr_def holds_append holds_upd simp del: fun_upd_apply holds.simps)
      (simp_all add: holds_nth)
qed

section \<open>Memory blocks\<close>

lemma memset_put:
  "mapped m s n \<Longrightarrow> memset m s c n = Some (s, put m s (replicate n (ucast c)))"
proof -
  have "mapped m s n \<Longrightarrow> memset_loop m s v n = Some (put m s (replicate n v))" for v
  proof (induction n arbitrary: m s)
    case (Suc n)
    then show ?case by (simp add: mapped_Suc poke_mapped mapped_upd del: fun_upd_apply)
  qed simp
  then show "mapped m s n \<Longrightarrow> memset m s c n = Some (s, put m s (replicate n (ucast c)))"
    by (simp add: memset_def)
qed

lemma mapped_add: "mapped m a (n + k) \<longleftrightarrow> mapped m a n \<and> mapped m (a + n) k"
proof (induction n arbitrary: a)
  case (Suc n)
  then show ?case by (simp add: mapped_Suc)
qed simp

lemma memsetw_put:
  "mapped m s (n * length bs) \<Longrightarrow> 0 < s \<Longrightarrow> memsetw_loop m s bs n = Some (put m s (concat (replicate n bs)))"
proof (induction n arbitrary: m s)
  case (Suc n)
  then have "mapped m s (length bs)" "mapped m (s + length bs) (n * length bs)"
    by (simp_all add: mapped_add)
  then show ?case using Suc.IH [of "put m s bs" "s + length bs"] Suc.prems
    by (simp add: poke_all_put put_append)
qed simp

lemma memcmp_holds:
  "holds m a xs \<Longrightarrow> holds m b ys \<Longrightarrow> length xs = length ys \<Longrightarrow>
   \<exists>r. memcmp m a b (length xs) = Some r \<and> sgn r = compare_bytes xs ys"
proof (induction xs ys arbitrary: a b rule: compare_bytes.induct)
  case (4 x xs y ys)
  then show ?case by (auto simp: word_less_def word_uint_eq_iff)
qed auto

lemma memcmp_eq_0:
  assumes "holds m a xs" "holds m b ys" "length xs = length ys"
  shows "\<exists>r. memcmp m a b (length xs) = Some r \<and> (r = 0) = (xs = ys)"
  using memcmp_holds [OF assms] compare_bytes_eq_0 [of xs ys] sgn_0_0 by metis

lemma memscan_holds: "holds m a xs \<Longrightarrow> memscan m a c (length xs) = Some (a + length (upto_char (ucast c) xs))"
  by (induction xs arbitrary: a) auto

lemma memchr_holds:
  "holds m a xs \<Longrightarrow> memchr m a c (length xs) =
     Some (if ucast c \<in> set xs then a + length (upto_char (ucast c) xs) else 0)"
  by (induction xs arbitrary: a) auto

text \<open>\<open>occurs ys xs i\<close>: \<open>ys\<close> stands at index \<open>i\<close> of \<open>xs\<close>.\<close>

definition occurs :: "u8 list \<Rightarrow> u8 list \<Rightarrow> nat \<Rightarrow> bool" where
  "occurs ys xs i \<longleftrightarrow> i + length ys \<le> length xs \<and> take (length ys) (drop i xs) = ys"

lemma occurs_prefix: "occurs ys xs i \<longleftrightarrow> i \<le> length xs \<and> prefix ys (drop i xs)"
  by (auto simp: occurs_def prefix_def append_eq_conv_conj) (metis add.commute le_diff_conv2 length_append length_drop nat_le_linear append_take_drop_id le_add1)+

text \<open>\<open>first_at ys xs r\<close>: \<open>r\<close> is the first index of \<open>ys\<close> in \<open>xs\<close>, if there is one.\<close>

definition first_at :: "u8 list \<Rightarrow> u8 list \<Rightarrow> nat option \<Rightarrow> bool" where
  "first_at ys xs r \<longleftrightarrow>
     (case r of None \<Rightarrow> \<forall>i. \<not> occurs ys xs i | Some i \<Rightarrow> occurs ys xs i \<and> (\<forall>j < i. \<not> occurs ys xs j))"

lemma occurs_Cons: "occurs ys (x # xs) (Suc i) \<longleftrightarrow> occurs ys xs i"
  by (simp add: occurs_def)

lemma first_at_Cons:
  assumes "\<not> occurs ys (x # xs) 0" "first_at ys xs r"
  shows "first_at ys (x # xs) (map_option Suc r)"
proof (cases r)
  case None
  then have "\<not> occurs ys (x # xs) i" for i using assms by (cases i) (auto simp: first_at_def occurs_Cons)
  then show ?thesis using None by (simp add: first_at_def)
next
  case (Some i)
  have "\<not> occurs ys (x # xs) j" if "j < Suc i" for j
    using that assms Some by (cases j) (auto simp: first_at_def occurs_Cons)
  then show ?thesis using Some assms by (simp add: first_at_def occurs_Cons)
qed

lemma strstr_loop_first:
  assumes "holds m t ys" "ys \<noteq> []"
  shows "holds m s xs \<Longrightarrow> 0 < s \<Longrightarrow>
    \<exists>r. first_at ys xs r \<and> strstr_loop m s t (length ys) (length xs) = Some (case r of None \<Rightarrow> 0 | Some i \<Rightarrow> s + i)"
proof (induction xs arbitrary: s)
  case Nil
  have "first_at ys [] None" using assms(2) by (simp add: first_at_def occurs_def)
  then show ?case using assms(2) by (intro exI [of _ None]) simp
next
  case (Cons x xs)
  show ?case
  proof (cases "length (x # xs) < length ys")
    case True
    then have "first_at ys (x # xs) None" by (simp add: first_at_def occurs_def)
    then show ?thesis using True by (intro exI [of _ None]) simp
  next
    case False
    let ?h = "take (length ys) (x # xs)"
    have "holds m s ?h" "length ?h = length ys" using Cons.prems(1) False by (simp_all only: holds_take) simp_all
    then obtain c where c: "memcmp m s t (length ys) = Some c" "(c = 0) = (?h = ys)"
      using memcmp_eq_0 [of m s ?h t ys] assms(1) by auto
    have hit: "occurs ys (x # xs) 0 \<longleftrightarrow> c = 0" using False c(2) by (auto simp: occurs_def)
    obtain r where r: "first_at ys xs r"
        "strstr_loop m (Suc s) t (length ys) (length xs) = Some (case r of None \<Rightarrow> 0 | Some i \<Rightarrow> Suc s + i)"
      using Cons.IH [of "Suc s"] Cons.prems by auto
    show ?thesis
    proof (cases "c = 0")
      case True
      then have "first_at ys (x # xs) (Some 0)" using hit by (simp add: first_at_def)
      then show ?thesis using True c(1) False assms(2) by (intro exI [of _ "Some 0"]) simp
    next
      case nh: False
      then have "first_at ys (x # xs) (map_option Suc r)" using first_at_Cons hit r(1) by blast
      moreover have "strstr_loop m s t (length ys) (length (x # xs)) =
          Some (case map_option Suc r of None \<Rightarrow> 0 | Some i \<Rightarrow> s + i)"
        using nh c(1) False assms(2) r(2) by (cases r) simp_all
      ultimately show ?thesis by blast
    qed
  qed
qed

lemma strstr_first:
  assumes "cstr m s xs" "cstr m t ys"
  shows "\<exists>r. first_at ys xs r \<and> strstr m s t = Some (case r of None \<Rightarrow> 0 | Some i \<Rightarrow> s + i)"
proof (cases "ys = []")
  case True
  then have "first_at ys xs (Some 0)" by (simp add: first_at_def occurs_def)
  then show ?thesis using assms True by (intro exI [of _ "Some 0"]) (simp add: strstr_def)
next
  case False
  have "holds m t ys" "holds m s xs" "0 < s" using assms cstr_pos by (auto simp: cstr_def holds_append)
  then obtain r where "first_at ys xs r" "strstr_loop m s t (length ys) (length xs) = Some (case r of None \<Rightarrow> 0 | Some i \<Rightarrow> s + i)"
    using strstr_loop_first [OF _ False] by blast
  then show ?thesis using assms False by (auto simp: strstr_def simp del: strstr_loop.simps)
qed

section \<open>Word-wise search\<close>

lemma spread_of_bytes: "spread v = of_bytes (replicate 8 v)"
proof -
  have "replicate 8 v = [v, v, v, v, v, v, v, v]" by (simp add: numeral_eq_Suc)
  then show ?thesis by (simp add: spread_def Let_def push_bit_or or.assoc)
qed

lemma load64_spread:
  assumes "holds m a bs" "length bs = 8"
  shows "\<exists>w. load64 m a = Some w \<and> (w = spread v) = (bs = replicate 8 v)"
proof -
  have "peek_all m a 8 = Some bs" using assms by (simp add: peek_all_holds)
  then have "load64 m a = Some (of_bytes bs)" by (simp add: load64_def)
  moreover have "(of_bytes bs = spread v) = (bs = replicate 8 v)"
    using of_bytes_inj [of bs "replicate 8 v", where ?'a = 64] assms(2) by (auto simp: spread_of_bytes)
  ultimately show ?thesis by blast
qed

lemma check_bytes8_holds:
  "holds m a xs \<Longrightarrow> check_bytes8 m a v (length xs) =
     Some (if xs = replicate (length xs) v then 0 else a + length (takeWhile (\<lambda>x. x = v) xs))"
  by (induction xs arbitrary: a) auto

lemma check_bytes8_split:
  "mapped m a (i + j) \<Longrightarrow> 0 < a \<Longrightarrow>
   check_bytes8 m a v (i + j) = do { r \<leftarrow> check_bytes8 m a v i; if r \<noteq> 0 then Some r else check_bytes8 m (a + i) v j }"
proof (induction i arbitrary: a)
  case (Suc i)
  then show ?case using Suc.IH [of "Suc a"] by (auto simp: mapped_Suc cong: if_cong)
qed simp

lemma inv_words_check:
  "mapped m a (8 * n + k) \<Longrightarrow> 0 < a \<Longrightarrow>
   check_bytes8 m a v (8 * n + k) = do {
     w \<leftarrow> inv_words m a v n;
     case w of Inr r \<Rightarrow> Some r | Inl b \<Rightarrow> check_bytes8 m b v k }"
proof (induction n arbitrary: a)
  case (Suc n)
  have mp: "mapped m a (8 + (8 * n + k))" using Suc.prems by (simp add: add.assoc)
  have tl: "mapped m (a + 8) (8 * n + k)" using mapped_sub [OF mp, of 8] by simp
  obtain bs where bs: "length bs = 8" "holds m a bs" using mapped_holds [OF mapped_le [OF mp, of 8]] by auto
  obtain w where w: "load64 m a = Some w" "(w = spread v) = (bs = replicate 8 v)" using load64_spread bs by blast
  have c: "check_bytes8 m a v 8 = Some (if bs = replicate 8 v then 0 else a + length (takeWhile (\<lambda>x. x = v) bs))"
    using check_bytes8_holds [OF bs(2), of v] bs(1) by simp
  have "check_bytes8 m a v (8 * Suc n + k) = check_bytes8 m a v (8 + (8 * n + k))" by (simp add: add.assoc)
  also have "\<dots> = do { r \<leftarrow> check_bytes8 m a v 8; if r \<noteq> 0 then Some r else check_bytes8 m (a + 8) v (8 * n + k) }"
    by (rule check_bytes8_split [OF mp Suc.prems(2)])
  finally show ?case using w c Suc.IH [OF tl] Suc.prems(2) by (cases "bs = replicate 8 v") auto
qed simp

lemma memchr_inv_check:
  assumes "mapped m a n" "0 < a"
  shows "memchr_inv m a c n = check_bytes8 m a (ucast c) n"
proof (cases "n \<le> 16")
  case True
  then show ?thesis by (simp add: memchr_inv_def)
next
  case False
  let ?v = "ucast c :: u8"
  define p where "p = (if a mod 8 \<noteq> 0 then 8 - a mod 8 else 0)"
  define k where "k = n - p"
  have n: "n = p + k" "p \<le> 8" using False by (auto simp: p_def k_def)
  have tl: "mapped m (a + p) k" using mapped_sub [OF assms(1), of p k] n by simp
  have k8: "8 * (k div 8) + k mod 8 = k" by simp
  have split: "check_bytes8 m a ?v n = do { r \<leftarrow> check_bytes8 m a ?v p; if r \<noteq> 0 then Some r else check_bytes8 m (a + p) ?v k }"
    using check_bytes8_split [of m a p k] assms n by simp
  have words: "check_bytes8 m (a + p) ?v k = do { w \<leftarrow> inv_words m (a + p) ?v (k div 8);
      case w of Inr r \<Rightarrow> Some r | Inl b \<Rightarrow> check_bytes8 m b ?v (k mod 8) }"
    using inv_words_check [of m "a + p" "k div 8" "k mod 8"] tl assms(2) unfolding k8 by simp
  have "memchr_inv m a c n = do {
      r \<leftarrow> (if p \<noteq> 0 then check_bytes8 m a ?v p else Some 0);
      if r \<noteq> 0 then Some r
      else do { w \<leftarrow> inv_words m (a + p) ?v (k div 8);
                case w of Inr r \<Rightarrow> Some r | Inl b \<Rightarrow> check_bytes8 m b ?v (k mod 8) } }"
    using False by (simp add: memchr_inv_def Let_def p_def k_def cong: if_cong)
  also have "(if p \<noteq> 0 then check_bytes8 m a ?v p else Some 0) = check_bytes8 m a ?v p" by simp
  finally show ?thesis unfolding split words .
qed

section \<open>Properties\<close>

text \<open>Memory for the witnesses: bytes 1000 to 1063, three strings and a scratch area among them.\<close>

definition demo :: mem where
  "demo = put (put (put (put (\<lambda>_. None) 1000 (replicate 64 7)) 1000 [97, 98, 97, 98, 99, 0]) 1010 [97, 98, 99, 0]) 1020 [98, 0]"

lemma demo_cstr: "cstr demo 1000 [97, 98, 97, 98, 99]" "cstr demo 1010 [97, 98, 99]" "cstr demo 1020 [98]"
  by (simp_all add: demo_def cstr_Cons cstr_Nil peek_put nth_Cons')

lemma demo_mapped: "mapped demo 1000 64"
proof -
  have "mapped (put (\<lambda>_. None) 1000 (replicate 64 7)) 1000 64"
    using holds_mapped [OF holds_put, of 1000 "\<lambda>_. None" "replicate 64 7"] by simp
  then have "mapped (put (put (\<lambda>_. None) 1000 (replicate 64 7)) 1000 bs) 1000 64" for bs by (rule mapped_put) simp
  then show ?thesis unfolding demo_def by (metis mapped_put zero_less_numeral)
qed

text \<open>C22: \<open>memmove\<close> copies a block onto any mapped destination, however the two overlap: afterwards the
  destination holds the bytes the source held before, and no other byte has changed. The routine that arm_m runs in its
  place does the same.\<close>

theorem memmove_overlap:
  assumes "holds m src xs" "mapped m dest (length xs)" "0 < dest"
  shows "\<exists>m'. memmove m dest src (length xs) = Some (dest, m') \<and>
     arm_memmove m dest src (length xs) = Some (dest, m') \<and> holds m' dest xs \<and>
     (\<forall>x. x < dest \<or> dest + length xs \<le> x \<longrightarrow> m' x = m x)"
  using memmove_put [OF assms(1,2)] arm_memmove_put [OF assms(1,2)] holds_put [OF assms(3)] by (auto simp: put_apply)

lemma memmove_overlap_witness:
  "\<exists>m'. memmove demo 1002 1000 5 = Some (1002, m') \<and> arm_memmove demo 1002 1000 5 = Some (1002, m') \<and> holds m' 1002 [97, 98, 97, 98, 99]"
proof -
  have "holds demo 1000 [97, 98, 97, 98, 99]" using demo_cstr(1) by (simp add: cstr_def)
  moreover have len: "length [97, 98, 97, 98, 99 :: u8] = 5" by simp
  moreover have "mapped demo 1002 5" using mapped_sub [OF demo_mapped, of 2 5] by simp
  ultimately show ?thesis
    using memmove_overlap [of demo 1000 "[97, 98, 97, 98, 99]" 1002] unfolding len by (metis zero_less_numeral)
qed

text \<open>\<open>strcmp\<close> decides the lexicographic order of two strings: 0 exactly when they are equal, -1 when the
  first comes first, and exchanging the arguments negates the result; the result of arm_m's routine has that sign.\<close>

theorem strcmp_order:
  assumes "cstr m a xs" "cstr m b ys"
  shows "\<exists>r. strcmp m a b = Some r \<and> strcmp m b a = Some (- r) \<and> r \<in> {-1, 0, 1} \<and>
     (r = 0 \<longleftrightarrow> xs = ys) \<and> (r = -1 \<longleftrightarrow> ord_class.lexordp xs ys) \<and> map_option sgn (arm_strcmp m a b) = Some r"
proof -
  have "compare_bytes xs ys \<in> {-1, 0, 1}" by (induction xs ys rule: compare_bytes.induct) auto
  then show ?thesis
    unfolding strcmp_cstr [OF assms] arm_strcmp_cstr [OF assms] strcmp_cstr [OF assms(2,1)] compare_bytes_swap [of xs ys]
      compare_bytes_eq_0 [of xs ys, symmetric] compare_bytes_less [of xs ys, symmetric] by simp
qed

lemma strcmp_order_witness: "strcmp demo 1000 1010 = Some (-1) \<and> strcmp demo 1010 1000 = Some 1"
proof -
  have "ord_class.lexordp [97, 98, 97, 98, 99] [97, 98, 99 :: u8]" by simp
  then show ?thesis using strcmp_order [OF demo_cstr(1,2)] by force
qed

text \<open>C25: \<open>strstr\<close> returns the address of the first occurrence of the second string in the first, the first
  string itself when the second is empty, and NULL exactly when there is none.\<close>

theorem strstr_finds_first:
  assumes "cstr m s xs" "cstr m t ys"
  shows "\<exists>r. strstr m s t = Some r \<and>
     (if r = 0 then \<forall>i. \<not> occurs ys xs i
      else \<exists>i. r = s + i \<and> occurs ys xs i \<and> (\<forall>j < i. \<not> occurs ys xs j))"
proof -
  obtain r where r: "first_at ys xs r" "strstr m s t = Some (case r of None \<Rightarrow> 0 | Some i \<Rightarrow> s + i)"
    using strstr_first [OF assms] by blast
  show ?thesis using r cstr_pos [OF assms(1)] by (cases r) (auto simp: first_at_def)
qed

lemma strstr_finds_first_witness: "strstr demo 1000 1010 = Some 1002"
proof -
  obtain r where r: "strstr demo 1000 1010 = Some r"
      "if r = 0 then \<forall>i. \<not> occurs [97, 98, 99] [97, 98, 97, 98, 99] i
       else \<exists>i. r = 1000 + i \<and> occurs [97, 98, 99] [97, 98, 97, 98, 99] i \<and> (\<forall>j < i. \<not> occurs [97, 98, 99] [97, 98, 97, 98, 99] j)"
    using strstr_finds_first [OF demo_cstr(1,2)] by blast
  have hit: "occurs [97, 98, 99] [97, 98, 97, 98, 99] 2" by (simp add: occurs_def)
  have "i = 2" if "occurs [97, 98, 99] [97, 98, 97, 98, 99 :: u8] i" for i
  proof -
    have "i = 0 \<or> i = 1 \<or> i = 2" using that by (auto simp: occurs_def)
    then show ?thesis using that by (auto simp: occurs_def)
  qed
  then show ?thesis using r hit by (auto split: if_splits)
qed

text \<open>\<open>strsep\<close> splits a string at the first delimiter: it returns the start, terminates the token there
  and leaves the rest as the string still to split; with no delimiter left the token is the whole
  string and the rest NULL.\<close>

theorem strsep_splits:
  assumes "cstr m s xs" "cstr m t ts"
  shows "let k = length (takeWhile (\<lambda>x. x \<notin> set ts) xs) in
     if k = length xs then strsep m s t = Some (s, 0, m)
     else \<exists>m'. strsep m s t = Some (s, s + k + 1, m') \<and> cstr m' s (take k xs) \<and> cstr m' (s + k + 1) (drop (k + 1) xs) \<and>
          m' = m(s + k \<mapsto> 0)"
proof (cases "\<exists>x \<in> set xs. x \<in> set ts")
  case False
  then have "length (takeWhile (\<lambda>x. x \<notin> set ts) xs) = length xs" by (simp add: takeWhile_eq_all_conv [THEN iffD2])
  then show ?thesis using strsep_end [OF assms] False by (auto simp: Let_def)
next
  case True
  then obtain ys d zs where xs: "xs = ys @ d # zs" "d \<in> set ts" "\<forall>y \<in> set ys. y \<notin> set ts"
    using split_list_first_prop [of xs "\<lambda>x. x \<in> set ts"] by auto
  then have "takeWhile (\<lambda>x. x \<notin> set ts) xs = ys" by (simp add: takeWhile_append2)
  then show ?thesis using strsep_token [OF assms(1)[unfolded xs(1)] assms(2) xs(3,2)] xs(1)
    by (simp add: Let_def del: fun_upd_apply)
qed

lemma strsep_splits_witness:
  "\<exists>m'. strsep demo 1000 1020 = Some (1000, 1002, m') \<and> cstr m' 1000 [97] \<and> cstr m' 1002 [97, 98, 99]"
  using strsep_splits [OF demo_cstr(1,3)] by (auto simp: Let_def)

text \<open>The word-at-a-time search of \<open>memchr_inv\<close>, whatever the alignment and the length, returns what the
  byte loop returns: the first byte that differs from \<open>c\<close>, or NULL when the block holds nothing else.\<close>

theorem memchr_inv_bytewise:
  assumes "holds m a xs" "0 < a"
  shows "memchr_inv m a c (length xs) = check_bytes8 m a (ucast c) (length xs) \<and>
     memchr_inv m a c (length xs) =
       Some (if \<forall>x \<in> set xs. x = ucast c then 0 else a + length (takeWhile (\<lambda>x. x = ucast c) xs))"
proof -
  have "xs = replicate (length xs) (ucast c) \<longleftrightarrow> (\<forall>x \<in> set xs. x = ucast c)"
    using replicate_length_same [of xs "ucast c"] by (metis in_set_replicate)
  then show ?thesis
    unfolding memchr_inv_check [OF holds_mapped [OF assms(1)] assms(2), of c] check_bytes8_holds [OF assms(1)]
    by simp
qed

lemma memchr_inv_bytewise_witness:
  "memchr_inv (put (\<lambda>_. None) 13 (replicate 30 5 @ [6])) 13 5 31 = Some 43"
proof -
  have "length (takeWhile (\<lambda>x. x = 5) (replicate 30 5 @ [6 :: u8])) = 30"
    by (subst takeWhile_append2) auto
  then show ?thesis
    using memchr_inv_bytewise [OF holds_put, of 13 "\<lambda>_. None" "replicate 30 5 @ [6]" 5, THEN conjunct2] by simp
qed

text \<open>\<open>strlcat\<close> never writes past its \<open>count\<close> bytes and always leaves a terminated string: the old one
  followed by as much of the source as fits. It returns the length the full concatenation would have.\<close>

theorem strlcat_bounded:
  assumes "cstr m dest xs" "cstr m src ys" "length xs < count" "mapped m dest count"
    "src + length ys < dest \<or> dest + count \<le> src" "length xs + length ys < 4294967296"
  shows "\<exists>m'. strlcat m dest src count = Some (length xs + length ys, m') \<and>
     cstr m' dest (xs @ take (count - length xs - 1) ys) \<and> (\<forall>x. x < dest \<or> dest + count \<le> x \<longrightarrow> m' x = m x)"
proof -
  let ?zs = "take (count - length xs - 1) ys" and ?d = "dest + length xs"
  let ?m = "put m ?d (?zs @ [0])"
  have d: "0 < dest" using cstr_pos [OF assms(1)] .
  have "holds ?m dest xs" using assms(1) d by (subst holds_put_other) (auto simp: cstr_def holds_append)
  moreover have "holds ?m ?d (?zs @ [0])" using d by (intro holds_put) simp
  ultimately have "cstr ?m dest (xs @ ?zs)"
    using assms(1,2) by (auto simp: cstr_def holds_append dest: in_set_takeD)
  moreover have "\<forall>x. x < dest \<or> dest + count \<le> x \<longrightarrow> ?m x = m x" using assms(3) by (auto simp: put_apply)
  ultimately show ?thesis using strlcat_put [OF assms(1-5)] assms(6) by simp
qed

lemma strlcat_bounded_witness:
  "\<exists>m'. strlcat demo 1020 1010 3 = Some (4, m') \<and> cstr m' 1020 [98, 97]"
proof -
  have "mapped demo 1020 3" using mapped_sub [OF demo_mapped, of 20 3] by simp
  then show ?thesis using strlcat_bounded [OF demo_cstr(3,2), of 3] by auto
qed

end
