(* ===== verification/Crc.thy ===== *)
theory Crc
  imports Bytes
begin

text \<open>
  The checksums of \<^verbatim>\<open>lib/crc4.c\<close>, \<^verbatim>\<open>crc7.c\<close>, \<^verbatim>\<open>crc8.c\<close>, \<^verbatim>\<open>crc16.c\<close> and
  \<^verbatim>\<open>crc32.c\<close> with their tables, and the polynomial division they compute: the locale
  \<open>lsb_crc\<close> for the reflected ones (CRC-8 LSB, CRC-16, CRC-32) and
  definitions of their own for those that start at the top bit (CRC-7, CRC-8 MSB). The tables are checked against the polynomial, and a
  reflected CRC of width \<open>w\<close> is shown to tell apart any two buffers that differ within \<open>w\<close> bits.
\<close>

section \<open>Tables and routines\<close>

definition crc4_tab :: "u8 list" where
  "crc4_tab = [
     0x0, 0x7, 0xE, 0x9, 0xB, 0xC, 0x5, 0x2, 0x1, 0x6, 0xF, 0x8, 0xA, 0xD, 0x4, 0x3]"

definition crc7_be_syndrome_table :: "u8 list" where
  "crc7_be_syndrome_table = [
     0x00, 0x12, 0x24, 0x36, 0x48, 0x5A, 0x6C, 0x7E, 0x90, 0x82, 0xB4, 0xA6, 0xD8, 0xCA, 0xFC, 0xEE,
     0x32, 0x20, 0x16, 0x04, 0x7A, 0x68, 0x5E, 0x4C, 0xA2, 0xB0, 0x86, 0x94, 0xEA, 0xF8, 0xCE, 0xDC,
     0x64, 0x76, 0x40, 0x52, 0x2C, 0x3E, 0x08, 0x1A, 0xF4, 0xE6, 0xD0, 0xC2, 0xBC, 0xAE, 0x98, 0x8A,
     0x56, 0x44, 0x72, 0x60, 0x1E, 0x0C, 0x3A, 0x28, 0xC6, 0xD4, 0xE2, 0xF0, 0x8E, 0x9C, 0xAA, 0xB8,
     0xC8, 0xDA, 0xEC, 0xFE, 0x80, 0x92, 0xA4, 0xB6, 0x58, 0x4A, 0x7C, 0x6E, 0x10, 0x02, 0x34, 0x26,
     0xFA, 0xE8, 0xDE, 0xCC, 0xB2, 0xA0, 0x96, 0x84, 0x6A, 0x78, 0x4E, 0x5C, 0x22, 0x30, 0x06, 0x14,
     0xAC, 0xBE, 0x88, 0x9A, 0xE4, 0xF6, 0xC0, 0xD2, 0x3C, 0x2E, 0x18, 0x0A, 0x74, 0x66, 0x50, 0x42,
     0x9E, 0x8C, 0xBA, 0xA8, 0xD6, 0xC4, 0xF2, 0xE0, 0x0E, 0x1C, 0x2A, 0x38, 0x46, 0x54, 0x62, 0x70,
     0x82, 0x90, 0xA6, 0xB4, 0xCA, 0xD8, 0xEE, 0xFC, 0x12, 0x00, 0x36, 0x24, 0x5A, 0x48, 0x7E, 0x6C,
     0xB0, 0xA2, 0x94, 0x86, 0xF8, 0xEA, 0xDC, 0xCE, 0x20, 0x32, 0x04, 0x16, 0x68, 0x7A, 0x4C, 0x5E,
     0xE6, 0xF4, 0xC2, 0xD0, 0xAE, 0xBC, 0x8A, 0x98, 0x76, 0x64, 0x52, 0x40, 0x3E, 0x2C, 0x1A, 0x08,
     0xD4, 0xC6, 0xF0, 0xE2, 0x9C, 0x8E, 0xB8, 0xAA, 0x44, 0x56, 0x60, 0x72, 0x0C, 0x1E, 0x28, 0x3A,
     0x4A, 0x58, 0x6E, 0x7C, 0x02, 0x10, 0x26, 0x34, 0xDA, 0xC8, 0xFE, 0xEC, 0x92, 0x80, 0xB6, 0xA4,
     0x78, 0x6A, 0x5C, 0x4E, 0x30, 0x22, 0x14, 0x06, 0xE8, 0xFA, 0xCC, 0xDE, 0xA0, 0xB2, 0x84, 0x96,
     0x2E, 0x3C, 0x0A, 0x18, 0x66, 0x74, 0x42, 0x50, 0xBE, 0xAC, 0x9A, 0x88, 0xF6, 0xE4, 0xD2, 0xC0,
     0x1C, 0x0E, 0x38, 0x2A, 0x54, 0x46, 0x70, 0x62, 0x8C, 0x9E, 0xA8, 0xBA, 0xC4, 0xD6, 0xE0, 0xF2]"

definition crc16_table :: "u16 list" where
  "crc16_table = [
     0x0000, 0xC0C1, 0xC181, 0x0140, 0xC301, 0x03C0, 0x0280, 0xC241, 0xC601, 0x06C0, 0x0780, 0xC741,
     0x0500, 0xC5C1, 0xC481, 0x0440, 0xCC01, 0x0CC0, 0x0D80, 0xCD41, 0x0F00, 0xCFC1, 0xCE81, 0x0E40,
     0x0A00, 0xCAC1, 0xCB81, 0x0B40, 0xC901, 0x09C0, 0x0880, 0xC841, 0xD801, 0x18C0, 0x1980, 0xD941,
     0x1B00, 0xDBC1, 0xDA81, 0x1A40, 0x1E00, 0xDEC1, 0xDF81, 0x1F40, 0xDD01, 0x1DC0, 0x1C80, 0xDC41,
     0x1400, 0xD4C1, 0xD581, 0x1540, 0xD701, 0x17C0, 0x1680, 0xD641, 0xD201, 0x12C0, 0x1380, 0xD341,
     0x1100, 0xD1C1, 0xD081, 0x1040, 0xF001, 0x30C0, 0x3180, 0xF141, 0x3300, 0xF3C1, 0xF281, 0x3240,
     0x3600, 0xF6C1, 0xF781, 0x3740, 0xF501, 0x35C0, 0x3480, 0xF441, 0x3C00, 0xFCC1, 0xFD81, 0x3D40,
     0xFF01, 0x3FC0, 0x3E80, 0xFE41, 0xFA01, 0x3AC0, 0x3B80, 0xFB41, 0x3900, 0xF9C1, 0xF881, 0x3840,
     0x2800, 0xE8C1, 0xE981, 0x2940, 0xEB01, 0x2BC0, 0x2A80, 0xEA41, 0xEE01, 0x2EC0, 0x2F80, 0xEF41,
     0x2D00, 0xEDC1, 0xEC81, 0x2C40, 0xE401, 0x24C0, 0x2580, 0xE541, 0x2700, 0xE7C1, 0xE681, 0x2640,
     0x2200, 0xE2C1, 0xE381, 0x2340, 0xE101, 0x21C0, 0x2080, 0xE041, 0xA001, 0x60C0, 0x6180, 0xA141,
     0x6300, 0xA3C1, 0xA281, 0x6240, 0x6600, 0xA6C1, 0xA781, 0x6740, 0xA501, 0x65C0, 0x6480, 0xA441,
     0x6C00, 0xACC1, 0xAD81, 0x6D40, 0xAF01, 0x6FC0, 0x6E80, 0xAE41, 0xAA01, 0x6AC0, 0x6B80, 0xAB41,
     0x6900, 0xA9C1, 0xA881, 0x6840, 0x7800, 0xB8C1, 0xB981, 0x7940, 0xBB01, 0x7BC0, 0x7A80, 0xBA41,
     0xBE01, 0x7EC0, 0x7F80, 0xBF41, 0x7D00, 0xBDC1, 0xBC81, 0x7C40, 0xB401, 0x74C0, 0x7580, 0xB541,
     0x7700, 0xB7C1, 0xB681, 0x7640, 0x7200, 0xB2C1, 0xB381, 0x7340, 0xB101, 0x71C0, 0x7080, 0xB041,
     0x5000, 0x90C1, 0x9181, 0x5140, 0x9301, 0x53C0, 0x5280, 0x9241, 0x9601, 0x56C0, 0x5780, 0x9741,
     0x5500, 0x95C1, 0x9481, 0x5440, 0x9C01, 0x5CC0, 0x5D80, 0x9D41, 0x5F00, 0x9FC1, 0x9E81, 0x5E40,
     0x5A00, 0x9AC1, 0x9B81, 0x5B40, 0x9901, 0x59C0, 0x5880, 0x9841, 0x8801, 0x48C0, 0x4980, 0x8941,
     0x4B00, 0x8BC1, 0x8A81, 0x4A40, 0x4E00, 0x8EC1, 0x8F81, 0x4F40, 0x8D01, 0x4DC0, 0x4C80, 0x8C41,
     0x4400, 0x84C1, 0x8581, 0x4540, 0x8701, 0x47C0, 0x4680, 0x8641, 0x8201, 0x42C0, 0x4380, 0x8341,
     0x4100, 0x81C1, 0x8081, 0x4040]"

definition crc32_tab :: "u32 list" where
  "crc32_tab = [
     0x00000000, 0x77073096, 0xEE0E612C, 0x990951BA, 0x076DC419, 0x706AF48F, 0xE963A535, 0x9E6495A3,
     0x0EDB8832, 0x79DCB8A4, 0xE0D5E91E, 0x97D2D988, 0x09B64C2B, 0x7EB17CBD, 0xE7B82D07, 0x90BF1D91,
     0x1DB71064, 0x6AB020F2, 0xF3B97148, 0x84BE41DE, 0x1ADAD47D, 0x6DDDE4EB, 0xF4D4B551, 0x83D385C7,
     0x136C9856, 0x646BA8C0, 0xFD62F97A, 0x8A65C9EC, 0x14015C4F, 0x63066CD9, 0xFA0F3D63, 0x8D080DF5,
     0x3B6E20C8, 0x4C69105E, 0xD56041E4, 0xA2677172, 0x3C03E4D1, 0x4B04D447, 0xD20D85FD, 0xA50AB56B,
     0x35B5A8FA, 0x42B2986C, 0xDBBBC9D6, 0xACBCF940, 0x32D86CE3, 0x45DF5C75, 0xDCD60DCF, 0xABD13D59,
     0x26D930AC, 0x51DE003A, 0xC8D75180, 0xBFD06116, 0x21B4F4B5, 0x56B3C423, 0xCFBA9599, 0xB8BDA50F,
     0x2802B89E, 0x5F058808, 0xC60CD9B2, 0xB10BE924, 0x2F6F7C87, 0x58684C11, 0xC1611DAB, 0xB6662D3D,
     0x76DC4190, 0x01DB7106, 0x98D220BC, 0xEFD5102A, 0x71B18589, 0x06B6B51F, 0x9FBFE4A5, 0xE8B8D433,
     0x7807C9A2, 0x0F00F934, 0x9609A88E, 0xE10E9818, 0x7F6A0DBB, 0x086D3D2D, 0x91646C97, 0xE6635C01,
     0x6B6B51F4, 0x1C6C6162, 0x856530D8, 0xF262004E, 0x6C0695ED, 0x1B01A57B, 0x8208F4C1, 0xF50FC457,
     0x65B0D9C6, 0x12B7E950, 0x8BBEB8EA, 0xFCB9887C, 0x62DD1DDF, 0x15DA2D49, 0x8CD37CF3, 0xFBD44C65,
     0x4DB26158, 0x3AB551CE, 0xA3BC0074, 0xD4BB30E2, 0x4ADFA541, 0x3DD895D7, 0xA4D1C46D, 0xD3D6F4FB,
     0x4369E96A, 0x346ED9FC, 0xAD678846, 0xDA60B8D0, 0x44042D73, 0x33031DE5, 0xAA0A4C5F, 0xDD0D7CC9,
     0x5005713C, 0x270241AA, 0xBE0B1010, 0xC90C2086, 0x5768B525, 0x206F85B3, 0xB966D409, 0xCE61E49F,
     0x5EDEF90E, 0x29D9C998, 0xB0D09822, 0xC7D7A8B4, 0x59B33D17, 0x2EB40D81, 0xB7BD5C3B, 0xC0BA6CAD,
     0xEDB88320, 0x9ABFB3B6, 0x03B6E20C, 0x74B1D29A, 0xEAD54739, 0x9DD277AF, 0x04DB2615, 0x73DC1683,
     0xE3630B12, 0x94643B84, 0x0D6D6A3E, 0x7A6A5AA8, 0xE40ECF0B, 0x9309FF9D, 0x0A00AE27, 0x7D079EB1,
     0xF00F9344, 0x8708A3D2, 0x1E01F268, 0x6906C2FE, 0xF762575D, 0x806567CB, 0x196C3671, 0x6E6B06E7,
     0xFED41B76, 0x89D32BE0, 0x10DA7A5A, 0x67DD4ACC, 0xF9B9DF6F, 0x8EBEEFF9, 0x17B7BE43, 0x60B08ED5,
     0xD6D6A3E8, 0xA1D1937E, 0x38D8C2C4, 0x4FDFF252, 0xD1BB67F1, 0xA6BC5767, 0x3FB506DD, 0x48B2364B,
     0xD80D2BDA, 0xAF0A1B4C, 0x36034AF6, 0x41047A60, 0xDF60EFC3, 0xA867DF55, 0x316E8EEF, 0x4669BE79,
     0xCB61B38C, 0xBC66831A, 0x256FD2A0, 0x5268E236, 0xCC0C7795, 0xBB0B4703, 0x220216B9, 0x5505262F,
     0xC5BA3BBE, 0xB2BD0B28, 0x2BB45A92, 0x5CB36A04, 0xC2D7FFA7, 0xB5D0CF31, 0x2CD99E8B, 0x5BDEAE1D,
     0x9B64C2B0, 0xEC63F226, 0x756AA39C, 0x026D930A, 0x9C0906A9, 0xEB0E363F, 0x72076785, 0x05005713,
     0x95BF4A82, 0xE2B87A14, 0x7BB12BAE, 0x0CB61B38, 0x92D28E9B, 0xE5D5BE0D, 0x7CDCEFB7, 0x0BDBDF21,
     0x86D3D2D4, 0xF1D4E242, 0x68DDB3F8, 0x1FDA836E, 0x81BE16CD, 0xF6B9265B, 0x6FB077E1, 0x18B74777,
     0x88085AE6, 0xFF0F6A70, 0x66063BCA, 0x11010B5C, 0x8F659EFF, 0xF862AE69, 0x616BFFD3, 0x166CCF45,
     0xA00AE278, 0xD70DD2EE, 0x4E048354, 0x3903B3C2, 0xA7672661, 0xD06016F7, 0x4969474D, 0x3E6E77DB,
     0xAED16A4A, 0xD9D65ADC, 0x40DF0B66, 0x37D83BF0, 0xA9BCAE53, 0xDEBB9EC5, 0x47B2CF7F, 0x30B5FFE9,
     0xBDBDF21C, 0xCABAC28A, 0x53B39330, 0x24B4A3A6, 0xBAD03605, 0xCDD70693, 0x54DE5729, 0x23D967BF,
     0xB3667A2E, 0xC4614AB8, 0x5D681B02, 0x2A6F2B94, 0xB40BBE37, 0xC30C8EA1, 0x5A05DF1B, 0x2D02EF8D]"

text \<open>Reading a table out of its bounds faults.\<close>

definition tab_at :: "'a list \<Rightarrow> nat \<Rightarrow> 'a option" where
  "tab_at t i = (if i < length t then Some (t ! i) else None)"

fun crc4_loop :: "u8 \<Rightarrow> u64 \<Rightarrow> nat \<Rightarrow> u8 option" where
  \<comment> \<open>\<open>n\<close> nibbles to go: \<open>i = 4 * n - 4\<close>\<close>
  "crc4_loop c x 0 = Some c"
| "crc4_loop c x (Suc n) = do {
     c \<leftarrow> tab_at crc4_tab (unat (c XOR ucast (drop_bit (4 * n) x AND 0xf)));
     crc4_loop c x n }"

definition crc4 :: "u8 \<Rightarrow> u64 \<Rightarrow> nat \<Rightarrow> u8 option" where
  \<comment> \<open>shifting a 64-bit value by 64 or more is undefined\<close>
  "crc4 c x bits = (if 64 \<le> bits then None else crc4_loop c (x AND (push_bit bits 1 - 1)) ((bits + 3) div 4))"

text \<open>The loop over a buffer that the byte-wise CRCs share; \<open>absorb\<close> is their step for one byte.\<close>

fun crc_loop :: "('c \<Rightarrow> u8 \<Rightarrow> 'c) \<Rightarrow> mem \<Rightarrow> 'c \<Rightarrow> nat \<Rightarrow> nat \<Rightarrow> 'c option" where
  "crc_loop absorb m crc buffer 0 = Some crc"
| "crc_loop absorb m crc buffer (Suc len) = do { b \<leftarrow> peek m buffer; crc_loop absorb m (absorb crc b) (buffer + 1) len }"

definition crc7_be_byte :: "u8 \<Rightarrow> u8 \<Rightarrow> u8" where
  "crc7_be_byte crc data = crc7_be_syndrome_table ! unat (crc XOR data)"

definition crc7_be :: "mem \<Rightarrow> u8 \<Rightarrow> nat \<Rightarrow> nat \<Rightarrow> u8 option" where
  "crc7_be m crc buffer len = crc_loop crc7_be_byte m crc buffer len"

definition crc16_byte :: "u16 \<Rightarrow> u8 \<Rightarrow> u16" where
  "crc16_byte crc data = drop_bit 8 crc XOR crc16_table ! unat ((crc XOR ucast data) AND 0xff)"

definition crc16 :: "mem \<Rightarrow> u16 \<Rightarrow> nat \<Rightarrow> nat \<Rightarrow> u16 option" where
  "crc16 m crc buffer len = crc_loop crc16_byte m crc buffer len"

definition crc32_byte :: "u32 \<Rightarrow> u8 \<Rightarrow> u32" where
  "crc32_byte crc data = crc32_tab ! unat ((crc XOR ucast data) AND 0xff) XOR drop_bit 8 crc"

definition crc32_le :: "mem \<Rightarrow> u32 \<Rightarrow> nat \<Rightarrow> int \<Rightarrow> u32 option" where
  "crc32_le m seed buf len = crc_loop crc32_byte m seed buf (nat len)"

text \<open>CRC-8: the table is filled at run time. \<open>i\<close> starts at 1, so the guard \<open>0 < i\<close> always holds.\<close>

function msb_inner :: "u8 list \<Rightarrow> u8 \<Rightarrow> nat \<Rightarrow> nat \<Rightarrow> u8 list" where
  "msb_inner table t i j = (if j < i then msb_inner (table[i + j := table ! j XOR t]) t i (j + 1) else table)"
  by auto
termination by (relation "measure (\<lambda>(table, t, i, j). i - j)") auto

function msb_outer :: "u8 \<Rightarrow> u8 list \<Rightarrow> u8 \<Rightarrow> nat \<Rightarrow> u8 list" where
  "msb_outer polynomial table t i =
     (if 0 < i \<and> i < 256
      then let t = push_bit 1 t XOR (if bit t 7 then polynomial else 0)
           in msb_outer polynomial (msb_inner table t i 0) t (i * 2)
      else table)"
  by auto
termination by (relation "measure (\<lambda>(polynomial, table, t, i). 256 - i)") auto

definition crc8_populate_msb :: "u8 list \<Rightarrow> u8 \<Rightarrow> u8 list" where
  "crc8_populate_msb table polynomial = msb_outer polynomial (table[0 := 0]) 0x80 1"

function lsb_inner :: "u8 list \<Rightarrow> u8 \<Rightarrow> nat \<Rightarrow> nat \<Rightarrow> u8 list" where
  "lsb_inner table t i j =
     (if j < 256 \<and> 0 < i then lsb_inner (table[i + j := table ! j XOR t]) t i (j + 2 * i) else table)"
  by auto
termination by (relation "measure (\<lambda>(table, t, i, j). 256 - j)") auto

function lsb_outer :: "u8 \<Rightarrow> u8 list \<Rightarrow> u8 \<Rightarrow> nat \<Rightarrow> u8 list" where
  "lsb_outer polynomial table t i =
     (if i \<noteq> 0
      then let t = drop_bit 1 t XOR (if bit t 0 then polynomial else 0)
           in lsb_outer polynomial (lsb_inner table t i 0) t (i div 2)
      else table)"
  by auto
termination by (relation "measure (\<lambda>(polynomial, table, t, i). i)") auto

definition crc8_populate_lsb :: "u8 list \<Rightarrow> u8 \<Rightarrow> u8 list" where
  "crc8_populate_lsb table polynomial = lsb_outer polynomial (table[0 := 0]) 1 128"

definition crc8_byte :: "u8 list \<Rightarrow> u8 \<Rightarrow> u8 \<Rightarrow> u8" where
  "crc8_byte table crc data = table ! unat (crc XOR data)"

definition crc8 :: "mem \<Rightarrow> u8 list \<Rightarrow> nat \<Rightarrow> nat \<Rightarrow> u8 \<Rightarrow> u8 option" where
  "crc8 m table pdata nbytes crc = crc_loop (crc8_byte table) m crc pdata nbytes"

declare msb_inner.simps [simp del] msb_outer.simps [simp del] lsb_inner.simps [simp del] lsb_outer.simps [simp del]

section \<open>Polynomial division, bit by bit\<close>

text \<open>One step of the division: the reflected register moves right, the other one left.\<close>

definition lstep :: "'a::len word \<Rightarrow> 'a word \<Rightarrow> 'a word" where
  "lstep p x = drop_bit 1 x XOR (if bit x 0 then p else 0)"

definition mstep :: "'a::len word \<Rightarrow> 'a word \<Rightarrow> 'a word" where
  "mstep p x = push_bit 1 x XOR (if bit x (LENGTH('a) - 1) then p else 0)"

definition additive :: "('a::len word \<Rightarrow> 'b::len word) \<Rightarrow> bool" where
  "additive f \<longleftrightarrow> f 0 = 0 \<and> (\<forall>x y. f (x XOR y) = f x XOR f y)"

lemma additive_lstep: "additive (lstep p)"
  unfolding additive_def lstep_def
  by (auto simp: bit_simps intro!: bit_word_eqI)

lemma additive_mstep: "additive (mstep p)"
  unfolding additive_def mstep_def
  by (auto simp: bit_simps intro!: bit_word_eqI)

lemma additive_funpow: "additive (f :: 'a::len word \<Rightarrow> 'a word) \<Longrightarrow> additive (f ^^ n)"
  by (induction n) (auto simp: additive_def)

text \<open>An additive function on bytes is known from its values at the powers of two.\<close>

definition expand :: "'a::len word list \<Rightarrow> 'a word list" where
  "expand bs = foldl (\<lambda>t v. t @ map (\<lambda>x. x XOR v) t) [0] bs"

definition basis :: "('a::len word \<Rightarrow> 'b::len word) \<Rightarrow> nat \<Rightarrow> 'b word list" where
  "basis f n = map (\<lambda>k. f (2 ^ k)) [0 ..< n]"

lemma pow_plus: "\<not> bit i n \<Longrightarrow> (of_nat (i + 2 ^ n) :: 'a::len word) = of_nat i XOR of_nat (2 ^ n)"
proof -
  assume "\<not> bit i n"
  then have "i AND 2 ^ n = (0 :: nat)" by (simp add: and_exp_eq_0_iff_not_bit)
  then have "i + 2 ^ n = i XOR (2 ^ n :: nat)" by (rule disjunctive_add_eq_xor)
  then show ?thesis by (simp only: of_nat_xor_eq)
qed

lemma additive_plus:
  assumes "additive (f :: 'a::len word \<Rightarrow> 'b::len word)" "\<not> bit i n"
  shows "f (of_nat (i + 2 ^ n)) = f (of_nat i) XOR f (2 ^ n)"
  using assms(1) pow_plus [OF assms(2), where ?'a = 'a] by (simp add: additive_def)

lemma not_bit_less: "(i :: nat) < 2 ^ n \<Longrightarrow> \<not> bit i n"
  by (simp add: bit_iff_odd)

lemma expand_basis:
  assumes "additive f"
  shows "expand (basis f n) = map (\<lambda>i. f (of_nat i)) [0 ..< 2 ^ n]"
proof (induction n)
  case 0
  then show ?case using assms by (simp add: additive_def expand_def basis_def)
next
  case (Suc n)
  have "[0 ..< 2 ^ Suc n] = [0 ..< 2 ^ n] @ map (\<lambda>i. i + 2 ^ n) [0 ..< 2 ^ n]"
    by (simp add: map_add_upt mult_2 upt_add_eq_append [symmetric] del: upt_conv_Cons)
  moreover have "f (of_nat (i + 2 ^ n)) = f (of_nat i) XOR f (2 ^ n)" if "i < 2 ^ n" for i
    by (rule additive_plus [OF assms not_bit_less [OF that]])
  moreover have "expand (basis f (Suc n)) = expand (basis f n) @ map (\<lambda>x. x XOR f (2 ^ n)) (expand (basis f n))"
    by (simp add: expand_def basis_def)
  ultimately show ?case using Suc by simp
qed

lemma expand_nth:
  assumes "additive f" "basis f n = bs" "t = expand bs" "i < 2 ^ n"
  shows "t ! i = f (of_nat i)"
  using assms(2-4) by (simp add: expand_basis [OF assms(1)] flip: assms(2))

lemma funpow8: "(f ^^ 8) x = f (f (f (f (f (f (f (f x)))))))" for f :: "'a \<Rightarrow> 'a"
  by (simp add: numeral_eq_Suc)

lemma basis8: "basis f 8 = [f 1, f 2, f 4, f 8, f 16, f 32, f 64, f 128]"
  by (simp add: basis_def upt_rec)

lemmas step8 = basis8 funpow8 lstep_def mstep_def

lemma crc16_table_step: "i < 256 \<Longrightarrow> crc16_table ! i = (lstep 0xA001 ^^ 8) (of_nat i)"
  by (rule expand_nth [where n = 8 and bs = "[0xC0C1, 0xC181, 0xC301, 0xC601, 0xCC01, 0xD801, 0xF001, 0xA001]", OF additive_funpow [OF additive_lstep]])
    (simp add: step8, code_simp, simp)

lemma crc32_tab_step: "i < 256 \<Longrightarrow> crc32_tab ! i = (lstep 0xEDB88320 ^^ 8) (of_nat i)"
  by (rule expand_nth [where n = 8 and bs = "[0x77073096, 0xEE0E612C, 0x076DC419, 0x0EDB8832, 0x1DB71064, 0x3B6E20C8, 0x76DC4190, 0xEDB88320]", OF additive_funpow [OF additive_lstep]])
    (simp add: step8, code_simp, simp)

lemma crc7_table_step: "i < 256 \<Longrightarrow> crc7_be_syndrome_table ! i = (mstep 0x12 ^^ 8) (of_nat i)"
  by (rule expand_nth [where n = 8 and bs = "[0x12, 0x24, 0x48, 0x90, 0x32, 0x64, 0xC8, 0x82]", OF additive_funpow [OF additive_mstep]])
    (simp add: step8, code_simp, simp)

section \<open>The tables of CRC-8\<close>

lemma msb_inner_nth:
  "length T = 256 \<Longrightarrow> 2 * i \<le> 256 \<Longrightarrow>
   length (msb_inner T t i j) = 256 \<and>
   (\<forall>k < 256. msb_inner T t i j ! k = (if i + j \<le> k \<and> k < 2 * i then T ! (k - i) XOR t else T ! k))"
proof (induction T t i j rule: msb_inner.induct)
  case (1 T t i j)
  show ?case
  proof (cases "j < i")
    case True
    have "k - i = j" if "i + j \<le> k" "\<not> Suc (i + j) \<le> k" for k using that by arith
    then show ?thesis using 1 True by (subst (1 2) msb_inner.simps) (auto simp: nth_list_update)
  next
    case False
    then show ?thesis using 1 by (subst (1 2) msb_inner.simps) auto
  qed
qed

lemma mstep_pow: "n < 8 \<Longrightarrow> (mstep p ^^ 8) (2 ^ n :: u8) = (mstep p ^^ Suc n) 0x80"
proof -
  have *: "mstep p 1 = (2 :: u8)" "mstep p 2 = (4 :: u8)" "mstep p 4 = (8 :: u8)" "mstep p 8 = (16 :: u8)"
    "mstep p 16 = (32 :: u8)" "mstep p 32 = (64 :: u8)" "mstep p 64 = (128 :: u8)"
    by (simp_all add: mstep_def)
  assume "n < 8"
  then have "n \<in> {0, 1, 2, 3, 4, 5, 6, 7}" by auto
  then show ?thesis using * by (auto simp: funpow8 numeral_eq_Suc [of "Num.Bit1 _"] eval_nat_numeral)
qed

lemma lstep_pow: "n < 8 \<Longrightarrow> (lstep p ^^ 8) (2 ^ n :: u8) = (lstep p ^^ (8 - n)) 1"
proof -
  have *: "lstep p 2 = (1 :: u8)" "lstep p 4 = (2 :: u8)" "lstep p 8 = (4 :: u8)" "lstep p 16 = (8 :: u8)"
    "lstep p 32 = (16 :: u8)" "lstep p 64 = (32 :: u8)" "lstep p 128 = (64 :: u8)"
    by (simp_all add: lstep_def)
  assume "n < 8"
  then have "n \<in> {0, 1, 2, 3, 4, 5, 6, 7}" by auto
  then show ?thesis using * by (auto simp: funpow8 numeral_eq_Suc [of "Num.Bit1 _"] eval_nat_numeral)
qed

definition msb_table :: "u8 \<Rightarrow> u8 list \<Rightarrow> nat \<Rightarrow> bool" where
  "msb_table p T n \<longleftrightarrow> length T = 256 \<and> (\<forall>k < 2 ^ n. T ! k = (mstep p ^^ 8) (of_nat k))"

lemma msb_outer_table:
  "n + d = 8 \<Longrightarrow> msb_table p T n \<Longrightarrow> t = (mstep p ^^ n) 0x80 \<Longrightarrow> msb_table p (msb_outer p T t (2 ^ n)) 8"
proof (induction d arbitrary: n T t)
  case 0
  then show ?case by (subst msb_outer.simps) simp
next
  case (Suc d)
  let ?t = "(mstep p ^^ Suc n) 0x80" and ?f = "(mstep p ^^ 8) :: u8 \<Rightarrow> u8"
  have n: "n < 8" using Suc.prems(1) by simp
  have small: "2 * 2 ^ n \<le> (256 :: nat)" using n power_increasing [of "Suc n" 8 "2 :: nat"] by simp
  have t: "?t = ?f (2 ^ n)" using mstep_pow [OF n] by simp
  have inner: "msb_table p (msb_inner T ?t (2 ^ n) 0) (Suc n)"
    unfolding msb_table_def
  proof (intro conjI allI impI)
    show "length (msb_inner T ?t (2 ^ n) 0) = 256"
      using msb_inner_nth [OF _ small] Suc.prems(2) by (simp add: msb_table_def)
    fix k :: nat assume k: "k < 2 ^ Suc n"
    then have nth: "msb_inner T ?t (2 ^ n) 0 ! k = (if 2 ^ n \<le> k then T ! (k - 2 ^ n) XOR ?t else T ! k)"
      using msb_inner_nth [OF _ small, of T ?t 0] Suc.prems(2) small by (auto simp: msb_table_def)
    show "msb_inner T ?t (2 ^ n) 0 ! k = ?f (of_nat k)"
    proof (cases "2 ^ n \<le> k")
      case True
      then have "?f (of_nat k) = ?f (of_nat (k - 2 ^ n)) XOR ?f (2 ^ n)"
        using additive_plus [of ?f "k - 2 ^ n" n] additive_funpow [OF additive_mstep, of 8 p]
          not_bit_less [of "k - 2 ^ n" n] k by simp
      then show ?thesis using nth True Suc.prems(2) k t by (simp add: msb_table_def)
    next
      case False
      then show ?thesis using nth Suc.prems(2) by (simp add: msb_table_def)
    qed
  qed
  have "msb_outer p T t (2 ^ n) = msb_outer p (msb_inner T (mstep p t) (2 ^ n) 0) (mstep p t) (2 ^ Suc n)"
    using small by (subst msb_outer.simps) (simp add: mstep_def Let_def mult.commute)
  moreover have "mstep p t = ?t" using Suc.prems(3) by simp
  ultimately show ?case using Suc.IH [of "Suc n", OF _ inner] Suc.prems(1) by simp
qed

lemma crc8_populate_msb_table:
  "length T = 256 \<Longrightarrow> msb_table p (crc8_populate_msb T p) 8"
  using msb_outer_table [of 0 8 p "T[0 := 0]" "0x80"] additive_funpow [OF additive_mstep, of 8 p]
  by (simp add: crc8_populate_msb_def msb_table_def additive_def)

lemma dvd_gap: "(d :: nat) dvd a \<Longrightarrow> d dvd b \<Longrightarrow> a < b \<Longrightarrow> a + d \<le> b"
  using dvd_imp_le [of d "b - a"] by (simp add: dvd_diff_nat)

lemma residue_unique:
  assumes "i + j \<le> k" "k < i + (j + 2 * i)" "j mod (2 * i) = 0" "k mod (2 * i) = (i :: nat)"
  shows "k = i + j"
proof -
  obtain q where j: "j = 2 * i * q" using assms(3) by (auto simp: mod_eq_0_iff_dvd dvd_def)
  define r where "r = k - j"
  have k: "k = r + 2 * i * q" "i \<le> r" "r < 3 * i" using assms(1,2) j by (auto simp: r_def)
  have "r mod (2 * i) = i" using assms(4) k(1) by simp
  then have "r = i" using k(2,3) by (cases "r < 2 * i") (auto simp: mod_if split: if_splits)
  then show ?thesis using k j by simp
qed

lemma lsb_inner_nth:
  "length T = 256 \<Longrightarrow> 256 mod (2 * i) = 0 \<Longrightarrow> j mod (2 * i) = 0 \<Longrightarrow> 0 < i \<Longrightarrow>
   length (lsb_inner T t i j) = 256 \<and>
   (\<forall>k < 256. lsb_inner T t i j ! k = (if i + j \<le> k \<and> k mod (2 * i) = i then T ! (k - i) XOR t else T ! k))"
proof (induction T t i j rule: lsb_inner.induct)
  case (1 T t i j)
  show ?case
  proof (cases "j < 256")
    case False
    then show ?thesis using 1 by (subst (1 2) lsb_inner.simps) auto
  next
    case True
    let ?T = "T[i + j := T ! j XOR t]"
    have j: "j mod (2 * i) = 0" "0 < i" "length T = 256" by (fact 1(4) 1(5) 1(2))+
    have "j + 2 * i \<le> 256" using 1(3,4) True by (intro dvd_gap) (auto simp: mod_eq_0_iff_dvd)
    then have fit: "i + j < 256" using j(2) by simp
    have eq: "lsb_inner T t i j = lsb_inner ?T t i (j + 2 * i)" using True j(2) by (subst lsb_inner.simps) simp
    have IH: "length (lsb_inner ?T t i (j + 2 * i)) = 256"
      "k < 256 \<Longrightarrow> lsb_inner ?T t i (j + 2 * i) ! k =
        (if i + (j + 2 * i) \<le> k \<and> k mod (2 * i) = i then ?T ! (k - i) XOR t else ?T ! k)" for k
      using 1(1) True 1(3) j by auto
    have "lsb_inner T t i j ! k = (if i + j \<le> k \<and> k mod (2 * i) = i then T ! (k - i) XOR t else T ! k)"
      if k: "k < 256" for k
    proof (cases "k = i + j")
      case True
      then have "k mod (2 * i) = i" using j(1,2) by (metis add.right_neutral less_add_same_cancel1 mod_add_right_eq mod_less mult_2)
      then show ?thesis using IH(2) [OF k] True j fit eq by simp
    next
      case ne: False
      then have "i + (j + 2 * i) \<le> k" if "i + j \<le> k" "k mod (2 * i) = i"
        using residue_unique [OF that(1) _ j(1) that(2)] by (meson not_less)
      then show ?thesis using IH(2) [OF k] ne j(2) eq by auto
    qed
    then show ?thesis using IH(1) eq by simp
  qed
qed

definition lsb_table :: "u8 \<Rightarrow> u8 list \<Rightarrow> nat \<Rightarrow> bool" where
  "lsb_table p T n \<longleftrightarrow> length T = 256 \<and> (\<forall>k < 256. 2 ^ n dvd k \<longrightarrow> T ! k = (lstep p ^^ 8) (of_nat k))"

lemma lsb_outer_table:
  "n \<le> 8 \<Longrightarrow> lsb_table p T n \<Longrightarrow> t = (lstep p ^^ (8 - n)) 1 \<Longrightarrow> lsb_table p (lsb_outer p T t (2 ^ n div 2)) 0"
proof (induction n arbitrary: T t)
  case 0
  then show ?case by (subst lsb_outer.simps) simp
next
  case (Suc n)
  let ?t = "(lstep p ^^ (8 - n)) 1" and ?f = "(lstep p ^^ 8) :: u8 \<Rightarrow> u8"
  have n: "n < 8" using Suc.prems(1) by simp
  have t: "?t = ?f (2 ^ n)" using lstep_pow [OF n] by simp
  have dvd: "256 mod (2 * 2 ^ n) = (0 :: nat)"
    using n le_imp_power_dvd [of "Suc n" 8 "2 :: nat"] by (simp add: mod_eq_0_iff_dvd)
  note nth = lsb_inner_nth [OF _ dvd, of T 0 ?t]
  have inner: "lsb_table p (lsb_inner T ?t (2 ^ n) 0) n"
    unfolding lsb_table_def
  proof (intro conjI allI impI)
    show "length (lsb_inner T ?t (2 ^ n) 0) = 256" using nth Suc.prems(2) by (simp add: lsb_table_def)
    fix k :: nat assume k: "k < 256" "2 ^ n dvd k"
    have val: "lsb_inner T ?t (2 ^ n) 0 ! k = (if 2 ^ n \<le> k \<and> k mod (2 * 2 ^ n) = 2 ^ n then T ! (k - 2 ^ n) XOR ?t else T ! k)"
      using nth k Suc.prems(2) by (simp add: lsb_table_def)
    obtain q where q: "k = 2 ^ n * q" using k(2) by blast
    show "lsb_inner T ?t (2 ^ n) 0 ! k = ?f (of_nat k)"
    proof (cases "even q")
      case True
      then have d: "2 ^ Suc n dvd k" using q by auto
      then show ?thesis using val k Suc.prems(2) by (simp add: lsb_table_def)
    next
      case False
      then obtain r where r: "q = Suc (2 * r)" by (auto elim: oddE)
      then have k': "k = 2 ^ Suc n * r + 2 ^ n" using q by simp
      have "\<not> bit (2 ^ Suc n * r) n" by (simp add: bit_iff_odd)
      then have "?f (of_nat k) = ?f (of_nat (2 ^ Suc n * r)) XOR ?f (2 ^ n)"
        unfolding k' by (rule additive_plus [OF additive_funpow [OF additive_lstep]])
      moreover have "2 ^ Suc n * r \<le> k" unfolding k' by (rule le_add1)
      then have "2 ^ Suc n * r < 256" using k(1) by (rule le_less_trans)
      then have "T ! (2 ^ Suc n * r) = ?f (of_nat (2 ^ Suc n * r))"
        using Suc.prems(2) unfolding lsb_table_def by (meson dvd_triv_left)
      moreover have "k mod (2 * 2 ^ n) = 2 ^ n" unfolding k' by simp
      ultimately show ?thesis using val k' t by simp
    qed
  qed
  have "Suc (8 - Suc n) = 8 - n" using n by simp
  then have "lstep p t = ?t" using Suc.prems(3) by (metis funpow_simps_right(2) funpow_swap1 o_apply)
  moreover have "lsb_outer p T t (2 ^ n) = lsb_outer p (lsb_inner T (lstep p t) (2 ^ n) 0) (lstep p t) (2 ^ n div 2)"
    by (subst lsb_outer.simps) (simp add: lstep_def Let_def)
  ultimately show ?case using Suc.IH [OF _ inner] n by simp
qed

lemma crc8_populate_lsb_table:
  assumes "length T = 256"
  shows "lsb_table p (crc8_populate_lsb T p) 0"
proof -
  have "lsb_table p (T[0 := 0]) 8"
    using assms additive_funpow [OF additive_lstep, of 8 p]
    by (auto simp: lsb_table_def additive_def dest: dvd_imp_le)
  from lsb_outer_table [OF _ this, of 1] show ?thesis by (simp add: crc8_populate_lsb_def)
qed

section \<open>Reflected CRCs\<close>

text \<open>
  The interface of a reflected CRC: its byte step is eight steps of the division, its polynomial
  has the top bit set. Nothing else is needed to tell bursts apart.
\<close>

lemma xor_cancel: "a XOR c = b XOR c \<Longrightarrow> a = (b :: 'a::len word)"
proof (rule bit_word_eqI)
  fix n assume "a XOR c = b XOR c" "n < LENGTH('a)"
  then have "bit (a XOR c) n = bit (b XOR c) n" by simp
  then show "bit a n = bit b n" by (auto simp: bit_xor_iff)
qed

locale lsb_crc =
  fixes poly :: "'a::len word" and absorb :: "'a word \<Rightarrow> u8 \<Rightarrow> 'a word"
  assumes wide: "8 \<le> LENGTH('a)"
    and top: "bit poly (LENGTH('a) - 1)"
    and absorb_step: "absorb c b = (lstep poly ^^ 8) (c XOR ucast b)"
begin

lemma lstep_inj: "lstep poly x = lstep poly y \<Longrightarrow> x = y"
proof -
  assume eq: "lstep poly x = lstep poly y"
  have tops: "bit (lstep poly z) (LENGTH('a) - 1) = bit z 0" for z
    using top wide by (auto simp: lstep_def bit_simps)
  have low: "bit x 0 = bit y 0" using eq tops by metis
  then have "drop_bit 1 x XOR (if bit x 0 then poly else 0) = drop_bit 1 y XOR (if bit x 0 then poly else 0)"
    using eq by (simp only: lstep_def)
  then have "drop_bit 1 x = drop_bit 1 y" by (rule xor_cancel)
  then have "bit x (Suc n) = bit y (Suc n)" for n by (metis bit_drop_bit_eq o_apply plus_1_eq_Suc)
  then show ?thesis using low by (intro bit_word_eqI) (metis not0_implies_Suc)
qed

lemma funpow_inj: "(lstep poly ^^ n) x = (lstep poly ^^ n) y \<Longrightarrow> x = y"
  by (induction n) (auto dest: lstep_inj)

lemma foldl_inj: "foldl absorb c bs = foldl absorb c' bs \<Longrightarrow> c = c'"
proof (induction bs arbitrary: c c')
  case (Cons b bs)
  then have "absorb c b = absorb c' b" by auto
  then have "c XOR ucast b = c' XOR ucast b" unfolding absorb_step by (rule funpow_inj)
  then show ?case by (metis xor_cancel)
qed simp

end

lemma lstep_shift:
  assumes "n < LENGTH('a)" "\<not> bit z (LENGTH('a) - Suc n)"
  shows "lstep p (push_bit (Suc n) z) = push_bit n (z :: 'a::len word)"
proof (rule bit_word_eqI)
  fix m assume "m < LENGTH('a)"
  moreover have "m - n = LENGTH('a) - Suc n" if "Suc m = LENGTH('a)" using that by arith
  ultimately show "bit (lstep p (push_bit (Suc n) z)) m = bit (push_bit n z) m"
    using assms by (cases "Suc m = LENGTH('a)") (auto simp: lstep_def bit_simps not_less_eq_eq simp del: push_bit_Suc dest: bit_imp_le_length)
qed

lemma funpow_shift:
  assumes "n \<le> LENGTH('a)" "\<forall>k. LENGTH('a) - n \<le> k \<longrightarrow> \<not> bit z k"
  shows "(lstep p ^^ n) (push_bit n z) = (z :: 'a::len word)"
  using assms
proof (induction n)
  case (Suc n)
  have "lstep p (push_bit (Suc n) z) = push_bit n z" using Suc.prems by (intro lstep_shift) auto
  then show ?case using Suc by (simp add: funpow_swap1 del: funpow.simps(2)) (metis Suc_leD comp_apply diff_le_mono2 funpow_Suc_right le_SucI le_trans lessI less_or_eq_imp_le)
qed simp

lemma high_of_bytes: "8 * length bs \<le> k \<Longrightarrow> \<not> bit (of_bytes bs :: 'a::len word) k"
proof -
  assume "8 * length bs \<le> k"
  then have "length bs \<le> k div 8" by (simp add: less_eq_div_iff_mult_less_eq)
  then show "\<not> bit (of_bytes bs :: 'a::len word) k" by (simp add: bit_of_bytes)
qed

text \<open>A table look-up on the low byte is eight steps.\<close>

lemma lookup_steps:
  assumes "8 \<le> LENGTH('a)"
  shows "(lstep p ^^ 8) (c XOR ucast (b :: u8) :: 'a::len word) =
    (lstep p ^^ 8) ((c XOR ucast b) AND 0xff) XOR drop_bit 8 c"
proof -
  let ?y = "c XOR ucast b :: 'a word"
  have low: "?y AND 0xff = take_bit 8 ?y" by (simp add: take_bit_eq_mask mask_eq_exp_minus_1)
  have split: "?y = (?y AND 0xff) XOR push_bit 8 (drop_bit 8 c)"
    unfolding low by (rule bit_word_eqI) (auto simp: bit_simps dest: bit_imp_le_length)
  have "(lstep p ^^ 8) (push_bit 8 (drop_bit 8 c)) = drop_bit 8 c"
    using assms by (intro funpow_shift) (auto simp: bit_simps dest: bit_imp_le_length)
  then show ?thesis
    using additive_funpow [OF additive_lstep, of 8 p] by (subst split) (simp add: additive_def)
qed

context lsb_crc
begin

lemma foldl_register:
  "8 * length bs \<le> LENGTH('a) \<Longrightarrow> foldl absorb c bs = (lstep poly ^^ (8 * length bs)) (c XOR of_bytes bs)"
proof (induction bs arbitrary: c)
  case (Cons b bs)
  let ?f = "lstep poly ^^ 8" and ?z = "of_bytes bs :: 'a word"
  have z: "?f (push_bit 8 ?z) = ?z"
    using Cons.prems by (intro funpow_shift) (auto intro!: high_of_bytes)
  have "ucast b OR push_bit 8 ?z = ucast b XOR push_bit 8 ?z"
    by (rule bit_word_eqI) (auto simp: bit_simps dest: bit_imp_le_length)
  then have "?f (c XOR of_bytes (b # bs)) = absorb c b XOR ?z"
    using additive_funpow [OF additive_lstep, of 8 poly] z by (simp add: additive_def absorb_step flip: xor.assoc)
  moreover have "foldl absorb c (b # bs) = (lstep poly ^^ (8 * length bs)) (absorb c b XOR ?z)"
    using Cons by simp
  moreover have "8 * length (b # bs) = 8 * length bs + 8" by simp
  then have "(lstep poly ^^ (8 * length (b # bs))) w = (lstep poly ^^ (8 * length bs)) (?f w)" for w
    by (simp only: funpow_add comp_apply)
  ultimately show ?case by simp
qed simp

lemma burst:
  assumes "length xs = length ys" "8 * length xs \<le> LENGTH('a)" "xs \<noteq> ys"
  shows "foldl absorb c (pre @ xs @ post) \<noteq> foldl absorb c (pre @ ys @ post)"
proof
  assume "foldl absorb c (pre @ xs @ post) = foldl absorb c (pre @ ys @ post)"
  then have "foldl absorb (foldl absorb c pre) xs = foldl absorb (foldl absorb c pre) ys" by (auto dest: foldl_inj)
  then have "foldl absorb c pre XOR of_bytes xs = foldl absorb c pre XOR of_bytes ys"
    using assms(1,2) by (simp add: foldl_register) (metis funpow_inj)
  then have "(of_bytes xs :: 'a word) = of_bytes ys" by (metis xor.commute xor_cancel)
  then show False using of_bytes_inj assms by blast
qed

end

lemma crc_loop_foldl: "holds m a bs \<Longrightarrow> crc_loop absorb m c a (length bs) = Some (foldl absorb c bs)"
  by (induction bs arbitrary: a c) auto

lemma low_byte: "unat ((x :: 'a::len word) AND 0xff) < 256"
proof -
  have "x AND 0xff = take_bit 8 x" by (simp add: take_bit_eq_mask mask_eq_exp_minus_1)
  then show ?thesis by (simp add: unsigned_take_bit_eq take_bit_nat_less_exp [of 8, simplified])
qed

interpretation crc16: lsb_crc "0xA001" crc16_byte
proof
  show "crc16_byte c b = (lstep 0xA001 ^^ 8) (c XOR ucast b)" for c b
    using lookup_steps [where p = "0xA001" and c = c and b = b] crc16_table_step [OF low_byte [of "c XOR ucast b"]] by (simp add: crc16_byte_def xor.commute)
qed simp_all

interpretation crc32: lsb_crc "0xEDB88320" crc32_byte
proof
  show "crc32_byte c b = (lstep 0xEDB88320 ^^ 8) (c XOR ucast b)" for c b
    using lookup_steps [where p = "0xEDB88320" and c = c and b = b] crc32_tab_step [OF low_byte [of "c XOR ucast b"]] by (simp add: crc32_byte_def)
qed simp_all

lemma byte_less: "unat (x :: u8) < 256"
  using unat_le_word [of x] by simp

text \<open>CRC-8 over the table that \<open>crc8_populate_lsb\<close> makes of any polynomial with a top bit.\<close>

lemma crc8_lsb_step:
  "length T = 256 \<Longrightarrow> crc8_byte (crc8_populate_lsb T p) c b = (lstep p ^^ 8) (c XOR b)"
  using crc8_populate_lsb_table [of T p] byte_less [of "c XOR b"] by (simp add: lsb_table_def crc8_byte_def)

lemma crc8_msb_step:
  "length T = 256 \<Longrightarrow> crc8_byte (crc8_populate_msb T p) c b = (mstep p ^^ 8) (c XOR b)"
  using crc8_populate_msb_table [of T p] byte_less [of "c XOR b"] by (simp add: msb_table_def crc8_byte_def)

lemma crc7_step: "crc7_be_byte c b = (mstep 0x12 ^^ 8) (c XOR b)"
  using crc7_table_step [OF byte_less [of "c XOR b"]] by (simp add: crc7_be_byte_def)

interpretation crc8: lsb_crc "p OR 0x80" "crc8_byte (crc8_populate_lsb (replicate 256 0) (p OR 0x80))" for p
proof
  show "crc8_byte (crc8_populate_lsb (replicate 256 0) (p OR 0x80)) c b = (lstep (p OR 0x80) ^^ 8) (c XOR ucast b)" for c b
    by (simp add: crc8_lsb_step)
qed (simp_all add: bit_or_iff)

section \<open>CRC-4\<close>

definition step4 :: "u8 \<Rightarrow> u8" where
  "step4 x = push_bit 1 x XOR (if bit x 3 then 0x17 else 0)"

definition nibbles :: "u64 \<Rightarrow> nat \<Rightarrow> u8 list" where
  "nibbles x n = map (\<lambda>i. ucast (drop_bit (4 * i) x AND 0xf)) (rev [0 ..< n])"

lemma crc4_tab_step:
  "i < 16 \<Longrightarrow> tab_at crc4_tab i = Some ((step4 ^^ 4) (of_nat i)) \<and> (step4 ^^ 4) (of_nat i) < 16"
proof -
  have f4: "(f ^^ 4) x = f (f (f (f x)))" for f and x :: u8 by (simp add: numeral_eq_Suc)
  assume "i < 16"
  then have "i \<in> set [0 ..< 16]" by simp
  moreover have "[0 ..< 16] = [0, 1, 2, 3, 4, 5, 6, 7, 8, 9, 10, 11, 12, 13, 14, 15]" by (simp add: upt_rec)
  ultimately have "i \<in> set [0, 1, 2, 3, 4, 5, 6, 7, 8, 9, 10, 11, 12, 13, 14, 15]" by metis
  then show ?thesis unfolding list.set by (elim insertE emptyE) (simp_all add: f4 step4_def tab_at_def crc4_tab_def)
qed

lemma nibble_less: "(c :: u8) < 16 \<Longrightarrow> unat (c XOR ucast ((x :: u64) AND 0xf)) < 16"
proof -
  assume "c < 16"
  then have c: "take_bit 4 c = c" by (simp add: word_unat_eq_iff unsigned_take_bit_eq take_bit_nat_eq_self word_less_nat_alt)
  have "ucast (x AND 0xf) = (take_bit 4 (ucast x) :: u8)"
    by (rule bit_word_eqI) (auto simp: bit_simps take_bit_eq_mask mask_eq_exp_minus_1)
  then have "c XOR ucast (x AND 0xf) = take_bit 4 (c XOR ucast x)" using c by (simp add: take_bit_xor)
  then show ?thesis
    by (simp only: unsigned_take_bit_eq) (simp add: take_bit_nat_less_exp [of 4, simplified] del: take_bit_xor)
qed

lemma crc4_loop_steps:
  "c < 16 \<Longrightarrow> crc4_loop c x n = Some (foldl (\<lambda>c d. (step4 ^^ 4) (c XOR d)) c (nibbles x n)) \<and>
     foldl (\<lambda>c d. (step4 ^^ 4) (c XOR d)) c (nibbles x n) < 16"
proof (induction n arbitrary: c)
  case (Suc n)
  let ?d = "ucast (drop_bit (4 * n) x AND 0xf) :: u8"
  have "tab_at crc4_tab (unat (c XOR ?d)) = Some ((step4 ^^ 4) (c XOR ?d))" "(step4 ^^ 4) (c XOR ?d) < 16"
    using crc4_tab_step [OF nibble_less [OF Suc.prems]] by simp_all
  then show ?case using Suc.IH by (simp add: nibbles_def)
qed (simp add: nibbles_def)

section \<open>Properties\<close>

text \<open>C27: CRC-16 and CRC-32 tell apart any two buffers of the same length that differ only within two
  (CRC-16) or four (CRC-32) consecutive bytes, wherever the difference lies and whatever the seed.\<close>

theorem crc_detects_bursts:
  assumes "holds m a (pre @ xs @ post)" "holds m b (pre @ ys @ post)" "length xs = length ys" "xs \<noteq> ys"
    and n: "n = length (pre @ xs @ post)"
  shows "(length xs \<le> 2 \<longrightarrow> (\<exists>r s. crc16 m c a n = Some r \<and> crc16 m c b n = Some s \<and> r \<noteq> s)) \<and>
     (length xs \<le> 4 \<longrightarrow> (\<exists>r s. crc32_le m d a (int n) = Some r \<and> crc32_le m d b (int n) = Some s \<and> r \<noteq> s))"
proof -
  have n': "n = length (pre @ ys @ post)" using n assms(3) by simp
  show ?thesis
    unfolding crc16_def crc32_le_def nat_int crc_loop_foldl [OF assms(1), folded n] crc_loop_foldl [OF assms(2), folded n']
    using crc16.burst [of xs ys c pre post] crc32.burst [of xs ys d pre post] assms(3,4) by auto
qed

lemma crc_detects_bursts_witness:
  "\<exists>r s. crc32_le (put (put (\<lambda>_. None) 8 [1, 2, 3]) 16 [1, 9, 9]) 0 8 3 = Some r \<and>
     crc32_le (put (put (\<lambda>_. None) 8 [1, 2, 3]) 16 [1, 9, 9]) 0 16 3 = Some s \<and> r \<noteq> s"
proof -
  let ?m = "put (put (\<lambda>_. None) 8 [1, 2, 3]) 16 [1, 9, 9]"
  have "holds ?m 8 ([1] @ [2, 3] @ [])" "holds ?m 16 ([1] @ [9, 9] @ [])" by (simp_all add: peek_put)
  from crc_detects_bursts [OF this, of 3 0 0] show ?thesis by simp
qed

text \<open>C28: The table-driven routines compute the division by their polynomial, eight (CRC-4: four) single-bit
  steps for each byte (nibble): CRC-16 by x^16 + x^15 + x^2 + 1 and CRC-32 reflected, CRC-7 by
  x^7 + x^3 + 1 from the top bit, CRC-4 by x^4 + x^2 + x + 1 without leaving its table.\<close>

theorem crc_polynomials:
  assumes "holds m a bs" "c4 < 16" "bits < 64"
  shows "crc16 m c16 a (length bs) = Some (foldl (\<lambda>c b. (lstep 0xA001 ^^ 8) (c XOR ucast b)) c16 bs) \<and>
     crc32_le m c32 a (int (length bs)) = Some (foldl (\<lambda>c b. (lstep 0xEDB88320 ^^ 8) (c XOR ucast b)) c32 bs) \<and>
     crc7_be m c7 a (length bs) = Some (foldl (\<lambda>c b. (mstep 0x12 ^^ 8) (c XOR b)) c7 bs) \<and>
     crc4 c4 x bits = Some (foldl (\<lambda>c d. (step4 ^^ 4) (c XOR d)) c4
           (nibbles (x AND (push_bit bits 1 - 1)) ((bits + 3) div 4)))"
proof -
  have "crc16_byte = (\<lambda>c b. (lstep 0xA001 ^^ 8) (c XOR ucast b))" by (intro ext) (rule crc16.absorb_step)
  then have a: "crc16 m c16 a (length bs) = Some (foldl (\<lambda>c b. (lstep 0xA001 ^^ 8) (c XOR ucast b)) c16 bs)"
    using crc_loop_foldl [OF assms(1)] by (simp add: crc16_def)
  have "crc32_byte = (\<lambda>c b. (lstep 0xEDB88320 ^^ 8) (c XOR ucast b))" by (intro ext) (rule crc32.absorb_step)
  then have b: "crc32_le m c32 a (int (length bs)) = Some (foldl (\<lambda>c b. (lstep 0xEDB88320 ^^ 8) (c XOR ucast b)) c32 bs)"
    using crc_loop_foldl [OF assms(1)] by (simp add: crc32_le_def)
  have "crc7_be_byte = (\<lambda>c b. (mstep 0x12 ^^ 8) (c XOR b))" by (intro ext) (rule crc7_step)
  then have c: "crc7_be m c7 a (length bs) = Some (foldl (\<lambda>c b. (mstep 0x12 ^^ 8) (c XOR b)) c7 bs)"
    using crc_loop_foldl [OF assms(1)] by (simp add: crc7_be_def)
  have d: "crc4 c4 x bits = Some (foldl (\<lambda>c d. (step4 ^^ 4) (c XOR d)) c4
      (nibbles (x AND (push_bit bits 1 - 1)) ((bits + 3) div 4)))"
    using crc4_loop_steps [OF assms(2)] assms(3) by (simp add: crc4_def)
  show ?thesis using a b c d by blast
qed

lemma crc_polynomials_witness:
  "crc16 (put (\<lambda>_. None) 8 [0x31]) 0 8 1 = Some ((lstep 0xA001 ^^ 8) 0x31)"
  using crc_polynomials [of "put (\<lambda>_. None) 8 [0x31]" 8 "[0x31]" 0 0 0, THEN conjunct1] by simp

text \<open>Whatever the polynomial and the old contents of the table, \<open>crc8_populate_msb\<close> and
  \<open>crc8_populate_lsb\<close> fill all 256 entries with eight steps of the division of the index, in their
  bit order, and \<open>crc8\<close> over such a table is the division of the whole buffer.\<close>

theorem crc8_tables:
  assumes "length T = 256" "holds m a bs"
  shows "crc8 m (crc8_populate_lsb T p) a (length bs) c = Some (foldl (\<lambda>c b. (lstep p ^^ 8) (c XOR b)) c bs) \<and>
     crc8 m (crc8_populate_msb T p) a (length bs) c = Some (foldl (\<lambda>c b. (mstep p ^^ 8) (c XOR b)) c bs) \<and>
     length (crc8_populate_lsb T p) = 256 \<and> length (crc8_populate_msb T p) = 256"
proof -
  have l: "crc8_byte (crc8_populate_lsb T p) = (\<lambda>c b. (lstep p ^^ 8) (c XOR b))"
    by (intro ext) (rule crc8_lsb_step [OF assms(1)])
  have m: "crc8_byte (crc8_populate_msb T p) = (\<lambda>c b. (mstep p ^^ 8) (c XOR b))"
    by (intro ext) (rule crc8_msb_step [OF assms(1)])
  have a: "crc8 m (crc8_populate_lsb T p) a (length bs) c = Some (foldl (\<lambda>c b. (lstep p ^^ 8) (c XOR b)) c bs)"
    "crc8 m (crc8_populate_msb T p) a (length bs) c = Some (foldl (\<lambda>c b. (mstep p ^^ 8) (c XOR b)) c bs)"
    using crc_loop_foldl [OF assms(2)] l m by (simp_all add: crc8_def)
  have b: "length (crc8_populate_lsb T p) = 256 \<and> length (crc8_populate_msb T p) = 256"
    using crc8_populate_lsb_table [OF assms(1), of p] crc8_populate_msb_table [OF assms(1), of p]
    by (simp add: lsb_table_def msb_table_def)
  show ?thesis using a b by blast
qed

lemma crc8_tables_witness:
  "crc8 (put (\<lambda>_. None) 8 [5]) (crc8_populate_msb (replicate 256 77) 0x07) 8 1 0 = Some ((mstep 0x07 ^^ 8) 5)"
  using crc8_tables [of "replicate 256 77" "put (\<lambda>_. None) 8 [5]" 8 "[5]" 7 0, THEN conjunct2, THEN conjunct1] by simp

end
