(* ===== verification/CharDev.thy ===== *)
theory CharDev
  imports Prelude
begin

text \<open>
  Character device numbers, \<^verbatim>\<open>fs/char_device.c\<close>: the hash table of registered ranges,
  the dynamic major, registration with rollback and the look-up of the operations.

  A chain of \<open>chrdevs\<close> is the list of its entries in link order. Numbers are naturals
  reduced to 32 bits where the code computes in \<open>unsigned\<close> or \<open>dev_t\<close>. \<open>kzalloc\<close> is the
  heap's business: \<open>fails\<close> lists the outcomes of the next calls, \<open>True\<close> for NULL; an empty list
  is memory to spare. An error pointer is a result \<open>Inl\<close> with the (negative) error number. The mutex
  operations are empty in this kernel.
\<close>

section \<open>State\<close>

record 'f cdev =
  cops :: 'f
  cdev_dev :: nat
  cdev_count :: nat

record 'f char_device_struct =
  major :: nat
  baseminor :: nat
  minorct :: nat
  cname :: "u8 list"
  cdev :: "'f cdev option"

record 'f chrdev_state =
  chrdevs :: "nat \<Rightarrow> 'f char_device_struct list"
  fails :: "bool list"

abbreviation (input) CHRDEV_MAJOR_HASH_SIZE :: nat where "CHRDEV_MAJOR_HASH_SIZE \<equiv> 127"
abbreviation (input) CHRDEV_MAJOR_MAX :: nat where "CHRDEV_MAJOR_MAX \<equiv> 512"
abbreviation (input) CHRDEV_MAJOR_DYN_END :: nat where "CHRDEV_MAJOR_DYN_END \<equiv> 234"
abbreviation (input) CHRDEV_MAJOR_DYN_EXT_START :: nat where "CHRDEV_MAJOR_DYN_EXT_START \<equiv> 511"
abbreviation (input) CHRDEV_MAJOR_DYN_EXT_END :: nat where "CHRDEV_MAJOR_DYN_EXT_END \<equiv> 384"
abbreviation (input) MINORS :: nat where "MINORS \<equiv> 1048576"

definition MAJOR :: "nat \<Rightarrow> nat" where "MAJOR dev = dev div MINORS"
definition MINOR :: "nat \<Rightarrow> nat" where "MINOR dev = dev mod MINORS"
definition MKDEV :: "nat \<Rightarrow> nat \<Rightarrow> nat" where "MKDEV ma mi = sz (ma * MINORS) OR mi"

definition major_to_index :: "nat \<Rightarrow> nat" where "major_to_index ma = ma mod CHRDEV_MAJOR_HASH_SIZE"

text \<open>\<open>kzalloc\<close>: whether memory was granted.\<close>

definition kzalloc :: "'f chrdev_state \<Rightarrow> bool \<times> 'f chrdev_state" where
  "kzalloc s = (case fails s of [] \<Rightarrow> (True, s) | b # bs \<Rightarrow> (\<not> b, s\<lparr>fails := bs\<rparr>))"

section \<open>Operations\<close>

text \<open>\<open>find_dynamic_major\<close>: the first loop runs over the buckets from the last down to \<open>DYN_END\<close>, the
  second over the majors from \<open>DYN_EXT_START\<close> down to \<open>DYN_EXT_END\<close>.\<close>

function scan_buckets :: "'f chrdev_state \<Rightarrow> nat \<Rightarrow> nat option" where
  "scan_buckets s i =
     (if CHRDEV_MAJOR_DYN_END \<le> i
      then (if chrdevs s i = [] then Some i else scan_buckets s (i - 1))
      else None)"
  by auto
termination by (relation "measure snd") auto

function scan_majors :: "'f chrdev_state \<Rightarrow> nat \<Rightarrow> nat option" where
  "scan_majors s i =
     (if CHRDEV_MAJOR_DYN_EXT_END \<le> i
      then (if \<exists>cd \<in> set (chrdevs s (major_to_index i)). major cd = i then scan_majors s (i - 1) else Some i)
      else None)"
  by auto
termination by (relation "measure snd") auto

definition find_dynamic_major :: "'f chrdev_state \<Rightarrow> int" where
  "find_dynamic_major s =
     (case scan_buckets s (CHRDEV_MAJOR_HASH_SIZE - 1) of
        Some i \<Rightarrow> int i
      | None \<Rightarrow> (case scan_majors s CHRDEV_MAJOR_DYN_EXT_START of Some i \<Rightarrow> int i | None \<Rightarrow> - EBUSY))"

text \<open>The search for the place of a new entry in its chain, and the insertion there; \<open>None\<close> is \<open>goto out\<close>.\<close>

fun insert_region ::
    "'f char_device_struct \<Rightarrow> 'f char_device_struct list \<Rightarrow> 'f char_device_struct list option" where
  "insert_region cd [] = Some [cd]"
| "insert_region cd (cur # rest) =
     (if major cur < major cd then map_option ((#) cur) (insert_region cd rest)
      else if major cd < major cur then Some (cd # cur # rest)
      else if sz (baseminor cur + minorct cur) \<le> baseminor cd then map_option ((#) cur) (insert_region cd rest)
      else if sz (baseminor cd + minorct cd) \<le> baseminor cur then Some (cd # cur # rest)
      else None)"

definition register_region ::
    "'f chrdev_state \<Rightarrow> nat \<Rightarrow> nat \<Rightarrow> nat \<Rightarrow> u8 list \<Rightarrow> (int + 'f char_device_struct) \<times> 'f chrdev_state" where
  "register_region s ma base ct nm =
     (if CHRDEV_MAJOR_MAX \<le> ma then (Inl (- EINVAL), s)
      else if sz (MINORS + 4294967296 - base) < ct then (Inl (- EINVAL), s)
      else
        let (ok, s) = kzalloc s in
        if \<not> ok then (Inl (- ENOMEM), s)
        else
          let ret = (if ma = 0 then find_dynamic_major s else int ma) in
          if ret < 0 then (Inl ret, s)
          else
            let ma = nat ret;
                i = major_to_index ma;
                cd = \<lparr>major = ma, baseminor = base, minorct = ct, cname = take 64 nm, cdev = None\<rparr>
            in (case insert_region cd (chrdevs s i) of
                  None \<Rightarrow> (Inl (- EBUSY), s)
                | Some ch \<Rightarrow> (Inr cd, s\<lparr>chrdevs := (chrdevs s)(i := ch)\<rparr>)))"

text \<open>\<open>__unregister_chrdev_region\<close>: unlinks the first entry with exactly these numbers and returns it.\<close>

fun unlink_region ::
    "nat \<Rightarrow> nat \<Rightarrow> nat \<Rightarrow> 'f char_device_struct list \<Rightarrow> 'f char_device_struct option \<times> 'f char_device_struct list" where
  "unlink_region ma base ct [] = (None, [])"
| "unlink_region ma base ct (cp # rest) =
     (if major cp = ma \<and> baseminor cp = base \<and> minorct cp = ct then (Some cp, rest)
      else let (r, rest) = unlink_region ma base ct rest in (r, cp # rest))"

definition unregister_region ::
    "'f chrdev_state \<Rightarrow> nat \<Rightarrow> nat \<Rightarrow> nat \<Rightarrow> 'f char_device_struct option \<times> 'f chrdev_state" where
  "unregister_region s ma base ct =
     (let i = major_to_index ma;
          (cd, ch) = unlink_region ma base ct (chrdevs s i)
      in (cd, s\<lparr>chrdevs := (chrdevs s)(i := ch)\<rparr>))"

text \<open>The loops over the majors of a range \<open>n \<le> dev < to\<close>. The range may wrap around, so they may not end.\<close>

definition next_dev :: "nat \<Rightarrow> nat \<Rightarrow> nat" where
  "next_dev n to = (let nxt = MKDEV (sz (MAJOR n + 1)) 0 in if to < nxt then to else nxt)"

partial_function (option) register_loop ::
    "'f chrdev_state \<Rightarrow> nat \<Rightarrow> nat \<Rightarrow> u8 list \<Rightarrow> ((int \<times> nat) option \<times> 'f chrdev_state) option" where
  \<comment> \<open>the failure with the number it happened at, if any\<close>
  "register_loop s n to nm =
     (if n < to
      then let nxt = next_dev n to;
               r = register_region s (MAJOR n) (MINOR n) (sz (nxt + 4294967296 - n)) nm
           in (case fst r of
                 Inl e \<Rightarrow> Some (Some (e, n), snd r)
               | Inr cd \<Rightarrow> register_loop (snd r) nxt to nm)
      else Some (None, s))"

partial_function (option) rollback_loop :: "'f chrdev_state \<Rightarrow> nat \<Rightarrow> nat \<Rightarrow> 'f chrdev_state option" where
  "rollback_loop s n to =
     (if n < to
      then let nxt = MKDEV (sz (MAJOR n + 1)) 0
           in rollback_loop (snd (unregister_region s (MAJOR n) (MINOR n) (sz (nxt + 4294967296 - n)))) nxt to
      else Some s)"

definition register_chrdev_region ::
    "'f chrdev_state \<Rightarrow> nat \<Rightarrow> nat \<Rightarrow> u8 list \<Rightarrow> (int \<times> 'f chrdev_state) option" where
  "register_chrdev_region s from count nm = do {
     let to = sz (from + count);
     (r, s) \<leftarrow> register_loop s from to nm;
     (case r of
        None \<Rightarrow> Some (0, s)
      | Some (e, n) \<Rightarrow> do { s \<leftarrow> rollback_loop s from n; Some (e, s) }) }"

definition alloc_chrdev_region ::
    "'f chrdev_state \<Rightarrow> nat \<Rightarrow> nat \<Rightarrow> u8 list \<Rightarrow> int \<times> nat option \<times> 'f chrdev_state" where
  \<comment> \<open>the value stored through \<open>dev\<close>, if any\<close>
  "alloc_chrdev_region s base count nm =
     (case register_region s 0 base count nm of
        (Inl e, s) \<Rightarrow> (e, None, s)
      | (Inr cd, s) \<Rightarrow> (0, Some (MKDEV (major cd) (baseminor cd)), s))"

partial_function (option) unregister_loop :: "'f chrdev_state \<Rightarrow> nat \<Rightarrow> nat \<Rightarrow> 'f chrdev_state option" where
  "unregister_loop s n to =
     (if n < to
      then let nxt = next_dev n to
           in unregister_loop (snd (unregister_region s (MAJOR n) (MINOR n) (sz (nxt + 4294967296 - n)))) nxt to
      else Some s)"

definition unregister_chrdev_region :: "'f chrdev_state \<Rightarrow> nat \<Rightarrow> nat \<Rightarrow> 'f chrdev_state option" where
  "unregister_chrdev_region s from count = unregister_loop s from (sz (from + count))"

text \<open>\<open>cdev_alloc\<close>, \<open>cdev_add\<close>, and the registration of a range with its operations.\<close>

definition cdev_alloc :: "'f chrdev_state \<Rightarrow> bool \<times> 'f chrdev_state" where
  "cdev_alloc s = kzalloc s"

definition cdev_add :: "'f cdev \<Rightarrow> nat \<Rightarrow> nat \<Rightarrow> int \<times> 'f cdev" where
  "cdev_add p dev count = (0, p\<lparr>cdev_dev := dev, cdev_count := count\<rparr>)"

text \<open>\<open>cd->cdev = cdev\<close>: \<open>cd\<close> is the entry just inserted, the last one that reads the same.\<close>

fun update_entry ::
    "'f char_device_struct \<Rightarrow> 'f cdev \<Rightarrow> 'f char_device_struct list \<Rightarrow> 'f char_device_struct list" where
  "update_entry cd c [] = []"
| "update_entry cd c (x # xs) =
     (if x = cd \<and> cd \<notin> set xs then x\<lparr>cdev := Some c\<rparr> # xs else x # update_entry cd c xs)"

definition set_cdev :: "'f char_device_struct \<Rightarrow> 'f cdev \<Rightarrow> 'f chrdev_state \<Rightarrow> 'f chrdev_state" where
  "set_cdev cd c s =
     (let i = major_to_index (major cd)
      in s\<lparr>chrdevs := (chrdevs s)(i := update_entry cd c (chrdevs s i))\<rparr>)"

definition register_chrdev ::
    "'f chrdev_state \<Rightarrow> nat \<Rightarrow> nat \<Rightarrow> nat \<Rightarrow> u8 list \<Rightarrow> 'f \<Rightarrow> int \<times> 'f chrdev_state" where
  "register_chrdev s ma base count nm fops =
     (case register_region s ma base count nm of
        (Inl e, s) \<Rightarrow> (e, s)
      | (Inr cd, s) \<Rightarrow>
          let (ok, s) = cdev_alloc s in
          if \<not> ok then (- ENOMEM, snd (unregister_region s (major cd) base count))
          else
            let (err, c) = cdev_add \<lparr>cops = fops, cdev_dev = 0, cdev_count = 0\<rparr> (MKDEV (major cd) base) count in
            if err \<noteq> 0 then (err, snd (unregister_region s (major cd) base count))
            else (if ma \<noteq> 0 then 0 else int (major cd), set_cdev cd c s))"

definition unregister_chrdev :: "'f chrdev_state \<Rightarrow> nat \<Rightarrow> nat \<Rightarrow> nat \<Rightarrow> 'f chrdev_state" where
  "unregister_chrdev s ma base count = snd (unregister_region s ma base count)"

text \<open>\<open>find_chrdev\<close>: the outer option is \<open>None\<close> when \<open>cd->cdev\<close> is NULL and gets dereferenced, the inner
  one when the code returns NULL.\<close>

fun find_loop :: "nat \<Rightarrow> nat \<Rightarrow> 'f char_device_struct list \<Rightarrow> 'f option option" where
  "find_loop ma mi [] = Some None"
| "find_loop ma mi (cd # rest) =
     (if major cd \<noteq> ma then find_loop ma mi rest
      else if baseminor cd \<le> mi \<and> mi < sz (baseminor cd + minorct cd)
        then (case cdev cd of None \<Rightarrow> None | Some c \<Rightarrow> Some (Some (cops c)))
      else find_loop ma mi rest)"

definition find_chrdev :: "'f chrdev_state \<Rightarrow> nat \<Rightarrow> nat \<Rightarrow> 'f option option" where
  "find_chrdev s ma mi = find_loop ma mi (chrdevs s (major_to_index ma))"

declare scan_buckets.simps [simp del] scan_majors.simps [simp del]

section \<open>Invariant\<close>

definition before :: "'f char_device_struct \<Rightarrow> 'f char_device_struct \<Rightarrow> bool" where
  "before a b \<longleftrightarrow> major a < major b \<or> major a = major b \<and> baseminor a + minorct a \<le> baseminor b"

definition entry_ok :: "'f char_device_struct \<Rightarrow> bool" where
  "entry_ok cd \<longleftrightarrow> 0 < major cd \<and> major cd < CHRDEV_MAJOR_MAX \<and> baseminor cd + minorct cd \<le> MINORS"

type_synonym 'f table = "nat \<Rightarrow> 'f char_device_struct list"

definition table_ok :: "'f table \<Rightarrow> bool" where
  "table_ok T \<longleftrightarrow>
     (\<forall>i. sorted_wrt before (T i) \<and> (\<forall>cd \<in> set (T i). entry_ok cd \<and> major_to_index (major cd) = i))"

definition chrdev_ok :: "'f chrdev_state \<Rightarrow> bool" where "chrdev_ok s \<longleftrightarrow> table_ok (chrdevs s)"

definition entries :: "'f table \<Rightarrow> 'f char_device_struct set" where
  "entries T = (\<Union>i. set (T i))"

text \<open>Two ranges overlap when they share a device number.\<close>

definition overlap :: "'f char_device_struct \<Rightarrow> 'f char_device_struct \<Rightarrow> bool" where
  "overlap a b \<longleftrightarrow> major a = major b \<and> baseminor a < baseminor b + minorct b \<and> baseminor b < baseminor a + minorct a"

lemma before_trans: "before a b \<Longrightarrow> before b c \<Longrightarrow> before a c"
  by (auto simp: before_def)

lemma before_not_overlap: "before a b \<Longrightarrow> \<not> overlap a b \<and> \<not> overlap b a"
  by (auto simp: before_def overlap_def)

lemma entry_ok_sz: "entry_ok cd \<Longrightarrow> sz (baseminor cd + minorct cd) = baseminor cd + minorct cd"
  by (simp add: entry_ok_def)

text \<open>Where a new entry goes: between the entries before it and the ones after it, if it overlaps none.\<close>

lemma insert_region_split:
  assumes "entry_ok cd" "sorted_wrt before xs" "\<forall>x \<in> set xs. entry_ok x" "0 < minorct cd"
  shows "case insert_region cd xs of
     None \<Rightarrow> \<exists>x \<in> set xs. overlap x cd
   | Some ys \<Rightarrow> \<exists>us vs. xs = us @ vs \<and> ys = us @ cd # vs \<and> (\<forall>x \<in> set us. before x cd) \<and> (\<forall>x \<in> set vs. before cd x)"
  using assms
proof (induction xs)
  case (Cons x xs)
  note sz = entry_ok_sz [of x] entry_ok_sz [OF Cons.prems(1)]
  have IH: "case insert_region cd xs of
     None \<Rightarrow> \<exists>x \<in> set xs. overlap x cd
   | Some ys \<Rightarrow> \<exists>us vs. xs = us @ vs \<and> ys = us @ cd # vs \<and> (\<forall>x \<in> set us. before x cd) \<and> (\<forall>x \<in> set vs. before cd x)"
    using Cons by simp
  have after: "before cd x \<Longrightarrow> \<forall>y \<in> set (x # xs). before cd y"
    using Cons.prems(2) before_trans by auto
  consider (skip) "before x cd" | (stop) "\<not> before x cd" "before cd x" | (busy) "overlap x cd" "\<not> before x cd" "\<not> before cd x"
    by (cases "major x" "major cd" rule: linorder_cases; cases "baseminor x + minorct x \<le> baseminor cd";
        cases "baseminor cd + minorct cd \<le> baseminor x") (auto simp: before_def overlap_def)
  then show ?case
  proof cases
    case skip
    then have eq: "insert_region cd (x # xs) = map_option ((#) x) (insert_region cd xs)"
      using sz Cons.prems(3) by (auto simp: before_def)
    show ?thesis
    proof (cases "insert_region cd xs")
      case None
      then show ?thesis using eq IH by auto
    next
      case (Some ys)
      then obtain us vs where "xs = us @ vs" "ys = us @ cd # vs" "\<forall>x \<in> set us. before x cd" "\<forall>x \<in> set vs. before cd x"
        using IH by auto
      then have "x # xs = (x # us) @ vs \<and> x # ys = (x # us) @ cd # vs \<and>
          (\<forall>y \<in> set (x # us). before y cd) \<and> (\<forall>y \<in> set vs. before cd y)"
        using skip by simp
      then have "\<exists>us vs. x # xs = us @ vs \<and> x # ys = us @ cd # vs \<and> (\<forall>y \<in> set us. before y cd) \<and> (\<forall>y \<in> set vs. before cd y)"
        by blast
      then show ?thesis unfolding eq Some by simp
    qed
  next
    case stop
    then have "insert_region cd (x # xs) = Some (cd # x # xs)" using sz Cons.prems(3) by (auto simp: before_def)
    moreover have "\<exists>us vs. x # xs = us @ vs \<and> cd # x # xs = us @ cd # vs \<and>
        (\<forall>y \<in> set us. before y cd) \<and> (\<forall>y \<in> set vs. before cd y)"
      using after [OF stop(2)] by (intro exI [of _ "[]"] exI [of _ "x # xs"]) simp
    ultimately show ?thesis by simp
  next
    case busy
    then have "insert_region cd (x # xs) = None" using sz Cons.prems(3) by (auto simp: before_def)
    then show ?thesis using busy by auto
  qed
qed simp


lemma insert_region_sorted:
  assumes "entry_ok cd" "sorted_wrt before xs" "\<forall>x \<in> set xs. entry_ok x" "0 < minorct cd" "insert_region cd xs = Some ys"
  shows "sorted_wrt before ys \<and> set ys = insert cd (set xs)"
proof -
  obtain us vs where "xs = us @ vs" "ys = us @ cd # vs" "\<forall>x \<in> set us. before x cd" "\<forall>x \<in> set vs. before cd x"
    using insert_region_split [OF assms(1-4)] assms(5) by auto
  then show ?thesis using assms(2) by (auto simp: sorted_wrt_append)
qed

lemma insert_region_busy:
  assumes "entry_ok cd" "sorted_wrt before xs" "\<forall>x \<in> set xs. entry_ok x" "0 < minorct cd"
  shows "insert_region cd xs = None \<longleftrightarrow> (\<exists>x \<in> set xs. overlap x cd)"
proof (cases "insert_region cd xs")
  case None
  then show ?thesis using insert_region_split [OF assms] by simp
next
  case (Some ys)
  then obtain us vs where "xs = us @ vs" "\<forall>x \<in> set us. before x cd" "\<forall>x \<in> set vs. before cd x"
    using insert_region_split [OF assms] by auto
  then show ?thesis using Some before_not_overlap by auto
qed

definition same_key :: "nat \<Rightarrow> nat \<Rightarrow> nat \<Rightarrow> 'f char_device_struct \<Rightarrow> bool" where
  "same_key ma base ct x \<longleftrightarrow> major x = ma \<and> baseminor x = base \<and> minorct x = ct"

lemma unlink_region_mid:
  "\<forall>x \<in> set us. \<not> same_key ma base ct x \<Longrightarrow> same_key ma base ct cd \<Longrightarrow>
   unlink_region ma base ct (us @ cd # vs) = (Some cd, us @ vs)"
  by (induction us) (auto simp: same_key_def)

text \<open>Taking out what was put in gives the chain back.\<close>

lemma unlink_insert:
  assumes "entry_ok cd" "sorted_wrt before xs" "\<forall>x \<in> set xs. entry_ok x" "0 < minorct cd" "insert_region cd xs = Some ys"
  shows "unlink_region (major cd) (baseminor cd) (minorct cd) ys = (Some cd, xs)"
proof -
  obtain us vs where us: "xs = us @ vs" "ys = us @ cd # vs" "\<forall>x \<in> set us. before x cd"
    using insert_region_split [OF assms(1-4)] assms(5) by auto
  have "\<not> same_key (major cd) (baseminor cd) (minorct cd) x" if "before x cd" for x
    using that assms(4) by (auto simp: before_def same_key_def)
  then show ?thesis using us unlink_region_mid [of us "major cd" "baseminor cd" "minorct cd" cd vs]
    by (auto simp: same_key_def)
qed

section \<open>The table as a registry of ranges\<close>

text \<open>A range: major, first minor and number of minors; the entry made for it; its registration in a table.\<close>

type_synonym range = "nat \<times> nat \<times> nat"

definition entry :: "u8 list \<Rightarrow> range \<Rightarrow> 'f char_device_struct" where
  "entry nm k = (case k of (ma, base, ct) \<Rightarrow>
     \<lparr>major = ma, baseminor = base, minorct = ct, cname = take 64 nm, cdev = None\<rparr>)"

definition range_ok :: "range \<Rightarrow> bool" where
  "range_ok k = (case k of (ma, base, ct) \<Rightarrow> 0 < ma \<and> ma < CHRDEV_MAJOR_MAX \<and> 0 < ct \<and> base + ct \<le> MINORS)"

definition claim :: "u8 list \<Rightarrow> 'f table \<Rightarrow> range \<Rightarrow> 'f table option" where
  "claim nm T k =
     (let i = major_to_index (fst k)
      in if range_ok k then map_option (\<lambda>ch. T(i := ch)) (insert_region (entry nm k) (T i)) else None)"

definition release :: "'f table \<Rightarrow> range \<Rightarrow> 'f table" where
  "release T k =
     (let i = major_to_index (fst k) in T(i := snd (unlink_region (fst k) (fst (snd k)) (snd (snd k)) (T i))))"

text \<open>
  What the client of a registry relies on: releasing what was just claimed undoes the claim, and
  claims of different majors can be made in either order.
\<close>

locale registry =
  fixes inv :: "'s \<Rightarrow> bool" and claim :: "'s \<Rightarrow> 'k \<Rightarrow> 's option" and release :: "'s \<Rightarrow> 'k \<Rightarrow> 's"
    and group :: "'k \<Rightarrow> 'g"
  assumes claim_inv: "inv s \<Longrightarrow> claim s k = Some t \<Longrightarrow> inv t"
    and release_claim: "inv s \<Longrightarrow> claim s k = Some t \<Longrightarrow> release t k = s"
    and claim_commute: "inv s \<Longrightarrow> group k \<noteq> group k' \<Longrightarrow> claim s k = Some t \<Longrightarrow> claim t k' = Some u \<Longrightarrow>
      \<exists>v. claim s k' = Some v \<and> claim v k = Some u"
begin

fun claim_all :: "'s \<Rightarrow> 'k list \<Rightarrow> 's option" where
  "claim_all s [] = Some s"
| "claim_all s (k # ks) = do { t \<leftarrow> claim s k; claim_all t ks }"

lemma claim_all_inv: "inv s \<Longrightarrow> claim_all s ks = Some t \<Longrightarrow> inv t"
  by (induction ks arbitrary: s) (auto simp: bind_eq_Some_conv dest: claim_inv)

lemma claim_last:
  "inv s \<Longrightarrow> group k \<notin> group ` set ks \<Longrightarrow> claim s k = Some t \<Longrightarrow> claim_all t ks = Some u \<Longrightarrow>
   \<exists>v. claim_all s ks = Some v \<and> claim v k = Some u"
proof (induction ks arbitrary: s t)
  case (Cons k' ks)
  then obtain w where w: "claim t k' = Some w" "claim_all w ks = Some u" by (auto simp: bind_eq_Some_conv)
  obtain v where v: "claim s k' = Some v" "claim v k = Some w"
    using claim_commute [OF Cons.prems(1) _ Cons.prems(3) w(1)] Cons.prems(2) by auto
  have "inv v" using claim_inv [OF Cons.prems(1) v(1)] .
  then show ?case using Cons.IH [OF _ _ v(2) w(2)] Cons.prems(2) v(1) by auto
qed simp

text \<open>Releasing in the order of the claims, not the reverse one, also restores the registry.\<close>

lemma rollback:
  "inv s \<Longrightarrow> distinct (map group ks) \<Longrightarrow> claim_all s ks = Some u \<Longrightarrow> foldl release u ks = s"
proof (induction ks arbitrary: u)
  case (Cons k ks)
  then obtain t where t: "claim s k = Some t" "claim_all t ks = Some u" by (auto simp: bind_eq_Some_conv)
  obtain v where v: "claim_all s ks = Some v" "claim v k = Some u"
    using claim_last [OF Cons.prems(1) _ t] Cons.prems(2) by auto
  have "release u k = v" using release_claim [OF claim_all_inv [OF Cons.prems(1) v(1)] v(2)] .
  then show ?case using Cons.IH [OF Cons.prems(1) _ v(1)] Cons.prems(2) by simp
qed simp

end

lemma entry_props: "range_ok k \<Longrightarrow> entry_ok (entry nm k :: 'f char_device_struct) \<and> 0 < minorct (entry nm k :: 'f char_device_struct) \<and>
    major (entry nm k :: 'f char_device_struct) = fst k \<and>
    baseminor (entry nm k :: 'f char_device_struct) = fst (snd k) \<and>
    minorct (entry nm k :: 'f char_device_struct) = snd (snd k)"
  by (auto simp: range_ok_def entry_def entry_ok_def)

lemma table_okD: "table_ok T \<Longrightarrow> sorted_wrt before (T i) \<and> (\<forall>x \<in> set (T i). entry_ok x)"
  by (simp add: table_ok_def)

lemma claim_split:
  fixes T :: "'f table"
  assumes "table_ok T" "claim nm T k = Some T'"
  shows "\<exists>ch. range_ok k \<and> insert_region (entry nm k) (T (major_to_index (fst k))) = Some ch \<and>
     T' = T(major_to_index (fst k) := ch) \<and> sorted_wrt before ch \<and>
     set ch = insert (entry nm k) (set (T (major_to_index (fst k)))) \<and> release T' k = T"
proof -
  let ?xs = "T (major_to_index (fst k))" and ?e = "entry nm k :: 'f char_device_struct"
  have r: "range_ok k" using assms(2) by (simp add: claim_def Let_def split: if_splits)
  then obtain ch where ch: "insert_region ?e ?xs = Some ch" "T' = T(major_to_index (fst k) := ch)"
    using assms(2) by (auto simp: claim_def Let_def)
  have e: "entry_ok ?e" "0 < minorct ?e" "major ?e = fst k" "baseminor ?e = fst (snd k)" "minorct ?e = snd (snd k)"
    using entry_props [OF r, of nm, where ?'f = 'f] by simp_all
  have t: "sorted_wrt before ?xs" "\<forall>x \<in> set ?xs. entry_ok x" using table_okD [OF assms(1)] by simp_all
  show ?thesis
    using r ch insert_region_sorted [OF e(1) t e(2) ch(1)] unlink_insert [OF e(1) t e(2) ch(1)] e(3-5)
    by (simp add: release_def Let_def)
qed

lemma claim_ok:
  fixes T :: "'f table"
  assumes "table_ok T" "claim nm T k = Some T'"
  shows "table_ok T'"
proof -
  obtain ch where ch: "range_ok k" "T' = T(major_to_index (fst k) := ch)" "sorted_wrt before ch"
      "set ch = insert (entry nm k) (set (T (major_to_index (fst k))))"
    using claim_split [OF assms] by blast
  then have "entry_ok x \<and> major_to_index (major x) = major_to_index (fst k)" if "x \<in> set ch" for x
    using that entry_props [OF ch(1), of nm, where ?'f = 'f] assms(1) by (auto simp: table_ok_def)
  then show ?thesis using ch(2,3) assms(1) by (simp add: table_ok_def)
qed

text \<open>Entries of different majors can be inserted in either order.\<close>

definition skips :: "'f char_device_struct \<Rightarrow> 'f char_device_struct \<Rightarrow> bool" where
  "skips cd x \<longleftrightarrow> major x < major cd \<or> major x = major cd \<and> sz (baseminor x + minorct x) \<le> baseminor cd"

definition stops :: "'f char_device_struct \<Rightarrow> 'f char_device_struct \<Rightarrow> bool" where
  "stops cd x \<longleftrightarrow> major cd < major x \<or> major x = major cd \<and> sz (baseminor cd + minorct cd) \<le> baseminor x"

lemma insert_region_Cons:
  "insert_region cd (x # xs) =
     (if skips cd x then map_option ((#) x) (insert_region cd xs)
      else if stops cd x then Some (cd # x # xs) else None)"
  by (auto simp: skips_def stops_def)

lemma insert_commute:
  assumes ne: "major a \<noteq> major b"
  shows "insert_region a xs = Some ys \<Longrightarrow> insert_region b ys = Some zs \<Longrightarrow>
    \<exists>ws. insert_region b xs = Some ws \<and> insert_region a ws = Some zs"
proof (induction xs arbitrary: ys zs)
  case Nil
  then show ?case using assms by (auto split: if_splits)
next
  case (Cons x xs)
  note [simp] = insert_region_Cons and [simp del] = insert_region.simps(2)
  have ab: "skips a b \<longleftrightarrow> major b < major a" "stops a b \<longleftrightarrow> major a < major b"
    "skips b a \<longleftrightarrow> major a < major b" "stops b a \<longleftrightarrow> major b < major a"
    using ne by (auto simp: skips_def stops_def)
  show ?case
  proof (cases "skips a x")
    case True
    then obtain ws where ws: "insert_region a xs = Some ws" "ys = x # ws" using Cons.prems(1) by auto
    show ?thesis
    proof (cases "skips b x")
      case b: True
      then obtain z where "insert_region b ws = Some z" "zs = x # z" using Cons.prems(2) ws by auto
      then show ?thesis using Cons.IH [OF ws(1)] True b by auto
    next
      case b: False
      then have "stops b x" "zs = b # x # ws" using Cons.prems(2) ws by (auto split: if_splits)
      moreover from this have "major b < major a" using True ne by (auto simp: skips_def stops_def)
      ultimately show ?thesis using True b ws ab by auto
    qed
  next
    case False
    then have sa: "stops a x" "ys = a # x # xs" using Cons.prems(1) by (auto split: if_splits)
    show ?thesis
    proof (cases "major a < major b")
      case True
      then obtain z where z: "insert_region b (x # xs) = Some z" "zs = a # z" using Cons.prems(2) sa ab by auto
      then have "insert_region a z = Some (a # z)" using False sa True ab by (auto split: if_splits)
      then show ?thesis using z by auto
    next
      case False
      then have "major b < major a" "zs = b # a # x # xs" using Cons.prems(2) sa ab ne by (auto split: if_splits)
      moreover from this have "\<not> skips b x \<and> stops b x" using sa by (auto simp: skips_def stops_def)
      ultimately show ?thesis using sa \<open>\<not> skips a x\<close> ab by auto
    qed
  qed
qed

lemma claim_commute:
  fixes T :: "'f table"
  assumes "table_ok T" "fst k \<noteq> fst k'" "claim nm T k = Some U" "claim nm U k' = Some V"
  shows "\<exists>W. claim nm T k' = Some W \<and> claim nm W k = Some V"
proof (cases "major_to_index (fst k) = major_to_index (fst k')")
  case False
  then show ?thesis using assms(3,4) by (auto simp: claim_def Let_def fun_upd_twist split: if_splits)
next
  case True
  have "major (entry nm k :: 'f char_device_struct) \<noteq> major (entry nm k' :: 'f char_device_struct)"
    using assms(2) by (cases k; cases k') (auto simp: entry_def)
  then show ?thesis
    using assms(3,4) insert_commute [of "entry nm k" "entry nm k'" "T (major_to_index (fst k))"] True
    by (fastforce simp: claim_def Let_def split: if_splits)
qed

interpretation chrdev: registry table_ok "claim nm" release fst for nm
proof
  fix s t :: "'a table" and k :: range assume "table_ok s" "claim nm s k = Some t"
  then show "table_ok t" "release t k = s" using claim_ok claim_split by blast+
next
  fix s t u :: "'a table" and k k' :: range
  assume "table_ok s" "fst k \<noteq> fst k'" "claim nm s k = Some t" "claim nm t k' = Some u"
  then show "\<exists>v. claim nm s k' = Some v \<and> claim nm v k = Some u" by (rule claim_commute)
qed

section \<open>Registration as claims\<close>

lemma kzalloc_frame: "chrdevs (snd (kzalloc s)) = chrdevs s"
  by (simp add: kzalloc_def split: list.splits)

text \<open>One range: out of memory, busy, or claimed.\<close>

lemma register_region_claim:
  assumes "range_ok (ma, base, ct)"
  shows "register_region s ma base ct nm =
    (if fst (kzalloc s)
     then (case claim nm (chrdevs s) (ma, base, ct) of
             None \<Rightarrow> (Inl (- EBUSY), snd (kzalloc s))
           | Some T \<Rightarrow> (Inr (entry nm (ma, base, ct)), (snd (kzalloc s))\<lparr>chrdevs := T\<rparr>))
     else (Inl (- ENOMEM), snd (kzalloc s)))"
proof -
  have b: "0 < ma" "ma < 512" "base + ct \<le> MINORS" using assms by (auto simp: range_ok_def)
  then have "sz (MINORS + 4294967296 - base) = MINORS - base" by (subst mod_if) auto
  then have c: "\<not> sz (MINORS + 4294967296 - base) < ct" using b(3) by simp
  show ?thesis
    using assms b c
    by (auto simp: register_region_def claim_def entry_def Let_def case_prod_beta kzalloc_frame split: option.splits)
qed

function pieces :: "nat \<Rightarrow> nat \<Rightarrow> range list" where
  "pieces n to =
     (if n < to
      then let nxt = min to ((MAJOR n + 1) * MINORS) in (MAJOR n, MINOR n, nxt - n) # pieces nxt to
      else [])"
  by auto
termination
proof (relation "measure (\<lambda>(n, to). to - n)")
  fix n to x :: nat assume "n < to" "x = min to ((MAJOR n + 1) * MINORS)"
  moreover have "n < (MAJOR n + 1) * MINORS"
    using div_mult_mod_eq [of n 1048576] mod_less_divisor [of 1048576 n] by (simp add: MAJOR_def)
  ultimately show "((x, to), n, to) \<in> measure (\<lambda>(n, to). to - n)" by auto
qed simp

declare pieces.simps [simp del]

lemma major_bounds: "MAJOR n * MINORS + MINOR n = n" "MINOR n < MINORS" "n < (MAJOR n + 1) * MINORS"
  using div_mult_mod_eq [of n MINORS] mod_less_divisor [of MINORS n] by (simp_all add: MAJOR_def MINOR_def)

lemma MAJOR_le: "m \<le> n \<Longrightarrow> MAJOR m \<le> MAJOR n"
  by (simp add: MAJOR_def div_le_mono)

lemma MAJOR_dvd: "MAJOR (k * MINORS) = k"
  by (simp add: MAJOR_def)

lemma MKDEV_major: "k * MINORS < 4294967296 \<Longrightarrow> MKDEV k 0 = k * MINORS"
  by (simp add: MKDEV_def)

lemma pieces_majors: "k \<in> set (pieces n to) \<Longrightarrow> MAJOR n \<le> fst k"
proof (induction n to rule: pieces.induct)
  case (1 n to)
  let ?nxt = "min to ((MAJOR n + 1) * MINORS)"
  show ?case
  proof (cases "n < to")
    case True
    have "MAJOR n \<le> MAJOR ?nxt" using True major_bounds(3) [of n] by (intro MAJOR_le) simp
    then show ?thesis using 1 True by (subst (asm) pieces.simps) (auto simp: Let_def)
  qed (use 1 in \<open>simp add: pieces.simps\<close>)
qed

lemma pieces_distinct: "distinct (map fst (pieces n to))"
proof (induction n to rule: pieces.induct)
  case (1 n to)
  let ?nxt = "min to ((MAJOR n + 1) * MINORS)"
  show ?case
  proof (cases "n < to")
    case True
    have "MAJOR n \<notin> fst ` set (pieces ?nxt to)"
    proof (cases "to \<le> (MAJOR n + 1) * MINORS")
      case True
      then show ?thesis by (simp add: pieces.simps [of to to] min_def)
    next
      case False
      then have "?nxt = (MAJOR n + 1) * MINORS" by simp
      then have "MAJOR ?nxt = MAJOR n + 1" by (metis MAJOR_dvd)
      then show ?thesis using pieces_majors [of _ ?nxt to] by fastforce
    qed
    then show ?thesis using 1 True by (subst pieces.simps) (simp add: Let_def)
  qed (simp add: pieces.simps)
qed

text \<open>Every number of the range lies in a piece of its major.\<close>

lemma pieces_cover:
  "n \<le> d \<Longrightarrow> d < to \<Longrightarrow> \<exists>base ct. (MAJOR d, base, ct) \<in> set (pieces n to) \<and> base \<le> MINOR d \<and> MINOR d < base + ct"
proof (induction n to rule: pieces.induct)
  case (1 n to)
  let ?nxt = "min to ((MAJOR n + 1) * MINORS)"
  have eq: "pieces n to = (MAJOR n, MINOR n, ?nxt - n) # pieces ?nxt to"
    using 1 by (subst pieces.simps) (simp add: Let_def)
  show ?case
  proof (cases "d < ?nxt")
    case True
    then have "MAJOR d = MAJOR n"
      using 1(2) MAJOR_le [of n d] major_bounds(1) [of d]
      by (metis MAJOR_def add_leD1 div_le_mono less_Suc_eq_le less_mult_imp_div_less min_less_iff_conj nle_le Suc_eq_plus1)
    moreover have "MINOR n \<le> MINOR d \<and> MINOR d < MINOR n + (?nxt - n)"
      using True 1(2) calculation major_bounds(1) [of n] major_bounds(1) [of d] by linarith
    ultimately show ?thesis unfolding eq by auto
  next
    case False
    then have "?nxt \<le> d" by (simp only: not_less)
    then show ?thesis using 1(1) [OF _ refl] 1(2,3) unfolding eq by fastforce
  qed
qed


lemma next_dev_piece:
  "n < to \<Longrightarrow> to < 4294967296 \<Longrightarrow> MAJOR n < 4095 \<Longrightarrow> next_dev n to = min to ((MAJOR n + 1) * MINORS)"
  by (simp add: next_dev_def MKDEV_def min_def Let_def)

abbreviation claims :: "u8 list \<Rightarrow> 'f table \<Rightarrow> range list \<Rightarrow> 'f table option" where
  "claims nm \<equiv> registry.claim_all (claim nm)"

lemma piece_ok:
  assumes "n < to" "MINORS \<le> n" "MAJOR n < CHRDEV_MAJOR_MAX"
  shows "range_ok (MAJOR n, MINOR n, min to ((MAJOR n + 1) * MINORS) - n)"
proof -
  have "0 < MAJOR n" using assms(2) MAJOR_le [of MINORS n] by (simp add: MAJOR_def)
  then show ?thesis using assms major_bounds [of n] by (auto simp: range_ok_def)
qed

text \<open>The loop claims the pieces one by one; it stops at the first that fails, at the start of a major.\<close>

definition loop_result ::
    "u8 list \<Rightarrow> 'f chrdev_state \<Rightarrow> nat \<Rightarrow> nat \<Rightarrow> (int \<times> nat) option \<Rightarrow> 'f chrdev_state \<Rightarrow> bool" where
  "loop_result nm s n to r t \<longleftrightarrow>
     (case r of
        None \<Rightarrow> claims nm (chrdevs s) (pieces n to) = Some (chrdevs t)
      | Some (e, m) \<Rightarrow> e < 0 \<and> n \<le> m \<and> m < to \<and> (m = n \<or> MINORS dvd m) \<and>
          claims nm (chrdevs s) (pieces n m) = Some (chrdevs t))"

lemma pieces_step:
  "n < to \<Longrightarrow> pieces n to = (MAJOR n, MINOR n, min to ((MAJOR n + 1) * MINORS) - n) # pieces (min to ((MAJOR n + 1) * MINORS)) to"
  by (subst pieces.simps) (simp add: Let_def)

lemma pieces_none [simp]: "pieces n n = []"
  by (simp add: pieces.simps)

lemma loop_result_step:
  assumes "n < to" "claim nm (chrdevs s) (MAJOR n, MINOR n, min to ((MAJOR n + 1) * MINORS) - n) = Some (chrdevs u)"
    "loop_result nm u (min to ((MAJOR n + 1) * MINORS)) to r t"
  shows "loop_result nm s n to r t"
proof (cases r)
  case None
  then show ?thesis using assms by (simp add: loop_result_def pieces_step registry.claim_all.simps [OF chrdev.registry_axioms])
next
  case (Some a)
  obtain e m where a: "a = (e, m)" by (cases a)
  let ?b = "(MAJOR n + 1) * MINORS"
  have m: "e < 0" "min to ?b \<le> m" "m < to" "m = min to ?b \<or> MINORS dvd m"
      "claims nm (chrdevs u) (pieces (min to ?b) m) = Some (chrdevs t)"
    using assms(3) Some a by (simp_all add: loop_result_def)
  then have b: "min to ?b = ?b" "n < m" using major_bounds(3) [of n] by auto
  then have mb: "min m ?b = ?b" using m(2) by simp
  have "pieces n m = (MAJOR n, MINOR n, ?b - n) # pieces ?b m" using pieces_step [OF b(2)] unfolding mb .
  then show ?thesis
    using Some a m b assms(2) by (auto simp: loop_result_def registry.claim_all.simps [OF chrdev.registry_axioms])
qed

lemma sz_sub: "a \<le> b \<Longrightarrow> b < 4294967296 \<Longrightarrow> sz (b + 4294967296 - a) = b - a"
  by (subst mod_if) auto

lemma register_region_step:
  assumes "chrdev_ok s" "range_ok k"
  shows "case register_region s (fst k) (fst (snd k)) (snd (snd k)) nm of
     (Inl e, u) \<Rightarrow> e < 0 \<and> chrdevs u = chrdevs s
   | (Inr cd, u) \<Rightarrow> claim nm (chrdevs s) k = Some (chrdevs u) \<and> chrdev_ok u"
proof -
  have "range_ok (fst k, fst (snd k), snd (snd k))" using assms(2) by simp
  from register_region_claim [OF this, of s nm] show ?thesis
    using assms(1) claim_ok [of "chrdevs s" nm k]
    by (auto simp: chrdev_ok_def kzalloc_frame split: option.splits)
qed

lemma register_loop_claims:
  "chrdev_ok s \<Longrightarrow> MINORS \<le> n \<Longrightarrow> n \<le> to \<Longrightarrow> to < 4294967296 \<Longrightarrow>
   \<exists>r t. register_loop s n to nm = Some (r, t) \<and> loop_result nm s n to r t"
proof (induction "to - n" arbitrary: s n rule: less_induct)
  case less
  let ?nxt = "min to ((MAJOR n + 1) * MINORS)"
  let ?k = "(MAJOR n, MINOR n, ?nxt - n)"
  consider (stop) "n = to" | (high) "n < to" "CHRDEV_MAJOR_MAX \<le> MAJOR n" | (low) "n < to" "MAJOR n < CHRDEV_MAJOR_MAX"
    using less.prems(3) by linarith
  then show ?case
  proof cases
    case stop
    then show ?thesis
      by (subst register_loop.simps) (simp add: loop_result_def registry.claim_all.simps [OF chrdev.registry_axioms])
  next
    case high
    then have "register_region s (MAJOR n) (MINOR n) ct nm = (Inl (- EINVAL), s)" for ct
      by (simp add: register_region_def)
    then show ?thesis using high
      by (subst register_loop.simps)
        (simp add: loop_result_def Let_def registry.claim_all.simps [OF chrdev.registry_axioms])
  next
    case low
    have nxt: "n < ?nxt" "?nxt \<le> to" using low(1) major_bounds(3) [of n] by auto
    have nd: "next_dev n to = ?nxt" "sz (?nxt + 4294967296 - n) = ?nxt - n"
      using next_dev_piece [OF low(1) less.prems(4)] low(2) sz_sub [of n ?nxt] nxt less.prems(4) by auto
    obtain x u where reg: "register_region s (MAJOR n) (MINOR n) (?nxt - n) nm = (x, u)" by fastforce
    have step: "register_loop s n to nm = (case x of Inl e \<Rightarrow> Some (Some (e, n), u) | Inr cd \<Rightarrow> register_loop u ?nxt to nm)"
      using low(1) by (subst register_loop.simps) (simp only: nd Let_def reg if_True fst_conv snd_conv)
    note ok = register_region_step [OF less.prems(1) piece_ok [OF low(1) less.prems(2) low(2)], of nm]
    show ?thesis
    proof (cases x)
      case (Inl e)
      then have "e < 0" "chrdevs u = chrdevs s" using ok reg by auto
      then show ?thesis using step Inl low(1)
        by (simp add: loop_result_def registry.claim_all.simps [OF chrdev.registry_axioms])
    next
      case (Inr cd)
      then have c: "claim nm (chrdevs s) ?k = Some (chrdevs u)" "chrdev_ok u" using ok reg by auto
      have lt: "to - ?nxt < to - n" using nxt(1) low(1) by (rule diff_less_mono2)
      have "MINORS \<le> ?nxt" using less.prems(2) nxt(1) by (rule le_trans [OF _ less_imp_le])
      then obtain r t where "register_loop u ?nxt to nm = Some (r, t)" "loop_result nm u ?nxt to r t"
        using less.hyps [OF lt c(2) _ nxt(2) less.prems(4)] by blast
      then show ?thesis using step Inr loop_result_step [OF low(1) c(1)] by auto
    qed
  qed
qed

lemma unregister_release: "chrdevs (snd (unregister_region s (fst k) (fst (snd k)) (snd (snd k)))) = release (chrdevs s) k"
  by (simp add: unregister_region_def release_def Let_def case_prod_beta)

lemma rollback_loop_releases:
  "n \<le> m \<Longrightarrow> m < 4294967296 \<Longrightarrow> m = n \<or> MINORS dvd m \<Longrightarrow>
   \<exists>t. rollback_loop s n m = Some t \<and> chrdevs t = foldl release (chrdevs s) (pieces n m)"
proof (induction "m - n" arbitrary: s n rule: less_induct)
  case less
  let ?b = "(MAJOR n + 1) * MINORS"
  show ?case
  proof (cases "n < m")
    case False
    then show ?thesis using less.prems(1) by (subst rollback_loop.simps) simp
  next
    case True
    then have "MAJOR n < MAJOR m \<and> m = MAJOR m * MINORS"
      using less.prems(3) by (auto simp: MAJOR_def dvd_def div_less_iff_less_mult)
    then have b: "?b \<le> m" "n < ?b" using major_bounds(3) [of n] by (metis Suc_eq_plus1 Suc_leI mult_le_mono1, simp)
    have nx: "MKDEV (sz (MAJOR n + 1)) 0 = ?b" "sz (?b + 4294967296 - n) = ?b - n"
      using b less.prems(2) sz_sub [of n ?b] by (simp_all add: MKDEV_major)
    let ?u = "snd (unregister_region s (MAJOR n) (MINOR n) (?b - n))"
    have "rollback_loop s n m = rollback_loop ?u ?b m"
      using True by (subst rollback_loop.simps) (simp only: Let_def nx if_True)
    moreover obtain t where "rollback_loop ?u ?b m = Some t" "chrdevs t = foldl release (chrdevs ?u) (pieces ?b m)"
      using less.hyps [of ?b ?u] b less.prems(2,3) by fastforce
    moreover have "min m ?b = ?b" using b by simp
    moreover have "chrdevs ?u = release (chrdevs s) (MAJOR n, MINOR n, ?b - n)"
      using unregister_release [of s "(MAJOR n, MINOR n, ?b - n)"] by simp
    moreover have "pieces n m = (MAJOR n, MINOR n, ?b - n) # pieces ?b m"
      using pieces_step [OF True] calculation(4) by simp
    ultimately show ?thesis by simp
  qed
qed

lemma claims_entries:
  "table_ok T \<Longrightarrow> claims nm T ks = Some U \<Longrightarrow> table_ok U \<and> entries U = entries T \<union> entry nm ` set ks"
proof (induction ks arbitrary: T)
  case (Cons k ks)
  then obtain V where V: "claim nm T k = Some V" "claims nm V ks = Some U"
    by (auto simp: registry.claim_all.simps [OF chrdev.registry_axioms] bind_eq_Some_conv)
  obtain ch where ch: "V = T(major_to_index (fst k) := ch)" "set ch = insert (entry nm k) (set (T (major_to_index (fst k))))"
    using claim_split [OF Cons.prems(1) V(1)] by blast
  then have "entries V = insert (entry nm k) (entries T)" by (auto simp: entries_def split: if_splits)
  then show ?case using Cons.IH [OF claim_ok [OF Cons.prems(1) V(1)] V(2)] by auto
qed (simp add: registry.claim_all.simps [OF chrdev.registry_axioms])

text \<open>\<open>owns T d\<close>: some registered range holds device number \<open>d\<close>.\<close>

definition owns :: "'f table \<Rightarrow> nat \<Rightarrow> bool" where
  "owns T d \<longleftrightarrow> (\<exists>e \<in> entries T. major e = MAJOR d \<and> baseminor e \<le> MINOR d \<and> MINOR d < baseminor e + minorct e)"

lemma claims_range_ok: "claims nm T ks = Some U \<Longrightarrow> k \<in> set ks \<Longrightarrow> range_ok k"
  by (induction ks arbitrary: T)
    (auto simp: registry.claim_all.simps [OF chrdev.registry_axioms] claim_def Let_def bind_eq_Some_conv split: if_splits)

lemma unregister_loop_releases:
  "n \<le> to \<Longrightarrow> to \<le> CHRDEV_MAJOR_MAX * MINORS \<Longrightarrow>
   \<exists>t. unregister_loop s n to = Some t \<and> chrdevs t = foldl release (chrdevs s) (pieces n to)"
proof (induction "to - n" arbitrary: s n rule: less_induct)
  case less
  let ?nxt = "min to ((MAJOR n + 1) * MINORS)"
  show ?case
  proof (cases "n < to")
    case False
    then show ?thesis using less.prems(1) by (subst unregister_loop.simps) simp
  next
    case True
    have nxt: "n < ?nxt" "?nxt \<le> to" using True major_bounds(3) [of n] by auto
    have "MAJOR n * MINORS < CHRDEV_MAJOR_MAX * MINORS" using True less.prems(2) major_bounds(1) [of n] by linarith
    then have "MAJOR n < 4095" by simp
    then have nd: "next_dev n to = ?nxt" "sz (?nxt + 4294967296 - n) = ?nxt - n"
      using next_dev_piece [OF True] less.prems(2) sz_sub [of n ?nxt] nxt by auto
    let ?u = "snd (unregister_region s (MAJOR n) (MINOR n) (?nxt - n))"
    have "unregister_loop s n to = unregister_loop ?u ?nxt to"
      using True by (subst unregister_loop.simps) (simp only: Let_def nd if_True)
    moreover have lt: "to - ?nxt < to - n" using nxt(1) True by (rule diff_less_mono2)
    obtain t where "unregister_loop ?u ?nxt to = Some t" "chrdevs t = foldl release (chrdevs ?u) (pieces ?nxt to)"
      using less.hyps [OF lt nxt(2) less.prems(2)] by blast
    moreover have "chrdevs ?u = release (chrdevs s) (MAJOR n, MINOR n, ?nxt - n)"
      using unregister_release [of s "(MAJOR n, MINOR n, ?nxt - n)"] by simp
    ultimately show ?thesis using pieces_step [OF True] by simp
  qed
qed

lemma rolled_back:
  assumes "table_ok T" "claims nm T (pieces n m) = Some U"
  shows "foldl release U (pieces n m) = T"
  using chrdev.rollback [OF assms(1) pieces_distinct assms(2)] .

lemma claimed_bound:
  assumes "claims nm T (pieces n to) = Some U" "n < to"
  shows "to \<le> CHRDEV_MAJOR_MAX * MINORS"
proof -
  obtain base ct where "(MAJOR (to - 1), base, ct) \<in> set (pieces n to)"
    using pieces_cover [of n "to - 1" to] assms(2) less_imp_le [of n to]
    by (metis One_nat_def Suc_leI Suc_pred diff_Suc_less le_eq_less_or_eq less_Suc_eq_le not_less_zero zero_less_iff_neq_zero)
  then have "MAJOR (to - 1) < CHRDEV_MAJOR_MAX" using claims_range_ok [OF assms(1)] by (auto simp: range_ok_def)
  then have "(MAJOR (to - 1) + 1) * MINORS \<le> CHRDEV_MAJOR_MAX * MINORS" by simp
  then show ?thesis using major_bounds(3) [of "to - 1"] assms(2) by linarith
qed

section \<open>Look-up\<close>

definition has :: "'f char_device_struct \<Rightarrow> nat \<Rightarrow> nat \<Rightarrow> bool" where
  "has e ma mi \<longleftrightarrow> major e = ma \<and> baseminor e \<le> mi \<and> mi < baseminor e + minorct e"

lemma find_loop_Cons:
  "entry_ok e \<Longrightarrow> find_loop ma mi (e # rest) =
     (if has e ma mi then (case cdev e of None \<Rightarrow> None | Some c \<Rightarrow> Some (Some (cops c))) else find_loop ma mi rest)"
  using entry_ok_sz [of e] by (auto simp: has_def)

lemma find_loop_skip:
  "\<forall>e \<in> set us. entry_ok e \<and> \<not> has e ma mi \<Longrightarrow> find_loop ma mi (us @ rest) = find_loop ma mi rest"
proof (induction us)
  case (Cons u us)
  then show ?case by (simp add: find_loop_Cons del: find_loop.simps)
qed simp

lemma find_loop_other:
  "\<forall>e \<in> set us. entry_ok e \<Longrightarrow> entry_ok x \<Longrightarrow> \<not> has x ma mi \<Longrightarrow> find_loop ma mi (us @ x # vs) = find_loop ma mi (us @ vs)"
  by (induction us) (simp_all add: find_loop_Cons del: find_loop.simps(2))

lemma update_entry_mid:
  "cd \<notin> set us \<Longrightarrow> cd \<notin> set vs \<Longrightarrow> update_entry cd c (us @ cd # vs) = us @ cd\<lparr>cdev := Some c\<rparr> # vs"
  by (induction us) auto

text \<open>After \<open>insert_region\<close> and the assignment of \<open>cdev\<close>, the new range answers with its operations, the others as before.\<close>

lemma find_new:
  fixes T :: "'f table"
  assumes "table_ok T" "claim nm T k = Some U" "fst k = ma"
    and V: "V = U(major_to_index ma := update_entry (entry nm k) c (U (major_to_index ma)))"
  shows "table_ok V" and "release V k = T"
    and "has (entry nm k :: 'f char_device_struct) ma' mi \<Longrightarrow> find_loop ma' mi (V (major_to_index ma')) = Some (Some (cops c))"
    and "\<not> has (entry nm k :: 'f char_device_struct) ma' mi \<Longrightarrow> find_loop ma' mi (V (major_to_index ma')) = find_loop ma' mi (T (major_to_index ma'))"
proof -
  let ?i = "major_to_index ma" and ?e = "entry nm k :: 'f char_device_struct"
  let ?c = "?e\<lparr>cdev := Some c\<rparr>"
  have r: "range_ok k" using assms(2) by (auto simp: claim_def Let_def split: if_splits)
  have e: "entry_ok ?e" "0 < minorct ?e" "major ?e = ma" "baseminor ?e = fst (snd k)" "minorct ?e = snd (snd k)"
    using entry_props [OF r, of nm, where ?'f = 'f] assms(3) by auto
  have t: "sorted_wrt before (T ?i)" "\<forall>x \<in> set (T ?i). entry_ok x" using table_okD [OF assms(1)] by auto
  obtain ys where ys: "insert_region ?e (T ?i) = Some ys" "U = T(?i := ys)"
    using assms(2,3) r by (auto simp: claim_def Let_def)
  obtain us vs where us: "T ?i = us @ vs" "ys = us @ ?e # vs" "\<forall>x \<in> set us. before x ?e" "\<forall>x \<in> set vs. before ?e x"
    using insert_region_split [OF e(1) t e(2)] ys(1) by auto
  have irr: "\<not> before ?e ?e" using e(2) by (simp add: before_def)
  then have "?e \<notin> set us" "?e \<notin> set vs" using us(3,4) by blast+
  then have V': "V = T(?i := us @ ?c # vs)" using us(2) V ys(2) update_entry_mid [of ?e us vs c] by simp
  have c: "entry_ok ?c" "before x ?c = before x ?e" "before ?c x = before ?e x" "has ?c = has ?e" for x
    using e(1) by (auto simp: entry_ok_def before_def has_def fun_eq_iff)
  show "table_ok V"
    unfolding table_ok_def
  proof
    fix j show "sorted_wrt before (V j) \<and> (\<forall>cd \<in> set (V j). entry_ok cd \<and> major_to_index (major cd) = j)"
      using assms(1) us c e(3) t by (cases "j = ?i") (auto simp: V' table_ok_def sorted_wrt_append dest: spec [of _ ?i])
  qed
  have "\<not> same_key ma (fst (snd k)) (snd (snd k)) x" if "x \<in> set us" for x
    using that us(3) e by (auto simp: before_def same_key_def)
  then have "unlink_region ma (fst (snd k)) (snd (snd k)) (us @ ?c # vs) = (Some ?c, us @ vs)"
    using e by (intro unlink_region_mid) (auto simp: same_key_def)
  then show "release V k = T" using us(1) V' assms(3) by (auto simp: release_def Let_def fun_eq_iff)
  show "find_loop ma' mi (V (major_to_index ma')) = Some (Some (cops c))" if h: "has ?e ma' mi"
  proof -
    have "ma' = ma" using h e(3) by (simp add: has_def)
    moreover have "\<forall>x \<in> set us. entry_ok x \<and> \<not> has x ma' mi" using us t(2) h by (auto simp: before_def has_def)
    ultimately show ?thesis using h c(1,4) by (simp add: V' find_loop_skip find_loop_Cons del: find_loop.simps(2))
  qed
  show "find_loop ma' mi (V (major_to_index ma')) = find_loop ma' mi (T (major_to_index ma'))" if "\<not> has ?e ma' mi"
    using that us(1) t(2) c(1,4) find_loop_other [of us ?c ma' mi vs] by (auto simp: V')
qed

lemma scan_majors_result:
  "i < 512 \<Longrightarrow> table_ok (chrdevs s) \<Longrightarrow>
   (case scan_majors s i of
      None \<Rightarrow> \<forall>j. 384 \<le> j \<and> j \<le> i \<longrightarrow> (\<exists>e \<in> entries (chrdevs s). major e = j)
    | Some m \<Rightarrow> 384 \<le> m \<and> m \<le> i \<and> (\<forall>e \<in> entries (chrdevs s). major e \<noteq> m) \<and>
        (\<forall>j. m < j \<and> j \<le> i \<longrightarrow> (\<exists>e \<in> entries (chrdevs s). major e = j)))"
proof (induction s i rule: scan_majors.induct)
  case (1 s i)
  have used: "(\<exists>cd \<in> set (chrdevs s (major_to_index i)). major cd = i) \<longleftrightarrow> (\<exists>e \<in> entries (chrdevs s). major e = i)"
    using 1(3) by (auto simp: entries_def table_ok_def)
  show ?case
  proof (cases "384 \<le> i")
    case False
    then show ?thesis by (subst scan_majors.simps) auto
  next
    case True
    show ?thesis
    proof (cases "\<exists>e \<in> entries (chrdevs s). major e = i")
      case u: True
      then have eq: "scan_majors s i = scan_majors s (i - 1)" using used True by (subst scan_majors.simps) simp
      have le: "j \<le> i \<longleftrightarrow> j = i \<or> j \<le> i - 1" for j using True by auto
      have "i - 1 < 512" using 1(2) by simp
      note IH = 1(1) [OF True _ this 1(3)]
      show ?thesis using IH used u unfolding eq by (auto simp: le split: option.splits)
    next
      case u: False
      then have "scan_majors s i = Some i" using used True by (subst scan_majors.simps) simp
      then show ?thesis using u True by auto
    qed
  qed
qed

lemma dynamic_major: "find_dynamic_major s = (case scan_majors s 511 of Some i \<Rightarrow> int i | None \<Rightarrow> - EBUSY)"
  by (simp add: find_dynamic_major_def scan_buckets.simps)

text \<open>Registration under a number that is found is registration under that number.\<close>

lemma register_dynamic:
  assumes r: "register_chrdev s 0 base ct nm f = (r, t)" and ok: "chrdev_ok s"
  shows "- 4096 < r \<and> r < 0 \<or> 384 \<le> r \<and> r < int CHRDEV_MAJOR_MAX \<and> register_chrdev s (nat r) base ct nm f = (0, t)"
proof -
  obtain b s1 where k: "kzalloc s = (b, s1)" by fastforce
  then have "chrdevs s1 = chrdevs s" using kzalloc_frame [of s] by simp
  then have T: "table_ok (chrdevs s1)" using ok by (simp add: chrdev_ok_def)
  have d: "find_dynamic_major s1 = - EBUSY \<or> (\<exists>n. find_dynamic_major s1 = int n \<and> 384 \<le> n \<and> n < CHRDEV_MAJOR_MAX)"
    using scan_majors_result [of 511 s1, OF _ T] by (auto simp: dynamic_major split: option.splits)
  from d show ?thesis
  proof
    assume "find_dynamic_major s1 = - EBUSY"
    then show ?thesis using r k by (auto simp: register_chrdev_def register_region_def split: if_splits)
  next
    assume "\<exists>n. find_dynamic_major s1 = int n \<and> 384 \<le> n \<and> n < CHRDEV_MAJOR_MAX"
    then obtain n where n: "find_dynamic_major s1 = int n" "384 \<le> n" "n < CHRDEV_MAJOR_MAX" by blast
    have reg: "register_region s 0 base ct nm = register_region s n base ct nm" if "b"
      using n k that by (simp add: register_region_def)
    show ?thesis
    proof (cases b)
      case True
      have mj: "major cd = n" if "register_region s n base ct nm = (Inr cd, u)" for cd u
        using that n k True by (auto simp: register_region_def Let_def split: if_splits option.splits)
      have err: "- 4096 < e \<and> e < 0" if "register_region s n base ct nm = (Inl e, u)" for e u
        using that n k True by (auto simp: register_region_def Let_def split: if_splits option.splits)
      obtain x s2 where x: "register_region s n base ct nm = (x, s2)" by fastforce
      show ?thesis
      proof (cases x)
        case (Inl e)
        then show ?thesis using r x err unfolding register_chrdev_def reg [OF True] by auto
      next
        case (Inr cd)
        then show ?thesis using r x n(2,3) mj [of cd s2] unfolding register_chrdev_def reg [OF True]
          by (auto simp: cdev_add_def split: prod.splits if_splits)
      qed
    qed (use r k in \<open>auto simp: register_chrdev_def register_region_def split: if_splits\<close>)
  qed
qed

section \<open>Properties\<close>

definition no_chrdevs :: "nat chrdev_state" where
  "no_chrdevs = \<lparr>chrdevs = (\<lambda>_. []), fails = []\<rparr>"

lemma no_chrdevs_ok: "chrdev_ok no_chrdevs"
  by (simp add: no_chrdevs_def chrdev_ok_def table_ok_def)

text \<open>C29: \<open>register_chrdev_region\<close> is all or nothing: it returns, and either every number of the range is
  registered, and unregistering the range gives the table back, or the result is an error and every
  range registered on the way has been taken back, so the table is the one before the call.\<close>

theorem char_region_all_or_nothing:
  assumes "chrdev_ok s" "MINORS \<le> from" "from + count < 4294967296"
  shows "\<exists>e t. register_chrdev_region s from count nm = Some (e, t) \<and> chrdev_ok t \<and> e \<le> 0 \<and>
     (if e = 0 then (\<forall>d. from \<le> d \<and> d < from + count \<longrightarrow> owns (chrdevs t) d) \<and>
          (\<exists>u. unregister_chrdev_region t from count = Some u \<and> chrdevs u = chrdevs s)
      else chrdevs t = chrdevs s)"
proof -
  let ?to = "from + count"
  have tab: "table_ok (chrdevs s)" using assms(1) by (simp add: chrdev_ok_def)
  obtain r t where l: "register_loop s from ?to nm = Some (r, t)" "loop_result nm s from ?to r t"
    using register_loop_claims [OF assms(1,2) le_add1 assms(3), of nm] by blast
  show ?thesis
  proof (cases r)
    case None
    then have c: "claims nm (chrdevs s) (pieces from ?to) = Some (chrdevs t)" using l(2) by (simp add: loop_result_def)
    have "owns (chrdevs t) d" if "from \<le> d" "d < ?to" for d
      using pieces_cover [OF that] claims_entries [OF tab c] by (auto simp: owns_def entry_def intro!: bexI)
    moreover have "\<exists>u. unregister_loop t from ?to = Some u \<and> chrdevs u = chrdevs s"
    proof (cases "count = 0")
      case True
      then show ?thesis using c
        by (subst unregister_loop.simps) (simp add: registry.claim_all.simps [OF chrdev.registry_axioms])
    next
      case False
      then have lt: "from < from + count" by simp
      show ?thesis
        using unregister_loop_releases [OF le_add1 claimed_bound [OF c lt], of t] rolled_back [OF tab c] by auto
    qed
    ultimately show ?thesis using None l(1) claims_entries [OF tab c] assms(3)
      by (simp add: register_chrdev_region_def unregister_chrdev_region_def chrdev_ok_def)
  next
    case (Some a)
    obtain e m where a: "a = (e, m)" by (cases a)
    then have m: "e < 0" "from \<le> m" "m < ?to" "m = from \<or> MINORS dvd m"
        "claims nm (chrdevs s) (pieces from m) = Some (chrdevs t)"
      using l(2) Some by (simp_all add: loop_result_def)
    obtain u where "rollback_loop t from m = Some u" "chrdevs u = foldl release (chrdevs t) (pieces from m)"
      using rollback_loop_releases [OF m(2) _ m(4)] m(3) assms(3) by force
    then show ?thesis using Some a m(1) l(1) rolled_back [OF tab m(5)] assms(1,3)
      by (simp add: register_chrdev_region_def chrdev_ok_def)
  qed
qed

lemma char_region_all_or_nothing_witness:
  "\<exists>e t. register_chrdev_region no_chrdevs 5242880 3000000 [116, 116, 121] = Some (e, t) \<and> chrdev_ok t"
  using char_region_all_or_nothing [OF no_chrdevs_ok, of 5242880 3000000 "[116, 116, 121]"] by auto

text \<open>With memory to spare, registering a single range fails with \<open>-EBUSY\<close>, changing nothing, exactly when
  a registered range shares one of its numbers; otherwise it adds this range and no other.\<close>

theorem char_region_conflict:
  fixes s :: "'f chrdev_state"
  assumes "chrdev_ok s" "fails s = []" "0 < ma" "ma < CHRDEV_MAJOR_MAX" "0 < ct" "base + ct \<le> MINORS"
  shows "if \<exists>x \<in> entries (chrdevs s). overlap x (entry nm (ma, base, ct))
     then register_region s ma base ct nm = (Inl (- EBUSY), s)
     else \<exists>t. register_region s ma base ct nm = (Inr (entry nm (ma, base, ct)), t) \<and> chrdev_ok t \<and>
        entries (chrdevs t) = insert (entry nm (ma, base, ct)) (entries (chrdevs s))"
proof -
  let ?k = "(ma, base, ct)" and ?i = "major_to_index ma"
  have r: "range_ok ?k" using assms by (simp add: range_ok_def)
  have tab: "table_ok (chrdevs s)" using assms(1) by (simp add: chrdev_ok_def)
  let ?e = "entry nm ?k :: 'f char_device_struct"
  have e: "entry_ok ?e" "0 < minorct ?e" "major ?e = ma"
    using entry_props [OF r, of nm, where ?'f = 'f] by auto
  have bucket: "(\<exists>x \<in> entries (chrdevs s). overlap x ?e) \<longleftrightarrow> (\<exists>x \<in> set (chrdevs s ?i). overlap x (entry nm ?k))"
    using tab e(3) by (auto simp: entries_def table_ok_def overlap_def)
  then have "claim nm (chrdevs s) ?k = None \<longleftrightarrow> (\<exists>x \<in> entries (chrdevs s). overlap x (entry nm ?k))"
    using r insert_region_busy [OF e(1) _ _ e(2)] table_okD [OF tab, of ?i] by (simp add: claim_def Let_def)
  moreover have "kzalloc s = (True, s)" using assms(2) by (simp add: kzalloc_def)
  moreover have "table_ok U \<and> entries U = insert ?e (entries (chrdevs s))"
    if "claim nm (chrdevs s) ?k = Some U" for U
    using claims_entries [OF tab, of nm "[?k]" U] that
    by (simp add: registry.claim_all.simps [OF chrdev.registry_axioms])
  ultimately show ?thesis using register_region_claim [OF r, of s nm] by (auto simp: chrdev_ok_def split: option.splits)
qed

lemma char_region_conflict_witness:
  "\<exists>t. register_region no_chrdevs 5 0 256 [116] = (Inr (entry [116] (5, 0, 256)), t) \<and> chrdev_ok t"
  using char_region_conflict [OF no_chrdevs_ok, of 5 256 0 "[116]"] by (auto simp: no_chrdevs_def entries_def)

lemma registered_range:
  fixes s :: "'f chrdev_state"
  assumes "chrdev_ok s" "0 < ma" "ma < CHRDEV_MAJOR_MAX" "0 < ct" "base + ct \<le> MINORS"
    and reg: "register_chrdev s ma base ct nm f = (0, t)"
  shows "chrdev_ok t \<and> chrdevs (unregister_chrdev t ma base ct) = chrdevs s \<and>
     (\<forall>ma' mi. find_chrdev t ma' mi =
        (if ma' = ma \<and> base \<le> mi \<and> mi < base + ct then Some (Some f) else find_chrdev s ma' mi))"
proof -
  let ?k = "(ma, base, ct)"
  have r: "range_ok ?k" using assms(2-5) by (simp add: range_ok_def)
  have tab: "table_ok (chrdevs s)" using assms(1) by (simp add: chrdev_ok_def)
  note step = register_region_claim [OF r, of s nm]
  obtain U where U: "claim nm (chrdevs s) ?k = Some U" "fst (kzalloc s)"
    using reg step by (cases "claim nm (chrdevs s) ?k") (auto simp: register_chrdev_def split: if_splits)
  let ?c = "\<lparr>cops = f, cdev_dev = MKDEV ma base, cdev_count = ct\<rparr>"
  let ?V = "U(major_to_index ma := update_entry (entry nm ?k) ?c (U (major_to_index ma)))"
  have e: "major (entry nm ?k :: 'f char_device_struct) = ma" by (simp add: entry_def)
  let ?s1 = "(snd (kzalloc s))\<lparr>chrdevs := U\<rparr>"
  have reg1: "register_region s ma base ct nm = (Inr (entry nm ?k), ?s1)" using step U by simp
  obtain ok s2 where z: "kzalloc ?s1 = (ok, s2)" by fastforce
  then have ok: "ok" using reg reg1 by (auto simp: register_chrdev_def cdev_alloc_def split: if_splits)
  have "chrdevs s2 = U" using kzalloc_frame [of ?s1] z by simp
  moreover have "t = set_cdev (entry nm ?k) ?c s2"
    using reg reg1 z ok e by (simp add: register_chrdev_def cdev_alloc_def cdev_add_def)
  ultimately have V: "chrdevs t = ?V" using e by (simp add: set_cdev_def Let_def)
  have h: "has (entry nm ?k :: 'f char_device_struct) ma' mi \<longleftrightarrow> ma' = ma \<and> base \<le> mi \<and> mi < base + ct" for ma' mi
    by (auto simp: has_def entry_def)
  note new = find_new [where ma = ma and c = ?c, OF tab U(1) fst_conv refl, folded V]
  have "chrdevs (unregister_chrdev t ma base ct) = chrdevs s"
    using unregister_release [of t ?k] new(2) by (simp add: unregister_chrdev_def)
  moreover have "find_chrdev t ma' mi =
      (if ma' = ma \<and> base \<le> mi \<and> mi < base + ct then Some (Some f) else find_chrdev s ma' mi)" for ma' mi
    using new(3,4) [of ma' mi] h [of ma' mi] by (simp add: find_chrdev_def split: if_splits)
  ultimately show ?thesis using new(1) by (simp add: chrdev_ok_def)
qed

text \<open>C30: After a successful \<open>__register_chrdev\<close>, \<open>find_chrdev\<close> answers with its operations for exactly the
  minors of the range and as before for every other number; \<open>__unregister_chrdev\<close> undoes it.\<close>

theorem register_chrdev_lookup:
  fixes s :: "'f chrdev_state"
  assumes "chrdev_ok s" "0 < ma" "ma < CHRDEV_MAJOR_MAX" "0 < ct" "base + ct \<le> MINORS"
    and reg: "register_chrdev s ma base ct nm f = (0, t)"
  shows "chrdev_ok t \<and> chrdevs (unregister_chrdev t ma base ct) = chrdevs s \<and>
     (\<forall>ma' mi. find_chrdev t ma' mi =
        (if ma' = ma \<and> base \<le> mi \<and> mi < base + ct then Some (Some f) else find_chrdev s ma' mi))"
  by (rule registered_range [OF assms])

lemma register_chrdev_lookup_witness:
  "\<exists>t. register_chrdev no_chrdevs 4 64 2 [116] 77 = (0, t) \<and> find_chrdev t 4 65 = Some (Some 77)"
proof -
  have "\<exists>t. register_chrdev no_chrdevs 4 64 2 [116] 77 = (0, t)"
    by (simp add: register_chrdev_def register_region_def no_chrdevs_def kzalloc_def cdev_alloc_def cdev_add_def Let_def)
  then obtain t where t: "register_chrdev no_chrdevs 4 64 2 [116] 77 = (0, t)" by blast
  show ?thesis using register_chrdev_lookup [OF no_chrdevs_ok _ _ _ _ t] t by auto
qed

text \<open>The dynamic major is the largest one from 384 to 511 under which nothing is registered, and \<open>-EBUSY\<close>
  exactly when all 128 are in use; the majors below 255 the search starts with are never given
  out, because the hash table has fewer buckets than the first of them.\<close>

theorem dynamic_major_free:
  assumes "chrdev_ok s"
  shows "if \<forall>j. 384 \<le> j \<and> j \<le> 511 \<longrightarrow> (\<exists>e \<in> entries (chrdevs s). major e = j)
     then find_dynamic_major s = - EBUSY
     else \<exists>m. find_dynamic_major s = int m \<and> 384 \<le> m \<and> m \<le> 511 \<and> (\<forall>e \<in> entries (chrdevs s). major e \<noteq> m) \<and>
        (\<forall>j. m < j \<and> j \<le> 511 \<longrightarrow> (\<exists>e \<in> entries (chrdevs s). major e = j))"
  using scan_majors_result [of 511 s] assms by (auto simp: chrdev_ok_def dynamic_major split: option.splits)

lemma dynamic_major_free_witness: "find_dynamic_major no_chrdevs = 511"
proof -
  have none: "entries (chrdevs no_chrdevs) = {}" by (simp add: no_chrdevs_def entries_def)
  have "\<not> (\<forall>j. 384 \<le> j \<and> j \<le> 511 \<longrightarrow> (\<exists>e \<in> entries (chrdevs no_chrdevs). major e = j))"
    unfolding none by (rule notI) (drule spec [of _ 400], simp)
  from dynamic_major_free [OF no_chrdevs_ok, unfolded if_not_P [OF this]] obtain m where
      m: "find_dynamic_major no_chrdevs = int m" "m \<le> 511"
        "\<forall>j. m < j \<and> j \<le> 511 \<longrightarrow> (\<exists>e \<in> entries (chrdevs no_chrdevs). major e = j)"
    by blast
  have "\<not> m < 511" using m(3) unfolding none by blast
  then show ?thesis using m(1,2) by simp
qed

end
