(* ===== verification/Task.thy ===== *)
theory Task
  imports Bytes
begin

text \<open>
  The data of the scheduler (\<^verbatim>\<open>include/linux/sched.h\<close>): task control blocks, the nodes of
  the time-loop pool, the per-core scheduler, and the memory that holds them. Objects live in
  partial maps from their address: an address outside the map was never allocated or was
  freed, and following it faults (\<open>None\<close>); NULL is never in the map (\<open>at\<close>).
\<close>

datatype task_state = TASK_CREATE | TASK_READY | TASK_WAITING | TASK_BLOCKED | TASK_RUNNING | TASK_DEAD | TASK_BROKEN

datatype task_pool_operations = Time_loop_op | Preemptive_op

datatype scheduler_block_flag = SCHEDULER_BLOCKED | SCHEDULER_RUN

record task_struct =
  t_magic :: nat
  t_id :: u32
  t_pid :: u32
  task_name :: "u8 list"
  psp :: u32
  stack_ptr :: nat
  stack_Top :: nat
  t_entry :: nat
  t_arg :: nat
  t_state :: task_state
  t_priority :: "32 word"
  t_node :: nat
  last_scheduler_time :: u64
  block_time :: u32
  t_priv :: nat
  t_next :: nat
  children :: "nat list"
  use_count :: int
  t_parent :: nat
  t_offset :: u32

definition "task_struct_magic = (123456 :: nat)"

record task_node =
  tn_next :: nat
  tn_priv :: nat
  tn_task :: nat
  tn_priority :: "32 word"

text \<open>The pool is one object per scheduler, reached through \<open>s_task_pool\<close> alone; its head is kept beside it.\<close>

record scheduler =
  scheduler_timer :: u64
  s_magic :: nat
  s_head :: nat
  s_core :: nat
  t_pop :: task_pool_operations
  s_flag :: scheduler_block_flag
  current_task :: nat

definition "scheduler_scheduler = (1193046 :: nat)"

record tmem =
  tasks :: "nat \<Rightarrow> task_struct option"
  nodes :: "nat \<Rightarrow> task_node option"

text \<open>\<open>block_scheduler\<close> and \<open>run_scheduler\<close> on the scheduler they are given.\<close>

definition block_scheduler :: "scheduler \<Rightarrow> scheduler" where
  "block_scheduler s = s\<lparr>s_flag := SCHEDULER_BLOCKED\<rparr>"

definition run_scheduler :: "scheduler \<Rightarrow> scheduler" where
  "run_scheduler s = s\<lparr>s_flag := SCHEDULER_RUN\<rparr>"

end
