(* ===== verification/TimeLoop.thy ===== *)
theory TimeLoop
  imports Task
begin

text \<open>
  The round-robin task pool, \<^verbatim>\<open>lib/time_loop.c\<close>: a circular doubly linked list of nodes, one per
  task. \<open>ring m ns\<close> says that the nodes \<open>ns\<close> are linked in that order; adding and removing keep
  it, and following \<open>next\<close> visits the nodes in turn.
\<close>

definition time_loop :: "scheduler \<Rightarrow> tmem \<Rightarrow> nat option" where
  "time_loop s m = (let c_task = current_task s in
     if c_task = 0 then do { h \<leftarrow> at (nodes m) (s_head s); Some (tn_task h) }
     else do {
       t \<leftarrow> at (tasks m) c_task;
       node \<leftarrow> at (nodes m) (t_node t);
       n \<leftarrow> at (nodes m) (tn_next node);
       Some (tn_task n) })"

text \<open>The search of \<open>add_task_to_task_pool\<close>: the first node, from \<open>n\<close> on, not above the new priority.\<close>

partial_function (option) find_place :: "(nat \<Rightarrow> task_node option) \<Rightarrow> nat \<Rightarrow> nat \<Rightarrow> 32 word \<Rightarrow> nat option" where
  "find_place m h n p = Option.bind (at m n) (\<lambda>v.
     if sint (tn_priority v) > sint p then
       (if tn_next v = h then Some h else find_place m h (tn_next v) p)
     else Some n)"

definition link_before :: "(nat \<Rightarrow> task_node option) \<Rightarrow> nat \<Rightarrow> nat \<Rightarrow> (nat \<Rightarrow> task_node option) option" where
  "link_before m new n = do {
     m \<leftarrow> upd m new (\<lambda>v. v\<lparr>tn_next := n\<rparr>);
     nv \<leftarrow> at m n;
     m \<leftarrow> upd m new (\<lambda>v. v\<lparr>tn_priv := tn_priv nv\<rparr>);
     nv \<leftarrow> at m n;
     m \<leftarrow> upd m (tn_priv nv) (\<lambda>v. v\<lparr>tn_next := new\<rparr>);
     upd m n (\<lambda>v. v\<lparr>tn_priv := new\<rparr>) }"

text \<open>\<open>new\<close> is the result of \<open>kmalloc\<close>: 0, or the address of a fresh node (its contents \<open>junk\<close> are whatever was there).\<close>

definition add_task_to_task_pool ::
  "nat \<Rightarrow> task_node \<Rightarrow> nat \<Rightarrow> scheduler \<Rightarrow> tmem \<Rightarrow> (int \<times> scheduler \<times> tmem) option" where
  "add_task_to_task_pool new junk task s m =
     (if new = 0 then Some (-1, s, m)
      else do {
        t \<leftarrow> at (tasks m) task;
        let ns = (nodes m)(new \<mapsto> junk\<lparr>tn_task := task, tn_priority := t_priority t\<rparr>);
        ts \<leftarrow> upd (tasks m) task (\<lambda>t. t\<lparr>t_node := new\<rparr>);
        let s = block_scheduler s;
        if s_head s = 0 then do {
          let s = s\<lparr>s_head := new\<rparr>;
          ns \<leftarrow> upd ns new (\<lambda>v. v\<lparr>tn_next := new\<rparr>);
          ns \<leftarrow> upd ns new (\<lambda>v. v\<lparr>tn_priv := new\<rparr>);
          Some (0, run_scheduler s, m\<lparr>tasks := ts, nodes := ns\<rparr>) }
        else do {
          n \<leftarrow> find_place ns (s_head s) (s_head s) (t_priority t);
          ns \<leftarrow> link_before ns new n;
          Some (0, run_scheduler s, m\<lparr>tasks := ts, nodes := ns\<rparr>) } })"

definition remove_task_from_pool :: "nat \<Rightarrow> scheduler \<Rightarrow> tmem \<Rightarrow> (scheduler \<times> tmem) option" where
  "remove_task_from_pool task s m = do {
     t \<leftarrow> at (tasks m) task;
     let node = t_node t;
     let s = block_scheduler s;
     v \<leftarrow> at (nodes m) node;
     ns \<leftarrow> upd (nodes m) (tn_priv v) (\<lambda>p. p\<lparr>tn_next := tn_next v\<rparr>);
     v \<leftarrow> at ns node;
     ns \<leftarrow> upd ns (tn_next v) (\<lambda>n. n\<lparr>tn_priv := tn_priv v\<rparr>);
     let s = run_scheduler s;
     let ns = free_at ns node;
     ts \<leftarrow> upd (tasks m) task (\<lambda>t. t\<lparr>t_node := 0\<rparr>);
     Some (s, m\<lparr>tasks := ts, nodes := ns\<rparr>) }"

text \<open>\<open>alloc_new_pool\<close> writes through the result of \<open>kmalloc\<close> without looking at it.\<close>

definition alloc_new_pool :: "nat \<Rightarrow> scheduler \<Rightarrow> scheduler option" where
  "alloc_new_pool pool s = (if pool = 0 then None else Some (s\<lparr>s_head := 0\<rparr>))"

section \<open>Rings\<close>

definition nxt :: "(nat \<Rightarrow> task_node option) \<Rightarrow> nat \<Rightarrow> nat" where
  "nxt m a = (case at m a of Some v \<Rightarrow> tn_next v | None \<Rightarrow> 0)"

definition prv :: "(nat \<Rightarrow> task_node option) \<Rightarrow> nat \<Rightarrow> nat" where
  "prv m a = (case at m a of Some v \<Rightarrow> tn_priv v | None \<Rightarrow> 0)"

fun nchain :: "(nat \<Rightarrow> task_node option) \<Rightarrow> nat list \<Rightarrow> bool" where
  "nchain m (x # y # zs) \<longleftrightarrow> nxt m x = y \<and> prv m y = x \<and> nchain m (y # zs)"
| "nchain m _ \<longleftrightarrow> True"

definition ring :: "(nat \<Rightarrow> task_node option) \<Rightarrow> nat list \<Rightarrow> bool" where
  "ring m ns \<longleftrightarrow> ns \<noteq> [] \<and> distinct ns \<and> (\<forall>n \<in> set ns. at m n \<noteq> None) \<and> nchain m (ns @ [hd ns])"

lemma nchain_append: "nchain m (xs @ y # zs) \<longleftrightarrow> nchain m (xs @ [y]) \<and> nchain m (y # zs)"
  by (induction m xs rule: nchain.induct) auto

lemma nchain_frame:
  "(\<And>a. a \<in> set (butlast l) \<Longrightarrow> nxt m' a = nxt m a) \<Longrightarrow> (\<And>b. b \<in> set (tl l) \<Longrightarrow> prv m' b = prv m b)
     \<Longrightarrow> nchain m' l = nchain m l"
proof (induction m l rule: nchain.induct)
  case (1 m x y zs)
  have "nchain m' (y # zs) = nchain m (y # zs)"
    using "1.prems" by (intro "1.IH") (auto dest: in_set_butlastD list.set_sel(2))
  then show ?case using "1.prems"(1) [of x] "1.prems"(2) [of y] by simp
qed simp_all

lemma ring_rotate: "ring m (x # xs) \<Longrightarrow> ring m (xs @ [x])"
proof (cases xs)
  case (Cons y ys)
  assume r: "ring m (x # xs)"
  then have "nchain m ((x # xs) @ [x])" by (simp add: ring_def)
  then have "nxt m x = y" "prv m y = x" "nchain m (xs @ [x])" by (simp_all add: Cons)
  then have "nchain m (xs @ x # [y])" by (simp add: nchain_append [of m xs x "[y]"])
  then show ?thesis using r by (auto simp: ring_def Cons)
qed simp

lemma ring_rotate_append: "ring m (xs @ ys) \<Longrightarrow> ring m (ys @ xs)"
proof (induction xs arbitrary: ys)
  case (Cons x xs)
  have "ring m (xs @ (ys @ [x]))" using ring_rotate [of m x "xs @ ys"] Cons.prems by simp
  from Cons.IH [OF this] show ?case by simp
qed simp

lemma nxt_prv_upd:
  "0 < a \<Longrightarrow> nxt (m(a \<mapsto> v)) b = (if b = a then tn_next v else nxt m b)"
  "0 < a \<Longrightarrow> prv (m(a \<mapsto> v)) b = (if b = a then tn_priv v else prv m b)"
  by (auto simp: nxt_def prv_def at_def)

lemma at_nxt: "at m a = Some v \<Longrightarrow> tn_next v = nxt m a" "at m a = Some v \<Longrightarrow> tn_priv v = prv m a"
  by (simp_all add: nxt_def prv_def)

lemma ring_mem: "ring m ns \<Longrightarrow> x \<in> set ns \<Longrightarrow> 0 < x \<and> (\<exists>v. m x = Some v)"
  by (auto simp: ring_def at_Some)

lemma ring_nxt_first: "ring m (x # y # ns) \<Longrightarrow> nxt m x = y"
  by (simp add: ring_def)

text \<open>The \<open>i\<close>-th node's successor is the next one in the cycle.\<close>

lemma ring_nxt:
  assumes "ring m ns" "i < length ns"
  shows "nxt m (ns ! i) = ns ! (Suc i mod length ns)"
proof -
  have "nchain m l \<Longrightarrow> Suc i < length l \<Longrightarrow> nxt m (l ! i) = l ! Suc i" for l
  proof (induction m l arbitrary: i rule: nchain.induct)
    case (1 m x y zs)
    then show ?case by (cases i) auto
  qed auto
  from this [of "ns @ [hd ns]"] assms show ?thesis
    by (cases "Suc i = length ns") (auto simp: ring_def nth_append hd_conv_nth)
qed

text \<open>Linking a node before the first of a ring puts it at the end; unlinking the first leaves the others.\<close>

lemma ring_link_before:
  assumes r: "ring m (n # ns)" and new: "0 < new" "new \<notin> set (n # ns)" "m new = Some nv0"
  shows "\<exists>m'. link_before m new n = Some m' \<and> ring m' (n # ns @ [new]) \<and>
    (\<forall>a. map_option tn_task (m' a) = map_option tn_task (m a) \<and>
         map_option tn_priority (m' a) = map_option tn_priority (m a)) \<and>
    (\<forall>a. a \<notin> set (new # n # ns) \<longrightarrow> m' a = m a)"
proof -
  obtain ys p where yp: "n # ns = ys @ [p]" by (cases "n # ns" rule: rev_cases) auto
  have c: "nchain m (ys @ p # [n])" using r by (simp add: ring_def flip: append_Cons) (simp add: yp)
  then have c1: "nchain m (ys @ [p])" and c2: "nxt m p = n" "prv m n = p"
    by (simp_all add: nchain_append [of m ys p "[n]"])
  have d: "distinct (ys @ [p])" "distinct (n # ns)" using r by (simp_all add: ring_def flip: yp)
  have pin: "p \<in> set (n # ns)" by (simp add: yp)
  then obtain nv pv where nv: "0 < n" "m n = Some nv" and pv: "0 < p" "m p = Some pv"
    using r by (auto simp: ring_def at_Some)
  have nvp: "tn_priv nv = p" using c2 nv by (simp add: prv_def)
  have ne: "new \<noteq> n" "new \<noteq> p" using new pin by auto
  define a where "a = m(new \<mapsto> nv0\<lparr>tn_next := n, tn_priv := p\<rparr>)"
  define b where "b = a(p \<mapsto> pv\<lparr>tn_next := new\<rparr>)"
  have bn: "b n = Some (if p = n then nv\<lparr>tn_next := new\<rparr> else nv)" using ne nv pv by (auto simp: a_def b_def)
  define e where "e = b(n \<mapsto> (if p = n then nv\<lparr>tn_next := new\<rparr> else nv)\<lparr>tn_priv := new\<rparr>)"
  have s1: "upd m new (\<lambda>v. v\<lparr>tn_next := n\<rparr>) = Some (m(new \<mapsto> nv0\<lparr>tn_next := n\<rparr>))" using new by simp
  have s2: "at (m(new \<mapsto> nv0\<lparr>tn_next := n\<rparr>)) n = Some nv" using nv ne by simp
  have s3: "upd (m(new \<mapsto> nv0\<lparr>tn_next := n\<rparr>)) new (\<lambda>v. v\<lparr>tn_priv := p\<rparr>) = Some a" using new by (simp add: a_def)
  have s4: "at a n = Some nv" using nv ne by (simp add: a_def)
  have s5: "upd a p (\<lambda>v. v\<lparr>tn_next := new\<rparr>) = Some b" using pv ne by (simp add: a_def b_def)
  have s6: "upd b n (\<lambda>v. v\<lparr>tn_priv := new\<rparr>) = Some e"
    using nv bn by (simp add: e_def)
  have e: "link_before m new n = Some e"
    unfolding link_before_def using s1 s2 s3 s4 s5 s6 nvp by simp
  have fs: "tn_next nv = nxt m n" "tn_priv nv = prv m n" "tn_next pv = nxt m p" "tn_priv pv = prv m p"
    using nv pv by (simp_all add: nxt_def prv_def)
  have ch: "nchain e (ys @ [p])"
  proof (subst nchain_frame [where m = m])
    fix x assume "x \<in> set (butlast (ys @ [p]))"
    then have "x \<noteq> p" "x \<in> set (n # ns)" using d(1) by (auto simp: yp)
    then show "nxt e x = nxt m x" using new nv pv fs by (auto simp: e_def b_def a_def nxt_prv_upd)
  next
    fix x assume "x \<in> set (tl (ys @ [p]))"
    then have "x \<noteq> n" "x \<in> set (n # ns)" using d(2) by (auto simp flip: yp)
    then show "prv e x = prv m x" using new nv pv fs by (auto simp: e_def b_def a_def nxt_prv_upd)
  qed (rule c1)
  have l: "nxt e p = new" "prv e new = p" "nxt e new = n" "prv e n = new"
    using new nv pv ne by (auto simp: e_def b_def a_def nxt_prv_upd)
  have "nchain e (ys @ p # [new, n])" using ch l by (simp add: nchain_append [of e ys p "[new, n]"])
  then have ch': "nchain e ((n # ns) @ [new, n])" by (simp add: yp)
  have "at e x \<noteq> None" if "x \<in> set (n # ns @ [new])" for x
    using that ring_mem [OF r, of x] new nv pv by (auto simp: e_def b_def a_def)
  then have "ring e (n # ns @ [new])" using ch' d(2) new by (auto simp: ring_def)
  moreover have "\<forall>x. map_option tn_task (e x) = map_option tn_task (m x) \<and>
      map_option tn_priority (e x) = map_option tn_priority (m x)"
    using new nv pv ne by (auto simp: e_def b_def a_def)
  moreover have "\<forall>x. x \<notin> set (new # n # ns) \<longrightarrow> e x = m x"
    using pin by (auto simp: e_def b_def a_def)
  ultimately show ?thesis using e by blast
qed

lemma ring_unlink_first:
  assumes r: "ring m (x # y # ns)" and v: "m x = Some v"
  shows "\<exists>m1 m2 v1. upd m (tn_priv v) (\<lambda>p. p\<lparr>tn_next := tn_next v\<rparr>) = Some m1 \<and> at m1 x = Some v1 \<and>
    upd m1 (tn_next v1) (\<lambda>n. n\<lparr>tn_priv := tn_priv v1\<rparr>) = Some m2 \<and> ring (free_at m2 x) (y # ns) \<and>
    (\<forall>a. map_option tn_task (m2 a) = map_option tn_task (m a) \<and>
         map_option tn_priority (m2 a) = map_option tn_priority (m a)) \<and>
    (\<forall>a. a \<notin> set (y # ns) \<longrightarrow> m2 a = m a)"
proof -
  obtain ys p where yp: "y # ns = ys @ [p]" by (cases "y # ns" rule: rev_cases) auto
  have d: "distinct (x # y # ns)" "distinct (ys @ [p])" using r by (simp_all add: ring_def flip: yp)
  have c: "nxt m x = y" "prv m y = x" "nchain m ((y # ns) @ [x])" using r by (simp_all add: ring_def)
  then have "nchain m (ys @ p # [x])" by (simp add: yp)
  then have c1: "nchain m (ys @ [p])" and c2: "nxt m p = x" "prv m x = p"
    by (simp_all add: nchain_append [of m ys p "[x]"])
  have pin: "p \<in> set (y # ns)" by (simp add: yp)
  then obtain pv yv where pv: "0 < p" "m p = Some pv" and yv: "0 < y" "m y = Some yv" and x0: "0 < x"
    using r by (auto simp: ring_def at_Some)
  have ne: "x \<noteq> p" "x \<noteq> y" using pin d by auto
  have vv: "tn_next v = y" "tn_priv v = p" using c(1) c2(2) v x0 by (simp_all add: nxt_def prv_def)
  define m1 where "m1 = m(p \<mapsto> pv\<lparr>tn_next := y\<rparr>)"
  obtain w where w: "m1 y = Some w" "w = (if y = p then pv\<lparr>tn_next := y\<rparr> else yv)" using yv pv by (simp add: m1_def)
  define m2 where "m2 = m1(y \<mapsto> w\<lparr>tn_priv := p\<rparr>)"
  have s1: "upd m (tn_priv v) (\<lambda>p. p\<lparr>tn_next := tn_next v\<rparr>) = Some m1" using pv by (simp add: vv m1_def)
  have s2: "at m1 x = Some v" using v x0 ne by (simp add: m1_def)
  have s3: "upd m1 (tn_next v) (\<lambda>n. n\<lparr>tn_priv := tn_priv v\<rparr>) = Some m2" using yv w(1) by (simp add: vv m2_def)
  have n2: "nxt (free_at m2 x) a = (if a = x then 0 else if a = p then y else nxt m a)"
    and p2: "prv (free_at m2 x) a = (if a = x then 0 else if a = y then p else prv m a)" for a
    using pv yv w by (auto simp: free_at_def m2_def m1_def nxt_def prv_def at_def)
  have "nchain (free_at m2 x) (ys @ [p])"
  proof (subst nchain_frame [where m = m])
    fix a assume "a \<in> set (butlast (ys @ [p]))"
    then have "a \<noteq> p" "a \<in> set (y # ns)" using d(2) by (auto simp: yp)
    then show "nxt (free_at m2 x) a = nxt m a" using d(1) by (auto simp: n2)
  next
    fix a assume "a \<in> set (tl (ys @ [p]))"
    then have "a \<noteq> y" "a \<in> set (y # ns)" using d(1) by (auto simp flip: yp)
    then show "prv (free_at m2 x) a = prv m a" using d(1) by (auto simp: p2)
  qed (rule c1)
  then have "nchain (free_at m2 x) (ys @ p # [y])"
    using ne by (simp add: nchain_append [of _ ys p "[y]"] n2 p2)
  then have "nchain (free_at m2 x) ((y # ns) @ [y])" by (simp add: yp)
  moreover have "at (free_at m2 x) a \<noteq> None" if "a \<in> set (y # ns)" for a
    using that ring_mem [OF r, of a] d(1) by (auto simp: free_at_def m2_def m1_def)
  ultimately have "ring (free_at m2 x) (y # ns)" using d(1) by (simp add: ring_def)
  moreover have "\<forall>a. map_option tn_task (m2 a) = map_option tn_task (m a) \<and>
      map_option tn_priority (m2 a) = map_option tn_priority (m a)"
    using pv yv w by (auto simp: m2_def m1_def)
  moreover have "\<forall>a. a \<notin> set (y # ns) \<longrightarrow> m2 a = m a"
    using pin by (auto simp: m2_def m1_def)
  ultimately show ?thesis using s1 s2 s3 by blast
qed

section \<open>The pool\<close>

text \<open>
  A well-formed pool: the nodes form a ring that starts at the head (or there is none), each
  node belongs to a live task, and the task points back to its node.
\<close>

definition pool_ok :: "nat list \<Rightarrow> scheduler \<Rightarrow> tmem \<Rightarrow> bool" where
  "pool_ok ns s m \<longleftrightarrow> (if ns = [] then s_head s = 0 else s_head s = hd ns \<and> ring (nodes m) ns) \<and>
     (\<forall>n \<in> set ns. \<exists>v t. nodes m n = Some v \<and> 0 < tn_task v \<and> tasks m (tn_task v) = Some t \<and> t_node t = n)"

definition task_of :: "tmem \<Rightarrow> nat \<Rightarrow> nat" where
  "task_of m n = (case nodes m n of Some v \<Rightarrow> tn_task v | None \<Rightarrow> 0)"

text \<open>Where a new node of priority \<open>p\<close> goes: before the first node that is not above it, the head excepted, whose predecessor is the end.\<close>

definition insert_pos :: "(nat \<Rightarrow> 32 word) \<Rightarrow> nat list \<Rightarrow> 32 word \<Rightarrow> nat" where
  "insert_pos pr ns p = (let k = length (takeWhile (\<lambda>n. sint (pr n) > sint p) ns) in if k = 0 then length ns else k)"

definition prio_of :: "(nat \<Rightarrow> task_node option) \<Rightarrow> nat \<Rightarrow> 32 word" where
  "prio_of m n = (case m n of Some v \<Rightarrow> tn_priority v | None \<Rightarrow> 0)"

lemma find_place_ring:
  assumes r: "ring m ns" and i: "i < length ns"
    and w: "k = length (takeWhile (\<lambda>n. sint (prio_of m n) > sint p) (drop i ns))"
  shows "find_place m (hd ns) (ns ! i) p = Some (if i + k < length ns then ns ! (i + k) else hd ns)"
  using i w
proof (induction "length ns - i" arbitrary: i k)
  case (Suc d)
  have dr: "drop i ns = ns ! i # drop (Suc i) ns" using Suc.prems by (simp add: Cons_nth_drop_Suc)
  obtain v where v: "0 < ns ! i" "m (ns ! i) = Some v" using ring_mem [OF r nth_mem [OF Suc.prems(1)]] by blast
  have pv: "prio_of m (ns ! i) = tn_priority v" and nv: "tn_next v = ns ! (Suc i mod length ns)"
    using v ring_nxt [OF r Suc.prems(1)] by (simp_all add: prio_of_def nxt_def)
  show ?case
  proof (cases "sint (tn_priority v) > sint p")
    case True
    then have k: "k = Suc (length (takeWhile (\<lambda>n. sint (prio_of m n) > sint p) (drop (Suc i) ns)))"
      using Suc.prems(2) by (simp add: dr pv)
    show ?thesis
    proof (cases "Suc i = length ns")
      case True
      have "tn_next v = hd ns" using True nv r by (simp add: ring_def hd_conv_nth)
      then show ?thesis using v \<open>sint (tn_priority v) > sint p\<close> True k by (subst find_place.simps) simp
    next
      case False
      then have s: "Suc i < length ns" using Suc.prems by simp
      have d: "distinct ns" using r by (simp add: ring_def)
      have l: "0 < length ns" using s by linarith
      then have h: "hd ns = ns ! 0" by (simp add: hd_conv_nth)
      have "tn_next v \<noteq> hd ns" using nv s nth_eq_iff_index_eq [OF d s l] by (simp add: h)
      moreover have "tn_next v = ns ! Suc i" using nv s by simp
      ultimately show ?thesis using v \<open>sint (tn_priority v) > sint p\<close> Suc.hyps(1) [of "Suc i"] Suc.hyps(2) s k
        by (subst find_place.simps) simp
    qed
  next
    case False
    then have "k = 0" using Suc.prems(2) by (simp add: dr pv)
    then show ?thesis using v False Suc.prems by (subst find_place.simps) simp
  qed
qed simp

lemma insert_pos_le: "insert_pos pr ns p \<le> length ns"
  by (simp add: insert_pos_def Let_def length_takeWhile_le)

lemma find_place_head:
  assumes r: "ring m ns"
  shows "find_place m (hd ns) (hd ns) p =
    Some (hd (drop (insert_pos (prio_of m) ns p) ns @ take (insert_pos (prio_of m) ns p) ns))"
proof -
  let ?k = "length (takeWhile (\<lambda>n. sint (prio_of m n) > sint p) ns)"
  have ne: "ns \<noteq> []" using r by (simp add: ring_def)
  have "find_place m (hd ns) (hd ns) p = Some (if ?k < length ns then ns ! ?k else hd ns)"
    using find_place_ring [OF r, of 0 ?k p] ne by (simp add: hd_conv_nth)
  moreover have "?k \<le> length ns" by (rule length_takeWhile_le)
  ultimately show ?thesis using ne
    by (auto simp: insert_pos_def Let_def hd_append hd_drop_conv_nth hd_conv_nth)
qed

lemma add_task_spec:
  assumes ok: "pool_ok ns s m" and new: "0 < new" "nodes m new = None"
    and t: "0 < task" "tasks m task = Some t" "task \<notin> task_of m ` set ns"
    and k: "k = insert_pos (prio_of (nodes m)) ns (t_priority t)"
  shows "\<exists>m'. add_task_to_task_pool new junk task s m = Some (0, run_scheduler s\<lparr>s_head := if ns = [] then new else s_head s\<rparr>, m') \<and>
    pool_ok (take k ns @ new # drop k ns) (run_scheduler s\<lparr>s_head := if ns = [] then new else s_head s\<rparr>) m' \<and>
    map (task_of m') (take k ns @ new # drop k ns) = map (task_of m) (take k ns) @ task # map (task_of m) (drop k ns) \<and>
    tasks m' = (tasks m)(task \<mapsto> t\<lparr>t_node := new\<rparr>)"
proof (cases "ns = []")
  case True
  define v where "v = junk\<lparr>tn_task := task, tn_priority := t_priority t, tn_next := new, tn_priv := new\<rparr>"
  have "s_head s = 0" using ok True by (simp add: pool_ok_def)
  then have e: "add_task_to_task_pool new junk task s m = Some (0, run_scheduler s\<lparr>s_head := new\<rparr>,
      m\<lparr>tasks := (tasks m)(task \<mapsto> t\<lparr>t_node := new\<rparr>), nodes := (nodes m)(new \<mapsto> v)\<rparr>)"
    using new t by (simp add: add_task_to_task_pool_def block_scheduler_def run_scheduler_def v_def)
  show ?thesis using new t
    by (simp only: e True) (simp add: True pool_ok_def ring_def task_of_def nxt_prv_upd v_def run_scheduler_def)
next
  case False
  define a where "a = (nodes m)(new \<mapsto> junk\<lparr>tn_task := task, tn_priority := t_priority t\<rparr>)"
  define ts where "ts = (tasks m)(task \<mapsto> t\<lparr>t_node := new\<rparr>)"
  have h: "s_head s = hd ns" "ring (nodes m) ns" using ok False by (simp_all add: pool_ok_def)
  have nin: "new \<notin> set ns" using ring_mem [OF h(2)] new by fastforce
  have fr: "x \<in> set ns \<Longrightarrow> a x = nodes m x" for x using nin by (auto simp: a_def)
  have ra: "ring a ns"
  proof -
    have "set (butlast (ns @ [hd ns])) \<subseteq> set ns" "set (tl (ns @ [hd ns])) \<subseteq> set ns"
      using False by (auto simp: butlast_append tl_append dest: list.set_sel(2) split: list.splits)
    then have "nchain a (ns @ [hd ns]) = nchain (nodes m) (ns @ [hd ns])"
      by (intro nchain_frame) (auto simp: nxt_def prv_def at_def fr subset_iff)
    moreover have "\<forall>x \<in> set ns. at a x \<noteq> None" using ring_mem [OF h(2)] fr by auto
    ultimately show ?thesis using h(2) by (simp add: ring_def)
  qed
  have "takeWhile (\<lambda>n. sint (prio_of a n) > sint (t_priority t)) ns =
      takeWhile (\<lambda>n. sint (prio_of (nodes m) n) > sint (t_priority t)) ns"
    by (rule takeWhile_cong) (simp_all add: prio_of_def fr)
  then have ka: "insert_pos (prio_of a) ns (t_priority t) = k" by (simp add: k insert_pos_def)
  obtain n ns' where rot: "drop k ns @ take k ns = n # ns'" using False by (cases "drop k ns @ take k ns") auto
  have fp: "find_place a (hd ns) (hd ns) (t_priority t) = Some n"
    using find_place_head [OF ra, of "t_priority t"] by (simp add: ka rot)
  have "ring a (take k ns @ drop k ns)" using ra by simp
  then have "ring a (n # ns')" using ring_rotate_append [of a "take k ns" "drop k ns"] by (simp add: rot)
  moreover have st: "set (n # ns') = set ns" proof -
    have "set (n # ns') = set (drop k ns) \<union> set (take k ns)" by (simp flip: rot set_append)
    also have "\<dots> = set (take k ns @ drop k ns)" by (simp only: set_append Un_commute)
    finally show ?thesis by simp
  qed
  ultimately obtain b where b: "link_before a new n = Some b" "ring b (n # ns' @ [new])"
    "\<forall>x. map_option tn_task (b x) = map_option tn_task (a x)" 
    using ring_link_before [of a n ns' new "junk\<lparr>tn_task := task, tn_priority := t_priority t\<rparr>"] new nin
    by (auto simp: a_def)
  have "(n # ns') @ [new] = drop k ns @ (take k ns @ [new])" by (simp only: rot [symmetric] append_assoc)
  with b(2) have "ring b (drop k ns @ (take k ns @ [new]))" by (metis append_Cons)
  from ring_rotate_append [OF this] have rb: "ring b (take k ns @ new # drop k ns)" by simp
  have "hd ns \<noteq> 0" using ring_mem [OF h(2), of "hd ns"] False by simp
  then have e: "add_task_to_task_pool new junk task s m =
      Some (0, run_scheduler s, m\<lparr>tasks := ts, nodes := b\<rparr>)"
    using new t h fp b(1)
    by (simp add: add_task_to_task_pool_def block_scheduler_def run_scheduler_def a_def ts_def)
  have tk: "\<exists>v. b x = Some v \<and> tn_task v = (if x = new then task else task_of m x)" if "x \<in> set (new # ns)" for x
  proof -
    have "\<exists>v. a x = Some v \<and> tn_task v = (if x = new then task else task_of m x)"
      using that ring_mem [OF h(2), of x] nin by (auto simp: a_def task_of_def)
    then show ?thesis using b(3) by (metis map_option_eq_Some)
  qed
  have sub: "set (take k ns) \<subseteq> set ns" "set (drop k ns) \<subseteq> set ns" by (rule set_take_subset, rule set_drop_subset)
  have "set (take k ns @ new # drop k ns) = set (new # ns)"
    using append_take_drop_id [of k ns] by (metis Un_insert_right list.simps(15) set_append)
  moreover have "\<exists>v t'. b x = Some v \<and> 0 < tn_task v \<and> ts (tn_task v) = Some t' \<and> t_node t' = x"
    if x: "x \<in> set (new # ns)" for x
  proof (cases "x = new")
    case True
    then show ?thesis using tk [of new] t by (auto simp: ts_def)
  next
    case nx: False
    then have xn: "x \<in> set ns" using x by simp
    then have nt: "task_of m x \<noteq> task" using t(3) by auto
    obtain v t' where v: "nodes m x = Some v" "0 < tn_task v" "tasks m (tn_task v) = Some t'" "t_node t' = x"
      using ok xn unfolding pool_ok_def by blast
    have tv: "task_of m x = tn_task v" using v(1) by (simp add: task_of_def)
    obtain w where w: "b x = Some w" "tn_task w = tn_task v" using tk [OF x] nx tv by auto
    have "ts (tn_task w) = Some t'" using v(3) w(2) nt tv by (simp add: ts_def)
    then show ?thesis using w v by (intro exI [of _ w] exI [of _ t']) simp
  qed
  moreover have "hd (take k ns @ new # drop k ns) = hd ns"
  proof -
    have "k \<noteq> 0" using False by (auto simp: k insert_pos_def Let_def)
    then show ?thesis using False by (cases ns; cases k) auto
  qed
  ultimately have "pool_ok (take k ns @ new # drop k ns) (run_scheduler s) (m\<lparr>tasks := ts, nodes := b\<rparr>)"
    using rb h by (simp add: pool_ok_def run_scheduler_def)
  moreover have "task_of (m\<lparr>tasks := ts, nodes := b\<rparr>) x = (if x = new then task else task_of m x)" if "x \<in> set (new # ns)" for x
    using tk [OF that] by (auto simp: task_of_def)
  ultimately show ?thesis using e False nin sub by (auto simp: ts_def subset_iff run_scheduler_def)
qed

text \<open>Removing a node that is not the head unlinks exactly it; removing the head leaves the pool's head on a freed node.\<close>

lemma unlink_step:
  assumes ok: "pool_ok ns s m" and j: "j < length ns" and l: "2 \<le> length ns"
  shows "\<exists>m' t. tasks m (task_of m (ns ! j)) = Some t \<and>
    remove_task_from_pool (task_of m (ns ! j)) s m = Some (run_scheduler s, m') \<and>
    ring (nodes m') (drop (Suc j) ns @ take j ns) \<and> nodes m' (ns ! j) = None \<and>
    (\<forall>x \<in> set ns - {ns ! j}. task_of m' x = task_of m x) \<and>
    tasks m' = (tasks m)(task_of m (ns ! j) \<mapsto> t\<lparr>t_node := 0\<rparr>)"
proof -
  let ?x = "ns ! j"
  have ne: "ns \<noteq> []" using j by auto
  have r: "ring (nodes m) ns" using ok ne by (simp add: pool_ok_def)
  have xin: "?x \<in> set ns" using j by simp
  then obtain v t where v: "nodes m ?x = Some v" "0 < tn_task v" "tasks m (tn_task v) = Some t" "t_node t = ?x"
    using ok by (auto simp: pool_ok_def)
  have x0: "0 < ?x" using ring_mem [OF r xin] by simp
  have tx: "task_of m ?x = tn_task v" using v by (simp add: task_of_def)
  have ns: "ns = take j ns @ ?x # drop (Suc j) ns" using j by (rule id_take_nth_drop)
  have "ring (nodes m) (take j ns @ (?x # drop (Suc j) ns))" using r ns by simp
  then have r1: "ring (nodes m) ((?x # drop (Suc j) ns) @ take j ns)" by (rule ring_rotate_append)
  obtain y rest where rest: "drop (Suc j) ns @ take j ns = y # rest"
  proof (cases "drop (Suc j) ns @ take j ns")
    case Nil
    then have "length (drop (Suc j) ns @ take j ns) = 0" by (simp only: list.size)
    then show ?thesis using l j by simp
  qed
  have r2: "ring (nodes m) (?x # y # rest)" using r1 rest by simp
  obtain m1 m2 v1 where u: "upd (nodes m) (tn_priv v) (\<lambda>p. p\<lparr>tn_next := tn_next v\<rparr>) = Some m1" "at m1 ?x = Some v1"
    "upd m1 (tn_next v1) (\<lambda>n. n\<lparr>tn_priv := tn_priv v1\<rparr>) = Some m2" "ring (free_at m2 ?x) (y # rest)"
    and same: "\<forall>a. map_option tn_task (m2 a) = map_option tn_task (nodes m a)"
    using ring_unlink_first [OF r2 v(1)] by auto
  have "remove_task_from_pool (tn_task v) s m = Some (run_scheduler s,
      m\<lparr>tasks := (tasks m)(tn_task v \<mapsto> t\<lparr>t_node := 0\<rparr>), nodes := free_at m2 ?x\<rparr>)"
    using v x0 u by (simp add: remove_task_from_pool_def block_scheduler_def run_scheduler_def)
  moreover have "\<forall>a \<in> set ns - {?x}. task_of (m\<lparr>tasks := (tasks m)(tn_task v \<mapsto> t\<lparr>t_node := 0\<rparr>), nodes := free_at m2 ?x\<rparr>) a = task_of m a"
  proof
    fix a assume a: "a \<in> set ns - {?x}"
    then obtain w where w: "nodes m a = Some w" using ring_mem [OF r] by blast
    then obtain w' where "m2 a = Some w'" "tn_task w' = tn_task w" using same by (metis map_option_eq_Some)
    then show "task_of (m\<lparr>tasks := (tasks m)(tn_task v \<mapsto> t\<lparr>t_node := 0\<rparr>), nodes := free_at m2 ?x\<rparr>) a = task_of m a"
      using a w by (auto simp: task_of_def free_at_def)
  qed
  ultimately show ?thesis using v u(4) rest tx by (simp add: free_at_def)
qed

lemma pool_tasks_distinct:
  assumes ok: "pool_ok ns s m" and "x \<in> set ns" "y \<in> set ns" "task_of m x = task_of m y"
  shows "x = y"
proof -
  from ok have a: "\<forall>n \<in> set ns. \<exists>v t. nodes m n = Some v \<and> tasks m (tn_task v) = Some t \<and> t_node t = n"
    by (auto simp: pool_ok_def)
  obtain v t where x: "nodes m x = Some v" "tasks m (tn_task v) = Some t" "t_node t = x" using a assms(2) by blast
  obtain w u where y: "nodes m y = Some w" "tasks m (tn_task w) = Some u" "t_node u = y" using a assms(3) by blast
  have "task_of m x = tn_task v" "task_of m y = tn_task w" using x(1) y(1) by (simp_all add: task_of_def)
  then have "tasks m (tn_task v) = Some u" using assms(4) y(2) by metis
  then have "t = u" using x(2) by (metis option.inject)
  then show ?thesis using x(3) y(3) by metis
qed

lemma remove_task_spec:
  assumes ok: "pool_ok ns s m" and j: "0 < j" "j < length ns"
  shows "\<exists>m'. remove_task_from_pool (task_of m (ns ! j)) s m = Some (run_scheduler s, m') \<and>
    pool_ok (take j ns @ drop (Suc j) ns) (run_scheduler s) m' \<and> nodes m' (ns ! j) = None \<and>
    map (task_of m') (take j ns @ drop (Suc j) ns) = map (task_of m) (take j ns @ drop (Suc j) ns)"
proof -
  let ?x = "ns ! j" and ?l = "take j ns @ drop (Suc j) ns"
  obtain m' t where s: "tasks m (task_of m ?x) = Some t" "remove_task_from_pool (task_of m ?x) s m = Some (run_scheduler s, m')"
    "ring (nodes m') (drop (Suc j) ns @ take j ns)" "nodes m' ?x = None"
    and tk: "\<forall>x \<in> set ns - {?x}. task_of m' x = task_of m x"
    and ts: "tasks m' = (tasks m)(task_of m ?x \<mapsto> t\<lparr>t_node := 0\<rparr>)"
    using unlink_step [OF ok j(2)] j by auto
  have ne: "ns \<noteq> []" using j by auto
  have r: "ring (nodes m) ns" and hd: "s_head s = hd ns" using ok ne by (simp_all add: pool_ok_def)
  have d: "distinct ns" using r by (simp add: ring_def)
  have ns: "ns = take j ns @ ?x # drop (Suc j) ns" using j(2) by (rule id_take_nth_drop)
  have st: "set ?l = set ns - {?x}"
  proof -
    have "distinct (take j ns @ ?x # drop (Suc j) ns)" using d ns by simp
    moreover have "set ns = set (take j ns @ ?x # drop (Suc j) ns)" using ns by simp
    ultimately show ?thesis by auto
  qed
  have "ring (nodes m') ?l" using s(3) by (rule ring_rotate_append)
  moreover have "hd ?l = hd ns" using j ne by (cases ns; cases j) auto
  moreover have "?l \<noteq> []" using j ne by (cases ns; cases j) auto
  moreover have "\<exists>v t. nodes m' x = Some v \<and> 0 < tn_task v \<and> tasks m' (tn_task v) = Some t \<and> t_node t = x"
    if x: "x \<in> set ?l" for x
  proof -
    have xn: "x \<in> set ns" "x \<noteq> ?x" using x st by auto
    obtain v t0 where v: "nodes m x = Some v" "0 < tn_task v" "tasks m (tn_task v) = Some t0" "t_node t0 = x"
      using ok xn by (auto simp: pool_ok_def)
    obtain v' where v': "nodes m' x = Some v'" using ring_mem [OF \<open>ring (nodes m') ?l\<close> x] by blast
    have "task_of m' x = task_of m x" using tk xn by simp
    then have "tn_task v' = tn_task v" using v v' by (simp add: task_of_def)
    moreover have "tn_task v \<noteq> task_of m ?x"
      using pool_tasks_distinct [OF ok xn(1), of ?x] xn j v by (auto simp: task_of_def)
    ultimately show ?thesis using v v' ts by simp
  qed
  ultimately have "pool_ok ?l (run_scheduler s) m'"
    using hd unfolding pool_ok_def if_not_P [OF \<open>?l \<noteq> []\<close>] by (simp add: run_scheduler_def)
  moreover have "map (task_of m') ?l = map (task_of m) ?l" by (rule map_cong [OF refl]) (use tk st in blast)
  ultimately show ?thesis using s by blast
qed

end
