(* ===== verification/Preemptive.thy ===== *)
theory Preemptive
  imports Task
begin

text \<open>
  The priority task pool, \<^verbatim>\<open>lib/Preemptive.c\<close>: a doubly linked list of tasks through their own
  \<open>next\<close> and \<open>priv\<close> members, scanned from the head for the first task that can run.
\<close>

definition get_next_task :: "(nat \<Rightarrow> task_struct option) \<Rightarrow> nat \<Rightarrow> nat option" where
  "get_next_task ts a = do { t \<leftarrow> at ts a; Some (t_next t) }"

text \<open>
  \<open>last_scheduler_time + block_time < scheduler_timer\<close>: a signed 64-bit sum compared with an
  unsigned counter, so the comparison is unsigned.
\<close>

definition expired :: "u64 \<Rightarrow> task_struct \<Rightarrow> bool" where
  "expired timer t \<longleftrightarrow> last_scheduler_time t + scast (block_time t) < timer"

text \<open>
  The branch for a dead task declares a second \<open>search_task\<close> and initialises it from itself,
  which reads an indeterminate pointer: \<open>None\<close>.
\<close>

partial_function (option) get_useful_loop ::
  "(nat \<Rightarrow> task_struct option) \<Rightarrow> u64 \<Rightarrow> nat \<Rightarrow> (nat \<times> (nat \<Rightarrow> task_struct option)) option" where
  "get_useful_loop ts timer a = Option.bind (at ts a) (\<lambda>t.
     if t_state t = TASK_DEAD then None
     else if t_state t = TASK_READY then Some (a, ts)
     else if t_state t = TASK_WAITING \<and> expired timer t then Some (a, ts(a \<mapsto> t\<lparr>t_state := TASK_READY\<rparr>))
     else if t_next t = 0 then Some (a, ts)
     else get_useful_loop ts timer (t_next t))"

definition get_useful_task :: "nat \<Rightarrow> scheduler \<Rightarrow> tmem \<Rightarrow> (nat \<times> tmem) option" where
  "get_useful_task head s m = do {
     (a, ts) \<leftarrow> get_useful_loop (tasks m) (scheduler_timer s) head;
     Some (a, m\<lparr>tasks := ts\<rparr>) }"

definition Preemptive_scheduling :: "scheduler \<Rightarrow> tmem \<Rightarrow> (nat \<times> scheduler \<times> tmem) option" where
  "Preemptive_scheduling s m = (let s = s\<lparr>scheduler_timer := scheduler_timer s + 1\<rparr> in do {
     (next_task, m) \<leftarrow> get_useful_task (s_head s) s m;
     if next_task \<noteq> current_task s then do {
       ts \<leftarrow> (if current_task s \<noteq> 0
              then upd (tasks m) (current_task s) (\<lambda>t. t\<lparr>last_scheduler_time := scheduler_timer s\<rparr>)
              else Some (tasks m));
       ts \<leftarrow> upd ts next_task (\<lambda>t. t\<lparr>last_scheduler_time := scheduler_timer s\<rparr>);
       Some (next_task, s, m\<lparr>tasks := ts\<rparr>) }
     else Some (next_task, s, m) })"

partial_function (option) check_loop :: "(nat \<Rightarrow> task_struct option) \<Rightarrow> nat \<Rightarrow> int option" where
  "check_loop ts a = Option.bind (at ts a) (\<lambda>t.
     if t_magic t \<noteq> task_struct_magic then Some (-1)
     else if t_next t = 0 then Some 0
     else check_loop ts (t_next t))"

definition check_task_completeness :: "scheduler \<Rightarrow> tmem \<Rightarrow> int option" where
  "check_task_completeness s m = check_loop (tasks m) (s_head s)"

text \<open>\<open>t->priority <= priority\<close> compares an \<open>int\<close> with a \<open>uint32_t\<close>, unsigned, and reads \<open>t\<close> before the test for NULL.\<close>

partial_function (option) by_priority_loop :: "(nat \<Rightarrow> task_struct option) \<Rightarrow> 32 word \<Rightarrow> nat \<Rightarrow> nat option" where
  "by_priority_loop ts p a = Option.bind (at ts a) (\<lambda>t.
     if t_priority t \<le> p then Some a else by_priority_loop ts p (t_next t))"

definition get_task_by_priority :: "scheduler \<Rightarrow> tmem \<Rightarrow> 32 word \<Rightarrow> nat option" where
  "get_task_by_priority s m p = (if s_head s = 0 then Some 0 else by_priority_loop (tasks m) p (s_head s))"

definition add_a_task_node :: "nat \<Rightarrow> nat \<Rightarrow> tmem \<Rightarrow> tmem option" where
  "add_a_task_node new task m = do {
     ts \<leftarrow> upd (tasks m) new (\<lambda>t. t\<lparr>t_next := task\<rparr>);
     t \<leftarrow> at ts task;
     ts \<leftarrow> upd ts new (\<lambda>n. n\<lparr>t_priv := t_priv t\<rparr>);
     t \<leftarrow> at ts task;
     ts \<leftarrow> upd ts (t_priv t) (\<lambda>p. p\<lparr>t_next := new\<rparr>);
     ts \<leftarrow> upd ts task (\<lambda>t. t\<lparr>t_priv := new\<rparr>);
     Some (m\<lparr>tasks := ts\<rparr>) }"

definition task_reset :: "nat \<Rightarrow> tmem \<Rightarrow> tmem option" where
  "task_reset new m = do { ts \<leftarrow> upd (tasks m) new (\<lambda>t. t\<lparr>t_priv := 0, t_next := 0\<rparr>); Some (m\<lparr>tasks := ts\<rparr>) }"

definition add_task_to_task_pool_p :: "nat \<Rightarrow> scheduler \<Rightarrow> tmem \<Rightarrow> (int \<times> scheduler \<times> tmem) option" where
  "add_task_to_task_pool_p new s m = do {
     m \<leftarrow> task_reset new m;
     (s, m) \<leftarrow> (if s_head s = 0 then Some (s\<lparr>s_head := new\<rparr>, m)
       else do {
         n \<leftarrow> at (tasks m) new;
         task \<leftarrow> get_task_by_priority s m (t_priority n);
         if task = 0 then do { m \<leftarrow> add_a_task_node new (s_head s) m; Some (s\<lparr>s_head := new\<rparr>, m) }
         else do { m \<leftarrow> add_a_task_node new task m; Some (s, m) } });
     h \<leftarrow> at (tasks m) (s_head s);
     Some (0, if t_priv h \<noteq> 0 then s\<lparr>s_head := t_priv h\<rparr> else s, m) }"

definition remove_task :: "nat \<Rightarrow> tmem \<Rightarrow> tmem option" where
  "remove_task task m = do {
     t \<leftarrow> at (tasks m) task;
     ts \<leftarrow> (if t_priv t \<noteq> 0 then upd (tasks m) (t_priv t) (\<lambda>p. p\<lparr>t_next := t_next t\<rparr>) else Some (tasks m));
     t \<leftarrow> at ts task;
     ts \<leftarrow> (if t_next t \<noteq> 0 then upd ts (t_next t) (\<lambda>n. n\<lparr>t_priv := t_priv t\<rparr>) else Some ts);
     Some (m\<lparr>tasks := ts\<rparr>) }"

definition remove_task_from_pool_p :: "nat \<Rightarrow> scheduler \<Rightarrow> tmem \<Rightarrow> (scheduler \<times> tmem) option" where
  "remove_task_from_pool_p task s m = do {
     t \<leftarrow> at (tasks m) task;
     if s_head s = task \<and> t_next t = 0 then Some (s, m)
     else do {
       let s = (if s_head s = task then s\<lparr>s_head := t_next t\<rparr> else s);
       m \<leftarrow> remove_task task m;
       Some (if current_task s = task then s\<lparr>current_task := 0\<rparr> else s, m) } }"

definition alloc_new_pool_p :: "nat \<Rightarrow> scheduler \<Rightarrow> scheduler option" where
  "alloc_new_pool_p pool s = (if pool = 0 then None else Some (s\<lparr>s_head := 0\<rparr>))"

section \<open>The list of a pool\<close>

text \<open>\<open>tlist ts p a xs\<close>: from \<open>a\<close>, whose predecessor is \<open>p\<close>, the tasks linked by \<open>next\<close> up to NULL are \<open>xs\<close>.\<close>

fun tlist :: "(nat \<Rightarrow> task_struct option) \<Rightarrow> nat \<Rightarrow> nat \<Rightarrow> nat list \<Rightarrow> bool" where
  "tlist ts p a [] \<longleftrightarrow> a = 0"
| "tlist ts p a (x # xs) \<longleftrightarrow> a = x \<and> 0 < a \<and> (\<exists>t. ts a = Some t \<and> t_priv t = p \<and> tlist ts a (t_next t) xs)"

definition runnable :: "(nat \<Rightarrow> task_struct option) \<Rightarrow> u64 \<Rightarrow> nat \<Rightarrow> bool" where
  "runnable ts timer a = (case ts a of None \<Rightarrow> False
     | Some t \<Rightarrow> t_state t = TASK_READY \<or> (t_state t = TASK_WAITING \<and> expired timer t))"

definition dead :: "(nat \<Rightarrow> task_struct option) \<Rightarrow> nat \<Rightarrow> bool" where
  "dead ts a = (case ts a of None \<Rightarrow> True | Some t \<Rightarrow> t_state t = TASK_DEAD)"

definition wake :: "(nat \<Rightarrow> task_struct option) \<Rightarrow> nat \<Rightarrow> nat \<Rightarrow> task_struct option" where
  "wake ts a = (case ts a of None \<Rightarrow> ts | Some t \<Rightarrow> ts(a \<mapsto> t\<lparr>t_state := TASK_READY\<rparr>))"

definition pick :: "(nat \<Rightarrow> task_struct option) \<Rightarrow> u64 \<Rightarrow> nat list \<Rightarrow> nat" where
  "pick ts timer xs = (case find (runnable ts timer) xs of Some x \<Rightarrow> x | None \<Rightarrow> last xs)"

lemma tlist_mem: "tlist ts p a xs \<Longrightarrow> x \<in> set xs \<Longrightarrow> 0 < x \<and> (\<exists>t. ts x = Some t)"
  by (induction xs arbitrary: p a) auto

lemma tlist_frame:
  "(\<And>x. x \<in> set xs \<Longrightarrow> \<exists>t t'. ts x = Some t \<and> ts' x = Some t' \<and> t_next t' = t_next t \<and> t_priv t' = t_priv t) \<Longrightarrow>
     tlist ts p a xs \<Longrightarrow> tlist ts' p a xs"
proof (induction xs arbitrary: p a)
  case (Cons x xs)
  obtain t t' where "ts x = Some t" "ts' x = Some t'" "t_next t' = t_next t" "t_priv t' = t_priv t"
    using Cons.prems(1) [of x] by auto
  then show ?case using Cons.prems(2) Cons.IH [of a "t_next t"] Cons.prems(1) by auto
qed simp

lemma get_useful_loop_tlist:
  assumes "tlist ts p a xs" "xs \<noteq> []" "\<forall>x \<in> set (takeWhile (\<lambda>x. \<not> runnable ts timer x) xs). \<not> dead ts x"
  shows "get_useful_loop ts timer a =
    Some (pick ts timer xs, if runnable ts timer (pick ts timer xs) then wake ts (pick ts timer xs) else ts)"
  using assms
proof (induction xs arbitrary: p a)
  case (Cons x xs)
  obtain t where t: "a = x" "0 < x" "ts x = Some t" "tlist ts x (t_next t) xs" using Cons.prems by auto
  show ?case
  proof (cases "runnable ts timer x")
    case True
    then have "t_state t = TASK_READY \<or> t_state t = TASK_WAITING \<and> expired timer t" using t by (simp add: runnable_def)
    moreover have "t_state t = TASK_READY \<Longrightarrow> wake ts x = ts" using t by (simp add: wake_def fun_upd_idem)
    ultimately show ?thesis using True t
      by (subst get_useful_loop.simps) (auto simp: pick_def wake_def)
  next
    case False
    then have st: "t_state t \<noteq> TASK_READY" "\<not> (t_state t = TASK_WAITING \<and> expired timer t)" "t_state t \<noteq> TASK_DEAD"
      using t Cons.prems(3) by (auto simp: runnable_def dead_def)
    show ?thesis
    proof (cases "xs = []")
      case True
      then show ?thesis using t st False by (subst get_useful_loop.simps) (auto simp: pick_def)
    next
      case ne: False
      then have "t_next t \<noteq> 0" using t(4) by (cases xs) auto
      moreover have "pick ts timer (x # xs) = pick ts timer xs" using False ne by (simp add: pick_def split: option.split)
      moreover have "get_useful_loop ts timer (t_next t) =
          Some (pick ts timer xs, if runnable ts timer (pick ts timer xs) then wake ts (pick ts timer xs) else ts)"
        using Cons.IH [OF t(4) ne] Cons.prems(3) False by simp
      ultimately show ?thesis using t st by (subst get_useful_loop.simps) auto
    qed
  qed
qed simp

lemma pick_mem: "xs \<noteq> [] \<Longrightarrow> pick ts timer xs \<in> set xs"
  by (auto simp: pick_def find_Some_iff split: option.splits)

text \<open>Segments of the list, to split it at the task that is removed.\<close>

fun tseg :: "(nat \<Rightarrow> task_struct option) \<Rightarrow> nat \<Rightarrow> nat \<Rightarrow> nat list \<Rightarrow> nat \<Rightarrow> nat \<Rightarrow> bool" where
  "tseg ts p a [] q b \<longleftrightarrow> q = p \<and> b = a"
| "tseg ts p a (x # xs) q b \<longleftrightarrow> a = x \<and> 0 < a \<and> (\<exists>t. ts a = Some t \<and> t_priv t = p \<and> tseg ts a (t_next t) xs q b)"

lemma tlist_append: "tlist ts p a (ys @ zs) \<longleftrightarrow> (\<exists>q b. tseg ts p a ys q b \<and> tlist ts q b zs)"
  by (induction ys arbitrary: p a) auto

lemma tseg_last: "tseg ts p a ys q b \<Longrightarrow> q = (if ys = [] then p else last ys)"
  by (induction ys arbitrary: p a) auto

lemma tseg_other: "x \<notin> set ys \<Longrightarrow> tseg (ts(x := v)) p a ys q b = tseg ts p a ys q b"
  by (induction ys arbitrary: p a) auto

lemma tlist_other: "x \<notin> set ys \<Longrightarrow> tlist (ts(x := v)) p a ys = tlist ts p a ys"
  by (induction ys arbitrary: p a) auto

lemma tseg_set_next:
  "tseg ts p a ys q b \<Longrightarrow> ys \<noteq> [] \<Longrightarrow> distinct ys \<Longrightarrow> ts (last ys) = Some t \<Longrightarrow>
     tseg (ts(last ys \<mapsto> t\<lparr>t_next := c\<rparr>)) p a ys (last ys) c"
proof (induction ys arbitrary: p a)
  case (Cons y ys)
  show ?case
  proof (cases "ys = []")
    case False
    then have "last ys \<in> set ys" by simp
    with Cons.prems(3) have "last ys \<noteq> y" by auto
    then show ?thesis using Cons.prems False Cons.IH by auto
  qed (use Cons in auto)
qed simp

lemma tlist_set_priv:
  "tlist ts p a (z # zs) \<Longrightarrow> distinct (z # zs) \<Longrightarrow> ts z = Some t \<Longrightarrow> tlist (ts(z \<mapsto> t\<lparr>t_priv := r\<rparr>)) r a (z # zs)"
  by (auto simp: tlist_other)

text \<open>Unlinking a task of the list leaves the others linked in the same order.\<close>

lemma remove_task_unlinks:
  assumes l: "tlist (tasks m) 0 a (ys @ x # zs)" and d: "distinct (ys @ x # zs)"
  shows "\<exists>t m'. tasks m x = Some t \<and> remove_task x m = Some m' \<and> nodes m' = nodes m \<and>
    tlist (tasks m') 0 (if ys = [] then t_next t else a) (ys @ zs) \<and> t_next t = (if zs = [] then 0 else hd zs) \<and> 0 < x"
proof -
  obtain q where s: "tseg (tasks m) 0 a ys q x" and tl: "tlist (tasks m) q x (x # zs)"
    using l by (auto simp: tlist_append)
  then obtain t where t: "tasks m x = Some t" "0 < x" "t_priv t = q" "tlist (tasks m) x (t_next t) zs" by auto
  have q: "q = (if ys = [] then 0 else last ys)" using tseg_last [OF s] .
  have nz: "t_next t = (if zs = [] then 0 else hd zs)" using t(4) by (cases zs) auto
  define ts1 where "ts1 = (if ys = [] then tasks m
    else case tasks m (last ys) of None \<Rightarrow> tasks m | Some v \<Rightarrow> (tasks m)(last ys \<mapsto> v\<lparr>t_next := t_next t\<rparr>))"
  have s1: "(if t_priv t \<noteq> 0 then upd (tasks m) (t_priv t) (\<lambda>p. p\<lparr>t_next := t_next t\<rparr>) else Some (tasks m)) = Some ts1
      \<and> ts1 x = Some t \<and> tseg ts1 0 (if ys = [] then t_next t else a) ys q (t_next t) \<and> tlist ts1 x (t_next t) zs"
  proof (cases "ys = []")
    case True
    then show ?thesis using s q t by (simp add: ts1_def)
  next
    case False
    then have lin: "last ys \<in> set ys" by simp
    then have "0 < last ys \<and> (\<exists>v. tasks m (last ys) = Some v)" using tlist_mem [OF l] by simp
    then obtain v where v: "0 < last ys" "tasks m (last ys) = Some v" by blast
    have "last ys \<noteq> x" "last ys \<notin> set zs" using d lin by auto
    then show ?thesis
      using False q t v tseg_set_next [OF s False _ v(2)] d by (simp add: ts1_def tlist_other)
  qed
  show ?thesis
  proof (cases zs)
    case Nil
    then have "remove_task x m = Some (m\<lparr>tasks := ts1\<rparr>)" using t s1 nz by (simp add: remove_task_def)
    moreover have "tlist ts1 0 (if ys = [] then t_next t else a) (ys @ [])"
      unfolding tlist_append using s1 nz Nil by auto
    ultimately show ?thesis using t nz Nil by (intro exI [of _ t] exI [of _ "m\<lparr>tasks := ts1\<rparr>"]) auto
  next
    case (Cons z zs')
    then obtain w where w: "0 < z" "ts1 z = Some w" using s1 nz by auto
    define ts2 where "ts2 = ts1(z \<mapsto> w\<lparr>t_priv := q\<rparr>)"
    have "upd ts1 (t_next t) (\<lambda>n. n\<lparr>t_priv := t_priv t\<rparr>) = Some ts2" using w nz Cons t by (simp add: ts2_def)
    then have r: "remove_task x m = Some (m\<lparr>tasks := ts2\<rparr>)" using t s1 nz Cons w by (simp add: remove_task_def)
    have "tlist ts1 x (t_next t) (z # zs')" "distinct (z # zs')" using s1 Cons d by auto
    then have tz: "tlist ts2 q (t_next t) zs" using tlist_set_priv [where ts = ts1 and p = x and a = "t_next t" and z = z and zs = zs' and t = w and r = q] w(2)
    by (simp add: ts2_def Cons del: tlist.simps)
    have "z \<notin> set ys" using d Cons by auto
    then have "tseg ts2 0 (if ys = [] then t_next t else a) ys q (t_next t)" using s1 by (simp add: ts2_def tseg_other)
    then have "tlist ts2 0 (if ys = [] then t_next t else a) (ys @ zs)" unfolding tlist_append using tz by blast
    then show ?thesis using r t nz by (intro exI [of _ t] exI [of _ "m\<lparr>tasks := ts2\<rparr>"]) simp
  qed
qed

end
