(* ===== verification/Sched.thy ===== *)
theory Sched
  imports TimeLoop Preemptive
begin

text \<open>
  The scheduler: the registry of task pools (\<^verbatim>\<open>kernel/sched/task_pools.c\<close>), the per-core
  schedulers and the context switch (\<^verbatim>\<open>sched.c\<close>, \<^verbatim>\<open>ctrl.c\<close>), the creation of tasks
  (\<^verbatim>\<open>task.c\<close>, \<^verbatim>\<open>arch/arm_m/kernel/sched/csched.c\<close>) and the lists of live and dead tasks
  (\<^verbatim>\<open>taskmanager.c\<close>).

  The linked lists of \<open>list_head\<close>s are lists of the addresses of their owners; \<open>list_add\<close>
  and the iterations touch the owners' memory and fault when one was freed. The spin lock of
  the task lists is not part of the state: each operation runs under it as a whole.
  \<open>cpu\<close> is the number of the core the code runs on.
\<close>

record kernel =
  mem_of :: tmem
  k_scheduler :: "scheduler list"
  Scheduler_Lock :: scheduler_block_flag
  Scheduler_Lock1 :: nat
  id_count :: u32
  task_pool_list :: "(u8 list \<times> task_pool_operations) list"
  Task_List :: "nat list"
  Death_task_List :: "nat list"

section \<open>The registry of task pools\<close>

definition find_task_pool :: "kernel \<Rightarrow> u8 list \<Rightarrow> task_pool_operations option" where
  "find_task_pool k name = map_of (task_pool_list k) name"

definition register_task_pool :: "kernel \<Rightarrow> u8 list \<Rightarrow> task_pool_operations \<Rightarrow> int \<times> kernel" where
  "register_task_pool k name op =
     (if \<exists>e \<in> set (task_pool_list k). fst e = name then (- EEXIST, k)
      else (0, k\<lparr>task_pool_list := task_pool_list k @ [(name, op)]\<rparr>))"

fun del_first :: "u8 list \<Rightarrow> (u8 list \<times> 'o) list \<Rightarrow> (u8 list \<times> 'o) list option" where
  "del_first name [] = None"
| "del_first name (e # es) = (if fst e = name then Some es else map_option (Cons e) (del_first name es))"

definition unregister_task_pool :: "kernel \<Rightarrow> u8 list \<Rightarrow> int \<times> kernel" where
  "unregister_task_pool k name = (case del_first name (task_pool_list k) of
     None \<Rightarrow> (- ENOENT, k) | Some es \<Rightarrow> (0, k\<lparr>task_pool_list := es\<rparr>))"

section \<open>Schedulers and their locks\<close>

definition get_scheduler_by_cpu_core_id :: "kernel \<Rightarrow> nat \<Rightarrow> nat option" where
  "get_scheduler_by_cpu_core_id k core_id = (if core_id \<ge> length (k_scheduler k) then None else Some core_id)"

definition get_current_scheduler :: "kernel \<Rightarrow> nat \<Rightarrow> nat option" where
  "get_current_scheduler k cpu = get_scheduler_by_cpu_core_id k cpu"

definition get_current_task :: "kernel \<Rightarrow> nat \<Rightarrow> nat option" where
  "get_current_task k cpu = do { i \<leftarrow> get_scheduler_by_cpu_core_id k cpu; Some (current_task (k_scheduler k ! i)) }"

definition put_scheduler :: "kernel \<Rightarrow> nat \<Rightarrow> scheduler \<Rightarrow> kernel" where
  "put_scheduler k i s = k\<lparr>k_scheduler := (k_scheduler k)[i := s]\<rparr>"

text \<open>\<open>block_scheduler(NULL)\<close> and \<open>run_scheduler(NULL)\<close> act on the current core's scheduler.\<close>

definition block_scheduler_opt :: "kernel \<Rightarrow> nat \<Rightarrow> nat option \<Rightarrow> kernel option" where
  "block_scheduler_opt k cpu s = do {
     i \<leftarrow> (case s of None \<Rightarrow> get_current_scheduler k cpu | Some i \<Rightarrow> Some i);
     Some (put_scheduler k i (block_scheduler (k_scheduler k ! i))) }"

definition run_scheduler_opt :: "kernel \<Rightarrow> nat \<Rightarrow> nat option \<Rightarrow> kernel option" where
  "run_scheduler_opt k cpu s = do {
     i \<leftarrow> (case s of None \<Rightarrow> get_current_scheduler k cpu | Some i \<Rightarrow> Some i);
     Some (put_scheduler k i (run_scheduler (k_scheduler k ! i))) }"

definition scheduler_start :: "kernel \<Rightarrow> kernel" where
  "scheduler_start k = k\<lparr>Scheduler_Lock1 := Scheduler_Lock1 k + 1\<rparr>"

definition start_all_scheduler :: "kernel \<Rightarrow> kernel" where
  "start_all_scheduler k = k\<lparr>Scheduler_Lock := SCHEDULER_RUN\<rparr>"

definition stop_all_scheduler :: "kernel \<Rightarrow> kernel" where
  "stop_all_scheduler k = k\<lparr>Scheduler_Lock := SCHEDULER_BLOCKED\<rparr>"


definition set_task :: "kernel \<Rightarrow> nat \<Rightarrow> (task_struct \<Rightarrow> task_struct) \<Rightarrow> kernel option" where
  "set_task k t f = do { ts \<leftarrow> upd (tasks (mem_of k)) t f; Some (k\<lparr>mem_of := (mem_of k)\<lparr>tasks := ts\<rparr>\<rparr>) }"

text \<open>\<open>__delay\<close> up to its call of \<open>sched\<close>.\<close>

definition delay :: "kernel \<Rightarrow> nat \<Rightarrow> u32 \<Rightarrow> kernel option" where
  "delay k cpu time = do {
     task \<leftarrow> get_current_task k cpu;
     k \<leftarrow> set_task k task (\<lambda>t. t\<lparr>block_time := time\<rparr>);
     set_task k task (\<lambda>t. t\<lparr>t_state := TASK_WAITING\<rparr>) }"

section \<open>The operations of a pool\<close>

definition pool_get_next :: "scheduler \<Rightarrow> tmem \<Rightarrow> (nat \<times> scheduler \<times> tmem) option" where
  "pool_get_next s m = (case t_pop s of
     Time_loop_op \<Rightarrow> do { t \<leftarrow> time_loop s m; Some (t, s, m) }
   | Preemptive_op \<Rightarrow> Preemptive_scheduling s m)"


definition pool_remove :: "nat \<Rightarrow> scheduler \<Rightarrow> tmem \<Rightarrow> (scheduler \<times> tmem) option" where
  "pool_remove task s m = (case t_pop s of
     Time_loop_op \<Rightarrow> remove_task_from_pool task s m
   | Preemptive_op \<Rightarrow> remove_task_from_pool_p task s m)"

text \<open>\<open>t_pop->check_task_completeness\<close> is NULL in the time-loop pool: calling it faults.\<close>

definition pool_check :: "scheduler \<Rightarrow> tmem \<Rightarrow> int option" where
  "pool_check s m = (case t_pop s of Time_loop_op \<Rightarrow> None | Preemptive_op \<Rightarrow> check_task_completeness s m)"

definition pool_alloc :: "task_pool_operations \<Rightarrow> nat \<Rightarrow> scheduler \<Rightarrow> scheduler option" where
  "pool_alloc op pool s = (case op of Time_loop_op \<Rightarrow> alloc_new_pool pool s | Preemptive_op \<Rightarrow> alloc_new_pool_p pool s)"

text \<open>\<open>scheduler_init\<close>: an unknown pool name leads into an endless loop (\<open>None\<close>).\<close>

definition scheduler_init :: "kernel \<Rightarrow> nat \<Rightarrow> u8 list \<Rightarrow> nat \<Rightarrow> kernel option" where
  "scheduler_init k i pool_name pool = do {
     op \<leftarrow> find_task_pool k pool_name;
     s \<leftarrow> pool_alloc op pool (k_scheduler k ! i);
     Some (put_scheduler k i (s\<lparr>scheduler_timer := 0, s_magic := scheduler_scheduler, s_flag := SCHEDULER_BLOCKED,
       current_task := 0, t_pop := op, s_core := i\<rparr>)) }"

text \<open>The context switch: the stack pointer of the interrupted task goes in, that of the next one comes out.\<close>

definition Scheduler_Task :: "kernel \<Rightarrow> nat \<Rightarrow> u32 \<Rightarrow> (u32 \<times> kernel) option" where
  "Scheduler_Task k cpu context = do {
     i \<leftarrow> get_current_scheduler k cpu;
     let s = k_scheduler k ! i;
     if s_flag s = SCHEDULER_BLOCKED then Some (context, k)
     else do {
       k \<leftarrow> (if current_task s \<noteq> 0 then set_task k (current_task s) (\<lambda>t. t\<lparr>psp := context\<rparr>) else Some k);
       (t, s, m) \<leftarrow> pool_get_next s (mem_of k);
       let s = s\<lparr>current_task := t\<rparr>;
       let k = put_scheduler (k\<lparr>mem_of := m\<rparr>) i s;
       if t \<noteq> 0 then do { v \<leftarrow> at (tasks m) t; Some (psp v, k) } else Some (context, k) } }"

section \<open>Tasks\<close>

text \<open>
  Both lists run through the one node \<open>task_node\<close> of a task. The iteration faults at a freed task, and never ends when a node
  was put on a list while it was still linked: its old predecessor then leads back to it.
\<close>

definition List_All_Tasks :: "kernel \<Rightarrow> unit option" where
  "List_All_Tasks k = (let ts = Task_List k @ Death_task_List k
     in if distinct ts \<and> (\<forall>t \<in> set ts. tasks (mem_of k) t \<noteq> None) then Some () else None)"


definition Kill_Task :: "kernel \<Rightarrow> nat \<Rightarrow> kernel option" where
  "Kill_Task k new = do {
     at (tasks (mem_of k)) new;
     let k = k\<lparr>Task_List := remove1 new (Task_List k), Death_task_List := remove1 new (Death_task_List k)\<rparr>;
     l \<leftarrow> list_add (tasks (mem_of k)) new (Death_task_List k);
     let k = k\<lparr>Death_task_List := l\<rparr>;
     List_All_Tasks k;
     Some k }"

definition destory_task :: "kernel \<Rightarrow> nat \<Rightarrow> kernel option" where
  "destory_task k t = (if t = 0 then Some k else Kill_Task k t)"

text \<open>One turn of the loop a task falls into when its function returns.\<close>

definition default_Task_return_function :: "kernel \<Rightarrow> nat \<Rightarrow> kernel option" where
  "default_Task_return_function k cpu = do {
     task \<leftarrow> get_current_task k cpu;
     set_task k task (\<lambda>t. t\<lparr>t_state := TASK_DEAD\<rparr>) }"




text \<open>
  The stack of a new task is rounded up together with its control block, of \<open>sz_task\<close> bytes;
  \<open>base\<close> is what \<open>kmalloc\<close> returned for it.
\<close>

definition stack_bytes :: "nat \<Rightarrow> 32 word \<Rightarrow> 32 word" where
  "stack_bytes sz_task stack_size = (stack_size + 64 + of_nat sz_task + 127) AND NOT 127"

definition init_psp :: "nat \<Rightarrow> nat" where
  "init_psp stk_top = unat ((word_of_nat stk_top :: u32) AND NOT 7) - 128"

definition new_name :: "u8 list \<Rightarrow> u8 list" where
  "new_name name = (if length name < 64 then name else take 63 name)"

definition new_task_create ::
  "nat \<Rightarrow> nat \<Rightarrow> task_struct \<Rightarrow> nat \<Rightarrow> 32 word \<Rightarrow> nat \<Rightarrow> 32 word \<Rightarrow> u8 list option \<Rightarrow> u32 \<Rightarrow> kernel
     \<Rightarrow> (int + nat) \<times> kernel" where
  "new_task_create sz_task base junk entry stack_size argv priority name offset k =
     (case name of None \<Rightarrow> (Inl (-1), k) | Some nm \<Rightarrow>
      if entry = 0 then (Inl (-1), k)
      else if base = 0 then (Inl (- ENOMEM), k)
      else (let stk_top = base + unat (stack_bytes sz_task stack_size);
                t = junk\<lparr>stack_ptr := base + sz_task, t_magic := task_struct_magic, t_id := id_count k, t_pid := id_count k,
                  t_entry := entry, t_arg := argv, t_priority := (if priority = 0 then 8 else priority),
                  stack_Top := stk_top, t_offset := offset, task_name := new_name nm,
                  psp := of_nat (init_psp stk_top), t_state := TASK_READY\<rparr>
            in (Inr base, k\<lparr>id_count := id_count k + 1, mem_of := (mem_of k)\<lparr>tasks := (tasks (mem_of k))(base \<mapsto> t)\<rparr>\<rparr>)))"



section \<open>Faults\<close>

definition user_error_process :: "kernel \<Rightarrow> nat \<Rightarrow> kernel option" where
  "user_error_process k cpu = do {
     task \<leftarrow> get_current_task k cpu;
     set_task k task (\<lambda>t. t\<lparr>t_state := TASK_BROKEN\<rparr>) }"

text \<open>\<open>__kernel_error_process\<close>: the branches to \<open>block\<close> never return (\<open>None\<close>).\<close>

definition kernel_error_process :: "kernel \<Rightarrow> nat \<Rightarrow> kernel option" where
  "kernel_error_process k cpu = do {
     i \<leftarrow> get_current_scheduler k cpu;
     let s = k_scheduler k ! i;
     if s_magic s \<noteq> scheduler_scheduler then None
     else if current_task s = 0 then Some k
     else do {
       let task = current_task s;
       t \<leftarrow> at (tasks (mem_of k)) task;
       if t_magic t \<noteq> task_struct_magic then None
       else do {
         r \<leftarrow> pool_check s (mem_of k);
         if r < 0 then None
         else do {
           k \<leftarrow> set_task k task (\<lambda>t. t\<lparr>t_state := TASK_BROKEN\<rparr>);
           (s, m) \<leftarrow> pool_remove task (s\<lparr>current_task := 0\<rparr>) (mem_of k);
           destory_task (put_scheduler (k\<lparr>mem_of := m\<rparr>) i s) task } } } }"

section \<open>The contract of a task pool\<close>

text \<open>
  What the context switch relies on: \<open>ok ts s m\<close>, the pool of \<open>s\<close> is well formed and holds the tasks \<open>ts\<close>;
  the next task is one of them, the choice keeps the pool and the saved contexts.
\<close>

locale task_policy =
  fixes ok :: "nat list \<Rightarrow> scheduler \<Rightarrow> tmem \<Rightarrow> bool"
  assumes picks: "ok ts s m \<Longrightarrow> current_task s \<in> insert 0 (set ts) \<Longrightarrow>
      \<exists>t s' m'. pool_get_next s m = Some (t, s', m') \<and> t \<in> set ts \<and> ok ts s' m' \<and> s_flag s' = s_flag s \<and>
        (\<forall>x. map_option psp (tasks m' x) = map_option psp (tasks m x))"
    and live: "ok ts s m \<Longrightarrow> t \<in> set ts \<Longrightarrow> 0 < t \<and> (\<exists>v. tasks m t = Some v)"
    and stable_psp: "ok ts s m \<Longrightarrow> tasks m t = Some v \<Longrightarrow> ok ts s (m\<lparr>tasks := (tasks m)(t \<mapsto> v\<lparr>psp := c\<rparr>)\<rparr>)"
    and stable_current: "ok ts s m \<Longrightarrow> ok ts (s\<lparr>current_task := t\<rparr>) m"
begin

lemma switch_step:
  assumes i: "i < length (k_scheduler k)" and f: "s_flag (k_scheduler k ! i) = SCHEDULER_RUN"
    and ok: "ok ts (k_scheduler k ! i) (mem_of k)" and cur: "current_task (k_scheduler k ! i) \<in> insert 0 (set ts)"
  shows "\<exists>c k'. Scheduler_Task k i ctx = Some (c, k') \<and> length (k_scheduler k') = length (k_scheduler k) \<and>
    s_flag (k_scheduler k' ! i) = SCHEDULER_RUN \<and> ok ts (k_scheduler k' ! i) (mem_of k') \<and>
    current_task (k_scheduler k' ! i) \<in> set ts \<and>
    map_option psp (tasks (mem_of k') (current_task (k_scheduler k' ! i))) = Some c \<and>
    (\<forall>x. map_option psp (tasks (mem_of k') x) =
       (if x = current_task (k_scheduler k ! i) \<and> x \<noteq> 0 then Some ctx else map_option psp (tasks (mem_of k) x)))"
proof -
  let ?s = "k_scheduler k ! i" and ?m = "mem_of k"
  have "\<exists>k1. (if current_task ?s \<noteq> 0 then set_task k (current_task ?s) (\<lambda>t. t\<lparr>psp := ctx\<rparr>) else Some k) = Some k1 \<and>
    k_scheduler k1 = k_scheduler k \<and> ok ts ?s (mem_of k1) \<and>
    (\<forall>x. map_option psp (tasks (mem_of k1) x) = (if x = current_task ?s \<and> x \<noteq> 0 then Some ctx else map_option psp (tasks ?m x)))"
  proof (cases "current_task ?s = 0")
    case True
    then show ?thesis using ok by auto
  next
    case False
    then have "current_task ?s \<in> set ts" using cur by simp
    then obtain v where v: "0 < current_task ?s" "tasks ?m (current_task ?s) = Some v" using live [OF ok] by blast
    then show ?thesis using stable_psp [OF ok v(2), of ctx] by (simp add: set_task_def)
  qed
  then obtain k1 where k1: "(if current_task ?s \<noteq> 0 then set_task k (current_task ?s) (\<lambda>t. t\<lparr>psp := ctx\<rparr>) else Some k) = Some k1"
    "k_scheduler k1 = k_scheduler k" "ok ts ?s (mem_of k1)"
    and p1: "\<And>x. map_option psp (tasks (mem_of k1) x) = (if x = current_task ?s \<and> x \<noteq> 0 then Some ctx else map_option psp (tasks ?m x))"
    by blast
  obtain t s' m' where n: "pool_get_next ?s (mem_of k1) = Some (t, s', m')" "t \<in> set ts" "ok ts s' m'" "s_flag s' = s_flag ?s"
    and p2: "\<And>x. map_option psp (tasks m' x) = map_option psp (tasks (mem_of k1) x)"
    using picks [OF k1(3) cur] by blast
  obtain v where v: "0 < t" "tasks m' t = Some v" using live [OF n(3) n(2)] by blast
  define k' where "k' = put_scheduler (k1\<lparr>mem_of := m'\<rparr>) i (s'\<lparr>current_task := t\<rparr>)"
  have k': "k_scheduler k' = (k_scheduler k)[i := s'\<lparr>current_task := t\<rparr>]" "mem_of k' = m'"
    by (simp_all add: k'_def put_scheduler_def k1)
  have "Scheduler_Task k i ctx = Some (psp v, k')"
    using i f k1(1) n(1) v
    by (simp add: Scheduler_Task_def get_current_scheduler_def get_scheduler_by_cpu_core_id_def k'_def Let_def cong: if_cong)
  then show ?thesis using k' i f n(2,4) stable_current [OF n(3), of t] v p1 p2 by simp
qed

end

text \<open>The tasks of a well-formed pool, for each of the two pools.\<close>

definition ok_loop :: "nat list \<Rightarrow> scheduler \<Rightarrow> tmem \<Rightarrow> bool" where
  "ok_loop ts s m \<longleftrightarrow> t_pop s = Time_loop_op \<and> (\<exists>ns. ns \<noteq> [] \<and> pool_ok ns s m \<and> ts = map (task_of m) ns)"

definition ok_prio :: "nat list \<Rightarrow> scheduler \<Rightarrow> tmem \<Rightarrow> bool" where
  "ok_prio ts s m \<longleftrightarrow> t_pop s = Preemptive_op \<and> ts \<noteq> [] \<and> tlist (tasks m) 0 (s_head s) ts \<and> (\<forall>x \<in> set ts. \<not> dead (tasks m) x)"

lemma time_loop_next:
  assumes ok: "pool_ok ns s m" and i: "i < length ns" and c: "current_task s = task_of m (ns ! i)"
  shows "time_loop s m = Some (task_of m (ns ! (Suc i mod length ns)))"
proof -
  have ne: "ns \<noteq> []" using i by auto
  have r: "ring (nodes m) ns" using ok ne by (simp add: pool_ok_def)
  obtain v t where v: "nodes m (ns ! i) = Some v" "0 < tn_task v" "tasks m (tn_task v) = Some t" "t_node t = ns ! i"
    using ok nth_mem [OF i] unfolding pool_ok_def by blast
  have x0: "0 < ns ! i" using ring_mem [OF r nth_mem [OF i]] by simp
  let ?y = "ns ! (Suc i mod length ns)"
  have "Suc i mod length ns < length ns" using ne by simp
  then obtain w where w: "0 < ?y" "nodes m ?y = Some w" using ring_mem [OF r nth_mem] by blast
  have cv: "current_task s = tn_task v" using c v(1) by (simp add: task_of_def)
  have nv: "tn_next v = ?y" using ring_nxt [OF r i] v(1) x0 by (simp add: nxt_def)
  show ?thesis using v x0 w cv nv by (simp add: time_loop_def task_of_def)
qed

lemma time_loop_first:
  assumes ok: "pool_ok ns s m" and ne: "ns \<noteq> []" and c: "current_task s = 0"
  shows "time_loop s m = Some (task_of m (hd ns))"
proof -
  have "ring (nodes m) ns" "s_head s = hd ns" using ok ne by (simp_all add: pool_ok_def)
  then show ?thesis using ring_mem [of "nodes m" ns "hd ns"] ne c by (auto simp: time_loop_def task_of_def)
qed

lemma time_loop_in:
  assumes "pool_ok ns s m" "ns \<noteq> []" "current_task s \<in> insert 0 (task_of m ` set ns)"
  shows "\<exists>n \<in> set ns. time_loop s m = Some (task_of m n)"
proof (cases "current_task s = 0")
  case True
  then show ?thesis using time_loop_first [OF assms(1,2)] assms(2) by auto
next
  case False
  then obtain i where i: "i < length ns" "current_task s = task_of m (ns ! i)"
    using assms(3) by (auto simp: in_set_conv_nth)
  then have "Suc i mod length ns < length ns" by (metis length_pos_if_in_set mod_less_divisor nth_mem)
  then show ?thesis using time_loop_next [OF assms(1) i] by auto
qed

lemma pool_ok_psp:
  "pool_ok ns s m \<Longrightarrow> tasks m t = Some v \<Longrightarrow> pool_ok ns s (m\<lparr>tasks := (tasks m)(t \<mapsto> v\<lparr>psp := c\<rparr>)\<rparr>)"
proof -
  assume ok: "pool_ok ns s m" and t: "tasks m t = Some v"
  let ?m = "m\<lparr>tasks := (tasks m)(t \<mapsto> v\<lparr>psp := c\<rparr>)\<rparr>"
  have "\<exists>w u. nodes ?m n = Some w \<and> 0 < tn_task w \<and> tasks ?m (tn_task w) = Some u \<and> t_node u = n" if n: "n \<in> set ns" for n
  proof -
    obtain w u where w: "nodes m n = Some w" "0 < tn_task w" "tasks m (tn_task w) = Some u" "t_node u = n"
      using ok n unfolding pool_ok_def by blast
    then show ?thesis using t by (cases "tn_task w = t") auto
  qed
  then show ?thesis using ok by (simp add: pool_ok_def)
qed

lemma task_of_upd [simp]: "task_of (m\<lparr>tasks := ts\<rparr>) = task_of m"
  by (rule ext) (simp add: task_of_def)

interpretation time_loop_pool: task_policy ok_loop
proof
  fix ts s m assume ok: "ok_loop ts s m" and c: "current_task s \<in> insert 0 (set ts)"
  then obtain ns where ns: "ns \<noteq> []" "pool_ok ns s m" "ts = map (task_of m) ns" by (auto simp: ok_loop_def)
  then obtain n where "n \<in> set ns" "time_loop s m = Some (task_of m n)" using time_loop_in [OF ns(2,1)] c by auto
  then show "\<exists>t s' m'. pool_get_next s m = Some (t, s', m') \<and> t \<in> set ts \<and> ok_loop ts s' m' \<and> s_flag s' = s_flag s \<and>
      (\<forall>x. map_option psp (tasks m' x) = map_option psp (tasks m x))"
    using ok ns by (auto simp: pool_get_next_def ok_loop_def)
next
  fix ts s m t assume "ok_loop ts s m" "t \<in> set ts"
  then show "0 < t \<and> (\<exists>v. tasks m t = Some v)" by (fastforce simp: ok_loop_def pool_ok_def task_of_def)
next
  fix ts s m t v c assume "ok_loop ts s m" "tasks m t = Some v"
  then show "ok_loop ts s (m\<lparr>tasks := (tasks m)(t \<mapsto> v\<lparr>psp := c\<rparr>)\<rparr>)"
    unfolding ok_loop_def using pool_ok_psp by fastforce
next
  fix ts s m t assume "ok_loop ts s m"
  then show "ok_loop ts (s\<lparr>current_task := t\<rparr>) m" by (auto simp: ok_loop_def pool_ok_def)
qed

lemma tlist_upd:
  assumes l: "tlist ts p a xs" and t: "ts x = Some t" and e: "t_next t' = t_next t" "t_priv t' = t_priv t"
  shows "tlist (ts(x \<mapsto> t')) p a xs"
proof (rule tlist_frame [OF _ l])
  fix y assume "y \<in> set xs"
  then obtain u where "ts y = Some u" using tlist_mem [OF l] by blast
  then show "\<exists>u u'. ts y = Some u \<and> (ts(x \<mapsto> t')) y = Some u' \<and> t_next u' = t_next u \<and> t_priv u' = t_priv u"
    using t e by (cases "y = x") auto
qed

lemma ok_prio_upd:
  assumes ok: "ok_prio xs s m" and t: "tasks m x = Some t" and e: "t_next t' = t_next t" "t_priv t' = t_priv t"
    and d: "t_state t' = TASK_DEAD \<Longrightarrow> t_state t = TASK_DEAD"
  shows "ok_prio xs s (m\<lparr>tasks := (tasks m)(x \<mapsto> t')\<rparr>)"
proof -
  have "\<not> dead ((tasks m)(x \<mapsto> t')) y" if "y \<in> set xs" for y
    using ok that t d by (cases "y = x") (auto simp: ok_prio_def dead_def)
  moreover have "tlist ((tasks m)(x \<mapsto> t')) 0 (s_head s) xs"
    using ok t e by (intro tlist_upd) (simp_all add: ok_prio_def)
  ultimately show ?thesis using ok by (simp add: ok_prio_def)
qed

lemma ok_prio_sched: "ok_prio xs s m \<Longrightarrow> ok_prio xs (s\<lparr>scheduler_timer := c, current_task := t\<rparr>) m"
  by (simp add: ok_prio_def)

text \<open>One scheduling decision of the priority pool: the first runnable task, or the last one.\<close>

lemma preemptive_step:
  assumes ok: "ok_prio xs s m" and c: "current_task s \<in> insert 0 (set xs)"
  shows "\<exists>s' m'. Preemptive_scheduling s m = Some (pick (tasks m) (scheduler_timer s + 1) xs, s', m') \<and>
    ok_prio xs s' m' \<and> s_flag s' = s_flag s \<and> current_task s' = current_task s \<and> scheduler_timer s' = scheduler_timer s + 1 \<and>
    (\<forall>x. map_option psp (tasks m' x) = map_option psp (tasks m x))"
proof -
  define tm where "tm = scheduler_timer s + 1"
  define s1 where "s1 = s\<lparr>scheduler_timer := tm\<rparr>"
  define x where "x = pick (tasks m) tm xs"
  have l: "tlist (tasks m) 0 (s_head s) xs" "xs \<noteq> []" and nd: "\<forall>x \<in> set xs. \<not> dead (tasks m) x"
    using ok by (simp_all add: ok_prio_def)
  have nd': "\<forall>y \<in> set (takeWhile (\<lambda>y. \<not> runnable (tasks m) tm y) xs). \<not> dead (tasks m) y"
    using nd by (auto dest: set_takeWhileD)
  have xin: "x \<in> set xs" using pick_mem [OF l(2)] by (simp add: x_def)
  then obtain v where v: "0 < x" "tasks m x = Some v" using tlist_mem [OF l(1)] by blast
  define ts where "ts = (if runnable (tasks m) tm x then wake (tasks m) x else tasks m)"
  have g: "get_useful_task (s_head s1) s1 m = Some (x, m\<lparr>tasks := ts\<rparr>)"
    using get_useful_loop_tlist [OF l(1) l(2) nd'] by (simp add: get_useful_task_def s1_def x_def ts_def)
  have ok0: "ok_prio xs s1 m" using ok by (simp add: ok_prio_def s1_def)
  have wk: "\<exists>w. ts = (tasks m)(x \<mapsto> w) \<and> t_next w = t_next v \<and> t_priv w = t_priv v \<and> psp w = psp v \<and> (t_state w = TASK_DEAD \<longrightarrow> t_state v = TASK_DEAD)"
  proof (cases "runnable (tasks m) tm x")
    case True
    then show ?thesis using v by (intro exI [of _ "v\<lparr>t_state := TASK_READY\<rparr>"]) (simp add: ts_def wake_def)
  next
    case False
    then show ?thesis using v by (intro exI [of _ v]) (simp add: ts_def fun_upd_idem)
  qed
  then obtain w where w: "ts = (tasks m)(x \<mapsto> w)" "t_next w = t_next v" "t_priv w = t_priv v" "psp w = psp v"
    "t_state w = TASK_DEAD \<longrightarrow> t_state v = TASK_DEAD" by blast
  have ok1: "ok_prio xs s1 (m\<lparr>tasks := ts\<rparr>)" unfolding w(1) by (rule ok_prio_upd [OF ok0 v(2)]) (simp_all add: w)
  have p1: "map_option psp (ts y) = map_option psp (tasks m y)" for y using v w(1,4) by simp
  have "\<exists>m'. Preemptive_scheduling s m = Some (x, s1, m') \<and> ok_prio xs s1 m' \<and> (\<forall>y. map_option psp (tasks m' y) = map_option psp (tasks m y))"
  proof (cases "x = current_task s")
    case True
    then have "Preemptive_scheduling s m = Some (x, s1, m\<lparr>tasks := ts\<rparr>)"
      using g by (simp add: Preemptive_scheduling_def s1_def tm_def)
    then show ?thesis using ok1 p1 by auto
  next
    case ne: False
    have "\<exists>ts1 u. (if current_task s \<noteq> 0 then upd ts (current_task s) (\<lambda>t. t\<lparr>last_scheduler_time := tm\<rparr>) else Some ts) = Some ts1
        \<and> ok_prio xs s1 (m\<lparr>tasks := ts1\<rparr>) \<and> ts1 x = Some u \<and> (\<forall>y. map_option psp (ts1 y) = map_option psp (tasks m y))"
    proof (cases "current_task s = 0")
      case True
      then show ?thesis using ok1 p1 w(1) by auto
    next
      case False
      then have "current_task s \<in> set xs" using c by simp
      then obtain cv where cv: "tasks m (current_task s) = Some cv" using tlist_mem [OF l(1)] by blast
      have "ok_prio xs s1 (m\<lparr>tasks := ts\<rparr>\<lparr>tasks := (tasks (m\<lparr>tasks := ts\<rparr>))(current_task s \<mapsto> cv\<lparr>last_scheduler_time := tm\<rparr>)\<rparr>)"
        by (rule ok_prio_upd [OF ok1]) (use ne cv w(1) in auto)
      then show ?thesis using False ne cv w(1) p1 by simp
    qed
    then obtain ts1 u where a: "(if current_task s \<noteq> 0 then upd ts (current_task s) (\<lambda>t. t\<lparr>last_scheduler_time := tm\<rparr>) else Some ts) = Some ts1"
        "ok_prio xs s1 (m\<lparr>tasks := ts1\<rparr>)" "ts1 x = Some u" "\<forall>y. map_option psp (ts1 y) = map_option psp (tasks m y)" by blast
    let ?m' = "m\<lparr>tasks := ts1(x \<mapsto> u\<lparr>last_scheduler_time := tm\<rparr>)\<rparr>"
    have "ok_prio xs s1 (m\<lparr>tasks := ts1\<rparr>\<lparr>tasks := (tasks (m\<lparr>tasks := ts1\<rparr>))(x \<mapsto> u\<lparr>last_scheduler_time := tm\<rparr>)\<rparr>)"
      by (rule ok_prio_upd [OF a(2)]) (use a(3) in auto)
    then have "ok_prio xs s1 ?m'" by simp
    moreover have "Preemptive_scheduling s m = Some (x, s1, ?m')"
      using g a(1,3) ne v by (simp add: Preemptive_scheduling_def s1_def Let_def cong: if_cong flip: tm_def)
    moreover have "\<forall>y. map_option psp (tasks ?m' y) = map_option psp (tasks m y)"
    proof
      fix y
      have "map_option psp (ts1 y) = map_option psp (tasks m y)" using a(4) by blast
      then show "map_option psp (tasks ?m' y) = map_option psp (tasks m y)" using a(3) by (cases "y = x") auto
    qed
    ultimately show ?thesis by blast
  qed
  then show ?thesis by (auto simp: s1_def x_def tm_def)
qed

interpretation preemptive_pool: task_policy ok_prio
proof
  fix ts s m assume ok: "ok_prio ts s m" and c: "current_task s \<in> insert 0 (set ts)"
  have "ts \<noteq> []" "t_pop s = Preemptive_op" using ok by (simp_all add: ok_prio_def)
  then show "\<exists>t s' m'. pool_get_next s m = Some (t, s', m') \<and> t \<in> set ts \<and> ok_prio ts s' m' \<and> s_flag s' = s_flag s \<and>
      (\<forall>x. map_option psp (tasks m' x) = map_option psp (tasks m x))"
    using preemptive_step [OF ok c] pick_mem by (auto simp: pool_get_next_def)
next
  fix ts s m t assume "ok_prio ts s m" "t \<in> set ts"
  then show "0 < t \<and> (\<exists>v. tasks m t = Some v)" using tlist_mem by (auto simp: ok_prio_def)
next
  fix ts s m t v c assume "ok_prio ts s m" "tasks m t = Some v"
  then show "ok_prio ts s (m\<lparr>tasks := (tasks m)(t \<mapsto> v\<lparr>psp := c\<rparr>)\<rparr>)" by (rule ok_prio_upd) simp_all
next
  fix ts s m t assume "ok_prio ts s m"
  then show "ok_prio ts (s\<lparr>current_task := t\<rparr>) m" by (simp add: ok_prio_def)
qed

section \<open>Properties\<close>

fun run_switches :: "kernel \<Rightarrow> nat \<Rightarrow> u32 list \<Rightarrow> kernel option" where
  "run_switches k cpu [] = Some k"
| "run_switches k cpu (c # cs) = do { (_, k) \<leftarrow> Scheduler_Task k cpu c; run_switches k cpu cs }"

lemma ok_loop_step:
  assumes i: "i < length (k_scheduler k)" and f: "s_flag (k_scheduler k ! i) = SCHEDULER_RUN"
    and ok: "pool_ok ns (k_scheduler k ! i) (mem_of k)" "t_pop (k_scheduler k ! i) = Time_loop_op"
    and j: "j < length ns" and c: "current_task (k_scheduler k ! i) = task_of (mem_of k) (ns ! j)"
  shows "\<exists>v k'. Scheduler_Task k i ctx = Some (v, k') \<and> length (k_scheduler k') = length (k_scheduler k) \<and>
    s_flag (k_scheduler k' ! i) = SCHEDULER_RUN \<and> pool_ok ns (k_scheduler k' ! i) (mem_of k') \<and>
    t_pop (k_scheduler k' ! i) = Time_loop_op \<and> task_of (mem_of k') = task_of (mem_of k) \<and>
    current_task (k_scheduler k' ! i) = task_of (mem_of k) (ns ! (Suc j mod length ns))"
proof -
  let ?s = "k_scheduler k ! i" and ?m = "mem_of k"
  have "ns ! j \<in> set ns" using j by simp
  then obtain w t where w: "nodes ?m (ns ! j) = Some w" "0 < tn_task w" "tasks ?m (tn_task w) = Some t"
    using ok(1) unfolding pool_ok_def by blast
  then have cw: "current_task ?s = tn_task w" using c by (simp add: task_of_def)
  define m1 where "m1 = ?m\<lparr>tasks := (tasks ?m)(tn_task w \<mapsto> t\<lparr>psp := ctx\<rparr>)\<rparr>"
  have ok1: "pool_ok ns ?s m1" unfolding m1_def by (rule pool_ok_psp [OF ok(1) w(3)])
  have tof: "task_of m1 = task_of ?m" by (simp add: m1_def)
  let ?n = "ns ! (Suc j mod length ns)"
  have nx: "time_loop ?s m1 = Some (task_of ?m ?n)" using time_loop_next [OF ok1 j] c tof by simp
  have ne: "ns \<noteq> []" using j by auto
  then have "?n \<in> set ns" by simp
  then obtain x u where x: "nodes m1 ?n = Some x" "0 < tn_task x" "tasks m1 (tn_task x) = Some u"
    using ok1 unfolding pool_ok_def by blast
  have tx: "task_of ?m ?n = tn_task x" using x(1) tof by (metis option.simps(5) task_of_def)
  define k' where "k' = put_scheduler (k\<lparr>mem_of := m1\<rparr>) i (?s\<lparr>current_task := tn_task x\<rparr>)"
  have "Scheduler_Task k i ctx = Some (psp u, k')"
    using i f w cw nx ok(2) x tx
    by (simp add: Scheduler_Task_def get_current_scheduler_def get_scheduler_by_cpu_core_id_def set_task_def
        pool_get_next_def k'_def Let_def m1_def cong: if_cong)
  moreover have "pool_ok ns (?s\<lparr>current_task := tn_task x\<rparr>) m1" using ok1 by (simp add: pool_ok_def)
  ultimately show ?thesis using i f ok(2) tof tx by (simp add: k'_def put_scheduler_def)
qed

lemma round_robin_iter:
  assumes "i < length (k_scheduler k)" "s_flag (k_scheduler k ! i) = SCHEDULER_RUN"
    "pool_ok ns (k_scheduler k ! i) (mem_of k)" "t_pop (k_scheduler k ! i) = Time_loop_op"
    "j < length ns" "current_task (k_scheduler k ! i) = task_of (mem_of k) (ns ! j)"
  shows "\<exists>k'. run_switches k i cs = Some k' \<and> pool_ok ns (k_scheduler k' ! i) (mem_of k') \<and>
    task_of (mem_of k') = task_of (mem_of k) \<and>
    current_task (k_scheduler k' ! i) = task_of (mem_of k) (ns ! ((j + length cs) mod length ns))"
  using assms
proof (induction cs arbitrary: k j)
  case Nil
  then show ?case by simp
next
  case (Cons c cs)
  obtain v k' where s: "Scheduler_Task k i c = Some (v, k')" "length (k_scheduler k') = length (k_scheduler k)"
    "s_flag (k_scheduler k' ! i) = SCHEDULER_RUN" "pool_ok ns (k_scheduler k' ! i) (mem_of k')"
    "t_pop (k_scheduler k' ! i) = Time_loop_op" "task_of (mem_of k') = task_of (mem_of k)"
    "current_task (k_scheduler k' ! i) = task_of (mem_of k) (ns ! (Suc j mod length ns))"
    using ok_loop_step [OF Cons.prems, of c] by blast
  have "Suc j mod length ns < length ns" using Cons.prems(5) by (intro mod_less_divisor) linarith
  moreover have "(Suc j mod length ns + length cs) mod length ns = (j + length (c # cs)) mod length ns"
    by (simp add: mod_add_left_eq)
  ultimately show ?case using Cons.IH [of k' "Suc j mod length ns"] Cons.prems(1) s by simp
qed

text \<open>adding a task to the round-robin pool links its node in front of the first node that is not above its
  priority - or at the end, when that node is the head - and keeps every other task in its place.\<close>

theorem time_loop_add:
  assumes "pool_ok ns s m" "0 < new" "nodes m new = None" "0 < task" "tasks m task = Some t"
    "task \<notin> task_of m ` set ns"
  shows "\<exists>s' m'. add_task_to_task_pool new junk task s m = Some (0, s', m') \<and> s_flag s' = SCHEDULER_RUN \<and>
    (let k = insert_pos (prio_of (nodes m)) ns (t_priority t); ns' = take k ns @ new # drop k ns
     in pool_ok ns' s' m' \<and> map (task_of m') ns' = map (task_of m) (take k ns) @ task # map (task_of m) (drop k ns))"
  using add_task_spec [OF assms refl, of junk] by (fastforce simp: Let_def run_scheduler_def)

text \<open>from a well-formed pool, removing a task other than the head's unlinks and frees its node and keeps the order of the
  others; removing the head's task leaves the pool's head on the freed node, so that the next scheduling without a current
  task and every later addition fault.\<close>

theorem time_loop_remove:
  assumes ok: "pool_ok ns s m" and j: "j < length ns" and two: "2 \<le> length ns"
  shows "\<exists>m'. remove_task_from_pool (task_of m (ns ! j)) s m = Some (run_scheduler s, m') \<and> nodes m' (ns ! j) = None \<and>
    (if j = 0 then time_loop (run_scheduler s\<lparr>current_task := 0\<rparr>) m' = None \<and>
         (\<forall>new junk task. new \<noteq> 0 \<longrightarrow> new \<noteq> ns ! 0 \<longrightarrow> add_task_to_task_pool new junk task (run_scheduler s) m' = None)
     else pool_ok (take j ns @ drop (Suc j) ns) (run_scheduler s) m' \<and>
       map (task_of m') (take j ns @ drop (Suc j) ns) = map (task_of m) (take j ns @ drop (Suc j) ns))"
proof (cases "j = 0")
  case False
  then show ?thesis using remove_task_spec [OF ok _ j] by auto
next
  case True
  have ne: "ns \<noteq> []" using j by auto
  have r: "ring (nodes m) ns" and hd: "s_head s = ns ! 0" using ok ne by (simp_all add: pool_ok_def hd_conv_nth)
  have h0: "0 < ns ! 0" using ring_mem [OF r nth_mem [of 0 ns]] ne by simp
  obtain m' where m': "remove_task_from_pool (task_of m (ns ! 0)) s m = Some (run_scheduler s, m')" "nodes m' (ns ! 0) = None"
    using unlink_step [OF ok j two] True by auto
  have "time_loop (run_scheduler s\<lparr>current_task := 0\<rparr>) m' = None"
    using m'(2) h0 hd by (simp add: time_loop_def run_scheduler_def)
  moreover have "add_task_to_task_pool new junk task (run_scheduler s) m' = None"
    if new: "new \<noteq> 0" "new \<noteq> ns ! 0" for new junk task
  proof -
    have "find_place ((nodes m')(new \<mapsto> v)) (ns ! 0) (ns ! 0) p = None" for v p
      using m'(2) h0 new by (subst find_place.simps) simp
    then show ?thesis using hd h0 new
      by (auto simp: add_task_to_task_pool_def run_scheduler_def block_scheduler_def upd_def Let_def bind_eq_None_conv split: if_splits)
  qed
  ultimately show ?thesis using m' True by auto
qed

text \<open>C32: on a core that schedules with the time-loop pool every task of the ring runs in turn: after any number of
  scheduling interrupts the running task is the one that many places further round, so each task runs within as many
  interrupts as there are tasks, and no switch ever faults.\<close>

theorem round_robin_fair:
  assumes "i < length (k_scheduler k)" "s_flag (k_scheduler k ! i) = SCHEDULER_RUN"
    "pool_ok ns (k_scheduler k ! i) (mem_of k)" "t_pop (k_scheduler k ! i) = Time_loop_op"
    "j < length ns" "current_task (k_scheduler k ! i) = task_of (mem_of k) (ns ! j)"
  shows "(\<forall>cs. \<exists>k'. run_switches k i cs = Some k' \<and>
      current_task (k_scheduler k' ! i) = task_of (mem_of k) (ns ! ((j + length cs) mod length ns))) \<and>
    (\<forall>n \<in> set ns. \<exists>d < length ns. \<forall>cs. length cs = d \<longrightarrow>
      map_option (\<lambda>k'. current_task (k_scheduler k' ! i)) (run_switches k i cs) = Some (task_of (mem_of k) n))"
proof
  show a: "\<forall>cs. \<exists>k'. run_switches k i cs = Some k' \<and>
      current_task (k_scheduler k' ! i) = task_of (mem_of k) (ns ! ((j + length cs) mod length ns))"
    using round_robin_iter [OF assms] by blast
  show "\<forall>n \<in> set ns. \<exists>d < length ns. \<forall>cs. length cs = d \<longrightarrow>
      map_option (\<lambda>k'. current_task (k_scheduler k' ! i)) (run_switches k i cs) = Some (task_of (mem_of k) n)"
  proof
    fix n assume "n \<in> set ns"
    then obtain e where e: "e < length ns" "ns ! e = n" by (auto simp: in_set_conv_nth)
    define d where "d = (e + (length ns - j)) mod length ns"
    have "(j + d) mod length ns = (j + (e + (length ns - j))) mod length ns" by (simp add: d_def mod_add_right_eq)
    also have "j + (e + (length ns - j)) = e + length ns" using assms(5) by simp
    finally have "(j + d) mod length ns = e" using e by simp
    moreover have "d < length ns" using e unfolding d_def by (intro mod_less_divisor) linarith
    ultimately show "\<exists>d < length ns. \<forall>cs. length cs = d \<longrightarrow>
      map_option (\<lambda>k'. current_task (k_scheduler k' ! i)) (run_switches k i cs) = Some (task_of (mem_of k) n)"
      using a e by (intro exI [of _ d]) (metis option.simps(9))
  qed
qed

text \<open>C31: a scheduling interrupt, with either pool, saves the interrupted task's stack pointer in that task alone and returns
  the stack pointer saved for the task it makes current, which is one of the pool's; the pool stays well formed.\<close>

theorem context_switch_safe:
  assumes "i < length (k_scheduler k)" "s_flag (k_scheduler k ! i) = SCHEDULER_RUN"
    "ok_loop ts (k_scheduler k ! i) (mem_of k) \<or> ok_prio ts (k_scheduler k ! i) (mem_of k)"
    "current_task (k_scheduler k ! i) \<in> insert 0 (set ts)"
  shows "\<exists>c k'. Scheduler_Task k i ctx = Some (c, k') \<and> current_task (k_scheduler k' ! i) \<in> set ts \<and>
    map_option psp (tasks (mem_of k') (current_task (k_scheduler k' ! i))) = Some c \<and>
    (\<forall>x. map_option psp (tasks (mem_of k') x) =
       (if x = current_task (k_scheduler k ! i) \<and> x \<noteq> 0 then Some ctx else map_option psp (tasks (mem_of k) x))) \<and>
    (ok_loop ts (k_scheduler k' ! i) (mem_of k') \<or> ok_prio ts (k_scheduler k' ! i) (mem_of k'))"
  using assms(3)
proof
  assume "ok_loop ts (k_scheduler k ! i) (mem_of k)"
  from time_loop_pool.switch_step [OF assms(1,2) this assms(4), of ctx] show ?thesis by blast
next
  assume "ok_prio ts (k_scheduler k ! i) (mem_of k)"
  from preemptive_pool.switch_step [OF assms(1,2) this assms(4), of ctx] show ?thesis by blast
qed

text \<open>the priority pool runs the first task of its list that is ready or whose delay is over, waking it, and the last task of
  the list when there is none.\<close>

theorem preemptive_picks_first:
  assumes "ok_prio xs s m" "current_task s \<in> insert 0 (set xs)"
  shows "\<exists>t s' m'. Preemptive_scheduling s m = Some (t, s', m') \<and> ok_prio xs s' m' \<and>
    (let R = runnable (tasks m) (scheduler_timer s + 1) in
       if \<exists>x \<in> set xs. R x then (\<exists>ys zs. xs = ys @ t # zs \<and> R t \<and> (\<forall>y \<in> set ys. \<not> R y)) else t = last xs)"
proof -
  let ?R = "runnable (tasks m) (scheduler_timer s + 1)" and ?t = "pick (tasks m) (scheduler_timer s + 1) xs"
  have "if \<exists>x \<in> set xs. ?R x then (\<exists>ys zs. xs = ys @ ?t # zs \<and> ?R ?t \<and> (\<forall>y \<in> set ys. \<not> ?R y)) else ?t = last xs"
  proof (cases "\<exists>x \<in> set xs. ?R x")
    case True
    then obtain ys x zs where x: "xs = ys @ x # zs" "?R x" "\<forall>y \<in> set ys. \<not> ?R y" using split_list_first_prop [of xs ?R] by blast
    have "find ?R (ys @ x # zs) = Some x" using x(2,3) by (induction ys) auto
    then have "?t = x" using x(1) by (simp add: pick_def)
    then show ?thesis using x True by auto
  next
    case False
    then have "find ?R xs = None" by (simp add: find_None_iff)
    then show ?thesis using False by (simp add: pick_def)
  qed
  moreover obtain s' m' where "Preemptive_scheduling s m = Some (?t, s', m')" "ok_prio xs s' m'"
    using preemptive_step [OF assms] by blast
  ultimately show ?thesis by (intro exI [of _ ?t] exI [of _ s'] exI [of _ m']) (simp add: Let_def)
qed

text \<open>adding a second task to the priority pool never succeeds: whatever its priority, the code stores through the NULL
  predecessor of the head or reads the priority of NULL.\<close>

theorem preemptive_second_task_faults:
  assumes l: "tlist (tasks m) 0 (s_head s) [x]" and n: "new \<noteq> x"
  shows "add_task_to_task_pool_p new s m = None"
proof (cases "task_reset new m")
  case None
  then show ?thesis by (simp add: add_task_to_task_pool_p_def)
next
  case (Some m1)
  then obtain v where v: "0 < new" "tasks m new = Some v" "m1 = m\<lparr>tasks := (tasks m)(new \<mapsto> v\<lparr>t_priv := 0, t_next := 0\<rparr>)\<rparr>"
    by (auto simp: task_reset_def upd_Some bind_eq_Some_conv)
  obtain t where t: "s_head s = x" "0 < x" "tasks m x = Some t" "t_priv t = 0" "t_next t = 0" using l by auto
  have "add_a_task_node new x m1 = None" using v t n by (simp add: add_a_task_node_def)
  moreover have "by_priority_loop (tasks m1) p x = (if t_priority t \<le> p then Some x else None)" for p
  proof -
    have "by_priority_loop (tasks m1) p 0 = None" by (subst by_priority_loop.simps) simp
    then show ?thesis using v t n by (subst by_priority_loop.simps) simp
  qed
  ultimately show ?thesis using Some v t n by (simp add: add_task_to_task_pool_p_def get_task_by_priority_def)
qed




lemma unat_and_not: "unat (w AND NOT 127) = unat w - unat (w :: u32) mod 128" "unat (w AND NOT 7) = unat w - unat w mod 8"
  using unat_and_not_mask [of w 7] unat_and_not_mask [of w 3] by (simp_all add: mask_eq_exp_minus_1)

text \<open>the frame \<open>init_task_context\<close> writes - sixteen words at the stack pointer a new task starts with - lies inside the
  block allocated for the task and above its control block, when at least 64 bytes of stack were asked for.\<close>

theorem initial_frame_in_stack:
  assumes b: "base mod 8 = 0" and s: "64 \<le> n" "n + sz_task + 191 < 2 ^ 31" and e: "base + n + sz_task + 191 < 2 ^ 32"
    and k: "new_task_create sz_task base junk entry (of_nat n) argv priority (Some name) offset k = (Inr task, k')"
  shows "\<exists>t. task = base \<and> tasks (mem_of k') task = Some t \<and> base + sz_task \<le> unat (psp t) \<and>
    unat (psp t) + 64 \<le> base + unat (stack_bytes sz_task (of_nat n)) \<and> t_state t = TASK_READY \<and> length (task_name t) < 64"
proof -
  let ?N = "n + sz_task + 191"
  have w: "of_nat n + 64 + of_nat sz_task + 127 = (of_nat ?N :: 32 word)" by simp
  have un: "unat (of_nat ?N :: 32 word) = ?N" using s by (intro unat_of_nat_small) simp
  define S where "S = unat (stack_bytes sz_task (of_nat n))"
  have S: "S = ?N - ?N mod 128"
    unfolding S_def stack_bytes_def w unat_and_not un by (rule refl)
  have T: "init_psp (base + S) = base + S - 128"
  proof -
    have lt: "base + S < 2 ^ 32" using S e by linarith
    have "unat (word_of_nat (base + S) :: u32) = base + S" using lt by (intro unat_of_nat_small) simp
    moreover have "8 dvd S" unfolding S minus_mod_eq_div_mult by (rule dvd_mult) simp
    then have "(base + S) mod 8 = 0" using b by (simp add: mod_eq_0_iff_dvd)
    ultimately show ?thesis unfolding init_psp_def unat_and_not by simp
  qed
  obtain t where t: "task = base" "tasks (mem_of k') base = Some t" "psp t = of_nat (init_psp (base + S))"
      "t_state t = TASK_READY" "task_name t = new_name name"
    using k by (auto simp: new_task_create_def Let_def S_def split: if_splits)
  have lo: "sz_task + 128 \<le> S" using s(1) S mod_less_divisor [of 128 ?N] by linarith
  have "base + S - 128 < 2 ^ 32" using S e by linarith
  then have "unat (psp t) = base + S - 128" unfolding t(3) T by (intro unat_of_nat_small) simp
  moreover have "length (new_name name) < 64" by (simp add: new_name_def)
  ultimately show ?thesis using t lo by (simp flip: S_def)
qed

section \<open>Witnesses\<close>

definition demo_task :: "nat \<Rightarrow> task_state \<Rightarrow> task_struct" where
  "demo_task node state = \<lparr>t_magic = task_struct_magic, t_id = 1, t_pid = 7, task_name = [], psp = 0, stack_ptr = 0, stack_Top = 0,
     t_entry = 1, t_arg = 0, t_state = state, t_priority = 5, t_node = node, last_scheduler_time = 0, block_time = 0,
     t_priv = 0, t_next = 0, children = [], use_count = 1, t_parent = 0, t_offset = 0\<rparr>"

definition demo_sched :: "task_pool_operations \<Rightarrow> nat \<Rightarrow> scheduler" where
  "demo_sched op head = \<lparr>scheduler_timer = 0, s_magic = scheduler_scheduler, s_head = head, s_core = 0, t_pop = op,
     s_flag = SCHEDULER_RUN, current_task = 10\<rparr>"

text \<open>Two tasks, 10 and 20, in the ring of the nodes 100 and 200; and two tasks in the list of the priority pool.\<close>

definition loop_mem :: tmem where
  "loop_mem = \<lparr>tasks = [10 \<mapsto> demo_task 100 TASK_READY, 20 \<mapsto> demo_task 200 TASK_READY, 30 \<mapsto> demo_task 0 TASK_READY],
     nodes = [100 \<mapsto> \<lparr>tn_next = 200, tn_priv = 200, tn_task = 10, tn_priority = 5\<rparr>,
              200 \<mapsto> \<lparr>tn_next = 100, tn_priv = 100, tn_task = 20, tn_priority = 5\<rparr>]\<rparr>"

definition prio_mem :: tmem where
  "prio_mem = \<lparr>tasks = [10 \<mapsto> (demo_task 0 TASK_BLOCKED)\<lparr>t_next := 20\<rparr>, 20 \<mapsto> (demo_task 0 TASK_READY)\<lparr>t_priv := 10\<rparr>],
     nodes = Map.empty\<rparr>"

definition demo_kernel :: "tmem \<Rightarrow> scheduler \<Rightarrow> kernel" where
  "demo_kernel m s = \<lparr>mem_of = m, k_scheduler = [s], Scheduler_Lock = SCHEDULER_RUN, Scheduler_Lock1 = 1, id_count = 1,
     task_pool_list = [], Task_List = [20, 10], Death_task_List = []\<rparr>"

lemma demo_pool_ok: "pool_ok [100, 200] (demo_sched Time_loop_op 100) loop_mem"
  by (simp add: pool_ok_def demo_sched_def loop_mem_def ring_def nxt_def prv_def demo_task_def)

lemma demo_task_of: "task_of loop_mem 100 = 10" "task_of loop_mem 200 = 20"
  by (simp_all add: task_of_def loop_mem_def)

lemma demo_ok_prio: "ok_prio [10, 20] (demo_sched Preemptive_op 10) prio_mem"
  by (simp add: ok_prio_def demo_sched_def prio_mem_def demo_task_def dead_def)

theorem time_loop_add_witness:
  "\<exists>s' m'. add_task_to_task_pool 300 \<lparr>tn_next = 0, tn_priv = 0, tn_task = 0, tn_priority = 0\<rparr> 30 (demo_sched Time_loop_op 100) loop_mem = Some (0, s', m')"
proof -
  have "(30::nat) \<notin> task_of loop_mem ` set [100, 200]" by (simp add: demo_task_of)
  moreover have "nodes loop_mem 300 = None" "tasks loop_mem 30 = Some (demo_task 0 TASK_READY)" by (simp_all add: loop_mem_def)
  ultimately show ?thesis
    using time_loop_add [OF demo_pool_ok, of 300 30 "demo_task 0 TASK_READY" "\<lparr>tn_next = 0, tn_priv = 0, tn_task = 0, tn_priority = 0\<rparr>"]
    by auto
qed

theorem time_loop_remove_witness:
  "\<exists>m'. remove_task_from_pool 20 (demo_sched Time_loop_op 100) loop_mem = Some (run_scheduler (demo_sched Time_loop_op 100), m') \<and>
     pool_ok [100] (run_scheduler (demo_sched Time_loop_op 100)) m'"
  using time_loop_remove [OF demo_pool_ok, of 1] by (auto simp: demo_task_of)

theorem round_robin_fair_witness:
  "\<exists>k'. run_switches (demo_kernel loop_mem (demo_sched Time_loop_op 100)) 0 [1, 2, 3] = Some k' \<and> current_task (k_scheduler k' ! 0) = 20"
proof -
  let ?k = "demo_kernel loop_mem (demo_sched Time_loop_op 100)"
  have s: "k_scheduler ?k ! 0 = demo_sched Time_loop_op 100" "mem_of ?k = loop_mem" "0 < length (k_scheduler ?k)"
    by (simp_all add: demo_kernel_def)
  have "pool_ok [100, 200] (k_scheduler ?k ! 0) (mem_of ?k)" unfolding s by (rule demo_pool_ok)
  moreover have "s_flag (k_scheduler ?k ! 0) = SCHEDULER_RUN" "t_pop (k_scheduler ?k ! 0) = Time_loop_op"
    "current_task (k_scheduler ?k ! 0) = task_of (mem_of ?k) ([100, 200] ! 0)"
    unfolding s by (simp_all add: demo_sched_def demo_task_of)
  ultimately obtain k' where k': "run_switches ?k 0 [1, 2, 3] = Some k'"
    "current_task (k_scheduler k' ! 0) = task_of (mem_of ?k) ([100, 200] ! ((0 + length [1, 2, 3 :: u32]) mod length [100, 200 :: nat]))"
    using round_robin_fair [OF s(3), of "[100, 200]" 0] by fastforce
  have "(0 + length [1, 2, 3 :: u32]) mod length [100, 200 :: nat] = 1" by (simp add: mod_Suc)
  then have "current_task (k_scheduler k' ! 0) = 20" using k'(2) s(2) demo_task_of by simp
  then show ?thesis using k'(1) by blast
qed

theorem context_switch_safe_witness:
  "\<exists>c k'. Scheduler_Task (demo_kernel prio_mem (demo_sched Preemptive_op 10)) 0 77 = Some (c, k') \<and>
     map_option psp (tasks (mem_of k') 10) = Some 77"
proof -
  let ?k = "demo_kernel prio_mem (demo_sched Preemptive_op 10)"
  have a: "0 < length (k_scheduler ?k)" "s_flag (k_scheduler ?k ! 0) = SCHEDULER_RUN" "current_task (k_scheduler ?k ! 0) = 10"
    by (simp_all add: demo_kernel_def demo_sched_def)
  have b: "ok_prio [10, 20] (k_scheduler ?k ! 0) (mem_of ?k)" using demo_ok_prio by (simp add: demo_kernel_def)
  have "current_task (k_scheduler ?k ! 0) \<in> insert 0 (set [10, 20])" using a by simp
  from context_switch_safe [OF a(1,2) disjI2 [OF b] this, of 77] obtain c k' where
    k': "Scheduler_Task ?k 0 77 = Some (c, k')"
      "\<forall>x. map_option psp (tasks (mem_of k') x) =
         (if x = current_task (k_scheduler ?k ! 0) \<and> x \<noteq> 0 then Some 77 else map_option psp (tasks (mem_of ?k) x))" by blast
  have "map_option psp (tasks (mem_of k') 10) = Some 77" using k'(2) [rule_format, of 10] unfolding a(3) by simp
  then show ?thesis using k'(1) by blast
qed

theorem preemptive_picks_first_witness:
  "\<exists>s' m'. Preemptive_scheduling (demo_sched Preemptive_op 10) prio_mem = Some (20, s', m')"
proof -
  have "current_task (demo_sched Preemptive_op 10) \<in> insert 0 (set [10, 20])" by (simp add: demo_sched_def)
  from preemptive_picks_first [OF demo_ok_prio this] obtain t s' m' where
    r: "Preemptive_scheduling (demo_sched Preemptive_op 10) prio_mem = Some (t, s', m')"
    "let R = runnable (tasks prio_mem) (scheduler_timer (demo_sched Preemptive_op 10) + 1) in
       if \<exists>x \<in> set [10, 20]. R x then (\<exists>ys zs. [10, 20] = ys @ t # zs \<and> R t \<and> (\<forall>y \<in> set ys. \<not> R y)) else t = last [10, 20]" by blast
  have "runnable (tasks prio_mem) (scheduler_timer (demo_sched Preemptive_op 10) + 1) 20"
    "\<not> runnable (tasks prio_mem) (scheduler_timer (demo_sched Preemptive_op 10) + 1) 10"
    by (simp_all add: runnable_def prio_mem_def demo_task_def)
  then have "t = 20" using r(2) by (auto simp: Let_def Cons_eq_append_conv)
  then show ?thesis using r(1) by blast
qed

theorem preemptive_second_task_faults_witness:
  "add_task_to_task_pool_p 30 (demo_sched Preemptive_op 10) loop_mem = None"
  by (rule preemptive_second_task_faults [of _ _ 10]) (simp_all add: loop_mem_def demo_sched_def demo_task_def)

definition wait_mem :: tmem where
  "wait_mem = \<lparr>tasks = [10 \<mapsto> (demo_task 0 TASK_READY)\<lparr>children := [20]\<rparr>, 20 \<mapsto> demo_task 0 TASK_DEAD], nodes = Map.empty\<rparr>"




theorem initial_frame_in_stack_witness:
  "\<exists>t k'. new_task_create 248 4096 (demo_task 0 TASK_CREATE) 1 512 0 10 (Some [65]) 0 (demo_kernel wait_mem (demo_sched Time_loop_op 0)) = (Inr 4096, k') \<and>
     tasks (mem_of k') 4096 = Some t \<and> 4096 + 248 \<le> unat (psp t)"
proof -
  let ?c = "new_task_create 248 4096 (demo_task 0 TASK_CREATE) 1 (of_nat 512) 0 10 (Some [65]) 0 (demo_kernel wait_mem (demo_sched Time_loop_op 0))"
  have "fst ?c = Inr 4096" by (simp add: new_task_create_def Let_def)
  then have c: "?c = (Inr 4096, snd ?c)" by (metis prod.collapse)
  obtain t where "tasks (mem_of (snd ?c)) 4096 = Some t" "4096 + 248 \<le> unat (psp t)"
    using initial_frame_in_stack [OF _ _ _ _ c] by auto
  then show ?thesis using c by (intro exI [of _ t] exI [of _ "snd ?c"]) simp
qed

end
