(* ===== verification/Pipe.thy ===== *)
theory Pipe
  imports Prelude
begin

text \<open>
  The ring buffer of a pipe and the two ends that use it (\<^verbatim>\<open>include/linux/pipe_fs_i.h\<close> and the file
  operations of \<^verbatim>\<open>fs/pipefs/pipefs.c\<close>). \<open>bounded_queue\<close> is the contract of a queue with a capacity;
  the ring implements it, and the writer and reader loops, interleaved in any order, rest on it.

  An access outside the storage of the buffer and a remainder by zero are faults (\<open>None\<close>).
\<close>

record pipe_buffer =
  pb_buffer :: "u8 list"
  pb_size :: nat
  pb_head :: nat
  pb_tail :: nat

definition next_index :: "nat \<Rightarrow> nat \<Rightarrow> nat option" where
  "next_index i n = (if n = 0 then None else Some (sz (i + 1) mod n))"

text \<open>The byte that was read is stored through \<open>data\<close> when there is one; the result is 0 or -1.\<close>

definition pipe_buffer_read :: "pipe_buffer \<Rightarrow> (int \<times> u8 option \<times> pipe_buffer) option" where
  "pipe_buffer_read buf =
     (if pb_head buf = pb_tail buf then Some (-1, None, buf)
      else if pb_tail buf \<ge> length (pb_buffer buf) then None
      else do {
        let x = pb_buffer buf ! pb_tail buf;
        t \<leftarrow> next_index (pb_tail buf) (pb_size buf);
        Some (0, Some x, buf\<lparr>pb_tail := t\<rparr>) })"

definition pipe_buffer_write :: "pipe_buffer \<Rightarrow> u8 \<Rightarrow> (int \<times> pipe_buffer) option" where
  "pipe_buffer_write buf data = do {
     n \<leftarrow> next_index (pb_head buf) (pb_size buf);
     if n = pb_tail buf then Some (-1, buf)
     else if pb_head buf \<ge> length (pb_buffer buf) then None
     else Some (0, buf\<lparr>pb_buffer := (pb_buffer buf)[pb_head buf := data], pb_head := n\<rparr>) }"

text \<open>
  \<open>pipefs_write\<close> and \<open>pipefs_read\<close> move one byte at a time and sleep while the buffer is full or empty:
  the pair is a transition system over the bytes still to be written, the buffer, the bytes read and the
  number still to be read. The order of the two ends is free.
\<close>

type_synonym pipe_state = "u8 list \<times> pipe_buffer \<times> u8 list \<times> nat"

inductive pipe_step :: "pipe_state \<Rightarrow> pipe_state \<Rightarrow> bool" where
  put_byte: "pipe_buffer_write b x = Some (0, b') \<Longrightarrow> pipe_step (x # ws, b, got, n) (ws, b', got, n)"
| put_wait: "pipe_buffer_write b x = Some (-1, b') \<Longrightarrow> pipe_step (x # ws, b, got, n) (x # ws, b', got, n)"
| get_byte: "pipe_buffer_read b = Some (0, Some x, b') \<Longrightarrow> pipe_step (ws, b, got, Suc n) (ws, b', got @ [x], n)"
| get_wait: "pipe_buffer_read b = Some (-1, y, b') \<Longrightarrow> pipe_step (ws, b, got, Suc n) (ws, b', got, Suc n)"

inductive_cases pipe_stepE: "pipe_step s t"

section \<open>The contract of a bounded queue\<close>

locale bounded_queue =
  fixes ok :: "'q \<Rightarrow> bool" and content :: "'q \<Rightarrow> 'a list" and cap :: "'q \<Rightarrow> nat"
    and put :: "'q \<Rightarrow> 'a \<Rightarrow> 'q option" and get :: "'q \<Rightarrow> ('a \<times> 'q) option"
  assumes put_full: "ok q \<Longrightarrow> put q x = None \<longleftrightarrow> length (content q) = cap q"
    and put_some: "ok q \<Longrightarrow> put q x = Some q' \<Longrightarrow> ok q' \<and> content q' = content q @ [x] \<and> cap q' = cap q"
    and get_empty: "ok q \<Longrightarrow> get q = None \<longleftrightarrow> content q = []"
    and get_some: "ok q \<Longrightarrow> get q = Some (x, q') \<Longrightarrow> ok q' \<and> content q = x # content q' \<and> cap q' = cap q"
begin

text \<open>Bytes put in come out in the order of their entry.\<close>

fun put_all :: "'q \<Rightarrow> 'a list \<Rightarrow> 'q option" where
  "put_all q [] = Some q"
| "put_all q (x # xs) = (case put q x of None \<Rightarrow> None | Some q' \<Rightarrow> put_all q' xs)"

fun get_n :: "'q \<Rightarrow> nat \<Rightarrow> ('a list \<times> 'q) option" where
  "get_n q 0 = Some ([], q)"
| "get_n q (Suc n) = (case get q of None \<Rightarrow> None | Some (x, q') \<Rightarrow>
     (case get_n q' n of None \<Rightarrow> None | Some (xs, q'') \<Rightarrow> Some (x # xs, q'')))"

lemma put_all_content:
  "ok q \<Longrightarrow> length (content q) + length xs \<le> cap q \<Longrightarrow>
     \<exists>q'. put_all q xs = Some q' \<and> ok q' \<and> content q' = content q @ xs \<and> cap q' = cap q"
proof (induction xs arbitrary: q)
  case (Cons x xs)
  then have "put q x \<noteq> None" using put_full by simp
  then obtain q1 where q1: "put q x = Some q1" by blast
  have o: "ok q1" "content q1 = content q @ [x]" "cap q1 = cap q" using put_some [OF Cons.prems(1) q1] by simp_all
  have "length (content q1) + length xs \<le> cap q1" using Cons.prems(2) o by simp
  with Cons.IH [OF o(1)] q1 o show ?case by auto
qed simp

lemma get_n_content:
  "ok q \<Longrightarrow> n \<le> length (content q) \<Longrightarrow>
     \<exists>q'. get_n q n = Some (take n (content q), q') \<and> ok q' \<and> content q' = drop n (content q) \<and> cap q' = cap q"
proof (induction n arbitrary: q)
  case (Suc n)
  then have "get q \<noteq> None" using get_empty by auto
  then obtain x q1 where q1: "get q = Some (x, q1)" by auto
  have o: "ok q1" "content q = x # content q1" "cap q1 = cap q" using get_some [OF Suc.prems(1) q1] by simp_all
  have "n \<le> length (content q1)" using Suc.prems(2) o by simp
  with Suc.IH [OF o(1)] q1 o show ?case by auto
qed simp

lemma fifo:
  assumes "ok q" "content q = []" "length xs \<le> cap q"
  shows "\<exists>q1 q2. put_all q xs = Some q1 \<and> get_n q1 (length xs) = Some (xs, q2) \<and> ok q2 \<and> content q2 = []"
proof -
  obtain q1 where q1: "put_all q xs = Some q1" "ok q1" "content q1 = xs"
    using put_all_content [OF assms(1), of xs] assms(2,3) by auto
  then show ?thesis using get_n_content [OF q1(2), of "length xs"] by auto
qed

end

section \<open>The ring implements the queue\<close>

definition pipe_ok :: "pipe_buffer \<Rightarrow> bool" where
  "pipe_ok b \<longleftrightarrow> 0 < pb_size b \<and> pb_size b \<le> length (pb_buffer b) \<and> pb_size b < 4294967296 \<and>
     pb_head b < pb_size b \<and> pb_tail b < pb_size b"

definition pipe_len :: "pipe_buffer \<Rightarrow> nat" where
  "pipe_len b = (pb_head b + pb_size b - pb_tail b) mod pb_size b"

definition pipe_content :: "pipe_buffer \<Rightarrow> u8 list" where
  "pipe_content b = map (\<lambda>i. pb_buffer b ! ((pb_tail b + i) mod pb_size b)) [0 ..< pipe_len b]"

definition pipe_put :: "pipe_buffer \<Rightarrow> u8 \<Rightarrow> pipe_buffer option" where
  "pipe_put b x = (case pipe_buffer_write b x of Some (r, b') \<Rightarrow> if r = 0 then Some b' else None | None \<Rightarrow> None)"

definition pipe_get :: "pipe_buffer \<Rightarrow> (u8 \<times> pipe_buffer) option" where
  "pipe_get b = (case pipe_buffer_read b of Some (r, Some x, b') \<Rightarrow> Some (x, b') | _ \<Rightarrow> None)"

lemma mod_shift: "a < (n::nat) \<Longrightarrow> b < n \<Longrightarrow> (a + n - b) mod n = (if b \<le> a then a - b else a + n - b)"
  by (auto simp: mod_if)

lemma mod_Suc_less: "a < (n::nat) \<Longrightarrow> Suc a mod n = (if Suc a = n then 0 else Suc a)"
  by auto

lemma pipe_len_less: "pipe_ok b \<Longrightarrow> pipe_len b < pb_size b"
  by (simp add: pipe_ok_def pipe_len_def)

lemma pipe_len_tail: "pipe_ok b \<Longrightarrow> (pb_tail b + pipe_len b) mod pb_size b = pb_head b"
  by (auto simp: pipe_ok_def pipe_len_def mod_shift)

lemma length_content [simp]: "length (pipe_content b) = pipe_len b"
  by (simp add: pipe_content_def)

lemma next_index_ok: "i < n \<Longrightarrow> n < 4294967296 \<Longrightarrow> next_index i n = Some (if Suc i = n then 0 else Suc i)"
  by (auto simp: next_index_def)

lemma pipe_write_spec:
  assumes ok: "pipe_ok b"
  shows "pipe_len b = pb_size b - 1 \<Longrightarrow> pipe_buffer_write b x = Some (-1, b)"
    and "pipe_len b < pb_size b - 1 \<Longrightarrow> \<exists>b'. pipe_buffer_write b x = Some (0, b') \<and> pipe_ok b' \<and>
      pipe_content b' = pipe_content b @ [x] \<and> pb_size b' = pb_size b"
proof -
  let ?n = "pb_size b" and ?h = "pb_head b" and ?t = "pb_tail b"
  have o: "?h < ?n" "?t < ?n" "?n \<le> length (pb_buffer b)" "?n < 4294967296" "0 < ?n" using ok by (simp_all add: pipe_ok_def)
  let ?h' = "if Suc ?h = ?n then 0 else Suc ?h"
  have ni: "next_index ?h ?n = Some ?h'" using o by (intro next_index_ok)
  have full: "?h' = ?t \<longleftrightarrow> pipe_len b = ?n - 1"
    using o by (auto simp: pipe_len_def mod_shift split: if_splits)
  show "pipe_len b = ?n - 1 \<Longrightarrow> pipe_buffer_write b x = Some (-1, b)"
    using ni full by (simp add: pipe_buffer_write_def)
  assume l: "pipe_len b < ?n - 1"
  let ?b' = "b\<lparr>pb_buffer := (pb_buffer b)[?h := x], pb_head := ?h'\<rparr>"
  have nf: "?h' \<noteq> ?t" using full l by auto
  have w: "pipe_buffer_write b x = Some (0, ?b')" using ni nf o by (simp add: pipe_buffer_write_def)
  have ok': "pipe_ok ?b'" using o by (simp add: pipe_ok_def)
  have len: "pipe_len ?b' = Suc (pipe_len b)" using o nf by (auto simp: pipe_len_def mod_shift split: if_splits)
  have at: "(?t + pipe_len b) mod ?n = ?h" by (rule pipe_len_tail [OF ok])
  have other: "(?t + i) mod ?n \<noteq> ?h" if "i < pipe_len b" for i
  proof
    assume e: "(?t + i) mod ?n = ?h"
    then have "(?t + i) mod ?n = (?t + pipe_len b) mod ?n" using at by simp
    moreover have "pipe_len b < ?n" by (rule pipe_len_less [OF ok])
    ultimately show False using that o(2) by (auto simp: mod_if split: if_splits)
  qed
  have "pipe_content ?b' = pipe_content b @ [x]"
  proof (rule nth_equalityI)
    show "length (pipe_content ?b') = length (pipe_content b @ [x])" by (simp add: len)
    fix i assume i: "i < length (pipe_content ?b')"
    then have i': "i \<le> pipe_len b" by (simp add: len)
    have c: "pipe_content ?b' ! i = (pb_buffer b)[?h := x] ! ((?t + i) mod ?n)"
      using i by (simp add: pipe_content_def)
    show "pipe_content ?b' ! i = (pipe_content b @ [x]) ! i"
    proof (cases "i = pipe_len b")
      case True
      then show ?thesis using c at o by (simp add: nth_append)
    next
      case False
      then have "i < pipe_len b" using i' by simp
      then show ?thesis using c other [of i] by (simp add: nth_append pipe_content_def)
    qed
  qed
  then show "\<exists>b'. pipe_buffer_write b x = Some (0, b') \<and> pipe_ok b' \<and>
      pipe_content b' = pipe_content b @ [x] \<and> pb_size b' = pb_size b" using w ok' by simp
qed

lemma pipe_read_spec:
  assumes ok: "pipe_ok b"
  shows "pipe_len b = 0 \<Longrightarrow> pipe_buffer_read b = Some (-1, None, b)"
    and "0 < pipe_len b \<Longrightarrow> \<exists>x b'. pipe_buffer_read b = Some (0, Some x, b') \<and> pipe_ok b' \<and>
      pipe_content b = x # pipe_content b' \<and> pb_size b' = pb_size b"
proof -
  let ?n = "pb_size b" and ?h = "pb_head b" and ?t = "pb_tail b"
  have o: "?h < ?n" "?t < ?n" "?n \<le> length (pb_buffer b)" "?n < 4294967296" "0 < ?n" using ok by (simp_all add: pipe_ok_def)
  have e: "?h = ?t \<longleftrightarrow> pipe_len b = 0" using o by (auto simp: pipe_len_def mod_shift split: if_splits)
  show "pipe_len b = 0 \<Longrightarrow> pipe_buffer_read b = Some (-1, None, b)" using e by (simp add: pipe_buffer_read_def)
  assume l: "0 < pipe_len b"
  let ?t' = "if Suc ?t = ?n then 0 else Suc ?t"
  let ?b' = "b\<lparr>pb_tail := ?t'\<rparr>"
  have ni: "next_index ?t ?n = Some ?t'" using o by (intro next_index_ok)
  have r: "pipe_buffer_read b = Some (0, Some (pb_buffer b ! ?t), ?b')"
    using ni e l o by (simp add: pipe_buffer_read_def Let_def)
  have ok': "pipe_ok ?b'" using o by (simp add: pipe_ok_def)
  have len: "pipe_len b = Suc (pipe_len ?b')" using o e l by (auto simp: pipe_len_def mod_shift split: if_splits)
  have step: "(?t' + i) mod ?n = (?t + Suc i) mod ?n" for i
    using o(2) by (simp add: mod_Suc_less [symmetric] mod_add_left_eq)
  have "pipe_content b = pb_buffer b ! ?t # pipe_content ?b'"
  proof -
    have "[0 ..< pipe_len b] = 0 # map Suc [0 ..< pipe_len ?b']" unfolding len map_Suc_upt by (rule upt_conv_Cons) simp
    then show ?thesis using o(2) step by (simp add: pipe_content_def del: upt_Suc)
  qed
  then show "\<exists>x b'. pipe_buffer_read b = Some (0, Some x, b') \<and> pipe_ok b' \<and>
      pipe_content b = x # pipe_content b' \<and> pb_size b' = pb_size b" using r ok' by auto
qed

interpretation pipe_queue: bounded_queue pipe_ok pipe_content "\<lambda>b. pb_size b - 1" pipe_put pipe_get
proof
  fix q x assume ok: "pipe_ok q"
  have "pipe_len q < pb_size q" by (rule pipe_len_less [OF ok])
  then consider "pipe_len q = pb_size q - 1" | "pipe_len q < pb_size q - 1" by linarith
  then show "pipe_put q x = None \<longleftrightarrow> length (pipe_content q) = pb_size q - 1"
    using pipe_write_spec [OF ok, of x] by cases (auto simp: pipe_put_def)
next
  fix q x q' assume ok: "pipe_ok q" and p: "pipe_put q x = Some q'"
  have "pipe_len q < pb_size q" by (rule pipe_len_less [OF ok])
  then consider "pipe_len q = pb_size q - 1" | "pipe_len q < pb_size q - 1" by linarith
  then show "pipe_ok q' \<and> pipe_content q' = pipe_content q @ [x] \<and> pb_size q' - 1 = pb_size q - 1"
    using pipe_write_spec [OF ok, of x] p by cases (auto simp: pipe_put_def)
next
  fix q assume ok: "pipe_ok q"
  show "pipe_get q = None \<longleftrightarrow> pipe_content q = []"
  proof (cases "pipe_len q = 0")
    case True
    then show ?thesis using pipe_read_spec(1) [OF ok] by (simp add: pipe_get_def pipe_content_def)
  next
    case False
    then show ?thesis using pipe_read_spec(2) [OF ok] by (auto simp: pipe_get_def)
  qed
next
  fix q x q' assume ok: "pipe_ok q" and p: "pipe_get q = Some (x, q')"
  show "pipe_ok q' \<and> pipe_content q = x # pipe_content q' \<and> pb_size q' - 1 = pb_size q - 1"
    using pipe_read_spec [OF ok] p by (cases "pipe_len q = 0") (auto simp: pipe_get_def)
qed

section \<open>The two ends\<close>

text \<open>What a state has still to deliver, and the invariant of every interleaving.\<close>

definition pipe_inv :: "u8 list \<Rightarrow> pipe_state \<Rightarrow> bool" where
  "pipe_inv ws s = (case s of (todo, b, got, n) \<Rightarrow> pipe_ok b \<and> got @ pipe_content b @ todo = ws)"

lemma pipe_step_inv: "pipe_step s t \<Longrightarrow> pipe_inv ws s \<Longrightarrow> pipe_inv ws t \<and>
   pb_size (fst (snd t)) = pb_size (fst (snd s)) \<and>
   length (fst (snd (snd t))) + snd (snd (snd t)) = length (fst (snd (snd s))) + snd (snd (snd s))"
proof (induction rule: pipe_step.induct)
  case (put_byte b x b' todo got n)
  then have ok: "pipe_ok b" by (simp add: pipe_inv_def)
  have "pipe_len b < pb_size b" by (rule pipe_len_less [OF ok])
  then consider "pipe_len b = pb_size b - 1" | "pipe_len b < pb_size b - 1" by linarith
  then show ?case using pipe_write_spec [OF ok, of x] put_byte by cases (auto simp: pipe_inv_def)
next
  case (put_wait b x b' todo got n)
  then have ok: "pipe_ok b" by (simp add: pipe_inv_def)
  have "pipe_len b < pb_size b" by (rule pipe_len_less [OF ok])
  then consider "pipe_len b = pb_size b - 1" | "pipe_len b < pb_size b - 1" by linarith
  then show ?case using pipe_write_spec [OF ok, of x] put_wait by cases (auto simp: pipe_inv_def)
next
  case (get_byte b x b' todo got n)
  then have ok: "pipe_ok b" by (simp add: pipe_inv_def)
  show ?case using pipe_read_spec [OF ok] get_byte by (cases "pipe_len b = 0") (auto simp: pipe_inv_def)
next
  case (get_wait b y b' todo got n)
  then have ok: "pipe_ok b" by (simp add: pipe_inv_def)
  show ?case using pipe_read_spec [OF ok] get_wait by (cases "pipe_len b = 0") (auto simp: pipe_inv_def)
qed

lemma pipe_steps_inv: "pipe_step\<^sup>*\<^sup>* s t \<Longrightarrow> pipe_inv ws s \<Longrightarrow> pipe_inv ws t \<and>
   pb_size (fst (snd t)) = pb_size (fst (snd s)) \<and>
   length (fst (snd (snd t))) + snd (snd (snd t)) = length (fst (snd (snd s))) + snd (snd (snd s))"
proof (induction rule: rtranclp_induct)
  case (step t u)
  from step.IH [OF step.prems] pipe_step_inv [OF step.hyps(2)] show ?case by metis
qed simp

text \<open>A step that moves a byte; the steps of a waiting end change nothing.\<close>

definition pipe_move :: "pipe_state \<Rightarrow> pipe_state \<Rightarrow> bool" where
  "pipe_move s t \<longleftrightarrow> pipe_step s t \<and> t \<noteq> s"

lemma pipe_move_cases:
  assumes "pipe_ok b" "pipe_move (todo, b, got, k) t"
  shows "(\<exists>x todo' b'. todo = x # todo' \<and> t = (todo', b', got, k) \<and> pipe_len b < pb_size b - 1) \<or>
    (\<exists>x k' b'. k = Suc k' \<and> t = (todo, b', got @ [x], k') \<and> 0 < pipe_len b)"
proof -
  have st: "pipe_step (todo, b, got, k) t" "t \<noteq> (todo, b, got, k)" using assms(2) by (simp_all add: pipe_move_def)
  have l: "pipe_len b \<le> pb_size b - 1" using pipe_len_less [OF assms(1)] by linarith
  note w = pipe_write_spec [OF assms(1)] and r = pipe_read_spec [OF assms(1)]
  from st show ?thesis
  proof (cases rule: pipe_step.cases)
    case (put_byte x b')
    then show ?thesis using w(1) [of x] l by (cases "pipe_len b = pb_size b - 1") auto
  next
    case (put_wait x b')
    then show ?thesis using w [of x] l st(2) by (cases "pipe_len b = pb_size b - 1") auto
  next
    case (get_byte x b')
    then show ?thesis using r(1) by (cases "pipe_len b = 0") auto
  next
    case (get_wait y b')
    then show ?thesis using r st(2) by (cases "pipe_len b = 0") auto
  qed
qed

lemma pipe_can_move:
  assumes "pipe_ok b"
  shows "(\<exists>t. pipe_move (todo, b, got, k) t) \<longleftrightarrow> (todo \<noteq> [] \<and> pipe_len b < pb_size b - 1) \<or> (k \<noteq> 0 \<and> 0 < pipe_len b)"
proof
  show "(todo \<noteq> [] \<and> pipe_len b < pb_size b - 1) \<or> (k \<noteq> 0 \<and> 0 < pipe_len b)" if "\<exists>t. pipe_move (todo, b, got, k) t"
    using that pipe_move_cases [OF assms] by blast
  show "\<exists>t. pipe_move (todo, b, got, k) t" if r: "(todo \<noteq> [] \<and> pipe_len b < pb_size b - 1) \<or> (k \<noteq> 0 \<and> 0 < pipe_len b)"
    using r
  proof
    assume p: "todo \<noteq> [] \<and> pipe_len b < pb_size b - 1"
    then obtain x xs where x: "todo = x # xs" by (cases todo) auto
    obtain b' where "pipe_buffer_write b x = Some (0, b')" using pipe_write_spec(2) [OF assms] p by blast
    then show ?thesis using pipe_step.put_byte [of b x b' xs got k] x by (intro exI [of _ "(xs, b', got, k)"]) (simp add: pipe_move_def)
  next
    assume p: "k \<noteq> 0 \<and> 0 < pipe_len b"
    then obtain n where n: "k = Suc n" by (cases k) auto
    obtain x b' where "pipe_buffer_read b = Some (0, Some x, b')" using pipe_read_spec(2) [OF assms conjunct2 [OF p]] by blast
    then show ?thesis using pipe_step.get_byte [of b x b' todo got n] n by (intro exI [of _ "(todo, b', got @ [x], n)"]) (simp add: pipe_move_def)
  qed
qed

lemma pipe_move_counts: "pipe_inv ws s \<Longrightarrow> pipe_move s t \<Longrightarrow> Suc (length (fst t) + snd (snd (snd t))) = length (fst s) + snd (snd (snd s))"
  by (cases s) (auto simp: pipe_inv_def dest!: pipe_move_cases)

lemma pipe_moves_bounded: "(pipe_move ^^ i) s t \<Longrightarrow> pipe_inv ws s \<Longrightarrow> i + length (fst t) + snd (snd (snd t)) = length (fst s) + snd (snd (snd s))"
proof (induction i arbitrary: s)
  case (Suc i)
  obtain u where u: "pipe_move s u" "(pipe_move ^^ i) u t" using relpowp_Suc_E2 [OF Suc.prems(1)] by blast
  then have "pipe_inv ws u" using pipe_step_inv [of s u ws] Suc.prems(2) by (simp add: pipe_move_def)
  then show ?case using Suc.IH [OF u(2)] pipe_move_counts [OF Suc.prems(2) u(1)] by simp
qed simp

text \<open>Where all movement ends.\<close>

lemma pipe_stuck:
  assumes i: "pipe_inv ws (todo, b, got, k)" and s: "1 < pb_size b"
  shows "(\<nexists>t. pipe_move (todo, b, got, k) t) \<longleftrightarrow> got = take (length got + k) ws \<and> todo = drop (length got + k + (pb_size b - 1)) ws"
proof -
  have ok: "pipe_ok b" and eq: "ws = got @ pipe_content b @ todo" using i by (auto simp: pipe_inv_def)
  let ?c = "pb_size b - 1"
  have l: "pipe_len b \<le> ?c" "0 < ?c" using pipe_len_less [OF ok] s by linarith+
  have t: "got = take (length got + k) ws \<longleftrightarrow> k = 0 \<or> pipe_content b @ todo = []"
  proof -
    have "take (length got + k) (got @ xs) = got @ take k xs" for xs by simp
    then show ?thesis unfolding eq by (simp only: take_eq_Nil self_append_conv)
  qed
  have d: "todo = drop (length got + k + ?c) ws \<longleftrightarrow> todo = [] \<or> k + ?c = pipe_len b"
  proof -
    have e: "drop (length got + k + ?c) ws = drop (k + ?c - pipe_len b) todo" unfolding eq using l by (simp add: drop_append)
    have m: "todo = drop m todo \<longleftrightarrow> todo = [] \<or> m = 0" for m
    proof
      assume "todo = drop m todo"
      then have "length todo = length todo - m" by (metis length_drop)
      then show "todo = [] \<or> m = 0" by (cases todo) auto
    qed auto
    show ?thesis unfolding e m using l by auto
  qed
  have c: "pipe_content b @ todo = [] \<longleftrightarrow> pipe_len b = 0 \<and> todo = []" using length_content [of b] by (metis append_is_Nil_conv length_0_conv)
  show ?thesis unfolding pipe_can_move [OF ok] t d c using l by auto
qed

lemma pipe_ends:
  assumes "pipe_inv ws (todo, b, got, k)" "1 < pb_size b"
  shows "\<exists>b'. pipe_step\<^sup>*\<^sup>* (todo, b, got, k)
    (drop (length got + k + (pb_size b - 1)) ws, b', take (length got + k) ws, length got + k - length ws)"
  using assms
proof (induction "length todo + k" arbitrary: todo b got k rule: less_induct)
  case less
  show ?case
  proof (cases "\<exists>t. pipe_move (todo, b, got, k) t")
    case True
    then obtain todo1 b1 got1 k1 where m: "pipe_move (todo, b, got, k) (todo1, b1, got1, k1)" by auto
    then have st: "pipe_step (todo, b, got, k) (todo1, b1, got1, k1)" by (simp add: pipe_move_def)
    note inv = pipe_step_inv [OF st less.prems(1)]
    have "length todo1 + k1 < length todo + k" using pipe_move_counts [OF less.prems(1) m] by simp
    then obtain b' where "pipe_step\<^sup>*\<^sup>* (todo1, b1, got1, k1)
        (drop (length got1 + k1 + (pb_size b1 - 1)) ws, b', take (length got1 + k1) ws, length got1 + k1 - length ws)"
      using less.hyps inv less.prems(2) by fastforce
    then show ?thesis using st inv by (auto intro: converse_rtranclp_into_rtranclp)
  next
    case False
    then have e: "got = take (length got + k) ws" "todo = drop (length got + k + (pb_size b - 1)) ws" using pipe_stuck [OF less.prems] by simp_all
    have "k = length got + k - length ws" using arg_cong [OF e(1), of length] less.prems(1) by (auto simp: pipe_inv_def)
    then show ?thesis using e by (metis rtranclp.rtrancl_refl)
  qed
qed

text \<open>C35: the ring buffer is a first-in first-out queue of one byte less than its size: bytes written to an empty pipe, as many as
  fit, are read back in order; a write to a full pipe and a read from an empty one return -1 and change nothing.\<close>

theorem pipe_ring_fifo:
  assumes "pipe_ok b" "pipe_content b = []" "length xs \<le> pb_size b - 1"
  shows "\<exists>b1 b2. pipe_queue.put_all b xs = Some b1 \<and> pipe_queue.get_n b1 (length xs) = Some (xs, b2) \<and>
    pipe_buffer_read b2 = Some (-1, None, b2) \<and> (length xs = pb_size b - 1 \<longrightarrow> (\<forall>x. pipe_buffer_write b1 x = Some (-1, b1)))"
proof -
  obtain b1 where b1: "pipe_queue.put_all b xs = Some b1" "pipe_ok b1" "pipe_content b1 = xs" "pb_size b1 - 1 = pb_size b - 1"
    using pipe_queue.put_all_content [OF assms(1), of xs] assms(2,3) by auto
  obtain b2 where b2: "pipe_queue.get_n b1 (length xs) = Some (xs, b2)" "pipe_ok b2" "pipe_content b2 = []"
    using pipe_queue.get_n_content [OF b1(2), of "length xs"] b1(3) by auto
  have "pipe_len b2 = 0" using b2(3) length_content [of b2] by simp
  moreover have "pipe_len b1 = length xs" using b1(3) length_content [of b1] by simp
  ultimately show ?thesis using b1 b2 pipe_read_spec(1) [OF b2(2)] pipe_write_spec(1) [OF b1(2)] by auto
qed

text \<open>C34: Whatever the interleaving of a writer of \<open>ws\<close> and a reader of \<open>n\<close> bytes, the bytes read are a prefix of the bytes written, in order, and
  none is lost. There can be only as many more steps that move a byte as there are bytes to write and to read, and they stop exactly when the
  reader has the first \<open>n\<close> bytes of \<open>ws\<close> and the writer has written all but what would exceed the capacity besides these; this end can
  always be reached. So both ends finish when \<open>n\<close> bytes are no more than are written and the rest fits the pipe; otherwise the
  reader or the writer waits for ever.\<close>

theorem pipe_transfer:
  assumes "pipe_ok b" "pipe_content b = []" "1 < pb_size b"
    and "pipe_step\<^sup>*\<^sup>* (ws, b, [], n) (todo, b', got, k)"
  shows "got @ pipe_content b' @ todo = ws \<and> length got + k = n \<and>
    (\<forall>i t. (pipe_move ^^ i) (todo, b', got, k) t \<longrightarrow> i \<le> length todo + k) \<and>
    ((\<nexists>t. pipe_move (todo, b', got, k) t) \<longleftrightarrow> got = take n ws \<and> todo = drop (n + (pb_size b - 1)) ws) \<and>
    (\<exists>b''. pipe_step\<^sup>*\<^sup>* (todo, b', got, k) (drop (n + (pb_size b - 1)) ws, b'', take n ws, n - length ws))"
proof -
  have "pipe_inv ws (ws, b, [], n)" using assms by (simp add: pipe_inv_def)
  from pipe_steps_inv [OF assms(4) this] have i: "pipe_inv ws (todo, b', got, k)" "pb_size b' = pb_size b" "length got + k = n" by auto
  moreover have "got @ pipe_content b' @ todo = ws" using i by (simp add: pipe_inv_def)
  moreover have "\<forall>i t. (pipe_move ^^ i) (todo, b', got, k) t \<longrightarrow> i \<le> length todo + k" using pipe_moves_bounded [OF _ i(1)] by fastforce
  ultimately show ?thesis using pipe_stuck [OF i(1)] pipe_ends [OF i(1)] assms(3) by auto
qed

definition demo_pipe :: pipe_buffer where
  "demo_pipe = \<lparr>pb_buffer = [0, 0, 0], pb_size = 3, pb_head = 2, pb_tail = 2\<rparr>"

lemma demo_pipe_ok: "pipe_ok demo_pipe" "pipe_content demo_pipe = []"
  by (simp_all add: demo_pipe_def pipe_ok_def pipe_content_def pipe_len_def)

theorem pipe_ring_fifo_witness:
  "\<exists>b1 b2. pipe_queue.put_all demo_pipe [7, 9] = Some b1 \<and> pipe_queue.get_n b1 2 = Some ([7, 9], b2)"
  using pipe_ring_fifo [OF demo_pipe_ok, of "[7, 9]"] by (auto simp: demo_pipe_def numeral_2_eq_2)

text \<open>Four bytes through a pipe of two: a reader of three lets both finish, a reader of one leaves the writer with one byte.\<close>

theorem pipe_transfer_witness:
  "(\<exists>b''. pipe_step\<^sup>*\<^sup>* ([1, 2, 3, 4], demo_pipe, [], 3) ([], b'', [1, 2, 3], 0)) \<and>
   (\<exists>b''. pipe_step\<^sup>*\<^sup>* ([1, 2, 3, 4], demo_pipe, [], 1) ([4], b'', [1], 0))"
  using pipe_transfer [OF demo_pipe_ok _ rtranclp.rtrancl_refl, of "[1, 2, 3, 4]" 3]
    pipe_transfer [OF demo_pipe_ok _ rtranclp.rtrancl_refl, of "[1, 2, 3, 4]" 1] by (simp add: demo_pipe_def)

end
