(* ===== verification/FsTree.thy ===== *)
theory FsTree
  imports Pipe
begin

text \<open>
  The directory tree inside a file system. \<^verbatim>\<open>fs/pipefs/pipefs.c\<close>, \<^verbatim>\<open>fs/devfs/devfs.c\<close>,
  \<^verbatim>\<open>fs/initramfs/initramfs.c\<close> and \<^verbatim>\<open>fs/sysfs/sysfs.c\<close> are four copies of the same code over their own
  inode structure; \<open>fs_kind\<close> says whose code runs where they differ. A file system has its own
  superblock, inodes and directory entries (\<open>fs_superblock\<close>, \<open>fs_inode\<close>, \<open>fs_dentry\<close>),
  distinct from those of the VFS.

  \<open>avail\<close> is what the allocator will return, in order: an address or 0 when it fails;
  \<open>garbage\<close>, \<open>page_junk\<close>, \<open>type_junk\<close> and \<open>pipe_junk\<close> are what a fresh block happens to hold. Names are the bytes before the NUL. The spin locks
  of the objects are not part of the state: each operation runs as a whole.
\<close>

datatype fs_kind = Pipefs | Devfs | Initramfs | Sysfs

datatype file_operations = Pipefs_fops | Devfs_fops | Initramfs_fops | Sysfs_fops | Driver_fops nat

fun kind_fops :: "fs_kind \<Rightarrow> file_operations" where
  "kind_fops Pipefs = Pipefs_fops"
| "kind_fops Devfs = Devfs_fops"
| "kind_fops Initramfs = Initramfs_fops"
| "kind_fops Sysfs = Sysfs_fops"

abbreviation (input) S_IFMT :: "'a::len word" where "S_IFMT \<equiv> 61440"
abbreviation (input) S_IFREG :: "'a::len word" where "S_IFREG \<equiv> 32768"
abbreviation (input) S_IFDIR :: "'a::len word" where "S_IFDIR \<equiv> 16384"
abbreviation (input) S_IFCHR :: "'a::len word" where "S_IFCHR \<equiv> 8192"
abbreviation (input) S_IFBLK :: "'a::len word" where "S_IFBLK \<equiv> 24576"

text \<open>The octal modes \<open>0755\<close> and \<open>0777\<close>.\<close>

abbreviation (input) mode_755 :: "'a::len word" where "mode_755 \<equiv> 493"
abbreviation (input) mode_777 :: "'a::len word" where "mode_777 \<equiv> 511"

definition MAGIC :: nat where "MAGIC = 12345678"

record fs_inode =
  fi_magic :: nat
  fi_mode :: u32
  fi_major :: u32
  dentry_count :: int
  fi_fop :: "file_operations option"
  dentry_list :: "nat list"
  fi_sb :: nat
  fi_buf :: nat
  fi_bdev :: nat
  fi_kobject :: nat
  fi_page :: nat
  fi_size :: u32
  fi_writable :: nat

record fs_dentry =
  fd_magic :: nat
  fd_name :: "u8 list option"
  target_inode :: nat

record fs_superblock =
  fsb_magic :: nat
  rootinode :: nat
  inode_list :: "nat list"

record page =
  page_type :: nat
  page_refcount :: int
  page_address :: nat

record fsmem =
  avail :: "nat list"
  garbage :: "nat \<Rightarrow> fs_inode"
  page_junk :: "nat \<Rightarrow> nat \<Rightarrow> u8"
  type_junk :: "nat \<Rightarrow> nat"
  pipe_junk :: "nat \<Rightarrow> pipe_buffer"
  fsis :: "nat \<Rightarrow> fs_inode option"
  fsds :: "nat \<Rightarrow> fs_dentry option"
  fsss :: "nat \<Rightarrow> fs_superblock option"
  pipes :: "nat \<Rightarrow> pipe_buffer option"
  pages :: "nat \<Rightarrow> page option"
  blocks :: "nat \<Rightarrow> u8 list option"

definition kmalloc :: "fsmem \<Rightarrow> nat \<times> fsmem" where
  "kmalloc m = (case avail m of [] \<Rightarrow> (0, m) | a # as \<Rightarrow> (a, m\<lparr>avail := as\<rparr>))"

section \<open>Pages\<close>

text \<open>\<^verbatim>\<open>include/linux/mm_type.h\<close>: a page descriptor, its data block and its reference count. Its type stays what the block held until
  data are allocated for it.\<close>

definition page_create :: "fsmem \<Rightarrow> nat \<times> fsmem" where
  "page_create m = (let (p, m) = kmalloc m in
     if p = 0 then (0, m)
     else (p, m\<lparr>pages := (pages m)(p \<mapsto> \<lparr>page_type = type_junk m p, page_refcount = 0, page_address = 0\<rparr>)\<rparr>))"

abbreviation (input) PAGE_SIZE :: nat where "PAGE_SIZE \<equiv> 4096"

text \<open>\<open>__alloc_pages\<close>: the data block holds what it held before.\<close>

definition alloc_page :: "fsmem \<Rightarrow> (int + nat) \<times> fsmem" where
  "alloc_page m = (let (p, m) = page_create m in
     if p = 0 then (Inl (- ENOMEM), m)
     else let (d, m) = kmalloc m in
       if d = 0 then (Inl (- ENOMEM), m\<lparr>pages := free_at (pages m) p\<rparr>)
       else (Inr p, m\<lparr>pages := (pages m)(p \<mapsto> \<lparr>page_type = 1234, page_refcount = 0, page_address = d\<rparr>),
                       blocks := (blocks m)(d \<mapsto> map (page_junk m d) [0..<PAGE_SIZE])\<rparr>))"

definition free_pages :: "nat \<Rightarrow> fsmem \<Rightarrow> fsmem option" where
  "free_pages p m = (if p = 0 then Some m else do {
     v \<leftarrow> at (pages m) p;
     let m = (if page_type v = 1234 then m\<lparr>blocks := free_at (blocks m) (page_address v)\<rparr> else m);
     Some (m\<lparr>pages := free_at (pages m) p\<rparr>) })"

definition virt_to_page :: "nat \<Rightarrow> fsmem \<Rightarrow> (int + nat) \<times> fsmem" where
  "virt_to_page addr m = (let (p, m) = page_create m in
     if p = 0 then (Inl (- ENOMEM), m)
     else (Inr p, m\<lparr>pages := (pages m)(p \<mapsto> \<lparr>page_type = type_junk m p, page_refcount = 0, page_address = addr\<rparr>)\<rparr>))"

definition get_page :: "nat \<Rightarrow> fsmem \<Rightarrow> fsmem option" where
  "get_page p m = (if p = 0 then Some m else do {
     ps \<leftarrow> upd (pages m) p (\<lambda>v. v\<lparr>page_refcount := page_refcount v + 1\<rparr>);
     Some (m\<lparr>pages := ps\<rparr>) })"

text \<open>A NULL page fails the first test and is dereferenced by the second.\<close>

definition put_page :: "nat \<Rightarrow> fsmem \<Rightarrow> fsmem option" where
  "put_page p m = do {
     ps \<leftarrow> upd (pages m) p (\<lambda>v. v\<lparr>page_refcount := page_refcount v - 1\<rparr>);
     v \<leftarrow> at ps p;
     if page_refcount v \<le> 0 then free_pages p (m\<lparr>pages := ps\<rparr>) else Some (m\<lparr>pages := ps\<rparr>) }"

definition kmap :: "nat \<Rightarrow> fsmem \<Rightarrow> nat option" where
  "kmap p m = (if p = 0 then Some 0 else do { v \<leftarrow> at (pages m) p; Some (page_address v) })"

section \<open>Inodes and directory entries\<close>

definition new_fs_inode :: "fs_kind \<Rightarrow> nat \<Rightarrow> file_operations \<Rightarrow> u32 \<Rightarrow> fs_inode \<Rightarrow> fs_inode" where
  "new_fs_inode K sb f major junk =
     (let v = junk\<lparr>fi_magic := MAGIC, fi_major := major, fi_fop := Some f, fi_sb := sb,
        fi_mode := S_IFREG OR mode_755, dentry_count := 0, dentry_list := []\<rparr> in
      case K of Pipefs \<Rightarrow> v\<lparr>fi_buf := 0\<rparr> | Initramfs \<Rightarrow> v\<lparr>fi_page := 0, fi_writable := 1\<rparr> | _ \<Rightarrow> v)"

definition fs_create_empty_inode ::
  "fs_kind \<Rightarrow> nat \<Rightarrow> file_operations option \<Rightarrow> u32 \<Rightarrow> fsmem \<Rightarrow> (nat \<times> fsmem) option" where
  "fs_create_empty_inode K sb fop major m = (case fop of None \<Rightarrow> Some (0, m) | Some f \<Rightarrow>
     (let (a, m) = kmalloc m in
      if a = 0 then Some (0, m)
      else do {
        let m = m\<lparr>fsis := (fsis m)(a \<mapsto> new_fs_inode K sb f major (garbage m a))\<rparr>;
        s \<leftarrow> at (fsss m) sb;
        il \<leftarrow> list_add (fsis m) a (inode_list s);
        Some (a, m\<lparr>fsss := (fsss m)(sb \<mapsto> s\<lparr>inode_list := il\<rparr>)\<rparr>) }))"

definition fs_inode_put :: "fs_kind \<Rightarrow> nat \<Rightarrow> fsmem \<Rightarrow> fsmem option" where
  "fs_inode_put K node m = (if node = 0 then Some m else do {
     v \<leftarrow> at (fsis m) node;
     m \<leftarrow> (case K of
         Pipefs \<Rightarrow> Some (if fi_buf v \<noteq> 0 then m\<lparr>pipes := free_at (pipes m) (fi_buf v)\<rparr> else m)
       | Initramfs \<Rightarrow> (if fi_page v \<noteq> 0 then put_page (fi_page v) m else Some m)
       | _ \<Rightarrow> Some m);
     Some (m\<lparr>fsis := free_at (fsis m) node\<rparr>) })"

text \<open>A new hard link: a directory entry at the head of the parent's list. Its block and its name are two allocations.\<close>

definition fs_create_dentry :: "nat \<Rightarrow> nat \<Rightarrow> u8 list \<Rightarrow> fsmem \<Rightarrow> (nat \<times> fsmem) option" where
  "fs_create_dentry parent target name m =
     (if parent = 0 \<or> target = 0 then Some (0, m)
      else let (d, m) = kmalloc m in
        if d = 0 then Some (0, m)
        else let (s, m) = kmalloc m in
          if s = 0 then Some (0, m)
          else do {
            let ds = (fsds m)(d \<mapsto> \<lparr>fd_magic = MAGIC, fd_name = Some name, target_inode = target\<rparr>);
            is \<leftarrow> upd (fsis m) target (\<lambda>v. v\<lparr>dentry_count := dentry_count v + 1\<rparr>);
            p \<leftarrow> at is parent;
            l \<leftarrow> list_add ds d (dentry_list p);
            Some (d, m\<lparr>fsds := ds, fsis := is(parent \<mapsto> p\<lparr>dentry_list := l\<rparr>)\<rparr>) })"

text \<open>\<open>list_del\<close> of an inode: from the inode list of the superblock it was created on.\<close>

definition unlink_inode :: "nat \<Rightarrow> fsmem \<Rightarrow> fsmem option" where
  "unlink_inode i m = do {
     v \<leftarrow> at (fsis m) i;
     s \<leftarrow> at (fsss m) (fi_sb v);
     il \<leftarrow> list_del (fsis m) 0 i (inode_list s);
     Some (m\<lparr>fsss := (fsss m)(fi_sb v \<mapsto> s\<lparr>inode_list := il\<rparr>)\<rparr>) }"

definition fs_create_inode ::
  "fs_kind \<Rightarrow> nat \<Rightarrow> nat \<Rightarrow> file_operations option \<Rightarrow> u32 \<Rightarrow> u8 list \<Rightarrow> fsmem \<Rightarrow> (nat \<times> fsmem) option" where
  "fs_create_inode K sb parent fop major name m = do {
     (i, m) \<leftarrow> fs_create_empty_inode K sb fop major m;
     if i = 0 then Some (0, m)
     else do {
       (d, m) \<leftarrow> fs_create_dentry parent i name m;
       if d = 0 then do {
         m \<leftarrow> unlink_inode i m;
         m \<leftarrow> fs_inode_put K i m;
         Some (0, m) }
       else Some (d, m) } }"

definition fs_create_file ::
  "fs_kind \<Rightarrow> nat \<Rightarrow> nat \<Rightarrow> file_operations option \<Rightarrow> u32 \<Rightarrow> u8 list \<Rightarrow> fsmem \<Rightarrow> (nat \<times> fsmem) option" where
  "fs_create_file K sb parent fop major name m = fs_create_inode K sb parent fop major name m"

definition set_target_mode :: "nat \<Rightarrow> u32 \<Rightarrow> fsmem \<Rightarrow> fsmem option" where
  "set_target_mode d mode m = do {
     v \<leftarrow> at (fsds m) d;
     is \<leftarrow> upd (fsis m) (target_inode v) (\<lambda>i. i\<lparr>fi_mode := mode\<rparr>);
     Some (m\<lparr>fsis := is\<rparr>) }"

definition fs_create_dir :: "fs_kind \<Rightarrow> nat \<Rightarrow> nat \<Rightarrow> u8 list \<Rightarrow> fsmem \<Rightarrow> (nat \<times> fsmem) option" where
  "fs_create_dir K sb parent name m = do {
     (d, m) \<leftarrow> fs_create_inode K sb parent (Some (kind_fops K)) 0 name m;
     if d = 0 then Some (0, m)
     else do { m \<leftarrow> set_target_mode d (S_IFDIR OR mode_755) m; Some (d, m) } }"

text \<open>Drop a directory entry: the inode goes with its last one.\<close>

definition dentry_put :: "fs_kind \<Rightarrow> nat \<Rightarrow> nat \<Rightarrow> fsmem \<Rightarrow> fsmem option" where
  "dentry_put K sb d m = (if d = 0 then Some m else do {
     v \<leftarrow> at (fsds m) d;
     m \<leftarrow> (if target_inode v = 0 then Some m else do {
       at (fsss m) sb;
       is \<leftarrow> upd (fsis m) (target_inode v) (\<lambda>i. i\<lparr>dentry_count := dentry_count i - 1\<rparr>);
       t \<leftarrow> at is (target_inode v);
       let m = m\<lparr>fsis := is\<rparr>;
       if dentry_count t = 0 then do { m \<leftarrow> unlink_inode (target_inode v) m; fs_inode_put K (target_inode v) m }
       else Some m });
     Some (m\<lparr>fsds := free_at (fsds m) d\<rparr>) })"

text \<open>
  Remove an entry from its directory, unless it is a directory that is not empty. \<open>list_del\<close> goes by the entry's own links: without a
  parent it is the list of whichever inode of the file system has the entry.
\<close>

definition lister :: "nat \<Rightarrow> nat \<Rightarrow> fsmem \<Rightarrow> nat option" where
  "lister sb d m = do {
     s \<leftarrow> at (fsss m) sb;
     Some (case List.find (\<lambda>i. case fsis m i of None \<Rightarrow> False | Some v \<Rightarrow> d \<in> set (dentry_list v)) (inode_list s) of None \<Rightarrow> 0 | Some i \<Rightarrow> i) }"

definition fs_delete_dentry :: "fs_kind \<Rightarrow> nat \<Rightarrow> nat \<Rightarrow> nat \<Rightarrow> fsmem \<Rightarrow> fsmem option" where
  "fs_delete_dentry K sb parent d m = do {
     v \<leftarrow> at (fsds m) d;
     t \<leftarrow> at (fsis m) (target_inode v);
     if (fi_mode t AND S_IFMT) = S_IFDIR \<and> dentry_list t \<noteq> [] then Some m
     else do {
       dir \<leftarrow> (if parent = 0 then lister sb d m else Some parent);
       m \<leftarrow> (if dir = 0 then Some m else do {
         p \<leftarrow> at (fsis m) dir;
         l \<leftarrow> list_del (fsds m) 0 d (dentry_list p);
         Some (m\<lparr>fsis := (fsis m)(dir \<mapsto> p\<lparr>dentry_list := l\<rparr>)\<rparr>) });
       dentry_put K sb d m } }"

definition fs_superblock_create :: "fs_kind \<Rightarrow> fsmem \<Rightarrow> (nat \<times> fsmem) option" where
  "fs_superblock_create K m = (let (s, m) = kmalloc m in
     if s = 0 then Some (0, m)
     else do {
       let m = m\<lparr>fsss := (fsss m)(s \<mapsto> \<lparr>fsb_magic = MAGIC, rootinode = 0, inode_list = []\<rparr>)\<rparr>;
       (r, m) \<leftarrow> fs_create_empty_inode K s (Some (kind_fops K)) 0 m;
       if r = 0 then Some (0, m\<lparr>fsss := free_at (fsss m) s\<rparr>)
       else do {
         is \<leftarrow> upd (fsis m) r (\<lambda>v. v\<lparr>fi_mode := S_IFDIR OR mode_755\<rparr>);
         ss \<leftarrow> upd (fsss m) s (\<lambda>v. v\<lparr>rootinode := r\<rparr>);
         is \<leftarrow> upd is r (\<lambda>v. v\<lparr>fi_fop := Some (kind_fops K), dentry_count := dentry_count v + 1, dentry_list := []\<rparr>);
         Some (s, m\<lparr>fsis := is, fsss := ss\<rparr>) } })"

text \<open>The test of the root inode is inverted: only a NULL root is freed, so the root inode leaks.\<close>

definition fs_superblock_destory :: "nat \<Rightarrow> fsmem \<Rightarrow> fsmem option" where
  "fs_superblock_destory s m = (if s = 0 then Some m else do {
     at (fsss m) s;
     Some (m\<lparr>fsss := free_at (fsss m) s\<rparr>) })"

fun find_name :: "(nat \<Rightarrow> fs_dentry option) \<Rightarrow> nat list \<Rightarrow> u8 list \<Rightarrow> nat option" where
  "find_name ds [] name = Some 0"
| "find_name ds (d # l) name = do {
     v \<leftarrow> at ds d;
     n \<leftarrow> fd_name v;
     if n = name then Some d else find_name ds l name }"

interpretation fs_names: name_search fd_name find_name
  by unfold_locales simp_all

definition fs_lookup :: "nat \<Rightarrow> u8 list \<Rightarrow> fsmem \<Rightarrow> nat option" where
  "fs_lookup dir name m = (if dir = 0 then Some 0 else do {
     v \<leftarrow> at (fsis m) dir;
     if (fi_mode v AND S_IFMT) \<noteq> S_IFDIR then Some 0
     else find_name (fsds m) (dentry_list v) name })"

end
