(* ===== verification/FsInv.thy ===== *)
theory FsInv
  imports FsTree
begin

text \<open>
  The invariant of a file system's own tree: every directory entry leads to a live inode and is listed in
  at most one directory, the link count of an inode is the number of entries that lead to it (one more for
  a root), the inode lists of the superblocks hold exactly the live inodes, and the allocator's supply is
  fresh. Creating, linking and deleting keep it and never fault.
\<close>

definition links :: "fsmem \<Rightarrow> nat \<Rightarrow> nat set" where
  "links m i = {d. \<exists>e. fsds m d = Some e \<and> target_inode e = i}"

definition inv_objs :: "fsmem \<Rightarrow> bool" where
  "inv_objs m \<longleftrightarrow> fsis m 0 = None \<and> fsds m 0 = None \<and> fsss m 0 = None \<and> finite (dom (fsds m)) \<and>
     (\<forall>d e. fsds m d = Some e \<longrightarrow> fsis m (target_inode e) \<noteq> None)"

definition inv_dirs :: "fsmem \<Rightarrow> bool" where
  "inv_dirs m \<longleftrightarrow> (\<forall>i v. fsis m i = Some v \<longrightarrow> distinct (dentry_list v) \<and>
       (\<forall>d \<in> set (dentry_list v). \<exists>e n. fsds m d = Some e \<and> fd_name e = Some n)) \<and>
     (\<forall>i j v w d. fsis m i = Some v \<longrightarrow> fsis m j = Some w \<longrightarrow> d \<in> set (dentry_list v) \<longrightarrow> d \<in> set (dentry_list w) \<longrightarrow> i = j)"

definition inv_count :: "nat set \<Rightarrow> fsmem \<Rightarrow> bool" where
  "inv_count R m \<longleftrightarrow> (\<forall>i v. fsis m i = Some v \<longrightarrow> dentry_count v = int (card (links m i)) + (if i \<in> R then 1 else 0))"

definition inv_supers :: "fsmem \<Rightarrow> bool" where
  "inv_supers m \<longleftrightarrow> (\<forall>i v. fsis m i = Some v \<longrightarrow> (\<exists>s. fsss m (fi_sb v) = Some s \<and> i \<in> set (inode_list s))) \<and>
     (\<forall>a s. fsss m a = Some s \<longrightarrow> distinct (inode_list s) \<and> (\<forall>i \<in> set (inode_list s). \<exists>v. fsis m i = Some v \<and> fi_sb v = a))"

definition inv_fresh :: "fsmem \<Rightarrow> bool" where
  "inv_fresh m \<longleftrightarrow> distinct (filter (\<lambda>a. a \<noteq> 0) (avail m)) \<and>
     (\<forall>a \<in> set (avail m). a \<noteq> 0 \<longrightarrow> fsis m a = None \<and> fsds m a = None \<and> fsss m a = None)"

definition inv_pages :: "fs_kind \<Rightarrow> fsmem \<Rightarrow> bool" where
  "inv_pages K m \<longleftrightarrow> (K = Initramfs \<longrightarrow> (\<forall>i v. fsis m i = Some v \<longrightarrow> fi_page v \<noteq> 0 \<longrightarrow> pages m (fi_page v) \<noteq> None \<and>
     (\<forall>j w. fsis m j = Some w \<longrightarrow> fi_page w = fi_page v \<longrightarrow> j = i)))"

definition fs_inv :: "fs_kind \<Rightarrow> nat set \<Rightarrow> fsmem \<Rightarrow> bool" where
  "fs_inv K R m \<longleftrightarrow> inv_objs m \<and> inv_dirs m \<and> inv_count R m \<and> inv_supers m \<and> inv_fresh m \<and> inv_pages K m"

lemma fs_inv_parts: "fs_inv K R m \<Longrightarrow> inv_objs m \<and> inv_dirs m \<and> inv_count R m \<and> inv_supers m \<and> inv_fresh m \<and> inv_pages K m"
  by (simp add: fs_inv_def)

lemma dom_free_at [simp]: "dom (free_at f a) = dom f - {a}"
  by (auto split: if_splits)

lemma finite_links: "inv_objs m \<Longrightarrow> finite (links m i)"
  by (rule finite_subset [of _ "dom (fsds m)"]) (auto simp: links_def inv_objs_def)

lemma fsis_pos: "inv_objs m \<Longrightarrow> fsis m i = Some v \<Longrightarrow> 0 < i"
  by (cases "i = 0") (auto simp: inv_objs_def)

lemma fsds_pos: "inv_objs m \<Longrightarrow> fsds m i = Some v \<Longrightarrow> 0 < i"
  by (cases "i = 0") (auto simp: inv_objs_def)

lemma fsss_pos: "inv_objs m \<Longrightarrow> fsss m i = Some v \<Longrightarrow> 0 < i"
  by (cases "i = 0") (auto simp: inv_objs_def)

lemma inv_dirs_sub:
  assumes d: "inv_dirs m"
    and f: "\<And>j w. fsis m' j = Some w \<Longrightarrow> \<exists>w0. fsis m j = Some w0 \<and> dentry_list w0 = dentry_list w"
    and g: "\<And>j w x. fsis m' j = Some w \<Longrightarrow> x \<in> set (dentry_list w) \<Longrightarrow> fsds m' x = fsds m x"
  shows "inv_dirs m'"
  unfolding inv_dirs_def
proof (intro conjI allI impI)
  fix j w assume w: "fsis m' j = Some w"
  then obtain w0 where w0: "fsis m j = Some w0" "dentry_list w0 = dentry_list w" using f by blast
  then have "distinct (dentry_list w0)" "\<forall>x \<in> set (dentry_list w0). \<exists>e n. fsds m x = Some e \<and> fd_name e = Some n"
    using d unfolding inv_dirs_def by blast+
  then show "distinct (dentry_list w)" "\<forall>x \<in> set (dentry_list w). \<exists>e n. fsds m' x = Some e \<and> fd_name e = Some n"
    using w0(2) g [OF w] by simp_all
next
  fix i j v w x assume h: "fsis m' i = Some v" "fsis m' j = Some w" "x \<in> set (dentry_list v)" "x \<in> set (dentry_list w)"
  obtain v0 w0 where "fsis m i = Some v0" "dentry_list v0 = dentry_list v" "fsis m j = Some w0" "dentry_list w0 = dentry_list w"
    using f [OF h(1)] f [OF h(2)] by blast
  then show "i = j" using d h(3,4) unfolding inv_dirs_def by metis
qed

section \<open>Allocation\<close>

lemma kmalloc_inv:
  assumes i: "fs_inv K R m" and k: "kmalloc m = (a, m')"
  shows "fs_inv K R m' \<and> m' = m\<lparr>avail := avail m'\<rparr> \<and>
    (a \<noteq> 0 \<longrightarrow> fsis m a = None \<and> fsds m a = None \<and> fsss m a = None \<and> a \<notin> set (avail m'))"
proof -
  have f: "inv_fresh m" using i by (simp add: fs_inv_def)
  have m': "m' = m\<lparr>avail := tl (avail m)\<rparr>" "a = (if avail m = [] then 0 else hd (avail m))"
    using k by (auto simp: kmalloc_def split: list.splits)
  have "inv_fresh m'" using f unfolding m' inv_fresh_def by (cases "avail m") (auto split: if_splits)
  moreover have "a \<noteq> 0 \<longrightarrow> fsis m a = None \<and> fsds m a = None \<and> fsss m a = None \<and> a \<notin> set (avail m')"
    using f unfolding m' inv_fresh_def by (cases "avail m") (auto split: if_splits)
  moreover have "links m' = links m" by (rule ext) (simp add: links_def m')
  ultimately show ?thesis
    using i by (simp add: fs_inv_def inv_objs_def inv_dirs_def inv_count_def inv_supers_def inv_pages_def m')
qed

lemma create_empty_inode_inv:
  fixes f :: file_operations and major :: u32
  assumes i: "fs_inv K R m" and s: "fsss m sb = Some s" and R: "\<forall>r \<in> R. fsis m r \<noteq> None"
    and k: "kmalloc m = (a, m1)" and a: "a \<noteq> 0"
  defines "v \<equiv> new_fs_inode K sb f major (garbage m a)"
  defines "m2 \<equiv> m1\<lparr>fsis := (fsis m)(a \<mapsto> v), fsss := (fsss m)(sb \<mapsto> s\<lparr>inode_list := a # inode_list s\<rparr>)\<rparr>"
  shows "fs_create_empty_inode K sb (Some f) major m = Some (a, m2) \<and> fs_inv K R m2"
proof -
  have m1: "fs_inv K R m1" "m1 = m\<lparr>avail := avail m1\<rparr>" and fresh: "fsis m a = None" "fsds m a = None" "fsss m a = None" "a \<notin> set (avail m1)"
    using kmalloc_inv [OF i k] a by auto
  have e: "fsis m1 = fsis m" "fsss m1 = fsss m" "fsds m1 = fsds m" "garbage m1 = garbage m" "pages m1 = pages m" by (subst m1(2), simp)+
  note p = fs_inv_parts [OF i]
  have sb0: "0 < sb" using p s fsss_pos by blast
  have live: "\<And>y. y \<in> set (inode_list s) \<Longrightarrow> ((fsis m)(a \<mapsto> v)) y \<noteq> None" using p s by (fastforce simp: inv_supers_def)
  have run: "fs_create_empty_inode K sb (Some f) major m = Some (a, m2)"
    using k a s sb0 list_add_live [OF live, where x = a]
    by (simp add: fs_create_empty_inode_def e m2_def v_def del: fun_upd_apply)
  have v: "dentry_list v = []" "dentry_count v = 0" "fi_sb v = sb" "K = Initramfs \<Longrightarrow> fi_page v = 0"
    by (cases K; simp add: v_def new_fs_inode_def)+
  have anew: "a \<notin> set (inode_list s)" using p s fresh by (fastforce simp: inv_supers_def)
  have lk: "links m2 = links m" by (rule ext) (simp add: links_def m2_def e)
  have la: "links m a = {}" using p fresh by (fastforce simp: links_def inv_objs_def)
  have "a \<notin> R" using R fresh by auto
  have "inv_objs m2" using p a sb0 by (auto simp: inv_objs_def m2_def e)
  moreover have "inv_dirs m2" using p v unfolding inv_dirs_def m2_def by (auto simp: e split: if_splits) 
  moreover have "inv_count R m2" using p v la \<open>a \<notin> R\<close> by (auto simp: inv_count_def lk) (auto simp: m2_def split: if_splits)
  moreover have "inv_supers m2" using p v s anew fresh unfolding inv_supers_def m2_def e by (fastforce split: if_splits)
  moreover have "inv_fresh m2" using fs_inv_parts [OF m1(1)] fresh s unfolding inv_fresh_def m2_def by (auto simp: e split: if_splits)
  moreover have "inv_pages K m2" using p v fresh unfolding inv_pages_def m2_def by (auto simp: e split: if_splits)
  ultimately show ?thesis using run by (simp add: fs_inv_def)
qed

lemma create_dentry_inv:
  fixes name :: "u8 list"
  assumes i: "fs_inv K R m" and pv: "fsis m parent = Some pv" and tv: "fsis m target = Some tv"
    and k1: "kmalloc m = (d, m1)" "d \<noteq> 0" and k2: "kmalloc m1 = (s, m2)" "s \<noteq> 0"
  defines "is \<equiv> (fsis m)(target \<mapsto> tv\<lparr>dentry_count := dentry_count tv + 1\<rparr>)"
  defines "m3 \<equiv> m2\<lparr>fsds := (fsds m)(d \<mapsto> \<lparr>fd_magic = MAGIC, fd_name = Some name, target_inode = target\<rparr>),
      fsis := is(parent \<mapsto> (the (is parent))\<lparr>dentry_list := d # dentry_list pv\<rparr>)\<rparr>"
  shows "fs_create_dentry parent target name m = Some (d, m3) \<and> fs_inv K R m3"
proof -
  note p = fs_inv_parts [OF i]
  have a1: "fs_inv K R m1" "m1 = m\<lparr>avail := avail m1\<rparr>" "fsis m d = None" "fsds m d = None" "fsss m d = None" "d \<notin> set (avail m1)"
    using kmalloc_inv [OF i k1(1)] k1(2) by auto
  have a2: "fs_inv K R m2" "m2 = m1\<lparr>avail := avail m2\<rparr>" using kmalloc_inv [OF a1(1) k2(1)] by auto
  have dm2: "d \<notin> set (avail m2)"
  proof -
    have "set (avail m2) \<subseteq> set (avail m1)" using k2(1) by (cases "avail m1") (auto simp: kmalloc_def)
    then show ?thesis using a1(6) by blast
  qed
  have e: "fsis m2 = fsis m" "fsss m2 = fsss m" "fsds m2 = fsds m" "pages m2 = pages m"
    by (subst a2(2), simp, subst a1(2), simp)+
  have pos: "0 < parent" "0 < target" using p pv tv fsis_pos by blast+
  obtain pw where pw: "is parent = Some pw" "dentry_list pw = dentry_list pv" "fi_sb pw = fi_sb pv" "fi_page pw = fi_page pv"
    "dentry_count pw = dentry_count pv + (if parent = target then 1 else 0)"
    using pv tv by (cases "parent = target") (auto simp: is_def)
  have dn: "d \<notin> set (dentry_list v)" if "fsis m j = Some v" for j v using p that a1(4) by (fastforce simp: inv_dirs_def)
  have live: "\<And>y. y \<in> set (dentry_list pv) \<Longrightarrow> ((fsds m)(d \<mapsto> \<lparr>fd_magic = MAGIC, fd_name = Some name, target_inode = target\<rparr>)) y \<noteq> None"
    using p pv by (fastforce simp: inv_dirs_def)
  have u: "upd (fsis m) target (\<lambda>v. v\<lparr>dentry_count := dentry_count v + 1\<rparr>) = Some is" using tv pos by (simp add: is_def)
  have run: "fs_create_dentry parent target name m = Some (d, m3)"
    using k1 k2 pos u pw list_add_live [OF live, where x = d]
    by (simp add: fs_create_dentry_def e m3_def del: fun_upd_apply)
  let ?fin = "is(parent \<mapsto> pw\<lparr>dentry_list := d # dentry_list pv\<rparr>)"
  have m3: "fsis m3 = ?fin" "fsds m3 = (fsds m)(d \<mapsto> \<lparr>fd_magic = MAGIC, fd_name = Some name, target_inode = target\<rparr>)"
    "fsss m3 = fsss m" "avail m3 = avail m2" "pages m3 = pages m"
    by (simp_all add: m3_def pw e)
  have f: "\<exists>w. fsis m j = Some w \<and> fi_sb w = fi_sb v \<and> fi_page w = fi_page v \<and>
      dentry_list v = (if j = parent then d # dentry_list w else dentry_list w) \<and>
      dentry_count v = dentry_count w + (if j = target then 1 else 0)"
    if "fsis m3 j = Some v" for j v
    using that pv tv pw by (auto simp: m3 is_def split: if_splits)
  have g: "fsis m j = Some w \<Longrightarrow> \<exists>v. fsis m3 j = Some v \<and> fi_sb v = fi_sb w" for j w
    using pv tv pw by (auto simp: m3 is_def)
  have lk: "links m3 j = (if j = target then insert d (links m j) else links m j)" for j
    using a1(4) by (auto simp: links_def m3)
  have dl: "d \<notin> links m j" for j using a1(4) by (simp add: links_def)
  have o: "inv_objs m3" using p k1(2) g tv unfolding inv_objs_def m3(2,3) by (auto simp: m3(1) is_def pos pw(1))
  have "inv_dirs m3"
    unfolding inv_dirs_def
  proof (intro conjI allI impI)
    fix j v assume "fsis m3 j = Some v"
    then obtain w where w: "fsis m j = Some w" "dentry_list v = (if j = parent then d # dentry_list w else dentry_list w)" using f by blast
    have "distinct (dentry_list w)" "\<forall>x \<in> set (dentry_list w). \<exists>e n. fsds m x = Some e \<and> fd_name e = Some n"
      using p w unfolding inv_dirs_def by blast+
    then show "distinct (dentry_list v)" "\<forall>x \<in> set (dentry_list v). \<exists>e n. fsds m3 x = Some e \<and> fd_name e = Some n"
      using w dn [OF w(1)] by (auto simp: m3(2))
  next
    fix i j v w x assume h: "fsis m3 i = Some v" "fsis m3 j = Some w" "x \<in> set (dentry_list v)" "x \<in> set (dentry_list w)"
    obtain v0 w0 where v0: "fsis m i = Some v0" "dentry_list v = (if i = parent then d # dentry_list v0 else dentry_list v0)"
      and w0: "fsis m j = Some w0" "dentry_list w = (if j = parent then d # dentry_list w0 else dentry_list w0)"
      using f [OF h(1)] f [OF h(2)] by blast
    show "i = j"
    proof (cases "x = d")
      case True
      then show ?thesis using h v0 w0 dn [OF v0(1)] dn [OF w0(1)] by (auto split: if_splits)
    next
      case False
      then have "x \<in> set (dentry_list v0)" "x \<in> set (dentry_list w0)" using h v0 w0 by (auto split: if_splits)
      then show ?thesis using p v0(1) w0(1) unfolding inv_dirs_def by blast
    qed
  qed
  moreover have "inv_count R m3"
    unfolding inv_count_def
  proof (intro allI impI)
    fix j v assume "fsis m3 j = Some v"
    then obtain w where w: "fsis m j = Some w" "dentry_count v = dentry_count w + (if j = target then 1 else 0)" using f by blast
    have "dentry_count w = int (card (links m j)) + (if j \<in> R then 1 else 0)" using p w by (simp add: inv_count_def)
    moreover have "card (insert d (links m j)) = Suc (card (links m j))" using dl finite_links p by simp
    ultimately show "dentry_count v = int (card (links m3 j)) + (if j \<in> R then 1 else 0)" using w by (cases "j = target") (simp_all add: lk)
  qed
  moreover have "inv_supers m3" using p f g unfolding inv_supers_def m3(3) by metis
  moreover have "inv_fresh m3"
    using fs_inv_parts [OF a2(1)] dm2 pv tv e unfolding inv_fresh_def m3 is_def by (auto split: if_splits)
  moreover have "inv_pages K m3" using p f unfolding inv_pages_def m3(5) by metis
  ultimately show ?thesis using run o by (simp add: fs_inv_def)
qed

text \<open>A link that cannot be made leaves the file system as it was.\<close>

lemma create_dentry_fails:
  assumes i: "fs_inv K R m" and z: "fs_create_dentry parent target name m = Some (0, m')" "0 < parent" "0 < target"
    and l: "fsis m parent = Some pv" "fsis m target = Some tv"
  shows "m' = m\<lparr>avail := avail m'\<rparr> \<and> fs_inv K R m'"
proof -
  obtain d m1 where k1: "kmalloc m = (d, m1)" by (cases "kmalloc m")
  obtain s m2 where k2: "kmalloc m1 = (s, m2)" by (cases "kmalloc m1")
  have a1: "fs_inv K R m1" "m1 = m\<lparr>avail := avail m1\<rparr>" using kmalloc_inv [OF i k1] by auto
  have a2: "fs_inv K R m2" "m2 = m1\<lparr>avail := avail m2\<rparr>" using kmalloc_inv [OF a1(1) k2] by auto
  have m2: "m2 = m\<lparr>avail := avail m2\<rparr>" by (subst a2(2), subst a1(2)) simp
  consider "d = 0" | "d \<noteq> 0" "s = 0" | "d \<noteq> 0" "s \<noteq> 0" by blast
  then show ?thesis
  proof cases
    case 1
    then have "m' = m1" using z k1 by (simp add: fs_create_dentry_def)
    then show ?thesis using a1 by simp
  next
    case 2
    then have "m' = m2" using z k1 k2 by (simp add: fs_create_dentry_def)
    then show ?thesis using a2(1) m2 by simp
  next
    case 3
    then show ?thesis using create_dentry_inv [OF i l k1 _ k2, of name] z(1) by simp
  qed
qed

section \<open>Removal\<close>

lemma unlink_inode_run:
  assumes s: "inv_supers m" "inv_objs m" and v: "fsis m i = Some v" and sb: "fsss m (fi_sb v) = Some s"
  shows "unlink_inode i m = Some (m\<lparr>fsss := (fsss m)(fi_sb v \<mapsto> s\<lparr>inode_list := remove1 i (inode_list s)\<rparr>)\<rparr>)"
proof -
  have "\<And>y. y \<in> set (inode_list s) \<Longrightarrow> fsis m y \<noteq> None" using s(1) sb by (fastforce simp: inv_supers_def)
  then have "list_del (fsis m) 0 i (inode_list s) = Some (remove1 i (inode_list s))" by (intro list_del_live) auto
  moreover have "0 < i" "0 < fi_sb v" using fsis_pos [OF s(2) v] fsss_pos [OF s(2) sb] by simp_all
  ultimately show ?thesis using v sb by (simp add: unlink_inode_def)
qed

lemma inode_put_run:
  assumes v: "fsis m i = Some v" "0 < i" and p: "K = Initramfs \<Longrightarrow> fi_page v \<noteq> 0 \<Longrightarrow> pages m (fi_page v) \<noteq> None"
  shows "\<exists>m'. fs_inode_put K i m = Some m' \<and> fsis m' = free_at (fsis m) i \<and> fsds m' = fsds m \<and> fsss m' = fsss m \<and>
    avail m' = avail m \<and> (\<forall>q. q \<noteq> fi_page v \<longrightarrow> pages m' q = pages m q)"
proof (cases "K = Initramfs \<and> fi_page v \<noteq> 0")
  case True
  then obtain g where g: "pages m (fi_page v) = Some g" using p by auto
  then show ?thesis using v True
    by (auto simp: fs_inode_put_def put_page_def free_pages_def Let_def upd_def split: if_splits)
next
  case False
  then show ?thesis using v by (cases K) (auto simp: fs_inode_put_def)
qed

lemma dentry_put_inv:
  assumes i: "fs_inv K R m" and e: "fsds m d = Some e" and un: "\<forall>j v. fsis m j = Some v \<longrightarrow> d \<notin> set (dentry_list v)"
    and sb: "fsss m sb \<noteq> None"
  defines "t \<equiv> target_inode e"
  shows "\<exists>m'. dentry_put K sb d m = Some m' \<and> fs_inv K R m' \<and> fsds m' = free_at (fsds m) d \<and> avail m' = avail m \<and>
    (\<forall>j. j \<noteq> t \<longrightarrow> fsis m' j = fsis m j) \<and> (fsis m' t = None \<longleftrightarrow> links m t = {d} \<and> t \<notin> R)"
proof -
  note p = fs_inv_parts [OF i]
  have d0: "0 < d" using p fsds_pos e by blast
  obtain tv where tv: "fsis m t = Some tv" using p e by (auto simp: inv_objs_def t_def)
  have t0: "0 < t" using p fsis_pos tv by blast
  obtain ssb where ssb: "fsss m sb = Some ssb" "0 < sb" using sb p fsss_pos by blast
  have din: "d \<in> links m t" using e by (simp add: links_def t_def)
  have cnt: "dentry_count tv = int (card (links m t)) + (if t \<in> R then 1 else 0)" using p tv by (simp add: inv_count_def)
  have cpos: "0 < card (links m t)" using din finite_links p by (auto simp: card_gt_0_iff)
  have one: "card (links m t) = 1 \<longleftrightarrow> links m t = {d}" using din by (auto simp: card_1_singleton_iff)
  define isn where "isn = (fsis m)(t \<mapsto> tv\<lparr>dentry_count := dentry_count tv - 1\<rparr>)"
  define m1 where "m1 = m\<lparr>fsis := isn\<rparr>"
  have u: "upd (fsis m) t (\<lambda>i. i\<lparr>dentry_count := dentry_count i - 1\<rparr>) = Some isn" using tv t0 by (simp add: isn_def)
  have fi: "isn j = Some w \<Longrightarrow> \<exists>w0. fsis m j = Some w0 \<and> fi_sb w0 = fi_sb w \<and> fi_page w0 = fi_page w \<and> dentry_list w0 = dentry_list w \<and>
      dentry_count w = dentry_count w0 - (if j = t then 1 else 0)" for j w using tv by (auto simp: isn_def split: if_splits)
  have gi: "fsis m j = Some w0 \<Longrightarrow> \<exists>w. isn j = Some w \<and> fi_sb w = fi_sb w0" for j w0 using tv by (auto simp: isn_def)
  let ?ds = "free_at (fsds m) d"
  have lk: "links m' j = links m j - {d}" if "fsds m' = ?ds" for m' j using that by (auto simp: links_def)
  have card: "int (card (links m j - {d})) = int (card (links m j)) - (if j = t then 1 else 0)" for j
  proof (cases "j = t")
    case True
    then show ?thesis using din cpos by simp
  next
    case False
    then have "d \<notin> links m j" using e by (simp add: links_def t_def)
    then show ?thesis using False by simp
  qed
  have run: "dentry_put K sb d m = (if dentry_count tv - 1 = 0
      then do { m2 \<leftarrow> unlink_inode t m1; m3 \<leftarrow> fs_inode_put K t m2; Some (m3\<lparr>fsds := free_at (fsds m3) d\<rparr>) }
      else Some (m1\<lparr>fsds := ?ds\<rparr>))"
    using e d0 t0 ssb u tv by (simp add: dentry_put_def m1_def flip: t_def) (auto simp: isn_def simp flip: t_def)
  show ?thesis
  proof (cases "dentry_count tv - 1 = 0")
    case False
    let ?m' = "m1\<lparr>fsds := ?ds\<rparr>"
    have c: "fsis ?m' = isn" "fsds ?m' = ?ds" "fsss ?m' = fsss m" "avail ?m' = avail m" "pages ?m' = pages m" by (simp_all add: m1_def)
    have "inv_objs ?m'" using p t0 unfolding inv_objs_def c by (auto simp: isn_def)
    moreover have "inv_dirs ?m'"
    proof (rule inv_dirs_sub [of m])
      show "inv_dirs m" using p by simp
      show "\<exists>w0. fsis m j = Some w0 \<and> dentry_list w0 = dentry_list w" if "fsis ?m' j = Some w" for j w
        using fi that unfolding c by blast
      show "fsds ?m' x = fsds m x" if "fsis ?m' j = Some w" "x \<in> set (dentry_list w)" for j w x
        using fi that un unfolding c by fastforce
    qed
    moreover have "inv_count R ?m'"
      unfolding inv_count_def
    proof (intro allI impI)
      fix j w assume "fsis ?m' j = Some w"
      then obtain w0 where w: "fsis m j = Some w0" "dentry_count w = dentry_count w0 - (if j = t then 1 else 0)" unfolding c(1) using fi by blast
      then have "dentry_count w0 = int (card (links m j)) + (if j \<in> R then 1 else 0)" using p by (simp add: inv_count_def)
      then show "dentry_count w = int (card (links ?m' j)) + (if j \<in> R then 1 else 0)"
        using card [of j] w(2) by (simp only: lk [OF c(2)])
    qed
    moreover have "inv_supers ?m'" using p fi gi unfolding inv_supers_def c by metis
    moreover have "inv_fresh ?m'" using p tv unfolding inv_fresh_def c by (auto simp: isn_def)
    moreover have "inv_pages K ?m'" using p fi unfolding inv_pages_def c by metis
    ultimately have inv: "fs_inv K R ?m'" by (simp add: fs_inv_def)
    have "\<not> (links m t = {d} \<and> t \<notin> R)" using False cnt by (auto split: if_splits)
    moreover have "isn t \<noteq> None" by (simp add: isn_def)
    moreover have "\<forall>j. j \<noteq> t \<longrightarrow> isn j = fsis m j" by (simp add: isn_def)
    ultimately show ?thesis using inv run False c by auto
  next
    case True
    then have last: "links m t = {d}" "t \<notin> R" using cnt cpos one by (auto split: if_splits)
    have is_t: "isn t = Some (tv\<lparr>dentry_count := dentry_count tv - 1\<rparr>)" by (simp add: isn_def)
    obtain s where s: "fsss m (fi_sb tv) = Some s" "t \<in> set (inode_list s)" using p tv unfolding inv_supers_def by blast
    have sup1: "inv_supers m1" using p fi gi unfolding inv_supers_def m1_def by simp metis
    have obj1: "inv_objs m1" using p t0 unfolding inv_objs_def m1_def by (auto simp: isn_def)
    define m2 where "m2 = m1\<lparr>fsss := (fsss m)(fi_sb tv \<mapsto> s\<lparr>inode_list := remove1 t (inode_list s)\<rparr>)\<rparr>"
    have r2: "unlink_inode t m1 = Some m2"
      using unlink_inode_run [OF sup1 obj1, of t "tv\<lparr>dentry_count := dentry_count tv - 1\<rparr>" s] is_t s(1) by (simp add: m1_def m2_def)
    have "\<exists>m'. fs_inode_put K t m2 = Some m' \<and> fsis m' = free_at (fsis m2) t \<and> fsds m' = fsds m2 \<and> fsss m' = fsss m2 \<and>
        avail m' = avail m2 \<and> (\<forall>q. q \<noteq> fi_page (tv\<lparr>dentry_count := dentry_count tv - 1\<rparr>) \<longrightarrow> pages m' q = pages m2 q)"
      by (rule inode_put_run) (use p tv t0 in \<open>auto simp: m2_def m1_def isn_def inv_pages_def\<close>)
    then obtain m3 where m3: "fs_inode_put K t m2 = Some m3" "fsis m3 = free_at isn t" "fsds m3 = fsds m"
      "fsss m3 = (fsss m)(fi_sb tv \<mapsto> s\<lparr>inode_list := remove1 t (inode_list s)\<rparr>)" "avail m3 = avail m"
      "\<forall>q. q \<noteq> fi_page tv \<longrightarrow> pages m3 q = pages m q" by (auto simp: m2_def m1_def)
    let ?m' = "m3\<lparr>fsds := free_at (fsds m3) d\<rparr>"
    have c: "fsis ?m' = free_at isn t" "fsds ?m' = ?ds" "fsss ?m' = fsss m3" "avail ?m' = avail m" "pages ?m' = pages m3" by (simp_all add: m3)
    have oth: "free_at isn t j = (if j = t then None else fsis m j)" for j by (simp add: isn_def)
    have nt: "target_inode e' \<noteq> t" if "fsds m d' = Some e'" "d' \<noteq> d" for d' e'
      using that last by (auto simp: links_def)
    have "inv_objs ?m'" using p nt s(1) t0 unfolding inv_objs_def c m3(4) by (auto simp: isn_def)
    moreover have "inv_dirs ?m'"
    proof (rule inv_dirs_sub [of m])
      show "inv_dirs m" using p by simp
      show "\<exists>w0. fsis m j = Some w0 \<and> dentry_list w0 = dentry_list w" if "fsis ?m' j = Some w" for j w
        using that unfolding c oth by (auto split: if_splits)
      show "fsds ?m' x = fsds m x" if "fsis ?m' j = Some w" "x \<in> set (dentry_list w)" for j w x
        using that un unfolding c oth by (fastforce split: if_splits)
    qed
    moreover have "inv_count R ?m'"
      unfolding inv_count_def
    proof (intro allI impI)
      fix j w assume "fsis ?m' j = Some w"
      then have w: "fsis m j = Some w" "j \<noteq> t" unfolding c(1) oth by (auto split: if_splits)
      then have "dentry_count w = int (card (links m j)) + (if j \<in> R then 1 else 0)" using p by (simp add: inv_count_def)
      then show "dentry_count w = int (card (links ?m' j)) + (if j \<in> R then 1 else 0)"
        using card [of j] w(2) by (simp only: lk [OF c(2)] if_False diff_zero)
    qed
    moreover have "inv_supers ?m'"
    proof -
      have ds: "distinct (inode_list s)" using p s by (auto simp: inv_supers_def)
      have a: "\<forall>i v. fsis m i = Some v \<longrightarrow> (\<exists>s. fsss m (fi_sb v) = Some s \<and> i \<in> set (inode_list s))"
        and b: "\<forall>a s. fsss m a = Some s \<longrightarrow> distinct (inode_list s) \<and> (\<forall>i \<in> set (inode_list s). \<exists>v. fsis m i = Some v \<and> fi_sb v = a)"
        using p by (simp_all add: inv_supers_def)
      show ?thesis
        unfolding inv_supers_def c m3(4) oth
      proof (intro conjI allI impI)
        fix i v assume "(if i = t then None else fsis m i) = Some v"
        then show "\<exists>sa. ((fsss m)(fi_sb tv \<mapsto> s\<lparr>inode_list := remove1 t (inode_list s)\<rparr>)) (fi_sb v) = Some sa \<and> i \<in> set (inode_list sa)"
          using a s(1) ds by (fastforce split: if_splits)
      next
        fix x sa assume "((fsss m)(fi_sb tv \<mapsto> s\<lparr>inode_list := remove1 t (inode_list s)\<rparr>)) x = Some sa"
        then show "distinct (inode_list sa)" "\<forall>i \<in> set (inode_list sa). \<exists>v. (if i = t then None else fsis m i) = Some v \<and> fi_sb v = x"
          using b s(1) tv ds by (fastforce split: if_splits)+
      qed
    qed
    moreover have "inv_fresh ?m'" using p s(1) unfolding inv_fresh_def c m3(4) oth by auto
    moreover have "inv_pages K ?m'"
      unfolding inv_pages_def
    proof (intro impI allI)
      fix j w assume K: "K = Initramfs" and w: "fsis ?m' j = Some w" "fi_page w \<noteq> 0"
      have j: "fsis m j = Some w" "j \<noteq> t" using w(1) unfolding c(1) oth by (auto split: if_splits)
      have g: "pages m (fi_page w) \<noteq> None" "\<And>j' w'. fsis m j' = Some w' \<Longrightarrow> fi_page w' = fi_page w \<Longrightarrow> j' = j"
        using p K j(1) w(2) unfolding inv_pages_def by blast+
      have "fi_page w \<noteq> fi_page tv" using g(2) [OF tv] j(2) by auto
      then have "pages m3 (fi_page w) \<noteq> None" using m3(6) g(1) by simp
      moreover have "fsis ?m' j' = Some w' \<Longrightarrow> fi_page w' = fi_page w \<Longrightarrow> j' = j" for j' w'
        using g(2) unfolding c(1) oth by (auto split: if_splits)
      ultimately show "pages ?m' (fi_page w) \<noteq> None \<and> (\<forall>j' w'. fsis ?m' j' = Some w' \<longrightarrow> fi_page w' = fi_page w \<longrightarrow> j' = j)"
        unfolding c(5) by blast
    qed
    ultimately have "fs_inv K R ?m'" by (simp add: fs_inv_def)
    moreover have "\<forall>j. j \<noteq> t \<longrightarrow> fsis ?m' j = fsis m j" "fsis ?m' t = None" unfolding c(1) oth by simp_all
    ultimately show ?thesis using run True r2 m3(1) c(2,4) last by (intro exI [of _ ?m']) simp
  qed
qed

lemma unlist_inv:
  fixes d :: nat
  assumes i: "fs_inv K R m" and pv: "fsis m parent = Some pv"
  defines "m1 \<equiv> m\<lparr>fsis := (fsis m)(parent \<mapsto> pv\<lparr>dentry_list := remove1 d (dentry_list pv)\<rparr>)\<rparr>"
  shows "fs_inv K R m1 \<and> (\<forall>j v. d \<in> set (dentry_list pv) \<longrightarrow> fsis m1 j = Some v \<longrightarrow> d \<notin> set (dentry_list v))"
proof -
  note p = fs_inv_parts [OF i]
  have f: "\<exists>w. fsis m j = Some w \<and> fi_sb w = fi_sb v \<and> fi_page w = fi_page v \<and> dentry_count w = dentry_count v \<and>
      dentry_list v = (if j = parent then remove1 d (dentry_list w) else dentry_list w)" if "fsis m1 j = Some v" for j v
    using that pv by (auto simp: m1_def split: if_splits)
  have g: "fsis m j = Some w \<Longrightarrow> \<exists>v. fsis m1 j = Some v \<and> fi_sb v = fi_sb w" for j w using pv by (auto simp: m1_def)
  have c: "fsds m1 = fsds m" "fsss m1 = fsss m" "avail m1 = avail m" "pages m1 = pages m" by (simp_all add: m1_def)
  have dist: "distinct (dentry_list w)" if "fsis m j = Some w" for j w using p that unfolding inv_dirs_def by blast
  have uni: "fsis m j = Some w \<Longrightarrow> fsis m k = Some u \<Longrightarrow> x \<in> set (dentry_list w) \<Longrightarrow> x \<in> set (dentry_list u) \<Longrightarrow> j = k" for j k w u x
    using p unfolding inv_dirs_def by blast
  have sub: "set (dentry_list v) \<subseteq> set (dentry_list w)" if "dentry_list v = (if j = parent then remove1 d (dentry_list w) else dentry_list w)" for j v w
    using that set_remove1_subset [of d "dentry_list w"] by (simp split: if_splits)
  have lk: "links m1 = links m" by (rule ext) (simp add: links_def c)
  have "0 < parent" using p pv fsis_pos by blast
  then have "inv_objs m1" using p unfolding inv_objs_def c by (auto simp: m1_def)
  moreover have "inv_dirs m1"
    unfolding inv_dirs_def
  proof (intro conjI allI impI)
    fix j v assume "fsis m1 j = Some v"
    then obtain w where w: "fsis m j = Some w" "dentry_list v = (if j = parent then remove1 d (dentry_list w) else dentry_list w)" using f by blast
    show "distinct (dentry_list v)" using w dist [OF w(1)] by simp
    show "\<forall>x \<in> set (dentry_list v). \<exists>e n. fsds m1 x = Some e \<and> fd_name e = Some n"
      using p w(1) sub [OF w(2)] unfolding inv_dirs_def c by blast
  next
    fix a b v w x assume h: "fsis m1 a = Some v" "fsis m1 b = Some w" "x \<in> set (dentry_list v)" "x \<in> set (dentry_list w)"
    obtain v0 w0 where "fsis m a = Some v0" "x \<in> set (dentry_list v0)" "fsis m b = Some w0" "x \<in> set (dentry_list w0)"
      using f [OF h(1)] f [OF h(2)] h(3,4) sub by blast
    then show "a = b" using uni by blast
  qed
  moreover have "inv_count R m1" using p f unfolding inv_count_def lk by metis
  moreover have "inv_supers m1" using p f g unfolding inv_supers_def c by metis
  moreover have "inv_fresh m1" using p pv unfolding inv_fresh_def c by (auto simp: m1_def)
  moreover have "inv_pages K m1" using p f unfolding inv_pages_def c by metis
  moreover have "d \<notin> set (dentry_list v)" if a: "d \<in> set (dentry_list pv)" and b: "fsis m1 j = Some v" for j v
  proof -
    obtain w where w: "fsis m j = Some w" "dentry_list v = (if j = parent then remove1 d (dentry_list w) else dentry_list w)" using f [OF b] by blast
    show ?thesis
    proof (cases "j = parent")
      case True
      then show ?thesis using w dist [OF w(1)] by simp
    next
      case False
      then show ?thesis using w uni [OF pv w(1) a] by auto
    qed
  qed
  ultimately show ?thesis by (simp add: fs_inv_def)
qed

lemma delete_dentry_inv:
  assumes i: "fs_inv K R m" and pv: "fsis m parent = Some pv" and d: "d \<in> set (dentry_list pv)" and sb: "fsss m sb \<noteq> None"
    and e: "fsds m d = Some e" and t: "fsis m (target_inode e) = Some t"
    and empt: "\<not> ((fi_mode t AND S_IFMT) = S_IFDIR \<and> dentry_list t \<noteq> [])"
  shows "\<exists>m'. fs_delete_dentry K sb parent d m = Some m' \<and> fs_inv K R m' \<and> fsds m' = free_at (fsds m) d \<and> avail m' = avail m \<and>
    (parent \<noteq> target_inode e \<longrightarrow> fsis m' parent = Some (pv\<lparr>dentry_list := remove1 d (dentry_list pv)\<rparr>)) \<and>
    (fsis m' (target_inode e) = None \<longleftrightarrow> links m (target_inode e) = {d} \<and> target_inode e \<notin> R)"
proof -
  note p = fs_inv_parts [OF i]
  define m1 where "m1 = m\<lparr>fsis := (fsis m)(parent \<mapsto> pv\<lparr>dentry_list := remove1 d (dentry_list pv)\<rparr>)\<rparr>"
  have i1: "fs_inv K R m1" and un: "\<forall>j v. fsis m1 j = Some v \<longrightarrow> d \<notin> set (dentry_list v)"
    using unlist_inv [OF i pv, of d] d unfolding m1_def by blast+
  have c: "fsds m1 = fsds m" "fsss m1 = fsss m" "avail m1 = avail m" by (simp_all add: m1_def)
  have pos: "0 < parent" "0 < d" "0 < target_inode e" using p pv e t fsis_pos fsds_pos by blast+
  have "\<And>y. y \<in> set (dentry_list pv) \<Longrightarrow> fsds m y \<noteq> None" using p pv by (fastforce simp: inv_dirs_def)
  then have ld: "list_del (fsds m) 0 d (dentry_list pv) = Some (remove1 d (dentry_list pv))" by (intro list_del_live) auto
  have run: "fs_delete_dentry K sb parent d m = dentry_put K sb d m1"
    using pv e t pos empt ld by (auto simp: fs_delete_dentry_def m1_def)
  have lk: "links m1 = links m" by (rule ext) (simp add: links_def c)
  have e1: "fsds m1 d = Some e" and sb1: "fsss m1 sb \<noteq> None" using e sb c by simp_all
  obtain m' where m': "dentry_put K sb d m1 = Some m'" "fs_inv K R m'" "fsds m' = free_at (fsds m1) d" "avail m' = avail m1"
    "\<forall>j. j \<noteq> target_inode e \<longrightarrow> fsis m' j = fsis m1 j"
    "fsis m' (target_inode e) = None \<longleftrightarrow> links m1 (target_inode e) = {d} \<and> target_inode e \<notin> R"
    using dentry_put_inv [OF i1 e1 un sb1] by (elim exE conjE) auto
  have "fsis m1 parent = Some (pv\<lparr>dentry_list := remove1 d (dentry_list pv)\<rparr>)" by (simp add: m1_def)
  then show ?thesis using run m' c lk by auto
qed

text \<open>Creating a file or directory either adds one inode with one entry, or leaves the file system as it was.\<close>

lemma create_inode_inv:
  assumes i: "fs_inv K R m" and pv: "fsis m parent = Some pv" and sb: "fsss m sb = Some s" and R: "\<forall>r \<in> R. fsis m r \<noteq> None"
  shows "\<exists>d m'. fs_create_inode K sb parent (Some f) major name m = Some (d, m') \<and> fs_inv K R m' \<and>
    (d = 0 \<longrightarrow> fsis m' = fsis m \<and> fsds m' = fsds m \<and> fsss m' = fsss m) \<and>
    (d \<noteq> 0 \<longrightarrow> (\<exists>a w. fsis m a = None \<and> fsds m d = None \<and> fsis m' a = Some w \<and> fi_mode w = S_IFREG OR mode_755 \<and> dentry_list w = [] \<and>
       dentry_count w = 1 \<and> fsds m' = (fsds m)(d \<mapsto> \<lparr>fd_magic = MAGIC, fd_name = Some name, target_inode = a\<rparr>) \<and>
       fsis m' parent = Some (pv\<lparr>dentry_list := d # dentry_list pv\<rparr>)))"
proof -
  note p = fs_inv_parts [OF i]
  obtain a m1 where k: "kmalloc m = (a, m1)" by (cases "kmalloc m")
  have m1: "fs_inv K R m1" "m1 = m\<lparr>avail := avail m1\<rparr>" using kmalloc_inv [OF i k] by auto
  show ?thesis
  proof (cases "a = 0")
    case True
    then have "fs_create_inode K sb parent (Some f) major name m = Some (0, m1)"
      using k by (simp add: fs_create_inode_def fs_create_empty_inode_def)
    moreover have "fsis m1 = fsis m" "fsds m1 = fsds m" "fsss m1 = fsss m" by (subst m1(2), simp)+
    ultimately show ?thesis using m1(1) by simp
  next
    case a: False
    have fresh: "fsis m a = None" "fsds m a = None" "fsss m a = None" "a \<notin> set (avail m1)" using kmalloc_inv [OF i k] a by auto
    define v where "v = new_fs_inode K sb f major (garbage m a)"
    define m2 where "m2 = m1\<lparr>fsis := (fsis m)(a \<mapsto> v), fsss := (fsss m)(sb \<mapsto> s\<lparr>inode_list := a # inode_list s\<rparr>)\<rparr>"
    have e: "fs_create_empty_inode K sb (Some f) major m = Some (a, m2)" "fs_inv K R m2"
      using create_empty_inode_inv [OF i sb R k a, of f major] unfolding m2_def v_def by blast+
    have v: "fi_sb v = sb" "dentry_list v = []" "dentry_count v = 0" "fi_mode v = S_IFREG OR mode_755" "K = Initramfs \<Longrightarrow> fi_page v = 0"
      "K = Pipefs \<Longrightarrow> fi_buf v = 0" by (cases K; simp add: v_def new_fs_inode_def)+
    have ne: "parent \<noteq> a" using pv fresh by auto
    have c2: "fsis m2 = (fsis m)(a \<mapsto> v)" "fsds m2 = fsds m" "fsss m2 = (fsss m)(sb \<mapsto> s\<lparr>inode_list := a # inode_list s\<rparr>)"
      by (simp add: m2_def, simp add: m2_def, subst m1(2), simp, simp add: m2_def)
    have pv2: "fsis m2 parent = Some pv" "fsis m2 a = Some v" using pv ne by (simp_all add: c2)
    obtain d m3 where k1: "kmalloc m2 = (d, m3)" by (cases "kmalloc m2")
    obtain n m4 where k2: "kmalloc m3 = (n, m4)" by (cases "kmalloc m3")
    have pos: "0 < parent" "0 < a" "0 < sb" using p pv fsis_pos a fsss_pos sb by auto
    show ?thesis
    proof (cases "d \<noteq> 0 \<and> n \<noteq> 0")
      case True
      then have d0: "d \<noteq> 0" and n0: "n \<noteq> 0" by simp_all
      obtain m5 where r: "fs_create_dentry parent a name m2 = Some (d, m5)" "fs_inv K R m5"
        and m5: "m5 = m4\<lparr>fsds := (fsds m2)(d \<mapsto> \<lparr>fd_magic = MAGIC, fd_name = Some name, target_inode = a\<rparr>),
          fsis := ((fsis m2)(a \<mapsto> v\<lparr>dentry_count := dentry_count v + 1\<rparr>))(parent \<mapsto> (the (((fsis m2)(a \<mapsto> v\<lparr>dentry_count := dentry_count v + 1\<rparr>)) parent))\<lparr>dentry_list := d # dentry_list pv\<rparr>)\<rparr>"
        using create_dentry_inv [OF e(2) pv2(1) pv2(2) k1 d0 k2 n0, of name] by blast
      have dn: "fsds m d = None" using kmalloc_inv [OF e(2) k1] d0 c2 by simp
      have "fs_create_inode K sb parent (Some f) major name m = Some (d, m5)"
        using e(1) r(1) a d0 by (simp add: fs_create_inode_def)
      moreover have "fsis m5 parent = Some (pv\<lparr>dentry_list := d # dentry_list pv\<rparr>)" "fsds m5 = (fsds m)(d \<mapsto> \<lparr>fd_magic = MAGIC, fd_name = Some name, target_inode = a\<rparr>)"
        "fsis m5 a = Some (v\<lparr>dentry_count := dentry_count v + 1\<rparr>)"
        using ne pv2 by (simp_all add: m5 c2)
      ultimately show ?thesis using r(2) d0 fresh(1) v dn by (auto simp del: fun_upd_apply)
    next
      case False
      have cd: "\<exists>m5. fs_create_dentry parent a name m2 = Some (0, m5)"
        using False k1 k2 pos by (auto simp: fs_create_dentry_def)
      then obtain m5 where m5: "fs_create_dentry parent a name m2 = Some (0, m5)" by blast
      have r5: "m5 = m2\<lparr>avail := avail m5\<rparr>" "fs_inv K R m5"
        using create_dentry_fails [OF e(2) m5 pos(1,2) pv2] by auto
      have c5: "fsis m5 = fsis m2" "fsds m5 = fsds m2" "fsss m5 = fsss m2" by (subst r5(1), simp)+
      let ?m6 = "m5\<lparr>fsss := (fsss m5)(sb \<mapsto> s\<lparr>inode_list := inode_list s\<rparr>)\<rparr>"
      have u: "unlink_inode a m5 = Some ?m6"
        using unlink_inode_run [of m5 a v "s\<lparr>inode_list := a # inode_list s\<rparr>"] fs_inv_parts [OF r5(2)] v(1) by (simp add: c5 c2)
      have pg: "K = Initramfs \<Longrightarrow> fi_page v \<noteq> 0 \<Longrightarrow> pages ?m6 (fi_page v) \<noteq> None" using v by simp
      have av: "fsis ?m6 a = Some v" by (simp add: c5 c2)
      obtain m7 where m7: "fs_inode_put K a ?m6 = Some m7" "fsis m7 = free_at (fsis ?m6) a" "fsds m7 = fsds ?m6" "fsss m7 = fsss ?m6" "avail m7 = avail ?m6"
        "\<forall>q. q \<noteq> fi_page v \<longrightarrow> pages m7 q = pages ?m6 q"
        using inode_put_run [OF av pos(2) pg] by blast
      have run: "fs_create_inode K sb parent (Some f) major name m = Some (0, m7)"
        using e(1) m5 a u m7(1) by (simp add: fs_create_inode_def)
      have same: "fsis m7 = fsis m" "fsds m7 = fsds m" "fsss m7 = fsss m"
        using fresh sb by (auto simp: m7 c5 c2 fun_upd_idem intro!: ext)
      have pgs: "pages m5 = pages m" by (subst r5(1), simp add: m2_def, subst m1(2), simp)
      have avl: "avail m7 = avail m5" by (simp add: m7)
      have lk: "links m7 = links m" by (rule ext) (simp add: links_def same)
      have f5: "distinct (filter (\<lambda>a. a \<noteq> 0) (avail m5))"
        "\<And>x. x \<in> set (avail m5) \<Longrightarrow> x \<noteq> 0 \<Longrightarrow> fsis m5 x = None \<and> fsds m5 x = None \<and> fsss m5 x = None"
        using fs_inv_parts [OF r5(2)] by (simp_all add: inv_fresh_def)
      have "inv_fresh m7"
        unfolding inv_fresh_def avl same
      proof (intro conjI ballI impI)
        fix x assume "x \<in> set (avail m5)" "x \<noteq> 0"
        from f5(2) [OF this] show "fsis m x = None" "fsds m x = None" "fsss m x = None"
          unfolding c5 c2 by (simp_all split: if_splits)
      qed (rule f5(1))
      moreover have "inv_pages K m7"
        unfolding inv_pages_def
      proof (intro impI allI)
        fix j w assume K: "K = Initramfs" and w: "fsis m7 j = Some w" "fi_page w \<noteq> 0"
        have "fi_page v = 0" using K v by simp
        then have "pages m7 (fi_page w) = pages m (fi_page w)" using m7(6) w(2) pgs by simp
        then show "pages m7 (fi_page w) \<noteq> None \<and> (\<forall>j' w'. fsis m7 j' = Some w' \<longrightarrow> fi_page w' = fi_page w \<longrightarrow> j' = j)"
          using p K w unfolding inv_pages_def same by auto
      qed
      ultimately have "fs_inv K R m7"
        using p by (simp add: fs_inv_def inv_objs_def inv_dirs_def inv_count_def inv_supers_def same lk)
      then show ?thesis using run same by simp
    qed
  qed
qed

section \<open>Properties\<close>

text \<open>C2: the operations of a file system's tree never fault on a well-formed tree and keep it well formed: link counts equal the
  number of directory entries, every entry and inode is listed where it belongs, and an inode is freed exactly when its last
  entry goes. Creation that runs out of memory leaves the tree as it was.\<close>

theorem fs_tree_invariant:
  assumes i: "fs_inv K R m" and pv: "fsis m parent = Some pv" and sb: "fsss m sb = Some s" and R: "\<forall>r \<in> R. fsis m r \<noteq> None"
  shows "(\<exists>d m'. fs_create_inode K sb parent (Some f) major name m = Some (d, m') \<and> fs_inv K R m' \<and>
      (d = 0 \<longrightarrow> fsis m' = fsis m \<and> fsds m' = fsds m \<and> fsss m' = fsss m)) \<and>
    (\<forall>t tv. fsis m t = Some tv \<longrightarrow> (\<exists>d m'. fs_create_dentry parent t name m = Some (d, m') \<and> fs_inv K R m')) \<and>
    (\<forall>d \<in> set (dentry_list pv). \<exists>e t m'. fsds m d = Some e \<and> fsis m (target_inode e) = Some t \<and>
      fs_delete_dentry K sb parent d m = Some m' \<and> fs_inv K R m' \<and>
      (if (fi_mode t AND S_IFMT) = S_IFDIR \<and> dentry_list t \<noteq> [] then m' = m
       else fsds m' = free_at (fsds m) d \<and> (fsis m' (target_inode e) = None \<longleftrightarrow> links m (target_inode e) = {d} \<and> target_inode e \<notin> R)))"
proof (intro conjI allI impI ballI)
  show "\<exists>d m'. fs_create_inode K sb parent (Some f) major name m = Some (d, m') \<and> fs_inv K R m' \<and>
      (d = 0 \<longrightarrow> fsis m' = fsis m \<and> fsds m' = fsds m \<and> fsss m' = fsss m)"
    using create_inode_inv [OF i pv sb R, of f major name] by (elim exE conjE) (intro exI conjI)
next
  fix t tv assume tv: "fsis m t = Some tv"
  have pos: "0 < parent" "0 < t" using fs_inv_parts [OF i] fsis_pos pv tv by blast+
  obtain d m1 where k1: "kmalloc m = (d, m1)" by (cases "kmalloc m")
  obtain n m2 where k2: "kmalloc m1 = (n, m2)" by (cases "kmalloc m1")
  show "\<exists>d m'. fs_create_dentry parent t name m = Some (d, m') \<and> fs_inv K R m'"
  proof (cases "d \<noteq> 0 \<and> n \<noteq> 0")
    case True
    then show ?thesis using create_dentry_inv [OF i pv tv k1 _ k2] by blast
  next
    case False
    then have "\<exists>m'. fs_create_dentry parent t name m = Some (0, m')"
      using k1 k2 pos by (cases "d = 0") (simp_all add: fs_create_dentry_def Let_def)
    then obtain m' where "fs_create_dentry parent t name m = Some (0, m')" by blast
    with create_dentry_fails [OF i this pos pv tv] show ?thesis by blast
  qed
next
  fix d assume d: "d \<in> set (dentry_list pv)"
  note p = fs_inv_parts [OF i]
  obtain e where e: "fsds m d = Some e" using p pv d unfolding inv_dirs_def by blast
  then obtain t where t: "fsis m (target_inode e) = Some t" using p unfolding inv_objs_def by blast
  have pos: "0 < d" "0 < target_inode e" using p e t fsds_pos fsis_pos by blast+
  show "\<exists>e t m'. fsds m d = Some e \<and> fsis m (target_inode e) = Some t \<and>
      fs_delete_dentry K sb parent d m = Some m' \<and> fs_inv K R m' \<and>
      (if (fi_mode t AND S_IFMT) = S_IFDIR \<and> dentry_list t \<noteq> [] then m' = m
       else fsds m' = free_at (fsds m) d \<and> (fsis m' (target_inode e) = None \<longleftrightarrow> links m (target_inode e) = {d} \<and> target_inode e \<notin> R))"
  proof (cases "(fi_mode t AND S_IFMT) = S_IFDIR \<and> dentry_list t \<noteq> []")
    case True
    then have "fs_delete_dentry K sb parent d m = Some m" using e t pos by (simp add: fs_delete_dentry_def)
    then show ?thesis using e t True i by (intro exI [of _ e] exI [of _ t] exI [of _ m]) simp
  next
    case False
    have "fsss m sb \<noteq> None" using sb by simp
    from delete_dentry_inv [OF i pv d this e t False]
    obtain m' where "fs_delete_dentry K sb parent d m = Some m'" "fs_inv K R m'" "fsds m' = free_at (fsds m) d"
      "fsis m' (target_inode e) = None \<longleftrightarrow> links m (target_inode e) = {d} \<and> target_inode e \<notin> R"
      by (elim exE conjE) (rule that)
    then show ?thesis using e t False by (intro exI [of _ e] exI [of _ t] exI [of _ m']) auto
  qed
qed

text \<open>C3: a file that was created is found under its name, every other lookup in its directory is unchanged, and deleting its entry
  again undoes the effect on all lookups of the directory.\<close>

theorem fs_create_lookup_delete:
  assumes i: "fs_inv K R m" and pv: "fsis m parent = Some pv" and sb: "fsss m sb = Some s" and R: "\<forall>r \<in> R. fsis m r \<noteq> None"
    and dir: "(fi_mode pv AND S_IFMT) = S_IFDIR" and new: "fs_lookup parent name m = Some 0"
    and c: "fs_create_inode K sb parent (Some f) major name m = Some (d, m1)" "d \<noteq> 0"
  shows "fs_lookup parent name m1 = Some d \<and> (\<forall>n. n \<noteq> name \<longrightarrow> fs_lookup parent n m1 = fs_lookup parent n m) \<and>
    (\<exists>m2. fs_delete_dentry K sb parent d m1 = Some m2 \<and> (\<forall>n. fs_lookup parent n m2 = fs_lookup parent n m))"
proof -
  note p = fs_inv_parts [OF i]
  have p0: "0 < parent" using p pv fsis_pos by blast
  obtain a w where i1: "fs_inv K R m1" and a: "fsis m a = None" "fsds m d = None" "fsis m1 a = Some w" "dentry_list w = []"
    and ds: "fsds m1 = (fsds m)(d \<mapsto> \<lparr>fd_magic = MAGIC, fd_name = Some name, target_inode = a\<rparr>)"
    and p1: "fsis m1 parent = Some (pv\<lparr>dentry_list := d # dentry_list pv\<rparr>)"
    using create_inode_inv [OF i pv sb R, of f major name] c by auto
  have d0: "0 < d" using c by simp
  have nd: "d \<notin> set (dentry_list pv)" using p pv a(2) unfolding inv_dirs_def by fastforce
  have fr: "find_name (fsds m1) (dentry_list pv) n = find_name (fsds m) (dentry_list pv) n" for n
    by (rule fs_names.find_frame) (use nd ds in auto)
  have lm: "fs_lookup parent n m = find_name (fsds m) (dentry_list pv) n" for n
    using p0 pv dir by (simp add: fs_lookup_def)
  have l1: "fs_lookup parent n m1 = (if n = name then Some d else fs_lookup parent n m)" for n
  proof -
    have "fs_lookup parent n m1 = find_name (fsds m1) (d # dentry_list pv) n" using p0 p1 dir by (simp add: fs_lookup_def)
    then show ?thesis using d0 fr lm by (simp add: ds)
  qed
  have e1: "fsds m1 d = Some \<lparr>fd_magic = MAGIC, fd_name = Some name, target_inode = a\<rparr>" by (simp add: ds)
  have "parent \<noteq> a" using pv a(1) by auto
  have sb1: "fsss m1 sb \<noteq> None"
  proof -
    have "fsis m1 a = Some w" by (rule a(3))
    show ?thesis using c sb by (auto simp: fs_create_inode_def fs_create_empty_inode_def bind_eq_Some_conv unlink_inode_def
        fs_create_dentry_def kmalloc_def Let_def split: if_splits list.splits)
  qed
  have "\<exists>m2. fs_delete_dentry K sb parent d m1 = Some m2 \<and> fs_inv K R m2 \<and> fsds m2 = free_at (fsds m1) d \<and> avail m2 = avail m1 \<and>
    (parent \<noteq> a \<longrightarrow> fsis m2 parent = Some (pv\<lparr>dentry_list := d # dentry_list pv\<rparr>\<lparr>dentry_list := remove1 d (d # dentry_list pv)\<rparr>)) \<and>
    (fsis m2 a = None \<longleftrightarrow> links m1 a = {d} \<and> a \<notin> R)"
    using delete_dentry_inv [OF i1 p1 _ sb1 e1, of w] a(3,4) by simp
  then obtain m2 where m2: "fs_delete_dentry K sb parent d m1 = Some m2" "fsds m2 = free_at (fsds m1) d" "fsis m2 parent = Some pv"
    using \<open>parent \<noteq> a\<close> by auto
  have "find_name (fsds m2) (dentry_list pv) n = find_name (fsds m) (dentry_list pv) n" for n
    by (rule fs_names.find_frame) (use nd ds m2 in auto)
  moreover have "fs_lookup parent n m2 = find_name (fsds m2) (dentry_list pv) n" for n
    using p0 m2(3) dir by (simp add: fs_lookup_def)
  ultimately have "fs_lookup parent n m2 = fs_lookup parent n m" for n
    by (simp add: lm)
  then show ?thesis using l1 m2(1) by auto
qed


section \<open>Witnesses\<close>

text \<open>A mounted pipe file system with an empty root directory.\<close>

definition root_inode_w :: fs_inode where
  "root_inode_w = \<lparr>fi_magic = MAGIC, fi_mode = S_IFDIR OR mode_755, fi_major = 0, dentry_count = 1, fi_fop = Some Pipefs_fops,
     dentry_list = [], fi_sb = 2, fi_buf = 0, fi_bdev = 0, fi_kobject = 0, fi_page = 0, fi_size = 0, fi_writable = 0\<rparr>"

definition mounted_w :: fsmem where
  "mounted_w = \<lparr>avail = [10, 11, 12, 13], garbage = (\<lambda>_. root_inode_w), page_junk = (\<lambda>_ _. 0), type_junk = (\<lambda>_. 0),
     pipe_junk = (\<lambda>_. demo_pipe), fsis = [1 \<mapsto> root_inode_w], fsds = Map.empty,
     fsss = [2 \<mapsto> \<lparr>fsb_magic = MAGIC, rootinode = 1, inode_list = [1]\<rparr>], pipes = Map.empty, pages = Map.empty, blocks = Map.empty\<rparr>"

lemma mounted_w_inv: "fs_inv Pipefs {1} mounted_w"
  by (auto simp: fs_inv_def inv_objs_def inv_dirs_def inv_count_def inv_supers_def inv_fresh_def inv_pages_def links_def
      mounted_w_def root_inode_w_def split: if_splits)

lemma mounted_w_simps: "fsis mounted_w 1 = Some root_inode_w" "\<exists>s. fsss mounted_w 2 = Some s" "\<forall>r \<in> {1}. fsis mounted_w r \<noteq> None"
  "(fi_mode root_inode_w AND S_IFMT) = S_IFDIR" "fs_lookup 1 [97] mounted_w = Some 0"
  by (simp_all add: mounted_w_def root_inode_w_def fs_lookup_def)

theorem fs_tree_invariant_witness:
  "\<exists>d m'. fs_create_inode Pipefs 2 1 (Some Pipefs_fops) 0 [97] mounted_w = Some (d, m') \<and> fs_inv Pipefs {1} m'"
proof -
  obtain s where "fsss mounted_w 2 = Some s" using mounted_w_simps(2) by blast
  from fs_tree_invariant [OF mounted_w_inv mounted_w_simps(1) this mounted_w_simps(3), of Pipefs_fops 0 "[97]"]
  show ?thesis by blast
qed

theorem fs_create_lookup_delete_witness:
  "\<exists>d m1. fs_create_inode Pipefs 2 1 (Some Pipefs_fops) 0 [97] mounted_w = Some (d, m1) \<and> fs_lookup 1 [97] m1 = Some d"
proof -
  obtain s where s: "fsss mounted_w 2 = Some s" using mounted_w_simps(2) by blast
  have "\<exists>m1. fs_create_inode Pipefs 2 1 (Some Pipefs_fops) 0 [97] mounted_w = Some (11, m1)"
    by (simp add: fs_create_inode_def fs_create_empty_inode_def fs_create_dentry_def kmalloc_def mounted_w_def root_inode_w_def new_fs_inode_def list_add_def Let_def)
  then obtain m1 where c: "fs_create_inode Pipefs 2 1 (Some Pipefs_fops) 0 [97] mounted_w = Some (11, m1)" by blast
  have "(11 :: nat) \<noteq> 0" by simp
  from fs_create_lookup_delete [OF mounted_w_inv mounted_w_simps(1) s mounted_w_simps(3,4,5) c this]
  show ?thesis using c by blast
qed

end
