(* ===== verification/Tty.thy ===== *)
theory Tty
  imports Pipe "HOL-Library.Sublist"
begin

text \<open>
  The serial console, \<^verbatim>\<open>drivers/tty/stm32f4/stm32f4_tty0.c\<close>, and the microsecond clock,
  \<^verbatim>\<open>drivers/timer/rp2350/timer.c\<close>. The interrupt handler of the USART puts what arrives into a ring, which drops its
  oldest byte when it is full; reading takes bytes out with interrupts disabled; writing waits for the transmitter (it
  becomes ready in the end) and sends.

  The ring is read as a pipe's buffer, whose lemmas give its behaviour.
\<close>

record tty =
  rx_buffer :: "u8 list"
  rx_rear :: u16
  rx_front :: u16
  usart_SR :: u32
  usart_DR :: u32
  tx_line :: "u8 list"
  irq_on :: bool

abbreviation (input) RXNE :: u32 where "RXNE \<equiv> 32"

text \<open>Indices of the ring are advanced as \<open>int\<close>, reduced, and stored in 16 bits. An access outside the buffer is a fault.\<close>

definition rx_next :: "u16 \<Rightarrow> u16" where
  "rx_next i = of_nat ((unat i + 1) mod 1024)"

definition USART1_IRQHandler :: "tty \<Rightarrow> tty option" where
  "USART1_IRQHandler t =
     (if usart_SR t AND RXNE = 0 then Some t
      else let data = (ucast (usart_DR t) :: u8);
        t = t\<lparr>usart_SR := usart_SR t AND NOT RXNE\<rparr>;
        next_rear = rx_next (rx_front t);
        t = (if next_rear = rx_rear t then t\<lparr>rx_rear := rx_next (rx_rear t)\<rparr> else t) in
        if unat (rx_front t) < length (rx_buffer t)
        then Some (t\<lparr>rx_buffer := (rx_buffer t)[unat (rx_front t) := data], rx_front := next_rear\<rparr>)
        else None)"

definition get_rx_buffer_state :: "tty \<Rightarrow> int" where
  "get_rx_buffer_state t = (if rx_rear t \<noteq> rx_front t then 1 else 0)"

definition get_rx_buffer_data :: "tty \<Rightarrow> (u8 \<times> tty) option" where
  "get_rx_buffer_data t = (if unat (rx_rear t) < length (rx_buffer t)
     then Some (rx_buffer t ! unat (rx_rear t), t\<lparr>rx_rear := rx_next (rx_rear t)\<rparr>) else None)"

text \<open>The byte stored through \<open>data\<close>, if one is; interrupts are enabled at the end, whether they were before or not.\<close>

definition Usart1_read :: "tty \<Rightarrow> (int \<times> u8 option \<times> tty) option" where
  "Usart1_read t = (let t = t\<lparr>irq_on := False\<rparr> in
     if get_rx_buffer_state t = 1 then do {
       (x, t) \<leftarrow> get_rx_buffer_data t;
       Some (0, Some x, t\<lparr>irq_on := True\<rparr>) }
     else Some (-1, None, t\<lparr>irq_on := True\<rparr>))"

text \<open>The result of a read is the number of bytes it stored, the length of the list.\<close>

fun tty_read :: "nat \<Rightarrow> tty \<Rightarrow> (u8 list \<times> tty) option" where
  "tty_read 0 t = Some ([], t)"
| "tty_read (Suc n) t = do {
     (r, x, t) \<leftarrow> Usart1_read t;
     if r < 0 then Some ([], t)
     else do {
       c \<leftarrow> x;
       (cs, t) \<leftarrow> tty_read n t;
       Some (c # cs, t) } }"

definition USART_1_SendByte :: "u8 \<Rightarrow> tty \<Rightarrow> tty" where
  "USART_1_SendByte b t = t\<lparr>tx_line := tx_line t @ [b]\<rparr>"

fun tty_send :: "u8 list \<Rightarrow> tty \<Rightarrow> tty" where
  "tty_send [] t = t"
| "tty_send (c # cs) t =
     (let t = USART_1_SendByte c t; t = (if c = 10 then USART_1_SendByte 13 t else t) in tty_send cs t)"

definition tty_write :: "u8 list \<Rightarrow> tty \<Rightarrow> int \<times> tty" where
  "tty_write buf t = (int (length buf), tty_send buf t)"

text \<open>What goes over the line for a text.\<close>

definition crlf :: "u8 list \<Rightarrow> u8 list" where
  "crlf s = concat (map (\<lambda>c. if c = 10 then [10, 13] else [c]) s)"

lemma crlf_simps [simp]: "crlf [] = []" "crlf (c # s) = (if c = 10 then [10, 13] else [c]) @ crlf s" "crlf (s @ u) = crlf s @ crlf u"
  by (simp_all add: crlf_def)

lemma tty_send_line: "tty_send s t = t\<lparr>tx_line := tx_line t @ crlf s\<rparr>"
  by (induction s arbitrary: t) (simp_all add: USART_1_SendByte_def Let_def)

section \<open>The ring keeps the last bytes\<close>

definition rx_ring :: "tty \<Rightarrow> pipe_buffer" where
  "rx_ring t = \<lparr>pb_buffer = rx_buffer t, pb_size = 1024, pb_head = unat (rx_front t), pb_tail = unat (rx_rear t)\<rparr>"

definition tty_ok :: "tty \<Rightarrow> bool" where
  "tty_ok t \<longleftrightarrow> length (rx_buffer t) = 1024 \<and> rx_rear t < 1024 \<and> rx_front t < 1024"

definition unread :: "tty \<Rightarrow> u8 list" where
  "unread t = pipe_content (rx_ring t)"

lemma unat_u16: "i < (1024 :: u16) \<longleftrightarrow> unat i < 1024"
  by (simp add: word_less_nat_alt)

lemma ring_ok: "tty_ok t \<longleftrightarrow> pipe_ok (rx_ring t) \<and> length (rx_buffer t) = 1024"
  by (auto simp: tty_ok_def pipe_ok_def rx_ring_def unat_u16)

lemma unat_rx_next: "unat (rx_next i) = (unat i + 1) mod 1024"
  unfolding rx_next_def by (rule unat_of_nat_small) (simp add: order_less_trans [OF mod_less_divisor])

lemma rx_next_less: "rx_next i < 1024"
  by (simp add: unat_u16 unat_rx_next)

text \<open>The ring's operations are those of the pipe.\<close>

lemma u16_eq: "(a :: u16) = b \<longleftrightarrow> unat a = unat b"
  by (simp add: word_unat_eq_iff)

lemma ring_get: "tty_ok t \<Longrightarrow> pipe_get (rx_ring t) =
    (if rx_rear t = rx_front t then None else Some (rx_buffer t ! unat (rx_rear t), rx_ring (t\<lparr>rx_rear := rx_next (rx_rear t)\<rparr>)))"
  by (simp add: pipe_get_def pipe_buffer_read_def next_index_def rx_ring_def tty_ok_def unat_u16 unat_rx_next u16_eq)

lemma ring_put: "tty_ok t \<Longrightarrow> pipe_put (rx_ring t) x =
    (if rx_next (rx_front t) = rx_rear t then None
     else Some (rx_ring (t\<lparr>rx_buffer := (rx_buffer t)[unat (rx_front t) := x], rx_front := rx_next (rx_front t)\<rparr>)))"
  by (simp add: pipe_put_def pipe_buffer_write_def next_index_def rx_ring_def tty_ok_def unat_u16 unat_rx_next u16_eq)

lemma unread_empty: "tty_ok t \<Longrightarrow> unread t = [] \<longleftrightarrow> rx_rear t = rx_front t"
  using pipe_queue.get_empty [of "rx_ring t"] by (auto simp: ring_ok unread_def ring_get split: if_splits)

lemma unread_full: "tty_ok t \<Longrightarrow> length (unread t) = 1023 \<longleftrightarrow> rx_next (rx_front t) = rx_rear t"
  using pipe_queue.put_full [of "rx_ring t" 0] ring_put [of t 0] by (auto simp: ring_ok unread_def rx_ring_def split: if_splits)

lemma unread_length: "tty_ok t \<Longrightarrow> length (unread t) \<le> 1023"
  using pipe_len_less [of "rx_ring t"] by (simp add: ring_ok unread_def) (simp add: rx_ring_def)

lemma unread_rear: "tty_ok t \<Longrightarrow> unread t = x # xs \<Longrightarrow>
    rx_buffer t ! unat (rx_rear t) = x \<and> unread (t\<lparr>rx_rear := rx_next (rx_rear t)\<rparr>) = xs"
  using pipe_queue.get_some [of "rx_ring t", OF _ ring_get [THEN trans]] unread_empty [of t]
  by (auto simp: ring_ok unread_def ring_get)

lemma unread_front: "tty_ok t \<Longrightarrow> rx_next (rx_front t) \<noteq> rx_rear t \<Longrightarrow>
    unread (t\<lparr>rx_buffer := (rx_buffer t)[unat (rx_front t) := x], rx_front := rx_next (rx_front t)\<rparr>) = unread t @ [x]"
  using pipe_queue.put_some [of "rx_ring t" x] ring_put [of t x] by (auto simp: ring_ok unread_def)

lemma rx_next_neq: "rx_next i \<noteq> i"
proof -
  have "(n + 1) mod 1024 \<noteq> n" for n :: nat
    using mod_less_divisor [of 1024 "n + 1"] by (cases "n < 1024") (auto simp: mod_Suc)
  then show ?thesis by (metis unat_rx_next)
qed

lemma unread_other [simp]: "unread (t\<lparr>usart_SR := a\<rparr>) = unread t" "unread (t\<lparr>usart_DR := a\<rparr>) = unread t"
  "unread (t\<lparr>irq_on := b\<rparr>) = unread t" "unread (t\<lparr>tx_line := l\<rparr>) = unread t"
  by (simp_all add: unread_def rx_ring_def)

text \<open>A byte that arrives is put behind the unread ones, of which the first is lost when there is no room.\<close>

lemma irq_receives:
  assumes ok: "tty_ok t" and sr: "usart_SR t AND RXNE \<noteq> 0"
  obtains t' where "USART1_IRQHandler t = Some t'" "tty_ok t'"
    "unread t' = drop (length (unread t) - 1022) (unread t) @ [ucast (usart_DR t)]"
proof -
  let ?t = "(if rx_next (rx_front t) = rx_rear t then t\<lparr>rx_rear := rx_next (rx_rear t)\<rparr> else t)\<lparr>usart_SR := usart_SR t AND NOT RXNE\<rparr>"
  let ?t' = "?t\<lparr>rx_buffer := (rx_buffer ?t)[unat (rx_front ?t) := ucast (usart_DR t)], rx_front := rx_next (rx_front ?t)\<rparr>"
  have ok': "tty_ok ?t" "tty_ok ?t'" using ok by (simp_all add: tty_ok_def rx_next_less)
  have room: "rx_next (rx_front ?t) \<noteq> rx_rear ?t"
    using rx_next_neq by simp metis
  have "unread ?t = drop (length (unread t) - 1022) (unread t)"
  proof (cases "rx_next (rx_front t) = rx_rear t")
    case True
    then have "length (unread t) = 1023" using unread_full ok by blast
    with unread_rear [OF ok] True show ?thesis by (cases "unread t") simp_all
  next
    case False
    then have "length (unread t) \<le> 1022" using unread_full [OF ok] unread_length [OF ok] by linarith
    with False show ?thesis by simp
  qed
  then have "unread ?t' = drop (length (unread t) - 1022) (unread t) @ [ucast (usart_DR t)]"
    using unread_front [OF ok'(1) room] by simp
  moreover have "USART1_IRQHandler t = Some ?t'"
    using ok sr by (auto simp: USART1_IRQHandler_def Let_def tty_ok_def unat_u16)
  ultimately show thesis using ok'(2) by (intro that)
qed

lemma read_takes:
  assumes ok: "tty_ok t"
  shows "unread t = [] \<Longrightarrow> Usart1_read t = Some (-1, None, t\<lparr>irq_on := True\<rparr>)"
    and "unread t = x # xs \<Longrightarrow> \<exists>t'. Usart1_read t = Some (0, Some x, t') \<and> tty_ok t' \<and> unread t' = xs"
proof -
  show "unread t = [] \<Longrightarrow> Usart1_read t = Some (-1, None, t\<lparr>irq_on := True\<rparr>)"
    using unread_empty [OF ok] by (simp add: Usart1_read_def get_rx_buffer_state_def)
  assume u: "unread t = x # xs"
  let ?t = "t\<lparr>rx_rear := rx_next (rx_rear t), irq_on := True\<rparr>"
  have "unread ?t = xs" "tty_ok ?t" using unread_rear [OF ok u] ok by (simp_all add: unread_def rx_ring_def tty_ok_def rx_next_less)
  moreover have "Usart1_read t = Some (0, Some x, ?t)"
    using unread_rear [OF ok u] unread_empty [OF ok] u ok
    by (simp add: Usart1_read_def get_rx_buffer_state_def get_rx_buffer_data_def tty_ok_def unat_u16)
  ultimately show "\<exists>t'. Usart1_read t = Some (0, Some x, t') \<and> tty_ok t' \<and> unread t' = xs" by blast
qed

text \<open>A read without interrupts in between.\<close>

lemma tty_read_takes: "tty_ok t \<Longrightarrow> \<exists>t'. tty_read n t = Some (take n (unread t), t') \<and> tty_ok t' \<and> unread t' = drop n (unread t)"
proof (induction n arbitrary: t)
  case (Suc n)
  show ?case
  proof (cases "unread t")
    case Nil
    then show ?thesis using read_takes(1) [OF Suc.prems] Suc.prems by (simp add: tty_ok_def)
  next
    case (Cons x xs)
    then obtain u where u: "Usart1_read t = Some (0, Some x, u)" "tty_ok u" "unread u = xs" using read_takes(2) [OF Suc.prems] by blast
    then show ?thesis using Suc.IH [OF u(2)] Cons by auto
  qed
qed auto

text \<open>
  The line and its reader: bytes arrive, each with its interrupt, and between two of them a reader takes a byte if there
  is one. The hardware sets the flag and the data register before the interrupt.
\<close>

datatype tty_event = Arrive u8 | Take

definition tty_receive :: "u8 \<Rightarrow> tty \<Rightarrow> tty option" where
  "tty_receive b t = USART1_IRQHandler (t\<lparr>usart_SR := usart_SR t OR RXNE, usart_DR := ucast b\<rparr>)"

fun tty_run :: "tty_event list \<Rightarrow> tty \<Rightarrow> (u8 list \<times> tty) option" where
  "tty_run [] t = Some ([], t)"
| "tty_run (Arrive b # es) t = do { t \<leftarrow> tty_receive b t; tty_run es t }"
| "tty_run (Take # es) t = do {
     (r, x, t) \<leftarrow> Usart1_read t;
     (out, t) \<leftarrow> tty_run es t;
     Some (case_option [] (\<lambda>c. [c]) x @ out, t) }"

text \<open>The specification: a queue of at most 1023 bytes that drops its first one to make room.\<close>

fun line_run :: "tty_event list \<Rightarrow> u8 list \<Rightarrow> u8 list \<times> u8 list" where
  "line_run [] q = ([], q)"
| "line_run (Arrive b # es) q = line_run es (drop (length q - 1022) q @ [b])"
| "line_run (Take # es) [] = line_run es []"
| "line_run (Take # es) (x # q) = (let (out, q) = line_run es q in (x # out, q))"

fun arrived :: "tty_event list \<Rightarrow> u8 list" where
  "arrived [] = []"
| "arrived (Arrive b # es) = b # arrived es"
| "arrived (Take # es) = arrived es"

lemma tty_receives: "tty_ok t \<Longrightarrow> \<exists>t'. tty_receive b t = Some t' \<and> tty_ok t' \<and> unread t' = drop (length (unread t) - 1022) (unread t) @ [b]"
  unfolding tty_receive_def
  by (rule irq_receives [of "t\<lparr>usart_SR := usart_SR t OR RXNE, usart_DR := ucast b\<rparr>"])
    (auto simp: tty_ok_def bit_eq_iff bit_simps unsigned_ucast_eq take_bit_word_eq_self intro!: exI [of _ 5])

lemma tty_run_line: "tty_ok t \<Longrightarrow> \<exists>t'. tty_run es t = Some (fst (line_run es (unread t)), t') \<and> tty_ok t' \<and> unread t' = snd (line_run es (unread t))"
proof (induction es arbitrary: t)
  case (Cons e es)
  show ?case
  proof (cases e)
    case (Arrive b)
    then show ?thesis using tty_receives [OF Cons.prems, of b] Cons.IH by fastforce
  next
    case e: Take
    show ?thesis
    proof (cases "unread t")
      case Nil
      then show ?thesis using read_takes(1) [OF Cons.prems] Cons.IH [of "t\<lparr>irq_on := True\<rparr>"] Cons.prems e by (auto simp: tty_ok_def)
    next
      case (Cons x xs)
      then obtain u where "Usart1_read t = Some (0, Some x, u)" "tty_ok u" "unread u = xs" using read_takes(2) [OF Cons.prems] by blast
      then show ?thesis using Cons.IH [of u] Cons e by (auto simp: split_beta)
    qed
  qed
qed simp

lemma line_subseq: "subseq (fst (line_run es q) @ snd (line_run es q)) (q @ arrived es)"
proof (induction es q rule: line_run.induct)
  case (2 b es q)
  have "subseq (drop (length q - 1022) q) q" by (metis append_take_drop_id subseq_drop_many subseq_order.refl)
  then have "subseq ((drop (length q - 1022) q @ [b]) @ arrived es) (q @ arrived (Arrive b # es))"
    using list_emb_append_mono [of "(=)" "drop (length q - 1022) q" q "b # arrived es" "b # arrived es"] by simp
  with 2 show ?case by (auto intro: subseq_order.trans)
qed (auto simp: split_beta)

lemma line_suffix: "suffix (snd (line_run es q)) (q @ arrived es)"
proof (induction es q rule: line_run.induct)
  case (2 b es q)
  have "suffix ((drop (length q - 1022) q @ [b]) @ arrived es) (q @ arrived (Arrive b # es))"
    by (simp add: suffix_drop)
  with 2 show ?case by (auto intro: suffix_order.trans)
qed (auto simp: split_beta suffix_ConsI)

lemma line_lossless: "length q + length (arrived es) \<le> 1023 \<Longrightarrow> fst (line_run es q) @ snd (line_run es q) = q @ arrived es"
  by (induction es q rule: line_run.induct) (auto simp: split_beta)

text \<open>C33: The serial line under every interleaving of arriving bytes and reads. The ring behaves as a queue of at most 1023 bytes that drops its oldest
  one to make room: what is unread is always the end of what has arrived, what has been read and is unread is a subsequence of it in the order of
  arrival, and nothing is lost as long as no more than 1023 bytes arrive in all. The driver never faults.\<close>

theorem tty_keeps_latest:
  assumes "tty_ok t"
  shows "\<exists>out t'. tty_run es t = Some (out, t') \<and> tty_ok t' \<and> (out, unread t') = line_run es (unread t) \<and>
     suffix (unread t') (unread t @ arrived es) \<and> subseq (out @ unread t') (unread t @ arrived es) \<and>
     (length (unread t) + length (arrived es) \<le> 1023 \<longrightarrow> out @ unread t' = unread t @ arrived es)"
  using tty_run_line [OF assms, of es] line_subseq line_suffix line_lossless by (metis prod.collapse)

definition tty_w :: tty where
  "tty_w = \<lparr>rx_buffer = replicate 1024 0, rx_rear = 1023, rx_front = 1023, usart_SR = 0, usart_DR = 0, tx_line = [], irq_on = True\<rparr>"

theorem tty_keeps_latest_witness:
  "\<exists>t'. tty_run [Arrive 104, Take, Arrive 105, Take, Take] tty_w = Some ([104, 105], t') \<and> unread t' = []"
proof -
  have u: "unread tty_w = []" by (simp add: unread_empty tty_ok_def tty_w_def)
  have "tty_ok tty_w" by (simp add: tty_ok_def tty_w_def)
  from tty_keeps_latest [OF this, of "[Arrive 104, Take, Arrive 105, Take, Take]"] show ?thesis by (auto simp: u)
qed

section \<open>The clock\<close>

text \<open>
  The counter of microseconds has two halves, read one at a time: \<open>c k\<close> is the counter at the access number \<open>k\<close>. The result
  comes with the number of the next access. The loop may not end when the counter runs away.
\<close>

definition hi_half :: "u64 \<Rightarrow> u32" where "hi_half x = ucast (drop_bit 32 x)"
definition lo_half :: "u64 \<Rightarrow> u32" where "lo_half x = ucast x"

partial_function (option) time_us_64 :: "(nat \<Rightarrow> u64) \<Rightarrow> nat \<Rightarrow> (u64 \<times> nat) option" where
  "time_us_64 c k = (let hi = hi_half (c k); lo = lo_half (c (k + 1)) in
     if hi_half (c (k + 2)) \<noteq> hi then time_us_64 c (k + 3)
     else Some (push_bit 32 (ucast hi) OR ucast lo, k + 3))"

lemma halves: "push_bit 32 (ucast (hi_half x)) OR ucast (lo_half x) = x"
  by (intro bit_word_eqI) (auto simp: hi_half_def lo_half_def bit_simps)

lemma hi_half_div: "unat (hi_half x) = unat x div 4294967296"
proof -
  have d: "unat (drop_bit 32 x) = unat x div 4294967296" using drop_bit_eq_div [of 32 "unat x"] by (simp only: unat_drop_bit_eq) simp
  have "unat x < 2 ^ 64" using unsigned_less [of x] by simp
  then have "unat (drop_bit 32 x) < 2 ^ 32" unfolding d by simp
  then have "unat (ucast (drop_bit 32 x) :: u32) = unat (drop_bit 32 x)"
    by (simp only: unsigned_ucast_eq) (simp add: take_bit_nat_eq_self)
  then show ?thesis using d by (simp only: hi_half_def)
qed

lemma hi_half_mono: "a \<le> b \<Longrightarrow> hi_half a \<le> hi_half b"
  by (simp add: word_le_nat_alt hi_half_div div_le_mono)

text \<open>C24: Reading the clock gives the value of the counter at one instant of the call, although its halves are read one after the other and the counter
  runs on; and it returns, in the second round at the latest, when the counter advances by less than \<open>2^32\<close> microseconds meanwhile.\<close>

theorem clock_reads_an_instant:
  assumes mono: "\<And>i. c i \<le> c (i + 1)" and slow: "unat (c (k + 5)) < unat (c k) + 4294967296"
  shows "\<exists>j. (j = k + 1 \<or> j = k + 4) \<and> time_us_64 c k = Some (c j, j + 2)"
proof -
  have le: "c i \<le> c j" if "i \<le> j" for i j using mono lift_Suc_mono_le [of c] that by simp
  have round: "time_us_64 c i = (if hi_half (c (i + 2)) = hi_half (c i) then Some (c (i + 1), i + 3) else time_us_64 c (i + 3))" for i
  proof (cases "hi_half (c (i + 2)) = hi_half (c i)")
    case True
    then have "hi_half (c (i + 1)) = hi_half (c i)"
      using hi_half_mono [OF le [of i "i + 1"]] hi_half_mono [OF le [of "i + 1" "i + 2"]] by simp
    then show ?thesis using halves [of "c (i + 1)"] True by (subst time_us_64.simps) (simp add: Let_def)
  qed (subst time_us_64.simps, simp add: Let_def)
  show ?thesis
  proof (cases "hi_half (c (k + 2)) = hi_half (c k)")
    case True
    then show ?thesis using round [of k] by (intro exI [of _ "k + 1"]) simp
  next
    case first: False
    have "hi_half (c (k + 5)) = hi_half (c (k + 3))"
    proof (rule ccontr)
      assume "\<not> ?thesis"
      then have "hi_half (c k) < hi_half (c (k + 2))" "hi_half (c (k + 2)) \<le> hi_half (c (k + 3))" "hi_half (c (k + 3)) < hi_half (c (k + 5))"
        using first hi_half_mono [OF le [of k "k + 2"]] hi_half_mono [OF le [of "k + 2" "k + 3"]] hi_half_mono [OF le [of "k + 3" "k + 5"]]
        by auto
      then have "unat (c k) div 4294967296 + 2 \<le> unat (c (k + 5)) div 4294967296" by (simp add: word_le_nat_alt word_less_nat_alt hi_half_div)
      moreover have "unat (c (k + 5)) div 4294967296 \<le> (unat (c k) + 4294967296) div 4294967296" using slow by (intro div_le_mono) simp
      ultimately show False by simp
    qed
    moreover have "k + 3 + 1 = k + 4" "k + 3 + 2 = k + 5" "k + 3 + 3 = k + 4 + 2" by simp_all
    ultimately have "time_us_64 c k = Some (c (k + 4), k + 4 + 2)" using first round [of k] round [of "k + 3"] by presburger
    then show ?thesis by blast
  qed
qed

text \<open>The upper half changes during the first round.\<close>

theorem clock_reads_an_instant_witness:
  "time_us_64 (\<lambda>i. 4294967295 + of_bool (1 \<le> i)) 0 = Some (4294967296, 6)"
proof -
  have "unat (4294967295 + of_bool (1 \<le> (0 + 5 :: nat)) :: u64) < unat (4294967295 + of_bool (1 \<le> (0 :: nat)) :: u64) + 4294967296" by simp
  then have "\<exists>j. (j = 0 + 1 \<or> j = 0 + 4) \<and> time_us_64 (\<lambda>i. 4294967295 + of_bool (1 \<le> i)) 0 = Some (4294967295 + of_bool (1 \<le> j), j + 2)"
    by (intro clock_reads_an_instant) simp_all
  moreover have "time_us_64 (\<lambda>i. 4294967295 + of_bool (1 \<le> i)) 0 \<noteq> Some (4294967296, 3)"
    by (subst time_us_64.simps, subst time_us_64.simps) (simp add: hi_half_def lo_half_def Let_def)
  ultimately show ?thesis by auto
qed

end
