(* ===== verification/Vfs.thy ===== *)
theory Vfs
  imports FsInv Tty
begin

text \<open>
  The objects of the virtual file system and the operations on them: inodes, files and superblocks
  (\<^verbatim>\<open>fs/fs_inode.c\<close>, \<^verbatim>\<open>fs/fs_file.c\<close>, \<^verbatim>\<open>fs/fs_superblock.c\<close>), the dentry cache (\<^verbatim>\<open>fs/dcache.c\<close>) and the
  operations a file system offers to it (the second half of \<^verbatim>\<open>fs/pipefs/pipefs.c\<close> and of its three
  copies). A pointer result that may be an error number is \<^typ>\<open>int + nat\<close>: \<open>Inl\<close> the negative number,
  \<open>Inr\<close> an address. All objects come from the one allocator of the file system's memory.

  A name is the bytes before its NUL, kept with the dentry whether it lies in \<open>d_iname\<close> or in a block
  of its own; the one byte by which \<open>dentry_rename\<close> writes beyond such a block is not modelled.
  Locks and times are not part of the state.
\<close>

record inode =
  i_mode :: u16
  i_op :: "fs_kind option"
  i_fop :: "file_operations option"
  i_private :: nat
  i_sb :: nat
  i_count :: int
  i_size :: int
  i_bytes :: u16

record dentry =
  d_name :: "u8 list option"
  d_inline :: bool
  d_len :: u32
  d_parent :: nat
  d_inode :: nat
  d_sb :: nat
  d_fsdata :: nat
  d_hash :: "nat list"
  d_count :: int

record super_block =
  s_root :: nat
  s_fs_info :: nat
  s_op :: "fs_kind option"
  s_blocksize :: nat

record vfile =
  f_op :: "file_operations option"
  f_inode :: nat
  f_flags :: u32
  f_mode :: u32
  f_pos :: int
  f_path :: "u8 list option"

text \<open>The \<open>mount\<close> member of a registered type is the file system it belongs to, \<open>None\<close> for NULL.\<close>

record file_system_type =
  ft_addr :: nat
  ft_name :: "u8 list"
  ft_mount :: "fs_kind option"

text \<open>\<open>console\<close> is the state of the serial device, which its driver's operations change.\<close>

record vfs =
  fsm :: fsmem
  inodes :: "nat \<Rightarrow> inode option"
  dentries :: "nat \<Rightarrow> dentry option"
  supers :: "nat \<Rightarrow> super_block option"
  files :: "nat \<Rightarrow> vfile option"
  root_dentry :: nat
  superblock_list :: "nat list"
  fs_t :: "file_system_type list"
  fd_table :: "nat list"
  console :: tty

definition vkmalloc :: "vfs \<Rightarrow> nat \<times> vfs" where
  "vkmalloc v = (let (a, m) = kmalloc (fsm v) in (a, v\<lparr>fsm := m\<rparr>))"

text \<open>Run an operation of the file system's own tree.\<close>

definition on_fs :: "(fsmem \<Rightarrow> ('a \<times> fsmem) option) \<Rightarrow> vfs \<Rightarrow> ('a \<times> vfs) option" where
  "on_fs f v = do { (r, m) \<leftarrow> f (fsm v); Some (r, v\<lparr>fsm := m\<rparr>) }"

section \<open>Inodes, files, superblocks\<close>

definition new_inode :: "nat \<Rightarrow> vfs \<Rightarrow> nat \<times> vfs" where
  "new_inode sb v = (let (a, v) = vkmalloc v in
     if a = 0 then (0, v)
     else (a, v\<lparr>inodes := (inodes v)(a \<mapsto> \<lparr>i_mode = S_IFCHR OR mode_777, i_op = None, i_fop = None, i_private = 0,
       i_sb = sb, i_count = 1, i_size = 0, i_bytes = 0\<rparr>)\<rparr>))"

definition destroy_inode :: "nat \<Rightarrow> vfs \<Rightarrow> vfs" where
  "destroy_inode node v = (if node \<noteq> 0 then v\<lparr>inodes := free_at (inodes v) node\<rparr> else v)"

definition inode_get :: "nat \<Rightarrow> vfs \<Rightarrow> vfs option" where
  "inode_get a v = do {
     is \<leftarrow> upd (inodes v) a (\<lambda>i. i\<lparr>i_count := i_count i + 1\<rparr>);
     Some (v\<lparr>inodes := is\<rparr>) }"

definition inode_put :: "nat \<Rightarrow> vfs \<Rightarrow> vfs option" where
  "inode_put a v = (if a = 0 then Some v else do {
     is \<leftarrow> upd (inodes v) a (\<lambda>i. i\<lparr>i_count := i_count i - 1\<rparr>);
     i \<leftarrow> at is a;
     let v = v\<lparr>inodes := is\<rparr>;
     Some (if i_count i \<le> 0 then destroy_inode a v else v) })"

text \<open>Open a file on the inode of a dentry; a NULL inode is dereferenced.\<close>

definition f_get :: "nat \<Rightarrow> vfs \<Rightarrow> ((int + nat) \<times> vfs) option" where
  "f_get d v = do {
     e \<leftarrow> at (dentries v) d;
     at (inodes v) (d_inode e);
     let (f, v) = vkmalloc v;
     if f = 0 then Some (Inl (- ENOMEM), v)
     else do {
       v \<leftarrow> inode_get (d_inode e) v;
       i \<leftarrow> at (inodes v) (d_inode e);
       Some (Inr f, v\<lparr>files := (files v)(f \<mapsto> \<lparr>f_op = i_fop i, f_inode = d_inode e, f_flags = 0, f_mode = 0, f_pos = 0,
         f_path = d_name e\<rparr>)\<rparr>) } }"

definition f_put :: "nat \<Rightarrow> vfs \<Rightarrow> vfs option" where
  "f_put f v = do {
     x \<leftarrow> at (files v) f;
     v \<leftarrow> inode_put (f_inode x) v;
     Some (v\<lparr>files := free_at (files v) f\<rparr>) }"

text \<open>
  \<open>alloc_super\<close> ends without a \<open>return\<close>: what its caller gets is what the result register holds, a
  parameter of the model that depends on the block that was initialised last.
\<close>

definition alloc_super :: "(nat \<Rightarrow> nat) \<Rightarrow> vfs \<Rightarrow> (int + nat) \<times> vfs" where
  "alloc_super reg v = (let (a, v) = vkmalloc v in
     if a = 0 then (Inl (- ENOMEM), v)
     else (Inr (reg a), v\<lparr>supers := (supers v)(a \<mapsto> \<lparr>s_root = 0, s_fs_info = 0, s_op = None, s_blocksize = 512\<rparr>)\<rparr>))"

definition put_super :: "nat \<Rightarrow> vfs \<Rightarrow> vfs" where
  "put_super sb v = (if sb \<noteq> 0 then v\<lparr>supers := free_at (supers v) sb\<rparr> else v)"

section \<open>The dentry cache\<close>

abbreviation (input) DNAME_INLINE_LEN :: nat where "DNAME_INLINE_LEN \<equiv> 44"

definition dentry_rename :: "nat \<Rightarrow> u8 list \<Rightarrow> vfs \<Rightarrow> (int \<times> vfs) option" where
  "dentry_rename d name v = (if d = 0 then Some (-1, v)
     else let (s, v) = (if name = [] then (0, v) else vkmalloc v) in
       if s = 0 then Some (- ENOMEM, v)
       else do {
         e \<leftarrow> at (dentries v) d;
         let e = (if (d_name e = None \<or> d_inline e) \<and> length name + 1 < DNAME_INLINE_LEN
           then e\<lparr>d_name := Some name, d_inline := True, d_len := of_nat (length name)\<rparr>
           else e\<lparr>d_len := of_nat (length name), d_name := Some name, d_inline := False\<rparr>);
         Some (0, v\<lparr>dentries := (dentries v)(d \<mapsto> e)\<rparr>) })"

definition blank_dentry :: dentry where
  "blank_dentry = \<lparr>d_name = None, d_inline = False, d_len = 0, d_parent = 0, d_inode = 0, d_sb = 0, d_fsdata = 0, d_hash = [], d_count = 0\<rparr>"

definition d_alloc_raw :: "nat \<Rightarrow> u8 list \<Rightarrow> vfs \<Rightarrow> ((int + nat) \<times> vfs) option" where
  "d_alloc_raw sb name v = (let (d, v) = vkmalloc v in
     if d = 0 then Some (Inl (- ENOMEM), v)
     else do {
       (err, v) \<leftarrow> dentry_rename d name (v\<lparr>dentries := (dentries v)(d \<mapsto> blank_dentry)\<rparr>);
       if err < 0 then Some (Inl (- ENOMEM), v\<lparr>dentries := free_at (dentries v) d\<rparr>)
       else do {
         ds \<leftarrow> upd (dentries v) d (\<lambda>e. e\<lparr>d_hash := [], d_sb := sb\<rparr>);
         Some (Inr d, v\<lparr>dentries := ds\<rparr>) } })"

text \<open>The error number of \<open>__d_alloc\<close> passes the test for NULL and is then written through.\<close>

definition d_alloc :: "nat \<Rightarrow> u8 list \<Rightarrow> vfs \<Rightarrow> (nat \<times> vfs) option" where
  "d_alloc parent name v = do {
     p \<leftarrow> at (dentries v) parent;
     (r, v) \<leftarrow> d_alloc_raw (d_sb p) name v;
     case r of Inl _ \<Rightarrow> None
     | Inr d \<Rightarrow> do {
         ds \<leftarrow> upd (dentries v) parent (\<lambda>p. p\<lparr>d_count := d_count p + 1\<rparr>);
         p \<leftarrow> at ds parent;
         ds \<leftarrow> upd ds d (\<lambda>e. e\<lparr>d_parent := parent, d_sb := d_sb p\<rparr>);
         Some (d, v\<lparr>dentries := ds\<rparr>) } }"

definition d_getname :: "nat \<Rightarrow> vfs \<Rightarrow> u8 list option" where
  "d_getname d v = do { e \<leftarrow> at (dentries v) d; d_name e }"

definition d_drop :: "nat \<Rightarrow> vfs \<Rightarrow> vfs option" where
  "d_drop d v = do {
     e \<leftarrow> at (dentries v) d;
     ds \<leftarrow> upd (dentries v) (d_parent e) (\<lambda>p. p\<lparr>d_count := d_count p - 1\<rparr>);
     Some (v\<lparr>dentries := free_at ds d\<rparr>) }"

text \<open>
  \<open>d_delete\<close> passes the address of the member \<open>d_inode\<close> where the inode is meant: \<open>inode_put\<close> then
  decrements a word beyond the end of the dentry.
\<close>

definition d_delete :: "nat \<Rightarrow> vfs \<Rightarrow> vfs option" where
  "d_delete d v = (if d = 0 then Some v else None)"

definition d_hash_add :: "nat \<Rightarrow> nat \<Rightarrow> vfs \<Rightarrow> vfs option" where
  "d_hash_add d parent v = do {
     p \<leftarrow> at (dentries v) parent;
     h \<leftarrow> list_add (dentries v) d (d_hash p);
     Some (v\<lparr>dentries := (dentries v)(parent \<mapsto> p\<lparr>d_hash := h\<rparr>)\<rparr>) }"

text \<open>\<open>hlist_del\<close> of a node that is on no list follows a NULL or a poisoned back pointer.\<close>

definition d_unhash :: "nat \<Rightarrow> vfs \<Rightarrow> vfs option" where
  "d_unhash d v = do {
     e \<leftarrow> at (dentries v) d;
     p \<leftarrow> at (dentries v) (d_parent e);
     if d \<notin> set (d_hash p) then None
     else do {
       h \<leftarrow> list_del (dentries v) 0 d (d_hash p);
       Some (v\<lparr>dentries := (dentries v)(d_parent e \<mapsto> p\<lparr>d_hash := h\<rparr>)\<rparr>) } }"

definition d_add :: "nat \<Rightarrow> nat \<Rightarrow> vfs \<Rightarrow> vfs option" where
  "d_add d i v = do {
     e \<leftarrow> at (dentries v) d;
     p \<leftarrow> at (dentries v) (d_parent e);
     at (inodes v) (d_inode p);
     x \<leftarrow> at (inodes v) i;
     d_hash_add d (d_parent e) (v\<lparr>dentries := (dentries v)(d \<mapsto> e\<lparr>d_inode := i, d_sb := i_sb x\<rparr>)\<rparr>) }"

definition simple_unlink :: "nat \<Rightarrow> nat \<Rightarrow> vfs \<Rightarrow> vfs option" where
  "simple_unlink dir d v = (if d = 0 then Some v
     else if dir \<noteq> 0 \<and> inodes v dir = None then None
     else do { v \<leftarrow> d_unhash d v; d_delete d v })"

fun d_find :: "(nat \<Rightarrow> dentry option) \<Rightarrow> nat list \<Rightarrow> u8 list \<Rightarrow> nat option" where
  "d_find ds [] name = Some 0"
| "d_find ds (d # l) name = do {
     e \<leftarrow> at ds d;
     n \<leftarrow> d_name e;
     if n = name then Some d else d_find ds l name }"

interpretation d_names: name_search d_name d_find
  by unfold_locales simp_all

definition d_lookup_dentry :: "nat \<Rightarrow> u8 list \<Rightarrow> vfs \<Rightarrow> nat option" where
  "d_lookup_dentry parent name v = do {
     p \<leftarrow> at (dentries v) parent;
     d_find (dentries v) (d_hash p) name }"


section \<open>What a file system offers\<close>

text \<open>The VFS inode of an inode of the file system; sizes are kept by the initramfs alone.\<close>

definition fs_get_inode :: "fs_kind \<Rightarrow> nat \<Rightarrow> nat \<Rightarrow> vfs \<Rightarrow> (nat \<times> vfs) option" where
  "fs_get_inode K node sb v = (if node = 0 then Some (0, v)
     else let (a, v) = new_inode sb v in
       if a = 0 then Some (0, v)
       else do {
         n \<leftarrow> at (fsis (fsm v)) node;
         is \<leftarrow> upd (inodes v) a (\<lambda>i. i\<lparr>i_mode := ucast (fi_mode n), i_fop := fi_fop n, i_op := Some K, i_private := node,
           i_size := (if K = Initramfs then uint (fi_size n) else i_size i)\<rparr>);
         Some (a, v\<lparr>inodes := is\<rparr>) })"

definition fs_get_vfs_superblock :: "fs_kind \<Rightarrow> (nat \<Rightarrow> nat) \<Rightarrow> nat \<Rightarrow> vfs \<Rightarrow> (nat \<times> vfs) option" where
  "fs_get_vfs_superblock K reg sb v = (if sb = 0 then Some (0, v)
     else let (r, v) = alloc_super reg v in
       case r of Inl _ \<Rightarrow> None
       | Inr a \<Rightarrow> if a = 0 then Some (0, v)
           else do {
             ss \<leftarrow> upd (supers v) a (\<lambda>s. s\<lparr>s_fs_info := sb, s_op := Some K\<rparr>);
             Some (a, v\<lparr>supers := ss\<rparr>) })"

definition fs_kill_sb :: "nat \<Rightarrow> vfs \<Rightarrow> vfs" where
  "fs_kill_sb sb v = put_super sb v"

definition destroy_fs :: "nat \<Rightarrow> vfs \<Rightarrow> vfs option" where
  "destroy_fs s v = do { m \<leftarrow> fs_superblock_destory s (fsm v); Some (v\<lparr>fsm := m\<rparr>) }"

text \<open>The name \<open>root\<close>.\<close>

definition root_name :: "u8 list" where
  "root_name = [114, 111, 111, 116]"

definition fs_mount :: "fs_kind \<Rightarrow> (nat \<Rightarrow> nat) \<Rightarrow> vfs \<Rightarrow> ((int + nat) \<times> vfs) option" where
  "fs_mount K reg v = do {
     (s, v) \<leftarrow> on_fs (fs_superblock_create K) v;
     if s = 0 then Some (Inl (- ENOMEM), v)
     else do {
       (r, v) \<leftarrow> d_alloc_raw 0 root_name v;
       case r of Inl _ \<Rightarrow> None
       | Inr root \<Rightarrow> (let (d, v) = vkmalloc v in
           if d = 0 then Some (Inl (- ENOMEM), v\<lparr>dentries := free_at (dentries v) root\<rparr>)
           else do {
             b \<leftarrow> at (fsss (fsm v)) s;
             let v = v\<lparr>fsm := (fsm v)\<lparr>fsds := (fsds (fsm v))(d \<mapsto> \<lparr>fd_magic = MAGIC, fd_name = None, target_inode = rootinode b\<rparr>)\<rparr>\<rparr>;
             ds \<leftarrow> upd (dentries v) root (\<lambda>e. e\<lparr>d_fsdata := d\<rparr>);
             (ri, v) \<leftarrow> fs_get_inode K (rootinode b) 0 (v\<lparr>dentries := ds\<rparr>);
             if ri = 0 then do {
               v \<leftarrow> destroy_fs s (v\<lparr>fsm := (fsm v)\<lparr>fsds := free_at (fsds (fsm v)) d\<rparr>\<rparr>);
               Some (Inl (- ENOMEM), v\<lparr>dentries := free_at (dentries v) root\<rparr>) }
             else do {
               ds \<leftarrow> upd (dentries v) root (\<lambda>e. e\<lparr>d_inode := ri\<rparr>);
               (sb, v) \<leftarrow> fs_get_vfs_superblock K reg s (v\<lparr>dentries := ds\<rparr>);
               if sb = 0 then do {
                 let v = v\<lparr>dentries := free_at (dentries v) root, fsm := (fsm v)\<lparr>fsds := free_at (fsds (fsm v)) d\<rparr>\<rparr>;
                 v \<leftarrow> inode_put ri v;
                 v \<leftarrow> destroy_fs s v;
                 Some (Inl (- ENOMEM), v) }
               else do {
                 ss \<leftarrow> upd (supers v) sb (\<lambda>x. x\<lparr>s_root := root\<rparr>);
                 ds \<leftarrow> upd (dentries v) root (\<lambda>e. e\<lparr>d_sb := sb\<rparr>);
                 Some (Inr root, v\<lparr>supers := ss, dentries := ds\<rparr>) } } }) } }"

text \<open>An inode with no link; when its VFS inode cannot be had it is freed but stays on the superblock's list.\<close>

definition fs_alloc_inode :: "fs_kind \<Rightarrow> nat \<Rightarrow> vfs \<Rightarrow> (nat \<times> vfs) option" where
  "fs_alloc_inode K sb v = do {
     s \<leftarrow> at (supers v) sb;
     b \<leftarrow> at (fsss (fsm v)) (s_fs_info s);
     if fsb_magic b \<noteq> MAGIC then Some (0, v)
     else do {
       (n, v) \<leftarrow> on_fs (fs_create_empty_inode K (s_fs_info s) (Some (kind_fops K)) 10) v;
       if n = 0 then Some (0, v)
       else do {
         (a, v) \<leftarrow> fs_get_inode K n sb v;
         if a = 0 then Some (0, v\<lparr>fsm := (fsm v)\<lparr>fsis := free_at (fsis (fsm v)) n\<rparr>\<rparr>)
         else Some (a, v) } } }"

definition fs_destroy_inode :: "nat \<Rightarrow> vfs \<Rightarrow> vfs option" where
  "fs_destroy_inode a v = (if a = 0 then Some v else do {
     i \<leftarrow> at (inodes v) a;
     if i_private i = 0 then Some v
     else do {
       m \<leftarrow> unlink_inode (i_private i) (fsm v);
       Some (v\<lparr>fsm := m\<lparr>fsis := free_at (fsis m) (i_private i)\<rparr>\<rparr>) } })"

record kstatfs =
  f_type :: nat
  f_bsize :: nat
  f_blocks :: nat
  f_bfree :: nat
  f_bavail :: nat
  f_files :: nat
  f_ffree :: nat

definition fs_statfs :: "nat \<Rightarrow> vfs \<Rightarrow> (int \<times> kstatfs) option" where
  "fs_statfs d v = do {
     e \<leftarrow> at (dentries v) d;
     at (fsds (fsm v)) (d_fsdata e);
     Some (0, \<lparr>f_type = MAGIC, f_bsize = 0, f_blocks = 1, f_bfree = 0, f_bavail = 0, f_files = 128, f_ffree = 127\<rparr>) }"

definition fs_get_dentry :: "nat \<Rightarrow> nat \<Rightarrow> vfs \<Rightarrow> (nat \<times> vfs) option" where
  "fs_get_dentry d fd v = (if fd = 0 \<or> d = 0 then Some (0, v) else do {
     ds \<leftarrow> upd (dentries v) d (\<lambda>e. e\<lparr>d_fsdata := fd\<rparr>);
     Some (d, v\<lparr>dentries := ds\<rparr>) })"

text \<open>The mode of a created file: the initramfs takes the caller's as it is.\<close>

definition created_mode :: "fs_kind \<Rightarrow> u16 \<Rightarrow> u32" where
  "created_mode K mode = (if K = Initramfs then ucast mode else S_IFREG OR (ucast mode AND mode_777))"

text \<open>Bind a dentry to an entry of the file system and to a new VFS inode for \<open>node\<close>, and put it in its parent's cache.\<close>

definition fs_bind :: "fs_kind \<Rightarrow> nat \<Rightarrow> nat \<Rightarrow> nat \<Rightarrow> nat \<Rightarrow> vfs \<Rightarrow> (int \<times> vfs) option" where
  "fs_bind K dir d file node v = do {
     (x, v) \<leftarrow> fs_get_dentry d file v;
     if x = 0 then Some (-1, v)
     else do {
       di \<leftarrow> at (inodes v) dir;
       (a, v) \<leftarrow> fs_get_inode K node (i_sb di) v;
       if a = 0 then Some (-1, v)
       else do { v \<leftarrow> d_add d a v; Some (0, v) } } }"

definition fs_create :: "fs_kind \<Rightarrow> nat \<Rightarrow> nat \<Rightarrow> u16 \<Rightarrow> vfs \<Rightarrow> (int \<times> vfs) option" where
  "fs_create K dir d mode v = do {
     name \<leftarrow> d_getname d v;
     di \<leftarrow> at (inodes v) dir;
     file \<leftarrow> fs_lookup (i_private di) name (fsm v);
     (file, v) \<leftarrow> (if file = 0 then do {
         n \<leftarrow> at (fsis (fsm v)) (i_private di);
         on_fs (fs_create_file K (fi_sb n) (i_private di) (Some (kind_fops K)) 10 name) v }
       else Some (file, v));
     if file = 0 then Some (-1, v)
     else do {
       m \<leftarrow> set_target_mode file (created_mode K mode) (fsm v);
       e \<leftarrow> at (fsds m) file;
       fs_bind K dir d file (target_inode e) (v\<lparr>fsm := m\<rparr>) } }"

definition fs_vfs_lookup :: "fs_kind \<Rightarrow> nat \<Rightarrow> nat \<Rightarrow> vfs \<Rightarrow> (nat \<times> vfs) option" where
  "fs_vfs_lookup K dir d v = do {
     di \<leftarrow> at (inodes v) dir;
     name \<leftarrow> d_getname d v;
     pos \<leftarrow> fs_lookup (i_private di) name (fsm v);
     if pos = 0 then Some (0, v)
     else do {
       e \<leftarrow> at (fsds (fsm v)) pos;
       (err, v) \<leftarrow> fs_bind K dir d pos (target_inode e) v;
       Some (if err = 0 then d else 0, v) } }"

definition fs_link :: "nat \<Rightarrow> nat \<Rightarrow> nat \<Rightarrow> vfs \<Rightarrow> (int \<times> vfs) option" where
  "fs_link old dir d v = do {
     o' \<leftarrow> at (dentries v) old;
     oi \<leftarrow> at (inodes v) (d_inode o');
     di \<leftarrow> at (inodes v) dir;
     name \<leftarrow> d_getname d v;
     (n, v) \<leftarrow> on_fs (fs_create_dentry (i_private di) (i_private oi) name) v;
     if n = 0 then Some (- ENOMEM, v)
     else do {
       (_, v) \<leftarrow> fs_get_dentry d n v;
       ds \<leftarrow> upd (dentries v) d (\<lambda>e. e\<lparr>d_sb := i_sb di\<rparr>);
       e \<leftarrow> at ds d;
       v \<leftarrow> d_add d (d_inode e) (v\<lparr>dentries := ds\<rparr>);
       Some (0, v) } }"

definition fs_unlink :: "fs_kind \<Rightarrow> nat \<Rightarrow> nat \<Rightarrow> vfs \<Rightarrow> (int \<times> vfs) option" where
  "fs_unlink K dir d v = do {
     di \<leftarrow> at (inodes v) dir;
     e \<leftarrow> at (dentries v) d;
     n \<leftarrow> at (fsis (fsm v)) (i_private di);
     m \<leftarrow> fs_delete_dentry K (fi_sb n) (i_private di) (d_fsdata e) (fsm v);
     Some (0, v\<lparr>fsm := m\<rparr>) }"

text \<open>
  A new directory is given the mode of a regular file, and the dentry a VFS inode of the parent
  (\<open>dinode\<close>) instead of the new directory's.
\<close>

definition fs_mkdir :: "fs_kind \<Rightarrow> nat \<Rightarrow> nat \<Rightarrow> u16 \<Rightarrow> vfs \<Rightarrow> (int \<times> vfs) option" where
  "fs_mkdir K dir d mode v = do {
     name \<leftarrow> d_getname d v;
     di \<leftarrow> at (inodes v) dir;
     file \<leftarrow> fs_lookup (i_private di) name (fsm v);
     (file, v) \<leftarrow> (if file = 0 then do {
         n \<leftarrow> at (fsis (fsm v)) (i_private di);
         on_fs (fs_create_dir K (fi_sb n) (i_private di) name) v }
       else Some (file, v));
     if file = 0 then Some (-1, v)
     else do {
       m \<leftarrow> set_target_mode file (S_IFREG OR (ucast mode AND mode_777)) (fsm v);
       fs_bind K dir d file (i_private di) (v\<lparr>fsm := m\<rparr>) } }"

definition fs_release_dentry :: "fs_kind \<Rightarrow> nat \<Rightarrow> vfs \<Rightarrow> vfs option" where
  "fs_release_dentry K d v = do {
     e \<leftarrow> at (dentries v) d;
     f \<leftarrow> at (fsds (fsm v)) (d_fsdata e);
     t \<leftarrow> at (fsis (fsm v)) (target_inode f);
     m \<leftarrow> dentry_put K (fi_sb t) (d_fsdata e) (fsm v);
     Some (v\<lparr>fsm := m\<rparr>) }"

definition fs_rmdir :: "fs_kind \<Rightarrow> nat \<Rightarrow> nat \<Rightarrow> vfs \<Rightarrow> vfs option" where
  "fs_rmdir K dir d v = do { v \<leftarrow> fs_release_dentry K d v; simple_unlink dir d v }"

definition fs_setattr :: "nat \<Rightarrow> u16 \<Rightarrow> vfs \<Rightarrow> (int \<times> vfs) option" where
  "fs_setattr d ia_mode v = do {
     e \<leftarrow> at (dentries v) d;
     m \<leftarrow> set_target_mode (d_fsdata e) (ucast ((ia_mode AND S_IFMT) OR ia_mode)) (fsm v);
     Some (0, v\<lparr>fsm := m\<rparr>) }"

record kstat =
  k_mode :: u16
  k_dev :: u32
  k_ino :: nat
  k_nlink :: int
  k_size :: nat
  k_blksize :: nat
  k_blocks :: nat

definition fs_getattr :: "nat \<Rightarrow> vfs \<Rightarrow> (int \<times> kstat option) option" where
  "fs_getattr d v = do {
     e \<leftarrow> at (dentries v) d;
     if d_fsdata e = 0 then Some (- ENOENT, None)
     else do {
       f \<leftarrow> at (fsds (fsm v)) (d_fsdata e);
       if target_inode f = 0 then Some (- ENOENT, None)
       else do {
         n \<leftarrow> at (fsis (fsm v)) (target_inode f);
         Some (0, Some \<lparr>k_mode = ucast (fi_mode n), k_dev = push_bit 20 (fi_major n), k_ino = target_inode f,
           k_nlink = dentry_count n, k_size = 0, k_blksize = PAGE_SIZE, k_blocks = 0\<rparr>) } } }"

end
