(* ===== verification/FsKinds.thy ===== *)
theory FsKinds
  imports Vfs
begin

text \<open>
  \<^verbatim>\<open>fs/devfs/devfs.c\<close>, \<^verbatim>\<open>fs/initramfs/initramfs.c\<close> and \<^verbatim>\<open>fs/sysfs/sysfs.c\<close> repeat the code of
  \<^verbatim>\<open>fs/pipefs/pipefs.c\<close> function by function over their own structures; where they differ (the inode's own
  member, the mode of a created file, the size of the initramfs inode) the shared definition branches on
  the kind. Each of their functions is named here as its instance, and the tables of pointers
  through which the VFS reaches them are records of functions.
\<close>

record inode_operations =
  io_create :: "nat \<Rightarrow> nat \<Rightarrow> u16 \<Rightarrow> vfs \<Rightarrow> (int \<times> vfs) option"
  io_lookup :: "nat \<Rightarrow> nat \<Rightarrow> vfs \<Rightarrow> (nat \<times> vfs) option"
  io_link :: "nat \<Rightarrow> nat \<Rightarrow> nat \<Rightarrow> vfs \<Rightarrow> (int \<times> vfs) option"
  io_unlink :: "nat \<Rightarrow> nat \<Rightarrow> vfs \<Rightarrow> (int \<times> vfs) option"
  io_mkdir :: "nat \<Rightarrow> nat \<Rightarrow> u16 \<Rightarrow> vfs \<Rightarrow> (int \<times> vfs) option"
  io_rmdir :: "nat \<Rightarrow> nat \<Rightarrow> vfs \<Rightarrow> vfs option"
  io_setattr :: "nat \<Rightarrow> u16 \<Rightarrow> vfs \<Rightarrow> (int \<times> vfs) option"
  io_getattr :: "nat \<Rightarrow> vfs \<Rightarrow> (int \<times> kstat option) option"

definition pipefs_inode_operation :: inode_operations where
  "pipefs_inode_operation = \<lparr>io_create = fs_create Pipefs, io_lookup = fs_vfs_lookup Pipefs, io_link = fs_link,
     io_unlink = fs_unlink Pipefs, io_mkdir = fs_mkdir Pipefs, io_rmdir = fs_rmdir Pipefs, io_setattr = fs_setattr, io_getattr = fs_getattr\<rparr>"

section \<open>devfs\<close>

definition devfs_create_empty_inode where "devfs_create_empty_inode = fs_create_empty_inode Devfs"
definition devfs_inode_put where "devfs_inode_put = fs_inode_put Devfs"
definition devfs_create_dentry where "devfs_create_dentry = fs_create_dentry"
definition devfs_create_inode where "devfs_create_inode = fs_create_inode Devfs"
definition devfs_create_file where "devfs_create_file = fs_create_file Devfs"
definition devfs_create_dir where "devfs_create_dir = fs_create_dir Devfs"
definition devfs_dentry_put where "devfs_dentry_put = dentry_put Devfs"
definition devfs_delete_dentry where "devfs_delete_dentry = fs_delete_dentry Devfs"
definition devfs_superblock_create where "devfs_superblock_create = fs_superblock_create Devfs"
definition devfs_superblock_destory where "devfs_superblock_destory = fs_superblock_destory"
definition devfs_lookup where "devfs_lookup = fs_lookup"
definition devfs_mount where "devfs_mount = fs_mount Devfs"
definition devfs_get_vfs_superblock where "devfs_get_vfs_superblock = fs_get_vfs_superblock Devfs"
definition devfs_kill_sb where "devfs_kill_sb = fs_kill_sb"
definition devfs_get_inode where "devfs_get_inode = fs_get_inode Devfs"
definition devfs_alloc_inode where "devfs_alloc_inode = fs_alloc_inode Devfs"
definition devfs_destroy_inode where "devfs_destroy_inode = fs_destroy_inode"
definition devfs_statfs where "devfs_statfs = fs_statfs"
definition devfs_get_dentry where "devfs_get_dentry = fs_get_dentry"
definition devfs_create where "devfs_create = fs_create Devfs"
definition devfs_vfs_lookup where "devfs_vfs_lookup = fs_vfs_lookup Devfs"
definition devfs_link where "devfs_link = fs_link"
definition devfs_unlink where "devfs_unlink = fs_unlink Devfs"
definition devfs_mkdir where "devfs_mkdir = fs_mkdir Devfs"
definition devfs_release_dentry where "devfs_release_dentry = fs_release_dentry Devfs"
definition devfs_rmdir where "devfs_rmdir = fs_rmdir Devfs"
definition devfs_setattr where "devfs_setattr = fs_setattr"
definition devfs_getattr where "devfs_getattr = fs_getattr"

definition devfs_inode_operation :: inode_operations where
  "devfs_inode_operation = \<lparr>io_create = devfs_create, io_lookup = devfs_vfs_lookup, io_link = devfs_link, io_unlink = devfs_unlink,
     io_mkdir = devfs_mkdir, io_rmdir = devfs_rmdir, io_setattr = devfs_setattr, io_getattr = devfs_getattr\<rparr>"

section \<open>initramfs\<close>

definition initramfs_create_empty_inode where "initramfs_create_empty_inode = fs_create_empty_inode Initramfs"
definition initramfs_inode_put where "initramfs_inode_put = fs_inode_put Initramfs"
definition initramfs_create_dentry where "initramfs_create_dentry = fs_create_dentry"
definition initramfs_create_inode where "initramfs_create_inode = fs_create_inode Initramfs"
definition initramfs_create_file where "initramfs_create_file = fs_create_file Initramfs"
definition initramfs_create_dir where "initramfs_create_dir = fs_create_dir Initramfs"
definition initramfs_dentry_put where "initramfs_dentry_put = dentry_put Initramfs"
definition initramfs_delete_dentry where "initramfs_delete_dentry = fs_delete_dentry Initramfs"
definition initramfs_superblock_create where "initramfs_superblock_create = fs_superblock_create Initramfs"
definition initramfs_superblock_destory where "initramfs_superblock_destory = fs_superblock_destory"
definition initramfs_lookup where "initramfs_lookup = fs_lookup"
definition initramfs_mount where "initramfs_mount = fs_mount Initramfs"
definition initramfs_get_vfs_superblock where "initramfs_get_vfs_superblock = fs_get_vfs_superblock Initramfs"
definition initramfs_kill_sb where "initramfs_kill_sb = fs_kill_sb"
definition initramfs_get_inode where "initramfs_get_inode = fs_get_inode Initramfs"
definition initramfs_alloc_inode where "initramfs_alloc_inode = fs_alloc_inode Initramfs"
definition initramfs_destroy_inode where "initramfs_destroy_inode = fs_destroy_inode"
definition initramfs_statfs where "initramfs_statfs = fs_statfs"
definition initramfs_get_dentry where "initramfs_get_dentry = fs_get_dentry"
definition initramfs_create where "initramfs_create = fs_create Initramfs"
definition initramfs_vfs_lookup where "initramfs_vfs_lookup = fs_vfs_lookup Initramfs"
definition initramfs_link where "initramfs_link = fs_link"
definition initramfs_unlink where "initramfs_unlink = fs_unlink Initramfs"
definition initramfs_mkdir where "initramfs_mkdir = fs_mkdir Initramfs"
definition initramfs_release_dentry where "initramfs_release_dentry = fs_release_dentry Initramfs"
definition initramfs_rmdir where "initramfs_rmdir = fs_rmdir Initramfs"
definition initramfs_setattr where "initramfs_setattr = fs_setattr"
definition initramfs_getattr where "initramfs_getattr = fs_getattr"

definition initramfs_inode_operation :: inode_operations where
  "initramfs_inode_operation = \<lparr>io_create = initramfs_create, io_lookup = initramfs_vfs_lookup, io_link = initramfs_link, io_unlink = initramfs_unlink,
     io_mkdir = initramfs_mkdir, io_rmdir = initramfs_rmdir, io_setattr = initramfs_setattr, io_getattr = initramfs_getattr\<rparr>"

section \<open>sysfs\<close>

definition sysfs_create_empty_inode where "sysfs_create_empty_inode = fs_create_empty_inode Sysfs"
definition sysfs_inode_put where "sysfs_inode_put = fs_inode_put Sysfs"
definition sysfs_create_dentry where "sysfs_create_dentry = fs_create_dentry"
definition sysfs_create_inode where "sysfs_create_inode = fs_create_inode Sysfs"
definition sysfs_create_file where "sysfs_create_file = fs_create_file Sysfs"
definition sysfs_create_dir where "sysfs_create_dir = fs_create_dir Sysfs"
definition sysfs_dentry_put where "sysfs_dentry_put = dentry_put Sysfs"
definition sysfs_delete_dentry where "sysfs_delete_dentry = fs_delete_dentry Sysfs"
definition sysfs_superblock_create where "sysfs_superblock_create = fs_superblock_create Sysfs"
definition sysfs_superblock_destory where "sysfs_superblock_destory = fs_superblock_destory"
definition sysfs_lookup where "sysfs_lookup = fs_lookup"
definition sysfs_mount where "sysfs_mount = fs_mount Sysfs"
definition sysfs_get_vfs_superblock where "sysfs_get_vfs_superblock = fs_get_vfs_superblock Sysfs"
definition sysfs_kill_sb where "sysfs_kill_sb = fs_kill_sb"
definition sysfs_get_inode where "sysfs_get_inode = fs_get_inode Sysfs"
definition sysfs_alloc_inode where "sysfs_alloc_inode = fs_alloc_inode Sysfs"
definition sysfs_destroy_inode where "sysfs_destroy_inode = fs_destroy_inode"
definition sysfs_statfs where "sysfs_statfs = fs_statfs"
definition sysfs_get_dentry where "sysfs_get_dentry = fs_get_dentry"
definition sysfs_create where "sysfs_create = fs_create Sysfs"
definition sysfs_vfs_lookup where "sysfs_vfs_lookup = fs_vfs_lookup Sysfs"
definition sysfs_link where "sysfs_link = fs_link"
definition sysfs_unlink where "sysfs_unlink = fs_unlink Sysfs"
definition sysfs_mkdir where "sysfs_mkdir = fs_mkdir Sysfs"
definition sysfs_release_dentry where "sysfs_release_dentry = fs_release_dentry Sysfs"
definition sysfs_rmdir where "sysfs_rmdir = fs_rmdir Sysfs"
definition sysfs_setattr where "sysfs_setattr = fs_setattr"
definition sysfs_getattr where "sysfs_getattr = fs_getattr"

definition sysfs_inode_operation :: inode_operations where
  "sysfs_inode_operation = \<lparr>io_create = sysfs_create, io_lookup = sysfs_vfs_lookup, io_link = sysfs_link, io_unlink = sysfs_unlink,
     io_mkdir = sysfs_mkdir, io_rmdir = sysfs_rmdir, io_setattr = sysfs_setattr, io_getattr = sysfs_getattr\<rparr>"

section \<open>The tables of the kinds\<close>

fun inode_ops :: "fs_kind \<Rightarrow> inode_operations" where
  "inode_ops Pipefs = pipefs_inode_operation"
| "inode_ops Devfs = devfs_inode_operation"
| "inode_ops Initramfs = initramfs_inode_operation"
| "inode_ops Sysfs = sysfs_inode_operation"

fun mount_of :: "fs_kind \<Rightarrow> (nat \<Rightarrow> nat) \<Rightarrow> vfs \<Rightarrow> ((int + nat) \<times> vfs) option" where
  "mount_of Pipefs = fs_mount Pipefs"
| "mount_of Devfs = devfs_mount"
| "mount_of Initramfs = initramfs_mount"
| "mount_of Sysfs = sysfs_mount"

text \<open>The dispatch through the tables reaches the shared code at the right kind.\<close>

lemmas instance_defs =
  devfs_create_empty_inode_def devfs_inode_put_def devfs_create_dentry_def devfs_create_inode_def devfs_create_file_def
  devfs_create_dir_def devfs_dentry_put_def devfs_delete_dentry_def devfs_superblock_create_def devfs_superblock_destory_def
  devfs_lookup_def devfs_mount_def devfs_get_vfs_superblock_def devfs_kill_sb_def devfs_get_inode_def devfs_alloc_inode_def
  devfs_destroy_inode_def devfs_statfs_def devfs_get_dentry_def devfs_create_def devfs_vfs_lookup_def devfs_link_def
  devfs_unlink_def devfs_mkdir_def devfs_release_dentry_def devfs_rmdir_def devfs_setattr_def devfs_getattr_def
  initramfs_create_empty_inode_def initramfs_inode_put_def initramfs_create_dentry_def initramfs_create_inode_def
  initramfs_create_file_def initramfs_create_dir_def initramfs_dentry_put_def initramfs_delete_dentry_def
  initramfs_superblock_create_def initramfs_superblock_destory_def initramfs_lookup_def initramfs_mount_def
  initramfs_get_vfs_superblock_def initramfs_kill_sb_def initramfs_get_inode_def initramfs_alloc_inode_def
  initramfs_destroy_inode_def initramfs_statfs_def initramfs_get_dentry_def initramfs_create_def initramfs_vfs_lookup_def
  initramfs_link_def initramfs_unlink_def initramfs_mkdir_def initramfs_release_dentry_def initramfs_rmdir_def
  initramfs_setattr_def initramfs_getattr_def sysfs_create_empty_inode_def sysfs_inode_put_def sysfs_create_dentry_def
  sysfs_create_inode_def sysfs_create_file_def sysfs_create_dir_def sysfs_dentry_put_def sysfs_delete_dentry_def
  sysfs_superblock_create_def sysfs_superblock_destory_def sysfs_lookup_def sysfs_mount_def sysfs_get_vfs_superblock_def
  sysfs_kill_sb_def sysfs_get_inode_def sysfs_alloc_inode_def sysfs_destroy_inode_def sysfs_statfs_def sysfs_get_dentry_def
  sysfs_create_def sysfs_vfs_lookup_def sysfs_link_def sysfs_unlink_def sysfs_mkdir_def sysfs_release_dentry_def sysfs_rmdir_def
  sysfs_setattr_def sysfs_getattr_def

lemmas table_defs = pipefs_inode_operation_def devfs_inode_operation_def initramfs_inode_operation_def sysfs_inode_operation_def

lemma inode_ops_dispatch [simp]:
  "io_create (inode_ops K) = fs_create K" "io_lookup (inode_ops K) = fs_vfs_lookup K" "io_link (inode_ops K) = fs_link"
  "io_unlink (inode_ops K) = fs_unlink K" "io_mkdir (inode_ops K) = fs_mkdir K" "io_rmdir (inode_ops K) = fs_rmdir K"
  "io_setattr (inode_ops K) = fs_setattr" "io_getattr (inode_ops K) = fs_getattr"
  by (cases K; simp add: table_defs instance_defs)+

lemma mount_dispatch [simp]: "mount_of K = fs_mount K"
  by (cases K) (simp_all add: instance_defs)

end
