(* ===== verification/FileOps.thy ===== *)
theory FileOps
  imports FsKinds
begin

text \<open>
  The file operations of the file systems (\<^verbatim>\<open>pipefs_open\<close> to \<^verbatim>\<open>pipefs_write\<close>, \<^verbatim>\<open>initramfs_open\<close> to
  \<^verbatim>\<open>initramfs_write\<close> and the empty ones of devfs and sysfs), the attachment of devices and of the files
  built into the kernel image, and the calls of \<^verbatim>\<open>fs/vfs.c\<close> that dispatch to them.

  A table of operations is a record of functions, \<open>None\<close> a NULL member. A driver's table is a parameter
  (\<open>drv\<close>). The user's buffer is what a read returns and a write is given.
\<close>

record file_ops_table =
  op_open :: "(nat \<Rightarrow> nat \<Rightarrow> vfs \<Rightarrow> (int \<times> vfs) option) option"
  op_release :: "(nat \<Rightarrow> nat \<Rightarrow> vfs \<Rightarrow> (int \<times> vfs) option) option"
  op_read :: "(nat \<Rightarrow> nat \<Rightarrow> int \<Rightarrow> vfs \<Rightarrow> (int \<times> u8 list \<times> int \<times> vfs) option) option"
  op_write :: "(nat \<Rightarrow> u8 list \<Rightarrow> int \<Rightarrow> vfs \<Rightarrow> (int \<times> int \<times> vfs) option) option"
  op_ioctl :: "(nat \<Rightarrow> u32 \<Rightarrow> nat \<Rightarrow> vfs \<Rightarrow> (int \<times> vfs) option) option"

text \<open>The inode of the file system behind an open file.\<close>

definition file_node :: "nat \<Rightarrow> vfs \<Rightarrow> nat option" where
  "file_node f v = do { x \<leftarrow> at (files v) f; i \<leftarrow> at (inodes v) (f_inode x); Some (i_private i) }"

section \<open>Pipes\<close>

text \<open>The buffer of a pipe that is opened first is not initialised.\<close>

definition pipefs_open :: "nat \<Rightarrow> nat \<Rightarrow> vfs \<Rightarrow> (int \<times> vfs) option" where
  "pipefs_open inode file v = do {
     i \<leftarrow> at (inodes v) inode;
     n \<leftarrow> at (fsis (fsm v)) (i_private i);
     if fi_buf n \<noteq> 0 then Some (0, v)
     else let (a, v) = vkmalloc v in
       if a = 0 then Some (-1, v)
       else let m = fsm v in
         Some (0, v\<lparr>fsm := m\<lparr>pipes := (pipes m)(a \<mapsto> pipe_junk m a), fsis := (fsis m)(i_private i \<mapsto> n\<lparr>fi_buf := a\<rparr>)\<rparr>\<rparr>) }"

definition pipefs_release :: "nat \<Rightarrow> nat \<Rightarrow> vfs \<Rightarrow> (int \<times> vfs) option" where
  "pipefs_release inode file v = Some (0, v)"

text \<open>With no other task at the other end an empty or full pipe is waited for without end (\<open>None\<close>); \<open>Pipe\<close> has both ends.\<close>

fun pipe_take :: "nat \<Rightarrow> pipe_buffer \<Rightarrow> (u8 list \<times> pipe_buffer) option" where
  "pipe_take 0 b = Some ([], b)"
| "pipe_take (Suc n) b = do {
     (r, x, b) \<leftarrow> pipe_buffer_read b;
     c \<leftarrow> x;
     (cs, b) \<leftarrow> pipe_take n b;
     Some (c # cs, b) }"

fun pipe_put :: "u8 list \<Rightarrow> pipe_buffer \<Rightarrow> pipe_buffer option" where
  "pipe_put [] b = Some b"
| "pipe_put (c # cs) b = do {
     (r, b) \<leftarrow> pipe_buffer_write b c;
     if r < 0 then None else pipe_put cs b }"

definition pipefs_read :: "nat \<Rightarrow> nat \<Rightarrow> int \<Rightarrow> vfs \<Rightarrow> (int \<times> u8 list \<times> int \<times> vfs) option" where
  "pipefs_read f count off v = do {
     a \<leftarrow> file_node f v;
     n \<leftarrow> at (fsis (fsm v)) a;
     if count = 0 then Some (0, [], off, v)
     else do {
       b \<leftarrow> at (pipes (fsm v)) (fi_buf n);
       (cs, b) \<leftarrow> pipe_take count b;
       Some (0, cs, off, v\<lparr>fsm := (fsm v)\<lparr>pipes := (pipes (fsm v))(fi_buf n \<mapsto> b)\<rparr>\<rparr>) } }"

definition pipefs_write :: "nat \<Rightarrow> u8 list \<Rightarrow> int \<Rightarrow> vfs \<Rightarrow> (int \<times> int \<times> vfs) option" where
  "pipefs_write f data off v = do {
     a \<leftarrow> file_node f v;
     n \<leftarrow> at (fsis (fsm v)) a;
     if data = [] then Some (0, off, v)
     else do {
       b \<leftarrow> at (pipes (fsm v)) (fi_buf n);
       b \<leftarrow> pipe_put data b;
       Some (0, off, v\<lparr>fsm := (fsm v)\<lparr>pipes := (pipes (fsm v))(fi_buf n \<mapsto> b)\<rparr>\<rparr>) } }"

section \<open>Files in memory\<close>

text \<open>A byte count as the \<open>int\<close> that is returned.\<close>

definition as_int :: "nat \<Rightarrow> int" where
  "as_int n = sint (of_nat n :: u32)"

definition initramfs_read :: "nat \<Rightarrow> nat \<Rightarrow> int \<Rightarrow> vfs \<Rightarrow> (int \<times> u8 list \<times> int \<times> vfs) option" where
  "initramfs_read f count off v = do {
     a \<leftarrow> file_node f v;
     n \<leftarrow> at (fsis (fsm v)) a;
     if fi_page n = 0 then Some (0, [], off, v)
     else if off + int count > uint (fi_size n) then Some (0, [], off, v)
     else do {
       d \<leftarrow> kmap (fi_page n) (fsm v);
       if d = 0 then Some (- ENOMEM, [], off, v)
       else do {
         b \<leftarrow> at (blocks (fsm v)) d;
         if off < 0 \<or> off + int count > int (length b) then None
         else Some (as_int count, take count (drop (nat off) b), off + int count, v) } } }"

text \<open>The first write gives the file its one page.\<close>

definition ensure_page :: "nat \<Rightarrow> nat \<Rightarrow> vfs \<Rightarrow> (int \<times> vfs) option" where
  "ensure_page inode a v = do {
     n \<leftarrow> at (fsis (fsm v)) a;
     if fi_page n \<noteq> 0 then Some (0, v)
     else let (r, m) = alloc_page (fsm v) in
       case r of Inl _ \<Rightarrow> Some (- ENOMEM, v\<lparr>fsm := m\<rparr>)
       | Inr p \<Rightarrow> do {
           is \<leftarrow> upd (inodes v) inode (\<lambda>i. i\<lparr>i_bytes := of_nat PAGE_SIZE\<rparr>);
           m \<leftarrow> get_page p (m\<lparr>fsis := (fsis m)(a \<mapsto> n\<lparr>fi_page := p, fi_size := of_nat PAGE_SIZE\<rparr>)\<rparr>);
           Some (0, v\<lparr>fsm := m, inodes := is\<rparr>) } }"

definition initramfs_write :: "nat \<Rightarrow> u8 list \<Rightarrow> int \<Rightarrow> vfs \<Rightarrow> (int \<times> int \<times> vfs) option" where
  "initramfs_write f data off v = do {
     x \<leftarrow> at (files v) f;
     a \<leftarrow> file_node f v;
     n \<leftarrow> at (fsis (fsm v)) a;
     if fi_writable n = 0 then Some (0, off, v)
     else do {
       (err, v) \<leftarrow> ensure_page (f_inode x) a v;
       if err < 0 then Some (err, off, v)
       else if off + int (length data) > int PAGE_SIZE then Some (0, off, v)
       else do {
         n \<leftarrow> at (fsis (fsm v)) a;
         d \<leftarrow> kmap (fi_page n) (fsm v);
         b \<leftarrow> at (blocks (fsm v)) d;
         if off < 0 \<or> off + int (length data) > int (length b) then None
         else Some (as_int (length data), off + int (length data),
           v\<lparr>fsm := (fsm v)\<lparr>blocks := (blocks (fsm v))(d \<mapsto> take (nat off) b @ data @ drop (nat off + length data) b)\<rparr>\<rparr>) } } }"

text \<open>
  A file of the kernel image: its bytes become the page of the inode. The error number of
  \<open>virt_to_page\<close> passes the test for NULL and is then followed.
\<close>

record file_data =
  fd_path :: "u8 list"
  fd_length :: nat
  fd_data :: nat

definition initram_fs_mount_file :: "nat \<Rightarrow> file_data \<Rightarrow> vfs \<Rightarrow> vfs option" where
  "initram_fs_mount_file inode fd v = do {
     i \<leftarrow> at (inodes v) inode;
     n \<leftarrow> at (fsis (fsm v)) (i_private i);
     if fi_page n \<noteq> 0 then Some v
     else let (r, m) = virt_to_page (fd_data fd) (fsm v) in
       case r of Inl _ \<Rightarrow> None
       | Inr p \<Rightarrow> do {
           m \<leftarrow> get_page p m;
           let n = n\<lparr>fi_page := p, fi_size := of_nat (fd_length fd), fi_writable := 0\<rparr>;
           Some (v\<lparr>fsm := m\<lparr>fsis := (fsis m)(i_private i \<mapsto> n)\<rparr>,
                    inodes := (inodes v)(inode \<mapsto> i\<lparr>i_size := int (fd_length fd)\<rparr>)\<rparr>) } }"

section \<open>Devices\<close>

definition devfs_mount_device :: "nat \<Rightarrow> u32 \<Rightarrow> file_operations option \<Rightarrow> vfs \<Rightarrow> (int \<times> vfs) option" where
  "devfs_mount_device inode major fop v = do {
     i \<leftarrow> at (inodes v) inode;
     n \<leftarrow> at (fsis (fsm v)) (i_private i);
     if fi_magic n \<noteq> MAGIC then Some (-1, v)
     else Some (0, v\<lparr>fsm := (fsm v)\<lparr>fsis := (fsis (fsm v))(i_private i \<mapsto>
           n\<lparr>fi_fop := fop, fi_major := major, fi_mode := S_IFCHR OR (fi_mode n AND mode_777)\<rparr>)\<rparr>,
         inodes := (inodes v)(inode \<mapsto> i\<lparr>i_fop := fop\<rparr>)\<rparr>) }"

definition devfs_mount_blk_device :: "nat \<Rightarrow> nat \<Rightarrow> u32 \<Rightarrow> vfs \<Rightarrow> (int \<times> vfs) option" where
  "devfs_mount_blk_device inode bdev major v = do {
     i \<leftarrow> at (inodes v) inode;
     n \<leftarrow> at (fsis (fsm v)) (i_private i);
     if fi_magic n \<noteq> MAGIC then Some (-1, v)
     else Some (0, v\<lparr>fsm := (fsm v)\<lparr>fsis := (fsis (fsm v))(i_private i \<mapsto>
           n\<lparr>fi_major := major, fi_bdev := bdev, fi_mode := S_IFBLK OR (fi_mode n AND mode_777)\<rparr>)\<rparr>\<rparr>) }"

definition devfs_get_blk_dev :: "nat \<Rightarrow> vfs \<Rightarrow> nat option" where
  "devfs_get_blk_dev inode v = do {
     i \<leftarrow> at (inodes v) inode;
     n \<leftarrow> at (fsis (fsm v)) (i_private i);
     Some (if (fi_mode n AND S_IFMT) = S_IFBLK then fi_bdev n else 0) }"

definition sysfs_mount_kobject :: "nat \<Rightarrow> nat \<Rightarrow> vfs \<Rightarrow> (int \<times> vfs) option" where
  "sysfs_mount_kobject inode kobject v = do {
     i \<leftarrow> at (inodes v) inode;
     n \<leftarrow> at (fsis (fsm v)) (i_private i);
     if fi_magic n \<noteq> MAGIC then Some (-1, v)
     else Some (0, v\<lparr>fsm := (fsm v)\<lparr>fsis := (fsis (fsm v))(i_private i \<mapsto>
           n\<lparr>fi_mode := 512 OR (fi_mode n AND mode_777), fi_kobject := kobject\<rparr>)\<rparr>\<rparr>) }"

section \<open>The tables\<close>

definition pipefs_file_fops :: file_ops_table where
  "pipefs_file_fops = \<lparr>op_open = Some pipefs_open, op_release = Some pipefs_release, op_read = Some pipefs_read,
     op_write = Some pipefs_write, op_ioctl = None\<rparr>"

definition nop_fops :: file_ops_table where
  "nop_fops = \<lparr>op_open = Some (\<lambda>_ _ v. Some (0, v)), op_release = Some (\<lambda>_ _ v. Some (0, v)),
     op_read = Some (\<lambda>_ _ off v. Some (0, [], off, v)), op_write = Some (\<lambda>_ _ off v. Some (0, off, v)), op_ioctl = None\<rparr>"

definition initramfs_file_fops :: file_ops_table where
  "initramfs_file_fops = nop_fops\<lparr>op_read := Some initramfs_read, op_write := Some initramfs_write\<rparr>"

definition fops_of :: "(nat \<Rightarrow> file_ops_table) \<Rightarrow> file_operations \<Rightarrow> file_ops_table" where
  "fops_of drv f = (case f of Pipefs_fops \<Rightarrow> pipefs_file_fops | Initramfs_fops \<Rightarrow> initramfs_file_fops
     | Devfs_fops \<Rightarrow> nop_fops | Sysfs_fops \<Rightarrow> nop_fops | Driver_fops n \<Rightarrow> drv n)"

section \<open>Calls on open files\<close>

abbreviation (input) O_ACCMODE :: u32 where "O_ACCMODE \<equiv> 3"
abbreviation (input) O_RDONLY :: u32 where "O_RDONLY \<equiv> 0"
abbreviation (input) O_CREAT :: u32 where "O_CREAT \<equiv> 64"

definition kernel_read ::
  "(nat \<Rightarrow> file_ops_table) \<Rightarrow> nat \<Rightarrow> nat \<Rightarrow> int \<Rightarrow> vfs \<Rightarrow> (int \<times> u8 list \<times> int \<times> vfs) option" where
  "kernel_read drv f count pos v = (if f = 0 then Some (-1, [], pos, v) else do {
     x \<leftarrow> at (files v) f;
     case f_op x of None \<Rightarrow> Some (- EBADF, [], pos, v)
     | Some fo \<Rightarrow> do {
         at (inodes v) (f_inode x);
         case op_read (fops_of drv fo) of None \<Rightarrow> Some (- EBADF, [], pos, v) | Some rd \<Rightarrow> rd f count pos v } })"

text \<open>A NULL \<open>write\<close> member is called, unlike a NULL \<open>read\<close>.\<close>

definition kernel_write ::
  "(nat \<Rightarrow> file_ops_table) \<Rightarrow> nat \<Rightarrow> u8 list \<Rightarrow> int \<Rightarrow> vfs \<Rightarrow> (int \<times> int \<times> vfs) option" where
  "kernel_write drv f data pos v = (if f = 0 then Some (-1, pos, v) else do {
     x \<leftarrow> at (files v) f;
     if (f_flags x AND O_ACCMODE) = O_RDONLY then Some (- EBADF, pos, v)
     else case f_op x of None \<Rightarrow> Some (- EBADF, pos, v)
     | Some fo \<Rightarrow> do {
         at (inodes v) (f_inode x);
         wr \<leftarrow> op_write (fops_of drv fo);
         (n, pos, v) \<leftarrow> wr f data pos v;
         x \<leftarrow> at (files v) f;
         at (inodes v) (f_inode x);
         Some (n, pos, v) } })"

definition vfs_ioctl :: "(nat \<Rightarrow> file_ops_table) \<Rightarrow> nat \<Rightarrow> u32 \<Rightarrow> nat \<Rightarrow> vfs \<Rightarrow> (int \<times> vfs) option" where
  "vfs_ioctl drv f cmd arg v = (if f = 0 then Some (-1, v) else do {
     x \<leftarrow> at (files v) f;
     if (f_flags x AND O_ACCMODE) = O_RDONLY then Some (- EBADF, v)
     else case f_op x of None \<Rightarrow> Some (- EBADF, v)
     | Some fo \<Rightarrow> do {
         at (inodes v) (f_inode x);
         case op_ioctl (fops_of drv fo) of None \<Rightarrow> Some (- EBADF, v) | Some io \<Rightarrow> io f cmd arg v } })"

definition filp_close :: "(nat \<Rightarrow> file_ops_table) \<Rightarrow> nat \<Rightarrow> vfs \<Rightarrow> (int \<times> vfs) option" where
  "filp_close drv f v = (if f = 0 then Some (-1, v) else do {
     x \<leftarrow> at (files v) f;
     (_, v) \<leftarrow> (case f_op x of None \<Rightarrow> Some (0, v)
       | Some fo \<Rightarrow> do {
           at (inodes v) (f_inode x);
           case op_release (fops_of drv fo) of None \<Rightarrow> Some (0, v) | Some rl \<Rightarrow> rl (f_inode x) f v });
     v \<leftarrow> f_put f v;
     Some (0, v) })"

end
