(* ===== verification/Namei.thy ===== *)
theory Namei
  imports FileOps
begin

text \<open>
  Paths and what is done with them: the path scanner of \<^verbatim>\<open>fs/fs.h\<close>, the walk from the root dentry, creation,
  removal and opening (\<^verbatim>\<open>fs/vfs.c\<close>), the registry of file system types (\<^verbatim>\<open>fs/file_system_type.c\<close>), mounting
  (\<^verbatim>\<open>fs/mount.c\<close>), the boot of the root file system, and the descriptor table (\<^verbatim>\<open>lib/sys/sys_fs.c\<close>).

  A path is its bytes before the NUL; 47 is the slash.
\<close>

section \<open>Paths\<close>

text \<open>What stands behind the slash with the given number; \<open>j\<close> slashes were passed.\<close>

fun skip_slashes :: "nat \<Rightarrow> nat \<Rightarrow> u8 list \<Rightarrow> u8 list option" where
  "skip_slashes n j [] = None"
| "skip_slashes n j (c # cs) = (let j = (if c = 47 then j + 1 else j) in
     if j = n then Some cs else skip_slashes n j cs)"

text \<open>The result and what was written to \<open>dir_name\<close>, a buffer of \<open>room\<close> bytes; a byte beyond it is a fault.\<close>

definition get_dir_name :: "u8 list \<Rightarrow> nat \<Rightarrow> nat \<Rightarrow> (int \<times> u8 list option) option" where
  "get_dir_name path room nummber = (case skip_slashes nummber 0 path of None \<Rightarrow> Some (-1, None)
     | Some rest \<Rightarrow> let name = takeWhile (\<lambda>c. c \<noteq> 47) rest in
         if length name < room then Some (0, Some name) else None)"

fun get_dir_number :: "u8 list \<Rightarrow> nat" where
  "get_dir_number [] = 0"
| "get_dir_number (c # cs) = (if c = 47 \<and> cs \<noteq> [] then 1 else 0) + get_dir_number cs"

section \<open>Walking and creating\<close>

definition find_dentry :: "nat \<Rightarrow> u8 list \<Rightarrow> vfs \<Rightarrow> ((int + nat) \<times> vfs) option" where
  "find_dentry dir name v = do {
     s \<leftarrow> d_lookup_dentry dir name v;
     if s \<noteq> 0 then Some (Inr s, v)
     else do {
       (d, v) \<leftarrow> d_alloc dir name v;
       p \<leftarrow> at (dentries v) dir;
       i \<leftarrow> at (inodes v) (d_inode p);
       K \<leftarrow> i_op i;
       (s, v) \<leftarrow> io_lookup (inode_ops K) (d_inode p) d v;
       if s = 0 then do { v \<leftarrow> d_drop d v; Some (Inl (- ENOENT), v) }
       else Some (Inr s, v) } }"

definition create_dentry :: "nat \<Rightarrow> u8 list \<Rightarrow> u16 \<Rightarrow> vfs \<Rightarrow> ((int + nat) \<times> vfs) option" where
  "create_dentry dir name mode v = do {
     (r, v) \<leftarrow> find_dentry dir name v;
     case r of Inr _ \<Rightarrow> Some (Inl (- EEXIST), v)
     | Inl _ \<Rightarrow> do {
         (d, v) \<leftarrow> d_alloc dir name v;
         p \<leftarrow> at (dentries v) dir;
         i \<leftarrow> at (inodes v) (d_inode p);
         K \<leftarrow> i_op i;
         (err, v) \<leftarrow> (if (mode AND S_IFMT) = S_IFREG then io_create (inode_ops K) (d_inode p) d mode v
           else if (mode AND S_IFMT) = S_IFDIR then io_mkdir (inode_ops K) (d_inode p) d mode v
           else Some (-1, v));
         if err < 0 then do { v \<leftarrow> d_drop d v; Some (Inl (- ENOMEM), v) }
         else Some (Inr d, v) } }"

text \<open>The test for a directory compares with the type of a character device, so \<open>rmdir\<close> is never reached.\<close>

definition remove_dentry_node :: "nat \<Rightarrow> vfs \<Rightarrow> (int \<times> vfs) option" where
  "remove_dentry_node d v = (if d = 0 then Some (-1, v) else do {
     e \<leftarrow> at (dentries v) d;
     s \<leftarrow> at (supers v) (d_sb e);
     if s_root s = d then Some (-1, v)
     else do {
       i \<leftarrow> at (inodes v) (d_inode e);
       if (i_mode i AND S_IFMT) = S_IFCHR \<or> (i_mode i AND S_IFMT) = S_IFBLK then Some (-1, v)
       else do {
         K \<leftarrow> i_op i;
         p \<leftarrow> at (dentries v) (d_parent e);
         if (i_mode i AND S_IFDIR) = S_IFCHR then do { v \<leftarrow> io_rmdir (inode_ops K) (d_inode p) d v; Some (0, v) }
         else do {
           (_, v) \<leftarrow> io_unlink (inode_ops K) (d_inode p) d v;
           e \<leftarrow> at (dentries v) d;
           p \<leftarrow> at (dentries v) (d_parent e);
           v \<leftarrow> simple_unlink (d_inode p) d v;
           Some (0, v) } } } })"

fun walk :: "u8 list \<Rightarrow> nat list \<Rightarrow> nat \<Rightarrow> vfs \<Rightarrow> ((int + nat) \<times> vfs) option" where
  "walk path [] d v = Some (Inr d, v)"
| "walk path (i # l) d v = do {
     (_, name) \<leftarrow> get_dir_name path 128 i;
     name \<leftarrow> name;
     (r, v) \<leftarrow> find_dentry d name v;
     case r of Inl e \<Rightarrow> Some (Inl e, v) | Inr d \<Rightarrow> walk path l d v }"

definition select_file :: "u8 list \<Rightarrow> nat \<Rightarrow> vfs \<Rightarrow> ((int + nat) \<times> vfs) option" where
  "select_file path off v = (if path = [47] then Some (Inr (root_dentry v), v)
     else walk path [1..<Suc (get_dir_number path - off)] (root_dentry v) v)"

definition create_new_dentry :: "u8 list \<Rightarrow> u16 \<Rightarrow> vfs \<Rightarrow> ((int + nat) \<times> vfs) option" where
  "create_new_dentry path mode v = do {
     (r, v) \<leftarrow> select_file path 1 v;
     case r of Inl _ \<Rightarrow> Some (Inl (- ENOENT), v)
     | Inr p \<Rightarrow> do {
         e \<leftarrow> at (dentries v) p;
         i \<leftarrow> at (inodes v) (d_inode e);
         if (i_mode i AND S_IFMT) \<noteq> S_IFDIR then Some (Inl (- ENOTDIR), v)
         else do {
           (_, name) \<leftarrow> get_dir_name path 128 (get_dir_number path);
           name \<leftarrow> name;
           create_dentry p name mode v } } }"

text \<open>All directories of a path and then its file; \<open>start\<close> is what is left behind the last slash.\<close>

function create_path :: "u8 list \<Rightarrow> u16 \<Rightarrow> nat \<Rightarrow> vfs \<Rightarrow> ((int + nat) \<times> vfs) option" where
  "create_path start mode parent v =
     (if 47 \<in> set start then
        let component = takeWhile (\<lambda>c. c \<noteq> 47) start in
        if length component \<ge> 255 then Some (Inl (- ENAMETOOLONG), v)
        else do {
          (r, v) \<leftarrow> find_dentry parent component v;
          (r, v) \<leftarrow> (case r of Inr c \<Rightarrow> Some (Inr c, v) | Inl _ \<Rightarrow> create_dentry parent component (S_IFDIR OR mode_755) v);
          case r of Inl e \<Rightarrow> Some (Inl e, v)
          | Inr child \<Rightarrow> do {
              e \<leftarrow> at (dentries v) child;
              i \<leftarrow> at (inodes v) (d_inode e);
              if (i_mode i AND S_IFMT) \<noteq> S_IFDIR then Some (Inl (- ENOTDIR), v)
              else create_path (drop (Suc (length component)) start) mode child v } }
      else if start \<noteq> [] then create_dentry parent start mode v
      else Some (Inr parent, v))"
  by pat_completeness auto
termination
  by (relation "measure (\<lambda>(start, _). length start)") (auto dest!: length_pos_if_in_set)

definition create_path_and_file :: "u8 list \<Rightarrow> u16 \<Rightarrow> vfs \<Rightarrow> ((int + nat) \<times> vfs) option" where
  "create_path_and_file path mode v = (case path of [] \<Rightarrow> Some (Inr 0, v)
     | c # start \<Rightarrow> if c \<noteq> 47 then Some (Inr 0, v) else create_path start mode (root_dentry v) v)"

definition remove_dentry :: "u8 list \<Rightarrow> vfs \<Rightarrow> (int \<times> vfs) option" where
  "remove_dentry path v = do {
     (r, v) \<leftarrow> select_file path 0 v;
     case r of Inl _ \<Rightarrow> Some (-1, v)
     | Inr d \<Rightarrow> do { (_, v) \<leftarrow> remove_dentry_node d v; Some (0, v) } }"

definition blkdev_get_by_path :: "u8 list \<Rightarrow> vfs \<Rightarrow> (nat \<times> vfs) option" where
  "blkdev_get_by_path path v = do {
     (r, v) \<leftarrow> select_file path 0 v;
     case r of Inl _ \<Rightarrow> None
     | Inr d \<Rightarrow> do { e \<leftarrow> at (dentries v) d; b \<leftarrow> devfs_get_blk_dev (d_inode e) v; Some (b, v) } }"

definition mkdir :: "u8 list \<Rightarrow> u16 \<Rightarrow> vfs \<Rightarrow> ((int + nat) \<times> vfs) option" where
  "mkdir path mode v =
     (let mode = (if mode = 0 then mode_755 else mode) in create_new_dentry path (S_IFDIR OR (mode AND mode_777)) v)"

definition get_file_mode :: "u8 list \<Rightarrow> vfs \<Rightarrow> (u16 \<times> vfs) option" where
  "get_file_mode path v = do {
     (r, v) \<leftarrow> select_file path 0 v;
     case r of Inl _ \<Rightarrow> Some (0, v)
     | Inr d \<Rightarrow> do { e \<leftarrow> at (dentries v) d; i \<leftarrow> at (inodes v) (d_inode e); Some (i_mode i, v) } }"

text \<open>The ten characters \<open>print_mode\<close> prints: the type and nine permissions, or a dash each.\<close>

definition mode_string :: "u16 \<Rightarrow> string" where
  "mode_string mode =
     (let t = mode AND S_IFMT; p = (\<lambda>b c. if mode AND b \<noteq> 0 then c else CHR ''-'') in
      [if t = S_IFDIR then CHR ''d'' else if t = S_IFCHR then CHR ''c'' else if t = S_IFBLK then CHR ''b''
       else if t = 4096 then CHR ''p'' else if t = 40960 then CHR ''l'' else if t = 49152 then CHR ''s'' else CHR ''-'',
       p 256 (CHR ''r''), p 128 (CHR ''w''), p 64 (CHR ''x''), p 32 (CHR ''r''), p 16 (CHR ''w''), p 8 (CHR ''x''),
       p 4 (CHR ''r''), p 2 (CHR ''w''), p 1 (CHR ''x'')])"

text \<open>\<open>Inr 0\<close> is the NULL that a failing \<open>open\<close> operation gives.\<close>

definition filp_open ::
  "(nat \<Rightarrow> file_ops_table) \<Rightarrow> u8 list \<Rightarrow> u32 \<Rightarrow> u16 \<Rightarrow> vfs \<Rightarrow> ((int + nat) \<times> vfs) option" where
  "filp_open drv path flags mode v = do {
     (r, v) \<leftarrow> select_file path 0 v;
     (r, v) \<leftarrow> (case r of Inr d \<Rightarrow> Some (Inr d, v)
       | Inl e \<Rightarrow> if e = - ENOENT \<and> flags AND O_CREAT \<noteq> 0 then create_new_dentry path (S_IFREG OR mode) v
           else Some (Inl (- ENOENT), v));
     case r of Inl e \<Rightarrow> Some (Inl e, v)
     | Inr d \<Rightarrow> do {
         (r, v) \<leftarrow> f_get d v;
         case r of Inl _ \<Rightarrow> Some (Inl (- ENOMEM), v)
         | Inr f \<Rightarrow> do {
             fs \<leftarrow> upd (files v) f (\<lambda>x. x\<lparr>f_pos := 0, f_flags := flags, f_mode := ucast mode\<rparr>);
             let v = v\<lparr>files := fs\<rparr>;
             x \<leftarrow> at fs f;
             at (inodes v) (f_inode x);
             (flag, v) \<leftarrow> (case f_op x of None \<Rightarrow> Some (0, v)
               | Some fo \<Rightarrow> (case op_open (fops_of drv fo) of None \<Rightarrow> Some (0, v) | Some op \<Rightarrow> op (f_inode x) f v));
             if flag < 0 then do { v \<leftarrow> f_put f v; Some (Inr 0, v) }
             else do {
               f_op x;
               Some (Inr f, v) } } } }"

section \<open>File system types and mounting\<close>

definition register_filesystem :: "file_system_type option \<Rightarrow> vfs \<Rightarrow> int \<times> vfs" where
  "register_filesystem ft v = (case ft of None \<Rightarrow> (-1, v)
     | Some t \<Rightarrow> if \<exists>x \<in> set (fs_t v). ft_name x = ft_name t then (- EEXIST, v)
         else (0, v\<lparr>fs_t := t # fs_t v\<rparr>))"

fun unlink_type :: "nat \<Rightarrow> file_system_type list \<Rightarrow> file_system_type list option" where
  "unlink_type a [] = None"
| "unlink_type a (t # ts) = (if ft_addr t = a then Some ts else map_option (Cons t) (unlink_type a ts))"

definition unregister_filesystem :: "file_system_type \<Rightarrow> vfs \<Rightarrow> int \<times> vfs" where
  "unregister_filesystem ft v = (case unlink_type (ft_addr ft) (fs_t v) of
     Some l \<Rightarrow> (0, v\<lparr>fs_t := l\<rparr>) | None \<Rightarrow> (- EINVAL, v))"

definition lookup_fs_type :: "u8 list \<Rightarrow> vfs \<Rightarrow> file_system_type option" where
  "lookup_fs_type name v = find (\<lambda>t. ft_name t = name) (fs_t v)"

definition sget :: "(nat \<Rightarrow> nat) \<Rightarrow> file_system_type option \<Rightarrow> vfs \<Rightarrow> (nat \<times> vfs) option" where
  "sget reg ty v = (case ty of None \<Rightarrow> Some (0, v)
     | Some t \<Rightarrow> (case ft_mount t of None \<Rightarrow> Some (0, v)
       | Some K \<Rightarrow> do {
           (r, v) \<leftarrow> mount_of K reg v;
           case r of Inl _ \<Rightarrow> Some (0, v)
           | Inr d \<Rightarrow> if d = 0 then Some (0, v) else do { e \<leftarrow> at (dentries v) d; Some (d_sb e, v) } }))"

definition mount_root_fs :: "(nat \<Rightarrow> nat) \<Rightarrow> u8 list \<Rightarrow> vfs \<Rightarrow> (int \<times> vfs) option" where
  "mount_root_fs reg name v = (let v = v\<lparr>superblock_list := []\<rparr> in
     case lookup_fs_type name v of None \<Rightarrow> Some (-1, v)
     | Some t \<Rightarrow> do {
         K \<leftarrow> ft_mount t;
         (r, v) \<leftarrow> mount_of K reg v;
         case r of Inl _ \<Rightarrow> None
         | Inr d \<Rightarrow> do {
             e \<leftarrow> at (dentries v) d;
             if d_sb e = 0 then Some (-1, v)
             else do {
               s \<leftarrow> at (supers v) (d_sb e);
               if s_root s = 0 then Some (-1, v)
               else do {
                 l \<leftarrow> list_add (supers v) (d_sb e) (superblock_list v);
                 ds \<leftarrow> upd (dentries v) (s_root s) (\<lambda>x. x\<lparr>d_sb := d_sb e\<rparr>);
                 x \<leftarrow> at ds (s_root s);
                 is \<leftarrow> upd (inodes v) (d_inode x) (\<lambda>i. i\<lparr>i_mode := S_IFDIR OR mode_755\<rparr>);
                 (_, v) \<leftarrow> dentry_rename (s_root s) root_name
                   (v\<lparr>superblock_list := l, root_dentry := s_root s, dentries := ds, inodes := is\<rparr>);
                 Some (0, v) } } } })"

definition sys_mount :: "(nat \<Rightarrow> nat) \<Rightarrow> u8 list \<Rightarrow> u8 list \<Rightarrow> vfs \<Rightarrow> (int \<times> vfs) option" where
  "sys_mount reg dir_name type v = (case lookup_fs_type type v of None \<Rightarrow> Some (- ENODEV, v)
     | Some t \<Rightarrow> do {
         (r, v) \<leftarrow> select_file dir_name 0 v;
         case r of Inl _ \<Rightarrow> Some (- ENOENT, v)
         | Inr mp \<Rightarrow> do {
             e \<leftarrow> at (dentries v) mp;
             i \<leftarrow> at (inodes v) (d_inode e);
             if (i_mode i AND S_IFMT) \<noteq> S_IFDIR then Some (- ENOTDIR, v)
             else do {
               K \<leftarrow> ft_mount t;
               (r, v) \<leftarrow> mount_of K reg v;
               case r of Inl _ \<Rightarrow> None
               | Inr d \<Rightarrow> do {
                   x \<leftarrow> at (dentries v) d;
                   if d_sb x = 0 then Some (- ENOMEM, v)
                   else do {
                     s \<leftarrow> at (supers v) (d_sb x);
                     y \<leftarrow> at (dentries v) (s_root s);
                     ds \<leftarrow> upd (dentries v) mp (\<lambda>m. m\<lparr>d_sb := d_sb x, d_inode := d_inode y\<rparr>);
                     Some (0, v\<lparr>dentries := ds\<rparr>) } } } } })"

text \<open>The files built into the image; an error number of \<open>create_path_and_file\<close> is followed.\<close>

definition mountfile_to_initramfs :: "file_data \<Rightarrow> vfs \<Rightarrow> (int \<times> vfs) option" where
  "mountfile_to_initramfs fd v = do {
     (r, v) \<leftarrow> create_path_and_file (fd_path fd) (S_IFREG OR mode_755) v;
     case r of Inl _ \<Rightarrow> None
     | Inr d \<Rightarrow> if d = 0 then Some (-1, v)
         else do {
           e \<leftarrow> at (dentries v) d;
           v \<leftarrow> initram_fs_mount_file (d_inode e) fd v;
           Some (0, v) } }"

fun mount_all_file :: "file_data list \<Rightarrow> vfs \<Rightarrow> vfs option" where
  "mount_all_file [] v = Some v"
| "mount_all_file (fd # fds) v = do { (_, v) \<leftarrow> mountfile_to_initramfs fd v; mount_all_file fds v }"

definition ascii :: "string \<Rightarrow> u8 list" where
  "ascii s = map of_char s"

definition root_fs_init :: "(nat \<Rightarrow> nat) \<Rightarrow> u8 list \<Rightarrow> file_data list \<Rightarrow> vfs \<Rightarrow> (int \<times> vfs) option" where
  "root_fs_init reg root_type fds v = do {
     (err, v) \<leftarrow> mount_root_fs reg root_type v;
     if err < 0 then Some (-1, v)
     else do {
       v \<leftarrow> mount_all_file fds v;
       (_, v) \<leftarrow> mkdir (ascii ''/dev'') mode_755 v;
       (_, v) \<leftarrow> mkdir (ascii ''/tmp'') mode_755 v;
       (_, v) \<leftarrow> mkdir (ascii ''/mnt'') mode_755 v;
       (_, v) \<leftarrow> mkdir (ascii ''/sys'') mode_755 v;
       (_, v) \<leftarrow> mkdir (ascii ''/tmp/pipe'') 0 v;
       (_, v) \<leftarrow> sys_mount reg (ascii ''/dev'') (ascii ''devfs'') v;
       (_, v) \<leftarrow> sys_mount reg (ascii ''/tmp/pipe'') (ascii ''pipefs'') v;
       (_, v) \<leftarrow> sys_mount reg (ascii ''/sys'') (ascii ''sysfs'') v;
       Some (0, v) } }"

section \<open>Descriptors\<close>

fun first_free :: "nat \<Rightarrow> nat list \<Rightarrow> nat option" where
  "first_free i [] = None"
| "first_free i (x # xs) = (if x = 0 then Some i else first_free (Suc i) xs)"

definition install_fd :: "nat \<Rightarrow> vfs \<Rightarrow> int \<times> vfs" where
  "install_fd file v = (case first_free 0 (fd_table v) of None \<Rightarrow> (- EMFILE, v)
     | Some i \<Rightarrow> (int i, v\<lparr>fd_table := (fd_table v)[i := file]\<rparr>))"

definition get_file_from_fd :: "int \<Rightarrow> vfs \<Rightarrow> nat" where
  "get_file_from_fd fd v = (if fd < 0 \<or> fd \<ge> 256 then 0 else fd_table v ! nat fd)"

definition release_fd :: "int \<Rightarrow> vfs \<Rightarrow> vfs" where
  "release_fd fd v = (if fd \<ge> 0 \<and> fd < 256 then v\<lparr>fd_table := (fd_table v)[nat fd := 0]\<rparr> else v)"

definition sys_open :: "(nat \<Rightarrow> file_ops_table) \<Rightarrow> u8 list \<Rightarrow> u32 \<Rightarrow> u16 \<Rightarrow> vfs \<Rightarrow> (int \<times> vfs) option" where
  "sys_open drv filename flags mode v = do {
     (r, v) \<leftarrow> filp_open drv filename flags mode v;
     case r of Inl e \<Rightarrow> Some (e, v)
     | Inr filp \<Rightarrow> (let (fd, v) = install_fd filp v in
         if fd < 0 then do { (_, v) \<leftarrow> filp_close drv filp v; Some (fd, v) } else Some (fd, v)) }"

text \<open>The descriptor is an unsigned number that is converted to \<open>int\<close>; the bytes are those copied to the user.\<close>

definition sys_read :: "(nat \<Rightarrow> file_ops_table) \<Rightarrow> u32 \<Rightarrow> nat \<Rightarrow> vfs \<Rightarrow> (int \<times> u8 list \<times> vfs) option" where
  "sys_read drv fd count v = (let file = get_file_from_fd (sint fd) v in
     if file = 0 then Some (- EBADF, [], v)
     else let (kbuf, v) = vkmalloc v in
       if kbuf = 0 then Some (- ENOMEM, [], v)
       else do {
         (ret, bytes, _, v) \<leftarrow> kernel_read drv file count 0 v;
         Some (ret, if ret \<ge> 0 then take (nat ret) bytes else [], v) })"

definition sys_write :: "(nat \<Rightarrow> file_ops_table) \<Rightarrow> u32 \<Rightarrow> u8 list \<Rightarrow> vfs \<Rightarrow> (int \<times> vfs) option" where
  "sys_write drv fd buf v = (let file = get_file_from_fd (sint fd) v in
     if file = 0 then Some (- EBADF, v)
     else let (kbuf, v) = vkmalloc v in
       if kbuf = 0 then Some (- ENOMEM, v)
       else do {
         (ret, _, v) \<leftarrow> kernel_write drv file buf 0 v;
         Some (ret, v) })"

definition sys_close :: "(nat \<Rightarrow> file_ops_table) \<Rightarrow> u32 \<Rightarrow> vfs \<Rightarrow> (int \<times> vfs) option" where
  "sys_close drv fd v = (let file = get_file_from_fd (sint fd) v in
     if file = 0 then Some (- EBADF, v)
     else do {
       (_, v) \<leftarrow> filp_close drv file v;
       Some (0, release_fd (sint fd) v) })"

definition sys_ioctl :: "(nat \<Rightarrow> file_ops_table) \<Rightarrow> u32 \<Rightarrow> u32 \<Rightarrow> nat \<Rightarrow> vfs \<Rightarrow> (int \<times> vfs) option" where
  "sys_ioctl drv fd cmd arg v = (let file = get_file_from_fd (sint fd) v in
     if file = 0 then Some (- EBADF, v) else vfs_ioctl drv file cmd arg v)"

end
