(* ===== verification/VfsSpec.thy ===== *)
theory VfsSpec
  imports Namei
begin

text \<open>
  What the virtual file system guarantees: paths against a reference split, the coherence of the dentry
  cache, what \<open>mkdir\<close> really binds, files in memory read back what was written, the descriptor table and
  the registry of file system types.
\<close>

section \<open>Paths\<close>

text \<open>The pieces of a path between its slashes; the first is what stands before the first slash.\<close>

fun split_path :: "u8 list \<Rightarrow> u8 list list" where
  "split_path [] = [[]]"
| "split_path (c # cs) = (if c = 47 then [] # split_path cs
     else (c # hd (split_path cs)) # tl (split_path cs))"

lemma split_path_ne [simp]: "split_path p \<noteq> []"
  by (cases p) simp_all

lemma split_path_hd: "hd (split_path p) = takeWhile (\<lambda>c. c \<noteq> 47) p"
  by (induction p) simp_all

lemma skip_slashes_split:
  "j < n \<Longrightarrow> (if n - j < length (split_path p)
     then \<exists>rest. skip_slashes n j p = Some rest \<and> takeWhile (\<lambda>c. c \<noteq> 47) rest = split_path p ! (n - j)
     else skip_slashes n j p = None)"
proof (induction p arbitrary: j)
  case (Cons c p)
  have ne: "split_path p \<noteq> []" by simp
  show ?case
  proof (cases "c = 47")
    case True
    show ?thesis
    proof (cases "j + 1 = n")
      case True
      then have e: "n - j = Suc 0" by simp
      show ?thesis using \<open>c = 47\<close> True ne by (simp add: e split_path_hd hd_conv_nth [symmetric])
    next
      case False
      then have "j + 1 < n" using Cons.prems by simp
      moreover have "n - j = Suc (n - (j + 1))" using Cons.prems by simp
      ultimately show ?thesis using Cons.IH [of "j + 1"] \<open>c = 47\<close> False by (simp split: if_splits)
    qed
  next
    case False
    then have "skip_slashes n j (c # p) = skip_slashes n j p" using Cons.prems by simp
    moreover have "length (split_path (c # p)) = length (split_path p)" using False ne by simp
    moreover have "split_path (c # p) ! (n - j) = split_path p ! (n - j)"
      if "n - j < length (split_path p)"
      using False Cons.prems that by (cases "split_path p"; cases "n - j") simp_all
    ultimately show ?thesis using Cons.IH [OF Cons.prems] by (simp split: if_splits)
  qed
qed simp

lemma get_dir_number_split:
  "get_dir_number p + (if length (split_path p) > 1 \<and> last (split_path p) = [] then 2 else 1) = length (split_path p)"
proof (induction p)
  case (Cons c p)
  have "p = [] \<or> split_path p \<noteq> [[]]" by (induction p) (auto split: if_splits)
  then show ?case using Cons by (cases "split_path p") (auto split: if_splits)
qed simp

text \<open>the path scanner agrees with splitting the path at its slashes: the number of levels is the number of pieces after the
  first, a trailing empty one not counted, and the name at a level is its piece, up to the length of the buffer.\<close>

theorem path_components:
  "get_dir_number p + (if length (split_path p) > 1 \<and> last (split_path p) = [] then 2 else 1) = length (split_path p) \<and>
   (\<forall>i. 0 < i \<longrightarrow> get_dir_name p room i = (if i \<ge> length (split_path p) then Some (-1, None)
      else if length (split_path p ! i) < room then Some (0, Some (split_path p ! i)) else None))"
proof (intro conjI allI impI)
  show "get_dir_name p room i = (if i \<ge> length (split_path p) then Some (-1, None)
      else if length (split_path p ! i) < room then Some (0, Some (split_path p ! i)) else None)" if "0 < i" for i
    using skip_slashes_split [OF that, of p] by (auto simp: get_dir_name_def split: if_splits)
qed (rule get_dir_number_split)

theorem path_components_witness:
  "get_dir_number [47, 97, 47, 98, 47] = 2 \<and> get_dir_name [47, 97, 47, 98, 47] 128 2 = Some (0, Some [98])"
proof -
  have "(0 :: nat) < 2" by simp
  with path_components [of "[47, 97, 47, 98, 47]" 128] have
    "get_dir_name [47, 97, 47, 98, 47] 128 2 = (if 2 \<ge> length (split_path [47, 97, 47, 98, 47]) then Some (-1, None)
      else if length (split_path [47, 97, 47, 98, 47] ! 2) < 128 then Some (0, Some (split_path [47, 97, 47, 98, 47] ! 2)) else None)"
    by blast
  then show ?thesis by simp
qed

section \<open>Registry and descriptors\<close>

lemma filter_not_image: "a \<notin> f ` set l \<Longrightarrow> filter (\<lambda>x. f x \<noteq> a) l = l"
  by (induction l) auto

lemma unlink_type_filter:
  "distinct (map ft_addr l) \<Longrightarrow> unlink_type a l = (if a \<in> ft_addr ` set l then Some (filter (\<lambda>t. ft_addr t \<noteq> a) l) else None)"
proof (induction l)
  case (Cons t l)
  have "ft_addr t \<notin> ft_addr ` set l" using Cons.prems by simp
  then have "ft_addr t = a \<Longrightarrow> filter (\<lambda>x. ft_addr x \<noteq> a) l = l" by (auto intro: filter_not_image)
  then show ?case using Cons by auto
qed simp

definition types_ok :: "vfs \<Rightarrow> bool" where
  "types_ok v \<longleftrightarrow> distinct (map ft_name (fs_t v)) \<and> distinct (map ft_addr (fs_t v))"

lemma find_unique: "distinct (map f l) \<Longrightarrow> x \<in> set l \<Longrightarrow> find (\<lambda>y. f y = f x) l = Some x"
  by (induction l) auto

text \<open>file system types are registered under unique names: a registered type is found under its name and no other lookup
  changes, a second one of the same name is refused, and unregistering takes back exactly the one type.\<close>

theorem filesystem_registry:
  assumes ok: "types_ok v" and new: "ft_addr t \<notin> ft_addr ` set (fs_t v)"
  shows "case register_filesystem (Some t) v of (r, v1) \<Rightarrow>
    types_ok v1 \<and>
    (r = 0 \<longleftrightarrow> lookup_fs_type (ft_name t) v = None) \<and>
    (if r = 0 then (\<forall>n. lookup_fs_type n v1 = (if n = ft_name t then Some t else lookup_fs_type n v)) \<and>
         unregister_filesystem t v1 = (0, v)
     else r = - EEXIST \<and> v1 = v \<and> unregister_filesystem t v1 = (- EINVAL, v))"
proof (cases "\<exists>x \<in> set (fs_t v). ft_name x = ft_name t")
  case True
  have "find (\<lambda>x. ft_name x = ft_name t) (fs_t v) \<noteq> None" using True by (auto simp: find_None_iff)
  then show ?thesis using True new ok
    by (simp add: register_filesystem_def unregister_filesystem_def lookup_fs_type_def types_ok_def unlink_type_filter)
next
  case False
  have "find (\<lambda>x. ft_name x = ft_name t) (fs_t v) = None" using False by (simp add: find_None_iff)
  moreover have "filter (\<lambda>x. ft_addr x \<noteq> ft_addr t) (fs_t v) = fs_t v" using new by (rule filter_not_image)
  moreover have "ft_name t \<notin> ft_name ` set (fs_t v)" using False by auto
  ultimately show ?thesis using False new ok
    by (auto simp: register_filesystem_def unregister_filesystem_def lookup_fs_type_def types_ok_def)
qed


lemma first_free_None: "first_free i xs = None \<Longrightarrow> 0 \<notin> set xs"
  by (induction xs arbitrary: i) (auto split: if_splits)

lemma first_free_Some:
  "first_free i xs = Some k \<Longrightarrow> \<exists>n. k = i + n \<and> n < length xs \<and> xs ! n = 0 \<and> (\<forall>j < n. xs ! j \<noteq> 0)"
proof (induction xs arbitrary: i)
  case (Cons x xs)
  show ?case
  proof (cases "x = 0")
    case True
    then show ?thesis using Cons.prems by (intro exI [of _ 0]) simp
  next
    case False
    then obtain n where n: "k = Suc i + n" "n < length xs" "xs ! n = 0" "\<forall>j < n. xs ! j \<noteq> 0"
      using Cons.IH [of "Suc i"] Cons.prems by auto
    then show ?thesis using False by (intro exI [of _ "Suc n"]) (auto simp: less_Suc_eq_0_disj)
  qed
qed simp

text \<open>a new descriptor is the lowest one that is free, it then leads to the file and no other descriptor changes, and closing it
  restores the table; a full table gives -EMFILE. But an open that failed with NULL is installed too: \<open>sys_open\<close> then returns a
  descriptor that leads nowhere and stays free.\<close>

theorem descriptor_table:
  assumes len: "length (fd_table v) = 256"
  shows "(case install_fd file v of (fd, v1) \<Rightarrow>
    if 0 \<in> set (fd_table v) then
      0 \<le> fd \<and> fd < 256 \<and> get_file_from_fd fd v = 0 \<and> (\<forall>k. 0 \<le> k \<and> k < fd \<longrightarrow> get_file_from_fd k v \<noteq> 0) \<and>
      (\<forall>k. get_file_from_fd k v1 = (if k = fd then file else get_file_from_fd k v)) \<and>
      release_fd fd v1 = v \<and>
      (\<forall>drv path flags mode u. filp_open drv path flags mode u = Some (Inr 0, v) \<longrightarrow>
         sys_open drv path flags mode u = Some (fst (install_fd 0 v), v))
    else fd = - EMFILE \<and> v1 = v)"
proof (cases "first_free 0 (fd_table v)")
  case None
  then show ?thesis using first_free_None [of 0 "fd_table v"] by (simp add: install_fd_def)
next
  case (Some n)
  then have n: "n < 256" "fd_table v ! n = 0" "\<forall>j < n. fd_table v ! j \<noteq> 0"
    using first_free_Some [of 0 "fd_table v"] len by auto
  have "0 \<in> set (fd_table v)" using n len by (metis nth_mem)
  moreover have "k = int n" if "nat k = n" "0 \<le> k" for k using that by simp
  moreover have "(fd_table v)[n := 0] = fd_table v" using n by (metis list_update_id)
  ultimately show ?thesis
    using n len Some by (auto simp: install_fd_def get_file_from_fd_def release_fd_def sys_open_def nth_list_update)
qed

definition boot_w :: "file_system_type list \<Rightarrow> vfs" where
  "boot_w ts = \<lparr>fsm = mounted_w, inodes = Map.empty, dentries = Map.empty, supers = Map.empty, files = Map.empty, root_dentry = 0,
     superblock_list = [], fs_t = ts, fd_table = replicate 256 0, console = tty_w\<rparr>"

theorem descriptor_table_witness: "fst (install_fd 7 (boot_w [])) = 0 \<and> get_file_from_fd 0 (snd (install_fd 7 (boot_w []))) = 7"
proof -
  have "length (fd_table (boot_w [])) = 256" "0 \<in> set (fd_table (boot_w []))" by (simp_all add: boot_w_def)
  with descriptor_table [of "boot_w []" 7] have
    "\<forall>k. 0 \<le> k \<and> k < fst (install_fd 7 (boot_w [])) \<longrightarrow> get_file_from_fd k (boot_w []) \<noteq> 0"
    "0 \<le> fst (install_fd 7 (boot_w []))"
    "\<forall>k. get_file_from_fd k (snd (install_fd 7 (boot_w []))) = (if k = fst (install_fd 7 (boot_w [])) then 7 else get_file_from_fd k (boot_w []))"
    by (auto split: prod.splits)
  moreover have "get_file_from_fd 0 (boot_w []) = 0" by (simp add: get_file_from_fd_def boot_w_def)
  ultimately show ?thesis by (metis order_le_less order_refl)
qed

theorem filesystem_registry_witness:
  "register_filesystem (Some \<lparr>ft_addr = 8, ft_name = [112], ft_mount = Some Pipefs\<rparr>) (boot_w [\<lparr>ft_addr = 4, ft_name = [112], ft_mount = Some Devfs\<rparr>]) =
   (- EEXIST, boot_w [\<lparr>ft_addr = 4, ft_name = [112], ft_mount = Some Devfs\<rparr>])"
  (is "register_filesystem (Some ?t) ?v = _")
proof -
  have "types_ok ?v" "ft_addr ?t \<notin> ft_addr ` set (fs_t ?v)" "lookup_fs_type (ft_name ?t) ?v \<noteq> None"
    by (simp_all add: types_ok_def lookup_fs_type_def boot_w_def)
  with filesystem_registry [of ?v ?t] show ?thesis by (cases "register_filesystem (Some ?t) ?v") (auto split: if_splits)
qed


section \<open>What a dentry is bound to\<close>

lemma vkmalloc_frame: "vkmalloc v = (a, v') \<Longrightarrow> \<exists>l. v' = v\<lparr>fsm := (fsm v)\<lparr>avail := l\<rparr>\<rparr>"
  by (cases "avail (fsm v)") (auto simp: vkmalloc_def kmalloc_def intro: exI [of _ "avail (fsm v)"])

definition fresh_inode :: "nat \<Rightarrow> inode" where
  "fresh_inode sb = \<lparr>i_mode = S_IFCHR OR mode_777, i_op = None, i_fop = None, i_private = 0, i_sb = sb, i_count = 1, i_size = 0, i_bytes = 0\<rparr>"

lemma new_inode_frame:
  assumes "new_inode sb v = (a, v')"
  shows "\<exists>l. v' = v\<lparr>fsm := (fsm v)\<lparr>avail := l\<rparr>, inodes := (if a = 0 then inodes v else (inodes v)(a \<mapsto> fresh_inode sb))\<rparr>"
proof -
  obtain b w where k: "vkmalloc v = (b, w)" by (cases "vkmalloc v")
  then obtain l where w: "w = v\<lparr>fsm := (fsm v)\<lparr>avail := l\<rparr>\<rparr>" using vkmalloc_frame by blast
  show ?thesis using assms k by (intro exI [of _ l]) (auto simp: new_inode_def w fresh_inode_def split: if_splits)
qed

lemma fs_get_inode_spec:
  assumes "fs_get_inode K node sb v = Some (a, v')"
  shows "v' = v\<lparr>fsm := (fsm v)\<lparr>avail := avail (fsm v')\<rparr>, inodes := inodes v'\<rparr> \<and> (\<forall>x. x \<noteq> a \<longrightarrow> inodes v' x = inodes v x) \<and>
    (a \<noteq> 0 \<longrightarrow> (\<exists>n i. fsis (fsm v) node = Some n \<and> inodes v' a = Some i \<and> i_private i = node \<and> i_op i = Some K \<and> i_sb i = sb \<and> i_mode i = ucast (fi_mode n) \<and> i_fop i = fi_fop n))"
proof (cases "node = 0")
  case True
  then show ?thesis using assms by (auto simp: fs_get_inode_def)
next
  case False
  obtain b w where k: "new_inode sb v = (b, w)" by (cases "new_inode sb v")
  then obtain l where w0: "w = v\<lparr>fsm := (fsm v)\<lparr>avail := l\<rparr>, inodes := (if b = 0 then inodes v else (inodes v)(b \<mapsto> fresh_inode sb))\<rparr>"
    using new_inode_frame by blast
  define f where "f = (if b = 0 then inodes v else (inodes v)(b \<mapsto> fresh_inode sb))"
  have w: "w = v\<lparr>fsm := (fsm v)\<lparr>avail := l\<rparr>, inodes := f\<rparr>" "\<forall>x. x \<noteq> b \<longrightarrow> f x = inodes v x"
    using w0 by (simp_all add: f_def)
  show ?thesis
  proof (cases "b = 0")
    case True
    then have "a = 0" "v' = w" using assms k False by (auto simp: fs_get_inode_def)
    then show ?thesis using w True by auto
  next
    case b: False
    then obtain i where i: "f b = Some i" "i_sb i = sb" by (simp add: f_def fresh_inode_def)
    obtain n where n: "fsis (fsm v) node = Some n" using assms k b False by (auto simp: fs_get_inode_def bind_eq_Some_conv w)
    have "a = b \<and> v' = w\<lparr>inodes := f(b \<mapsto> i\<lparr>i_mode := ucast (fi_mode n), i_fop := fi_fop n, i_op := Some K, i_private := node,
        i_size := (if K = Initramfs then uint (fi_size n) else i_size i)\<rparr>)\<rparr>"
      using assms k b False n i by (auto simp: fs_get_inode_def w)
    then show ?thesis using w n i b by auto
  qed
qed

lemma d_add_run:
  assumes "d_add d i v = Some v'"
  shows "\<exists>e x p. dentries v d = Some e \<and> inodes v i = Some x \<and> ((dentries v)(d \<mapsto> e\<lparr>d_inode := i, d_sb := i_sb x\<rparr>)) (d_parent e) = Some p \<and>
    v' = v\<lparr>dentries := (dentries v)(d \<mapsto> e\<lparr>d_inode := i, d_sb := i_sb x\<rparr>, d_parent e \<mapsto> p\<lparr>d_hash := d # d_hash p\<rparr>)\<rparr>"
  using assms by (auto simp: d_add_def d_hash_add_def list_add_def bind_eq_Some_conv at_Some simp del: fun_upd_apply split: if_splits)

lemma d_add_spec:
  assumes "d_add d i v = Some v'"
  shows "\<exists>e x e' p. dentries v d = Some e \<and> inodes v i = Some x \<and> v' = v\<lparr>dentries := dentries v'\<rparr> \<and>
    dentries v' d = Some e' \<and> d_inode e' = i \<and> d_sb e' = i_sb x \<and> d_name e' = d_name e \<and> d_parent e' = d_parent e \<and> d_fsdata e' = d_fsdata e \<and>
    (d_parent e \<noteq> d \<longrightarrow> dentries v (d_parent e) = Some p \<and> dentries v' (d_parent e) = Some (p\<lparr>d_hash := d # d_hash p\<rparr>)) \<and>
    (\<forall>y. y \<noteq> d \<longrightarrow> y \<noteq> d_parent e \<longrightarrow> dentries v' y = dentries v y)"
proof -
  from d_add_run [OF assms] obtain e x p where r: "dentries v d = Some e" "inodes v i = Some x"
    "((dentries v)(d \<mapsto> e\<lparr>d_inode := i, d_sb := i_sb x\<rparr>)) (d_parent e) = Some p"
    "v' = v\<lparr>dentries := (dentries v)(d \<mapsto> e\<lparr>d_inode := i, d_sb := i_sb x\<rparr>, d_parent e \<mapsto> p\<lparr>d_hash := d # d_hash p\<rparr>)\<rparr>"
    by (elim exE conjE)
  show ?thesis using r by (cases "d_parent e = d") auto
qed

lemma fs_bind_spec:
  assumes "fs_bind K dir d file node v = Some (0, v')"
  shows "\<exists>di e e' i n l. inodes v dir = Some di \<and> dentries v d = Some e \<and> dentries v' d = Some e' \<and> inodes v' (d_inode e') = Some i \<and>
    fsis (fsm v) node = Some n \<and> i_private i = node \<and> i_op i = Some K \<and> i_sb i = i_sb di \<and> i_mode i = ucast (fi_mode n) \<and>
    d_fsdata e' = file \<and> d_name e' = d_name e \<and> d_sb e' = i_sb di \<and> fsm v' = (fsm v)\<lparr>avail := l\<rparr> \<and>
    (d_parent e \<noteq> d \<longrightarrow> (\<exists>p. dentries v (d_parent e) = Some p \<and> dentries v' (d_parent e) = Some (p\<lparr>d_hash := d # d_hash p\<rparr>))) \<and>
    (\<forall>y. y \<noteq> d \<longrightarrow> y \<noteq> d_parent e \<longrightarrow> dentries v' y = dentries v y)"
proof -
  obtain v1 where v1: "fs_get_dentry d file v = Some (d, v1)" and d: "d \<noteq> 0" "file \<noteq> 0"
    using assms by (auto simp: fs_bind_def bind_eq_Some_conv fs_get_dentry_def split: if_splits)
  obtain e where e: "dentries v d = Some e" "v1 = v\<lparr>dentries := (dentries v)(d \<mapsto> e\<lparr>d_fsdata := file\<rparr>)\<rparr>"
    using v1 d by (auto simp: fs_get_dentry_def upd_Some bind_eq_Some_conv)
  obtain di a v2 where a: "inodes v dir = Some di" "fs_get_inode K node (i_sb di) v1 = Some (a, v2)" "a \<noteq> 0" "d_add d a v2 = Some v'"
    using assms v1 d e by (auto simp: fs_bind_def bind_eq_Some_conv at_Some split: if_splits)
  obtain n i where v2: "v2 = v1\<lparr>fsm := (fsm v1)\<lparr>avail := avail (fsm v2)\<rparr>, inodes := inodes v2\<rparr>" "fsis (fsm v1) node = Some n" "inodes v2 a = Some i"
    "i_private i = node" "i_op i = Some K" "i_sb i = i_sb di" "i_mode i = ucast (fi_mode n)"
    using fs_get_inode_spec [OF a(2)] a(3) by blast
  have e2: "dentries v2 = dentries v1" "fsm v2 = (fsm v1)\<lparr>avail := avail (fsm v2)\<rparr>" by (subst v2(1), simp)+
  from d_add_spec [OF a(4)] obtain e0 x e' p where s: "dentries v2 d = Some e0" "inodes v2 a = Some x" "v' = v2\<lparr>dentries := dentries v'\<rparr>"
    "dentries v' d = Some e'" "d_inode e' = a" "d_sb e' = i_sb x" "d_name e' = d_name e0" "d_fsdata e' = d_fsdata e0"
    "d_parent e0 \<noteq> d \<longrightarrow> dentries v2 (d_parent e0) = Some p \<and> dentries v' (d_parent e0) = Some (p\<lparr>d_hash := d # d_hash p\<rparr>)"
    "\<forall>y. y \<noteq> d \<longrightarrow> y \<noteq> d_parent e0 \<longrightarrow> dentries v' y = dentries v2 y"
    by (elim exE conjE)
  have "e0 = e\<lparr>d_fsdata := file\<rparr>" "x = i" using s(1,2) v2(3) e2 e by simp_all
  moreover have "inodes v' = inodes v2" "fsm v' = (fsm v)\<lparr>avail := avail (fsm v2)\<rparr>" by (subst s(3), simp, subst e2(2), simp add: e)+
  moreover have "\<forall>y. y \<noteq> d \<longrightarrow> dentries v2 y = dentries v y" using e e2 by simp
  ultimately show ?thesis using s e a(1) v2(2-) by auto
qed

lemma set_target_mode_spec:
  "set_target_mode f mode m = Some m' \<Longrightarrow> \<exists>e t. fsds m f = Some e \<and> fsis m (target_inode e) = Some t \<and>
     m' = m\<lparr>fsis := (fsis m)(target_inode e \<mapsto> t\<lparr>fi_mode := mode\<rparr>)\<rparr>"
  by (auto simp: set_target_mode_def bind_eq_Some_conv at_Some upd_Some)

lemma reg_mode_not_dir: "((S_IFREG OR (x AND mode_777)) AND S_IFMT) = (S_IFREG :: 'a::len word)" if "16 \<le> LENGTH('a)"
  by (simp add: bit.conj_disj_distrib2 and.assoc)

text \<open>C7: \<open>mkdir\<close> does not make a directory: the entry it creates leads to a regular file, which no lookup enters, and the dentry is
  bound to the inode of the parent, so that every lookup in the "new directory" is one in its parent.\<close>

theorem mkdir_aliases_parent:
  assumes "fs_mkdir K dir d mode v = Some (0, v')"
  shows "\<exists>di e i fe t. inodes v dir = Some di \<and> dentries v' d = Some e \<and> inodes v' (d_inode e) = Some i \<and> i_op i = Some K \<and>
    i_private i = i_private di \<and>
    fsds (fsm v') (d_fsdata e) = Some fe \<and> fsis (fsm v') (target_inode fe) = Some t \<and>
    fi_mode t = S_IFREG OR (ucast mode AND mode_777) \<and>
    (target_inode fe \<noteq> 0 \<longrightarrow> (\<forall>name. fs_lookup (target_inode fe) name (fsm v') = Some 0))"
proof -
  obtain di fd m0 m where w: "inodes v dir = Some di" and m:
    "set_target_mode fd (S_IFREG OR (ucast mode AND mode_777)) m0 = Some m" "fs_bind K dir d fd (i_private di) (v\<lparr>fsm := m\<rparr>) = Some (0, v')"
    using assms by (auto simp: fs_mkdir_def on_fs_def bind_eq_Some_conv at_Some split: if_splits)
  obtain e t where t: "fsds m0 fd = Some e" "fsis m0 (target_inode e) = Some t"
    "m = m0\<lparr>fsis := (fsis m0)(target_inode e \<mapsto> t\<lparr>fi_mode := S_IFREG OR (ucast mode AND mode_777)\<rparr>)\<rparr>"
    using set_target_mode_spec [OF m(1)] by blast
  obtain e' i l where b: "dentries v' d = Some e'" "inodes v' (d_inode e') = Some i" "i_private i = i_private di" "i_op i = Some K"
    "d_fsdata e' = fd" "fsm v' = m\<lparr>avail := l\<rparr>"
    using fs_bind_spec [OF m(2)] by auto
  have "(fi_mode (t\<lparr>fi_mode := S_IFREG OR (ucast mode AND mode_777)\<rparr>) AND S_IFMT) \<noteq> S_IFDIR"
    using reg_mode_not_dir [where 'a = 32, of "ucast mode"] by simp
  then have "target_inode e \<noteq> 0 \<longrightarrow> (\<forall>name. fs_lookup (target_inode e) name (fsm v') = Some 0)"
    using b(6) t(3) by (simp add: fs_lookup_def)
  then show ?thesis using w b t by auto
qed


text \<open>A root directory in the dentry cache (20) and a dentry for a new name below it (22).\<close>

definition tree_w :: vfs where
  "tree_w = (boot_w [])\<lparr>inodes := [21 \<mapsto> (fresh_inode 0)\<lparr>i_op := Some Pipefs, i_private := 1, i_mode := S_IFDIR OR mode_755\<rparr>],
     dentries := [20 \<mapsto> blank_dentry\<lparr>d_inode := 21, d_hash := []\<rparr>, 22 \<mapsto> blank_dentry\<lparr>d_parent := 20, d_name := Some [97]\<rparr>],
     root_dentry := 20\<rparr>"

lemmas vfs_eval = boot_w_def mounted_w_def root_inode_w_def fresh_inode_def blank_dentry_def kmalloc_def vkmalloc_def list_add_def on_fs_def Let_def

theorem mkdir_aliases_parent_witness:
  "\<exists>v' e i. fs_mkdir Pipefs 21 22 511 tree_w = Some (0, v') \<and> dentries v' 22 = Some e \<and> inodes v' (d_inode e) = Some i \<and> i_private i = 1"
proof -
  have "\<exists>v'. fs_mkdir Pipefs 21 22 511 tree_w = Some (0, v')"
    by (simp add: fs_mkdir_def d_getname_def tree_w_def vfs_eval fs_lookup_def fs_create_dir_def fs_create_inode_def fs_create_empty_inode_def
        fs_create_dentry_def new_fs_inode_def set_target_mode_def fs_bind_def fs_get_dentry_def fs_get_inode_def new_inode_def d_add_def d_hash_add_def)
  then obtain v' where r: "fs_mkdir Pipefs 21 22 511 tree_w = Some (0, v')" by blast
  have "inodes tree_w 21 = Some ((fresh_inode 0)\<lparr>i_op := Some Pipefs, i_private := 1, i_mode := S_IFDIR OR mode_755\<rparr>)" by (simp add: tree_w_def)
  with r mkdir_aliases_parent [OF r] show ?thesis by auto
qed

section \<open>The dentry cache\<close>

lemma dentry_rename_spec:
  assumes "dentry_rename d name v = Some (0, v')"
  shows "\<exists>e f. dentries v d = Some e \<and> dentries v' d = Some f \<and> (\<forall>y. y \<noteq> d \<longrightarrow> dentries v' y = dentries v y) \<and> d_name f = Some name \<and>
    d_parent f = d_parent e \<and> d_hash f = d_hash e \<and> d_inode f = d_inode e \<and>
    inodes v' = inodes v \<and> fsm v' = (fsm v)\<lparr>avail := avail (fsm v')\<rparr>"
proof -
  obtain s w where k: "vkmalloc v = (s, w)" by (cases "vkmalloc v")
  obtain l where w: "w = v\<lparr>fsm := (fsm v)\<lparr>avail := l\<rparr>\<rparr>" using vkmalloc_frame [OF k] by blast
  show ?thesis using assms k by (auto simp: dentry_rename_def w bind_eq_Some_conv at_Some Let_def split: if_splits)
qed

lemma dentry_rename_ret: "dentry_rename d name v = Some (r, w) \<Longrightarrow> r = 0 \<or> r < 0"
  by (auto simp: dentry_rename_def bind_eq_Some_conv Let_def split: if_splits prod.splits)

lemma d_alloc_spec:
  assumes r: "d_alloc parent name v = Some (d, v')" and fresh: "\<forall>a \<in> set (avail (fsm v)). a \<noteq> 0 \<longrightarrow> dentries v a = None"
  shows "\<exists>p e. dentries v parent = Some p \<and> dentries v d = None \<and> d \<noteq> 0 \<and> 0 < parent \<and>
    dentries v' = (dentries v)(parent \<mapsto> p\<lparr>d_count := d_count p + 1\<rparr>, d \<mapsto> e) \<and> d_name e = Some name \<and> d_parent e = parent \<and>
    d_hash e = [] \<and> inodes v' = inodes v \<and> fsm v' = (fsm v)\<lparr>avail := avail (fsm v')\<rparr>"
proof -
  obtain p where p: "dentries v parent = Some p" "0 < parent" using r by (auto simp: d_alloc_def bind_eq_Some_conv at_Some)
  obtain res w where res: "d_alloc_raw (d_sb p) name v = Some (res, w)"
    using r p by (auto simp: d_alloc_def bind_eq_Some_conv)
  then have "res = Inr d" using r p by (cases res) (auto simp: d_alloc_def bind_eq_Some_conv)
  then have w: "d_alloc_raw (d_sb p) name v = Some (Inr d, w)" using res by simp
  obtain a u where k: "vkmalloc v = (a, u)" by (cases "vkmalloc v")
  obtain l where u: "u = v\<lparr>fsm := (fsm v)\<lparr>avail := l\<rparr>\<rparr>" using vkmalloc_frame [OF k] by blast
  obtain err x where x0: "a = d" "a \<noteq> 0" "dentry_rename d name (u\<lparr>dentries := (dentries u)(d \<mapsto> blank_dentry)\<rparr>) = Some (err, x)" "\<not> err < 0"
    and x4: "w = x\<lparr>dentries := dentries w\<rparr>" "\<exists>e. dentries x d = Some e \<and> dentries w = (dentries x)(d \<mapsto> e\<lparr>d_hash := [], d_sb := d_sb p\<rparr>)"
    using w k by (auto simp: d_alloc_raw_def bind_eq_Some_conv upd_Some split: if_splits)
  then have x: "a = d" "a \<noteq> 0" "dentry_rename d name (u\<lparr>dentries := (dentries u)(d \<mapsto> blank_dentry)\<rparr>) = Some (0, x)"
    using dentry_rename_ret [OF x0(3)] by auto
  note x = x x4
  have "d \<in> set (avail (fsm v))" using k x by (cases "avail (fsm v)") (auto simp: vkmalloc_def kmalloc_def)
  then have none: "dentries v d = None" "parent \<noteq> d" using fresh x p by auto
  obtain f where f0: "dentries x d = Some f" "\<forall>y. y \<noteq> d \<longrightarrow> dentries x y = dentries v y" "d_name f = Some name" "inodes x = inodes v"
    "fsm x = (fsm v)\<lparr>avail := avail (fsm x)\<rparr>"
    using dentry_rename_spec [OF x(3)] by (auto simp: u)
  then have f: "dentries x = (dentries v)(d \<mapsto> f)" "d_name f = Some name" "inodes x = inodes v" "fsm x = (fsm v)\<lparr>avail := avail (fsm x)\<rparr>"
    by (auto intro!: ext)
  have dw: "dentries w = (dentries v)(d \<mapsto> f\<lparr>d_hash := [], d_sb := d_sb p\<rparr>)" using x(5) f(1) by auto
  have "inodes w = inodes x" "fsm w = fsm x" by (subst x(4), simp)+
  then have iw: "inodes w = inodes v" "fsm w = (fsm v)\<lparr>avail := avail (fsm w)\<rparr>" using f(3,4) by simp_all
  have "v' = w\<lparr>dentries := (dentries v)(parent \<mapsto> p\<lparr>d_count := d_count p + 1\<rparr>,
      d \<mapsto> f\<lparr>d_hash := [], d_parent := parent, d_sb := d_sb p\<rparr>)\<rparr>"
    using r p w none by (auto simp: d_alloc_def bind_eq_Some_conv upd_Some at_Some dw fun_upd_twist)
  then show ?thesis using p none x f iw by auto
qed


lemma d_find_hit:
  "d_lookup_dentry dir name v = Some d \<Longrightarrow> d \<noteq> 0 \<Longrightarrow> \<exists>e. dentries v d = Some e \<and> d_name e = Some name"
  using d_names.find_result by (fastforce simp: d_lookup_dentry_def bind_eq_Some_conv)

text \<open>C5: the dentry cache is coherent: a dentry that was found or brought in bears the name asked for, the same search finds it
  again and then changes nothing, and the cached results of its directory for all other names stay as they were.\<close>

theorem find_dentry_stable:
  assumes fresh: "\<forall>a \<in> set (avail (fsm v)). a \<noteq> 0 \<longrightarrow> dentries v a = None"
    and r: "find_dentry dir name v = Some (Inr d, v')"
  shows "find_dentry dir name v' = Some (Inr d, v') \<and>
    (\<exists>e. dentries v' d = Some e \<and> d_name e = Some name) \<and>
    (\<forall>n. n \<noteq> name \<longrightarrow> d_lookup_dentry dir n v \<noteq> None \<longrightarrow> d_lookup_dentry dir n v' = d_lookup_dentry dir n v)"
proof -
  obtain s where s: "d_lookup_dentry dir name v = Some s" using r by (auto simp: find_dentry_def bind_eq_Some_conv)
  show ?thesis
  proof (cases "s = 0")
    case False
    then have "d = s" "v' = v" using r s by (simp_all add: find_dentry_def)
    then show ?thesis using d_find_hit [OF s False] s False by (simp add: find_dentry_def)
  next
    case True
    obtain c v1 where c: "d_alloc dir name v = Some (c, v1)" using r s True by (auto simp: find_dentry_def bind_eq_Some_conv)
    obtain p e where p: "dentries v dir = Some p" "dentries v c = None" "c \<noteq> 0" "0 < dir"
      "dentries v1 = (dentries v)(dir \<mapsto> p\<lparr>d_count := d_count p + 1\<rparr>, c \<mapsto> e)" "d_name e = Some name" "d_parent e = dir"
      using d_alloc_spec [OF c fresh] by blast
    have ne: "dir \<noteq> c" using p by auto
    obtain K i where l: "fs_vfs_lookup K i c v1 = Some (d, v')" "d \<noteq> 0"
      using r s True c p(1) ne by (auto simp: find_dentry_def bind_eq_Some_conv split: if_splits)
    then obtain fd node where b: "fs_bind K i c fd node v1 = Some (0, v')" "d = c"
      by (auto simp: fs_vfs_lookup_def bind_eq_Some_conv split: if_splits)
    have e1: "dentries v1 c = Some e" "dentries v1 dir = Some (p\<lparr>d_count := d_count p + 1\<rparr>)" using p ne by simp_all
    from fs_bind_spec [OF b(1)] obtain e' p1 where b2: "dentries v' c = Some e'" "d_name e' = Some name"
      "dentries v1 dir = Some p1" "dentries v' dir = Some (p1\<lparr>d_hash := c # d_hash p1\<rparr>)" "\<forall>y. y \<noteq> c \<longrightarrow> y \<noteq> dir \<longrightarrow> dentries v' y = dentries v1 y"
      using e1(1) p(6,7) ne by auto
    have p1: "d_hash p1 = d_hash p" "d_name p1 = d_name p" using b2(3) e1(2) by auto
    have dir': "d_lookup_dentry dir n v' = d_find (dentries v') (c # d_hash p) n" for n
      using b2(4) p(4) p1 by (simp add: d_lookup_dentry_def)
    have hit: "d_lookup_dentry dir name v' = Some c" unfolding dir' using d_names.find_first [of c] b2 p(3) by simp
    have other: "d_lookup_dentry dir n v' = d_lookup_dentry dir n v" if n: "n \<noteq> name" for n
    proof -
      have ld: "d_lookup_dentry dir m v = d_find (dentries v) (d_hash p) m" for m using p(1,4) by (simp add: d_lookup_dentry_def)
      have "c \<notin> set (d_hash p)"
      proof
        assume "c \<in> set (d_hash p)"
        moreover have "c \<in> set xs \<Longrightarrow> d_find (dentries v) xs name \<noteq> Some 0" for xs
          using p(2,3) by (induction xs) (auto simp: bind_eq_Some_conv at_Some split: if_splits)
        ultimately show False using s True ld by simp
      qed
      then have "map_option d_name (dentries v' x) = map_option d_name (dentries v x)" if "x \<in> set (d_hash p)" for x
        using that b2 p p1 ne by (cases "x = dir") auto
      then have "d_find (dentries v') (d_hash p) n = d_find (dentries v) (d_hash p) n" by (rule d_names.find_names)
      then show ?thesis using dir' ld b2(1,2) p(3) n by simp
    qed
    have "find_dentry dir name v' = Some (Inr c, v')" using hit p(3) by (simp add: find_dentry_def)
    then show ?thesis using b(2) b2(1,2) other by blast
  qed
qed


text \<open>The same tree with a file on disk that is not in the cache.\<close>

definition file_w :: vfs where
  "file_w = tree_w\<lparr>fsm := mounted_w\<lparr>fsis := [1 \<mapsto> root_inode_w\<lparr>dentry_list := [30]\<rparr>, 31 \<mapsto> root_inode_w\<lparr>fi_mode := S_IFREG OR mode_755\<rparr>],
     fsds := [30 \<mapsto> \<lparr>fd_magic = MAGIC, fd_name = Some [97], target_inode = 31\<rparr>]\<rparr>\<rparr>"

theorem find_dentry_stable_witness:
  "\<exists>d v'. find_dentry 20 [97] file_w = Some (Inr d, v') \<and> find_dentry 20 [97] v' = Some (Inr d, v')"
proof -
  have f: "\<forall>a \<in> set (avail (fsm file_w)). a \<noteq> 0 \<longrightarrow> dentries file_w a = None" by (simp add: file_w_def tree_w_def boot_w_def mounted_w_def)
  have "\<exists>v'. find_dentry 20 [97] file_w = Some (Inr 10, v')"
    by (simp add: find_dentry_def d_lookup_dentry_def d_alloc_def d_alloc_raw_def dentry_rename_def fs_vfs_lookup_def d_getname_def fs_lookup_def
        file_w_def tree_w_def vfs_eval fs_bind_def fs_get_dentry_def fs_get_inode_def new_inode_def d_add_def d_hash_add_def)
  then obtain v' where r: "find_dentry 20 [97] file_w = Some (Inr 10, v')" by blast
  from find_dentry_stable [OF f r] r show ?thesis by blast
qed

section \<open>Files in memory\<close>

text \<open>An open file of the initramfs that can be written: the descriptor's flags, its inode, and its page if it has one.\<close>

definition ram_file :: "nat \<Rightarrow> nat \<Rightarrow> nat \<Rightarrow> fs_inode \<Rightarrow> vfs \<Rightarrow> bool" where
  "ram_file f i a n v \<longleftrightarrow> 0 < f \<and> 0 < i \<and> 0 < a \<and>
     (\<exists>x y. files v f = Some x \<and> f_op x = Some Initramfs_fops \<and> f_inode x = i \<and> (f_flags x AND O_ACCMODE) \<noteq> O_RDONLY \<and>
        inodes v i = Some y \<and> i_private y = a) \<and> fsis (fsm v) a = Some n"

definition ram_page :: "fs_inode \<Rightarrow> fsmem \<Rightarrow> nat \<Rightarrow> u8 list \<Rightarrow> bool" where
  "ram_page n m d b \<longleftrightarrow> 0 < fi_page n \<and> fi_size n = of_nat PAGE_SIZE \<and>
     (\<exists>p. pages m (fi_page n) = Some p \<and> page_address p = d) \<and> 0 < d \<and> blocks m d = Some b \<and> length b = PAGE_SIZE"

lemma ram_read:
  assumes f: "ram_file f i a n v" and p: "ram_page n (fsm v) d b" and r: "0 \<le> off" "off + int k \<le> int PAGE_SIZE"
  shows "kernel_read drv f k off v = Some (int k, take k (drop (nat off) b), off + int k, v)"
proof -
  have "as_int k = int k" using r by (simp add: as_int_def signed_of_nat signed_take_bit_int_eq_self)
  moreover have "uint (fi_size n) = int PAGE_SIZE" using p by (simp add: ram_page_def)
  ultimately show ?thesis using f p r
    by (auto simp: ram_file_def ram_page_def kernel_read_def fops_of_def initramfs_file_fops_def initramfs_read_def file_node_def kmap_def)
qed

lemma ram_ensure:
  assumes f: "ram_file f i a n v" and n: "fi_page n = 0" and av: "avail (fsm v) = p # d # l" "0 < p" "0 < d"
  shows "\<exists>v1 n1. ensure_page i a v = Some (0, v1) \<and> ram_file f i a n1 v1 \<and> fi_writable n1 = fi_writable n \<and>
    ram_page n1 (fsm v1) d (map (page_junk (fsm v) d) [0..<PAGE_SIZE])"
proof -
  obtain x y where xy: "files v f = Some x" "f_op x = Some Initramfs_fops" "f_inode x = i" "(f_flags x AND O_ACCMODE) \<noteq> O_RDONLY"
    "inodes v i = Some y" "i_private y = a" "0 < f" "0 < i" "0 < a" "fsis (fsm v) a = Some n"
    using f by (auto simp: ram_file_def)
  show ?thesis using xy n av
    by (auto simp: ensure_page_def alloc_page_def page_create_def kmalloc_def get_page_def ram_file_def ram_page_def Let_def)
qed


definition overlay :: "nat \<Rightarrow> 'a list \<Rightarrow> 'a list \<Rightarrow> 'a list" where
  "overlay off data old = take off old @ data @ drop (off + length data) old"

lemma ram_write_page:
  assumes f: "ram_file f i a n v" and p: "ram_page n (fsm v) d b" and w: "fi_writable n \<noteq> 0" and r: "0 \<le> off" "off + int (length data) \<le> int PAGE_SIZE"
  shows "\<exists>v'. kernel_write drv f data off v = Some (int (length data), off + int (length data), v') \<and>
    ram_file f i a n v' \<and> ram_page n (fsm v') d (overlay (nat off) data b)"
proof -
  obtain x y where xy: "files v f = Some x" "f_op x = Some Initramfs_fops" "f_inode x = i" "(f_flags x AND O_ACCMODE) \<noteq> O_RDONLY"
    "inodes v i = Some y" "i_private y = a" "0 < f" "0 < i" "0 < a" "fsis (fsm v) a = Some n"
    using f by (auto simp: ram_file_def)
  have "as_int (length data) = int (length data)" using r by (simp add: as_int_def signed_of_nat signed_take_bit_int_eq_self)
  moreover have "ensure_page i a v = Some (0, v)" using xy p by (simp add: ensure_page_def ram_page_def)
  moreover have "length (overlay (nat off) data b) = PAGE_SIZE" using p r by (simp add: overlay_def ram_page_def)
  ultimately show ?thesis using xy p w r
    by (auto simp: kernel_write_def fops_of_def initramfs_file_fops_def initramfs_write_def file_node_def kmap_def ram_file_def ram_page_def overlay_def)
qed

lemma ram_write_first:
  assumes f: "ram_file f i a n v" and n: "fi_page n = 0" and w: "fi_writable n \<noteq> 0" and av: "avail (fsm v) = p # d # l" "0 < p" "0 < d"
  shows "\<exists>v1 n1. kernel_write drv f data off v = kernel_write drv f data off v1 \<and> ram_file f i a n1 v1 \<and> fi_writable n1 \<noteq> 0 \<and>
    ram_page n1 (fsm v1) d (map (page_junk (fsm v) d) [0..<PAGE_SIZE])"
proof -
  from ram_ensure [OF f n av] obtain v1 n1 where e: "ensure_page i a v = Some (0, v1)" "ram_file f i a n1 v1" "fi_writable n1 = fi_writable n"
    "ram_page n1 (fsm v1) d (map (page_junk (fsm v) d) [0..<PAGE_SIZE])" by blast
  have e1: "ensure_page i a v1 = Some (0, v1)" using e(2,4) by (auto simp: ensure_page_def ram_page_def ram_file_def)
  obtain x y where xy: "files v f = Some x" "f_op x = Some Initramfs_fops" "f_inode x = i" "(f_flags x AND O_ACCMODE) \<noteq> O_RDONLY"
    "inodes v i = Some y" "i_private y = a" "0 < f" "0 < i" "0 < a" "fsis (fsm v) a = Some n"
    using f by (auto simp: ram_file_def)
  obtain x1 y1 where xy1: "files v1 f = Some x1" "f_op x1 = Some Initramfs_fops" "f_inode x1 = i" "(f_flags x1 AND O_ACCMODE) \<noteq> O_RDONLY"
    "inodes v1 i = Some y1" "i_private y1 = a" "fsis (fsm v1) a = Some n1"
    using e(2) by (auto simp: ram_file_def)
  have "kernel_write drv f data off v = kernel_write drv f data off v1"
    using xy xy1 e e1 w
    by (simp add: kernel_write_def fops_of_def initramfs_file_fops_def initramfs_write_def file_node_def cong: if_cong)
  then show ?thesis using e w by (intro exI [of _ v1] exI [of _ n1]) simp
qed

text \<open>C6: a file in memory reads back what was written: a write within the page at any offset succeeds, also the first, which
  allocates the page; afterwards every range of the page reads as its old contents with the data laid over them, and a range that
  reaches beyond the page reads as nothing.\<close>

theorem ramfs_write_read:
  assumes f: "ram_file f i a n v" and w: "fi_writable n \<noteq> 0" and r: "0 \<le> off" "off + int (length data) \<le> int PAGE_SIZE"
    and p: "ram_page n (fsm v) d old \<or>
      (fi_page n = 0 \<and> (\<exists>q l. avail (fsm v) = q # d # l \<and> 0 < q) \<and> 0 < d \<and> old = map (page_junk (fsm v) d) [0..<PAGE_SIZE])"
  shows "\<exists>v'. kernel_write drv f data off v = Some (int (length data), off + int (length data), v') \<and>
    kernel_read drv f (length data) off v' = Some (int (length data), data, off + int (length data), v') \<and>
    (\<forall>pos k. 0 \<le> pos \<longrightarrow> kernel_read drv f k pos v' =
       (if pos + int k \<le> int PAGE_SIZE then Some (int k, take k (drop (nat pos) (overlay (nat off) data old)), pos + int k, v')
        else Some (0, [], pos, v')))"
proof -
  have "\<exists>v1 n1. kernel_write drv f data off v = kernel_write drv f data off v1 \<and> ram_file f i a n1 v1 \<and> fi_writable n1 \<noteq> 0 \<and> ram_page n1 (fsm v1) d old"
    using p ram_write_first [OF f _ w] f w by blast
  then obtain v1 n1 where v1: "kernel_write drv f data off v = kernel_write drv f data off v1" "ram_file f i a n1 v1" "fi_writable n1 \<noteq> 0"
    "ram_page n1 (fsm v1) d old" by blast
  from ram_write_page [OF v1(2,4,3) r] obtain v' where v': "kernel_write drv f data off v1 = Some (int (length data), off + int (length data), v')"
    "ram_file f i a n1 v'" "ram_page n1 (fsm v') d (overlay (nat off) data old)" by blast
  have "length old = PAGE_SIZE" using v1(4) by (simp add: ram_page_def)
  then have "take (length data) (drop (nat off) (overlay (nat off) data old)) = data" using r by (simp add: overlay_def)
  moreover have "kernel_read drv f k pos v' = Some (0, [], pos, v')" if "0 \<le> pos" "\<not> pos + int k \<le> int PAGE_SIZE" for pos k
    using v'(2,3) that
    by (auto simp: ram_file_def ram_page_def kernel_read_def fops_of_def initramfs_file_fops_def initramfs_read_def file_node_def)
  ultimately show ?thesis using v1(1) v'(1) ram_read [OF v'(2,3)] r by auto
qed

text \<open>An open, empty file.\<close>

definition open_w :: vfs where
  "open_w = file_w\<lparr>inodes := [21 \<mapsto> (fresh_inode 0)\<lparr>i_op := Some Initramfs, i_private := 31\<rparr>],
     fsm := (fsm file_w)\<lparr>fsis := [31 \<mapsto> root_inode_w\<lparr>fi_writable := 1\<rparr>]\<rparr>,
     files := [40 \<mapsto> \<lparr>f_op = Some Initramfs_fops, f_inode = 21, f_flags = 2, f_mode = 0, f_pos = 0, f_path = None\<rparr>]\<rparr>"

theorem ramfs_write_read_witness:
  "\<exists>v'. kernel_write (\<lambda>_. nop_fops) 40 [1, 2, 3] 4000 open_w = Some (3, 4003, v') \<and> kernel_read (\<lambda>_. nop_fops) 40 3 4000 v' = Some (3, [1, 2, 3], 4003, v')"
proof -
  have f: "ram_file 40 21 31 (root_inode_w\<lparr>fi_writable := 1\<rparr>) open_w"
    by (simp add: ram_file_def open_w_def file_w_def fresh_inode_def)
  have p: "fi_page (root_inode_w\<lparr>fi_writable := 1\<rparr>) = 0 \<and> (\<exists>q l. avail (fsm open_w) = q # 11 # l \<and> 0 < q) \<and> (0 :: nat) < 11 \<and>
      map (page_junk (fsm open_w) 11) [0..<PAGE_SIZE] = map (page_junk (fsm open_w) 11) [0..<PAGE_SIZE]"
    by (simp add: open_w_def file_w_def mounted_w_def root_inode_w_def)
  have "fi_writable (root_inode_w\<lparr>fi_writable := 1\<rparr>) \<noteq> 0" "(0 :: int) \<le> 4000" "4000 + int (length [1, 2, 3 :: u8]) \<le> int PAGE_SIZE" by simp_all
  from ramfs_write_read [OF f this disjI2 [OF p], of "\<lambda>_. nop_fops"]
  obtain v' where "kernel_write (\<lambda>_. nop_fops) 40 [1, 2, 3] 4000 open_w = Some (int (length [1, 2, 3 :: u8]), 4000 + int (length [1, 2, 3 :: u8]), v')"
    "kernel_read (\<lambda>_. nop_fops) 40 (length [1, 2, 3 :: u8]) 4000 v' = Some (int (length [1, 2, 3 :: u8]), [1, 2, 3], 4000 + int (length [1, 2, 3 :: u8]), v')"
    by blast
  then show ?thesis by (intro exI [of _ v']) (simp add: numeral_3_eq_3)
qed

end
