(* ===== verification/MountSpec.thy ===== *)
theory MountSpec
  imports VfsSpec
begin

text \<open>
  Mounting puts a well-formed tree into memory: the invariant of \<open>FsInv\<close> holds of the new file
  system, with the entry that \<open>fs_mount\<close> makes for the root as the root's only link, so that everything proved of the
  tree's operations applies from then on.
\<close>

text \<open>Only the allocator moved on.\<close>

definition only_avail :: "fsmem \<Rightarrow> fsmem \<Rightarrow> bool" where
  "only_avail m m' \<longleftrightarrow> (\<exists>k. m' = m\<lparr>avail := drop k (avail m)\<rparr>)"

lemma only_avail_refl [simp, intro]: "only_avail m m"
  unfolding only_avail_def by (rule exI [of _ 0]) simp

lemma only_avail_trans: "only_avail a b \<Longrightarrow> only_avail b c \<Longrightarrow> only_avail a c"
  unfolding only_avail_def by (metis drop_drop fsmem.select_convs(1) fsmem.surjective fsmem.update_convs(1))

lemma only_avail_simps:
  assumes "only_avail m m'"
  shows "fsis m' = fsis m" "fsds m' = fsds m" "fsss m' = fsss m" "pages m' = pages m" "set (avail m') \<subseteq> set (avail m)"
  using assms by (auto simp: only_avail_def dest: in_set_dropD)

lemma only_avail_inv:
  assumes i: "fs_inv K R m" and a: "only_avail m m'"
  shows "fs_inv K R m'"
proof -
  note e = only_avail_simps [OF a]
  obtain k where k: "avail m' = drop k (avail m)" using a by (auto simp: only_avail_def)
  have l: "links m' = links m" by (rule ext) (simp add: links_def e)
  have "distinct (filter (\<lambda>a. a \<noteq> 0) (take k (avail m) @ drop k (avail m)))"
    using fs_inv_parts [OF i] by (simp add: inv_fresh_def)
  then have "distinct (filter (\<lambda>a. a \<noteq> 0) (avail m'))" unfolding filter_append distinct_append k by blast
  then have "inv_fresh m'" using fs_inv_parts [OF i] e by (auto simp: inv_fresh_def)
  then show ?thesis using fs_inv_parts [OF i]
    by (simp add: fs_inv_def inv_objs_def inv_dirs_def inv_count_def inv_supers_def inv_pages_def e l)
qed

lemma kmalloc_only: "kmalloc m = (a, m') \<Longrightarrow> only_avail m m'"
  by (cases "avail m") (auto simp: kmalloc_def only_avail_def intro: exI [of _ 0] exI [of _ 1])

lemma vkmalloc_only: "vkmalloc v = (a, w) \<Longrightarrow> only_avail (fsm v) (fsm w) \<and> w = v\<lparr>fsm := fsm w\<rparr>"
  using kmalloc_only [of "fsm v"] by (cases "kmalloc (fsm v)") (auto simp: vkmalloc_def)

lemma dentry_rename_only: "dentry_rename d name v = Some (r, w) \<Longrightarrow> only_avail (fsm v) (fsm w)"
  using vkmalloc_only [of v]
  by (cases "vkmalloc v") (auto simp: dentry_rename_def bind_eq_Some_conv Let_def split: if_splits)

lemma d_alloc_raw_only: "d_alloc_raw sb name v = Some (r, w) \<Longrightarrow> only_avail (fsm v) (fsm w)"
proof -
  assume r: "d_alloc_raw sb name v = Some (r, w)"
  obtain d u where k: "vkmalloc v = (d, u)" by (cases "vkmalloc v")
  have "only_avail (fsm u) (fsm w)"
    using r k by (auto simp: d_alloc_raw_def bind_eq_Some_conv split: if_splits dest: dentry_rename_only)
  then show ?thesis using vkmalloc_only [OF k] only_avail_trans by blast
qed

lemma fs_get_inode_only: "fs_get_inode K n sb v = Some (a, w) \<Longrightarrow> only_avail (fsm v) (fsm w)"
proof -
  assume r: "fs_get_inode K n sb v = Some (a, w)"
  obtain d u where k: "vkmalloc v = (d, u)" by (cases "vkmalloc v")
  have "fsm w = fsm u \<or> fsm w = fsm v"
    using r k by (auto simp: fs_get_inode_def new_inode_def bind_eq_Some_conv split: if_splits)
  then show ?thesis using vkmalloc_only [OF k] by auto
qed

lemma get_vfs_superblock_frame:
  assumes r: "fs_get_vfs_superblock K reg s v = Some (sb, w)"
  shows "only_avail (fsm v) (fsm w) \<and> inodes w = inodes v \<and> dentries w = dentries v"
proof -
  obtain d u where k: "vkmalloc v = (d, u)" by (cases "vkmalloc v")
  then have u: "only_avail (fsm v) (fsm u)" "u = v\<lparr>fsm := fsm u\<rparr>" using vkmalloc_only by blast+
  have "w = v \<or> (\<exists>ss. w = u\<lparr>supers := ss\<rparr>)"
    using r k by (auto simp: fs_get_vfs_superblock_def alloc_super_def bind_eq_Some_conv split: if_splits)
  then show ?thesis
  proof
    assume "\<exists>ss. w = u\<lparr>supers := ss\<rparr>"
    moreover have "inodes u = inodes v" "dentries u = dentries v" by (subst u(2), simp)+
    ultimately show ?thesis using u(1) by auto
  qed simp
qed

section \<open>The tree of a new superblock\<close>

lemma new_super_inv:
  assumes i: "fs_inv K R m" and s: "s \<noteq> 0" "fsss m s = None" "s \<notin> set (avail m)" 
  shows "fs_inv K R (m\<lparr>fsss := (fsss m)(s \<mapsto> \<lparr>fsb_magic = MAGIC, rootinode = 0, inode_list = []\<rparr>)\<rparr>)" (is "fs_inv K R ?m")
proof -
  note p = fs_inv_parts [OF i]
  have l: "links ?m = links m" by (rule ext) (simp add: links_def)
  have "inv_objs ?m" using p s by (simp add: inv_objs_def)
  moreover have "inv_dirs ?m" using p by (simp add: inv_dirs_def)
  moreover have "inv_count R ?m" using p by (simp add: inv_count_def l)
  moreover have "inv_supers ?m" using p s by (fastforce simp: inv_supers_def)
  moreover have "inv_fresh ?m" using p s by (auto simp: inv_fresh_def)
  moreover have "inv_pages K ?m" using p by (simp add: inv_pages_def)
  ultimately show ?thesis by (simp add: fs_inv_def)
qed

text \<open>The inode becomes the root: a directory with the count of one more reference.\<close>

lemma root_inode_inv:
  assumes i: "fs_inv K R m" and r: "fsis m r = Some v" "r \<notin> R" "dentry_list v = []" and s: "fsss m a = Some b" "inode_list b = inode_list b'"
    and v: "dentry_list v' = []" "dentry_count v' = dentry_count v + 1" "fi_sb v' = fi_sb v" "fi_page v' = fi_page v"
  shows "fs_inv K (insert r R) (m\<lparr>fsis := (fsis m)(r \<mapsto> v'), fsss := (fsss m)(a \<mapsto> b')\<rparr>)" (is "fs_inv K _ ?m")
proof -
  note p = fs_inv_parts [OF i]
  have l: "links ?m = links m" by (rule ext) (simp add: links_def)
  have r0: "r \<noteq> 0" "a \<noteq> 0" using p r(1) s(1) fsis_pos fsss_pos by (metis neq0_conv)+
  have "inv_objs ?m" using p r0 by (auto simp: inv_objs_def)
  moreover have "inv_dirs ?m"
    by (rule inv_dirs_sub [where m = m]) (use p r v in \<open>auto split: if_splits\<close>)
  moreover have "inv_count (insert r R) ?m" using p r v by (auto simp: inv_count_def l)
  moreover have "inv_supers ?m"
    unfolding inv_supers_def
  proof (intro conjI allI impI ballI)
    fix j w assume w: "fsis ?m j = Some w"
    obtain w0 where w0: "fsis m j = Some w0" "fi_sb w0 = fi_sb w" using w r(1) v(3) by (auto split: if_splits)
    then have "\<exists>x. fsss m (fi_sb w0) = Some x \<and> j \<in> set (inode_list x)" using p unfolding inv_supers_def by blast
    then obtain x where "fsss m (fi_sb w) = Some x" "j \<in> set (inode_list x)" using w0(2) by auto
    then show "\<exists>x. fsss ?m (fi_sb w) = Some x \<and> j \<in> set (inode_list x)" using s by auto
  next
    fix c x assume x: "fsss ?m c = Some x"
    then obtain x0 where x0: "fsss m c = Some x0" "inode_list x0 = inode_list x" using s by (auto split: if_splits)
    then have "distinct (inode_list x0)" using p unfolding inv_supers_def by blast
    then show "distinct (inode_list x)" using x0(2) by simp
    fix j assume "j \<in> set (inode_list x)"
    then obtain w where "fsis m j = Some w" "fi_sb w = c" using p x0 by (fastforce simp: inv_supers_def)
    then show "\<exists>w. fsis ?m j = Some w \<and> fi_sb w = c" using r(1) v(3) by auto
  qed
  moreover have "inv_fresh ?m" using p r s by (auto simp: inv_fresh_def)
  moreover have "inv_pages K ?m"
    unfolding inv_pages_def
  proof (intro impI allI)
    fix j w assume K: "K = Initramfs" and w: "fsis ?m j = Some w" "fi_page w \<noteq> 0"
    obtain w0 where w0: "fsis m j = Some w0" "fi_page w0 = fi_page w" using w r(1) v(4) by (auto split: if_splits)
    have "fi_page w0 \<noteq> 0" using w0(2) w(2) by simp
    then have "pages m (fi_page w0) \<noteq> None \<and> (\<forall>k u. fsis m k = Some u \<longrightarrow> fi_page u = fi_page w0 \<longrightarrow> k = j)"
      using p K w0(1) unfolding inv_pages_def by blast
    then show "pages ?m (fi_page w) \<noteq> None \<and> (\<forall>k u. fsis ?m k = Some u \<longrightarrow> fi_page u = fi_page w \<longrightarrow> k = j)"
      using w0(2) r(1) v(4) by auto
  qed
  ultimately show ?thesis by (simp add: fs_inv_def)
qed

lemma superblock_create_inv:
  assumes i: "fs_inv K R m" and R: "\<forall>r \<in> R. fsis m r \<noteq> None" and c: "fs_superblock_create K m = Some (s, m')" "s \<noteq> 0"
  shows "\<exists>b v. fsss m' s = Some b \<and> fsis m' (rootinode b) = Some v \<and> fs_inv K (insert (rootinode b) R) m' \<and> rootinode b \<notin> R \<and>
    fi_mode v = S_IFDIR OR mode_755 \<and> dentry_list v = [] \<and> dentry_count v = 1 \<and> fi_fop v = Some (kind_fops K)"
proof -
  obtain m1 where k: "kmalloc m = (s, m1)" using c by (cases "kmalloc m") (auto simp: fs_superblock_create_def bind_eq_Some_conv split: if_splits)
  have m1: "fs_inv K R m1" "fsss m1 s = None" "s \<notin> set (avail m1)" "fsis m1 = fsis m"
    using kmalloc_inv [OF i k] only_avail_simps [OF kmalloc_only [OF k]] c(2) by auto
  define m2 where "m2 = m1\<lparr>fsss := (fsss m1)(s \<mapsto> \<lparr>fsb_magic = MAGIC, rootinode = 0, inode_list = []\<rparr>)\<rparr>"
  have i2: "fs_inv K R m2" unfolding m2_def by (rule new_super_inv [OF m1(1) c(2) m1(2,3)])
  have s2: "fsss m2 s = Some \<lparr>fsb_magic = MAGIC, rootinode = 0, inode_list = []\<rparr>" by (simp add: m2_def)
  have R2: "\<forall>r \<in> R. fsis m2 r \<noteq> None" using R m1(4) by (simp add: m2_def)
  obtain r m3 where e: "fs_create_empty_inode K s (Some (kind_fops K)) 0 m2 = Some (r, m3)" "r \<noteq> 0"
    using c k by (auto simp: fs_superblock_create_def bind_eq_Some_conv m2_def split: if_splits)
  obtain m2' where k2: "kmalloc m2 = (r, m2')"
    using e by (cases "kmalloc m2") (auto simp: fs_create_empty_inode_def bind_eq_Some_conv split: if_splits)
  define v where "v = new_fs_inode K s (kind_fops K) 0 (garbage m2 r)"
  have e3: "m3 = m2'\<lparr>fsis := (fsis m2)(r \<mapsto> v), fsss := (fsss m2)(s \<mapsto> \<lparr>fsb_magic = MAGIC, rootinode = 0, inode_list = [r]\<rparr>)\<rparr>" "fs_inv K R m3"
    using create_empty_inode_inv [OF i2 s2 R2 k2 e(2), of "kind_fops K" 0] e(1) by (simp_all add: v_def)
  have r0: "r \<notin> R" using kmalloc_inv [OF i2 k2] e(2) R2 by auto
  have v: "dentry_list v = []" "dentry_count v = 0" by (cases K; simp add: v_def new_fs_inode_def)+
  define w where "w = v\<lparr>fi_mode := S_IFDIR OR mode_755, fi_fop := Some (kind_fops K), dentry_count := dentry_count v + 1, dentry_list := []\<rparr>"
  have m': "m' = m3\<lparr>fsis := (fsis m3)(r \<mapsto> w), fsss := (fsss m3)(s \<mapsto> \<lparr>fsb_magic = MAGIC, rootinode = r, inode_list = [r]\<rparr>)\<rparr>"
    using c k e by (auto simp: fs_superblock_create_def bind_eq_Some_conv m2_def [symmetric] upd_Some e3(1) w_def)
  have "fs_inv K (insert r R) m'"
    unfolding m' by (rule root_inode_inv [OF e3(2) _ r0]) (auto simp: e3(1) v w_def)
  then show ?thesis using r0 by (intro exI [of _ "\<lparr>fsb_magic = MAGIC, rootinode = r, inode_list = [r]\<rparr>"] exI [of _ w]) (simp add: m' w_def v)
qed

text \<open>The entry of the root takes the place of the extra reference.\<close>

lemma root_entry_inv:
  assumes i: "fs_inv K (insert r R) m" and r: "r \<notin> R" "fsis m r \<noteq> None" and d: "d \<noteq> 0" "fsds m d = None" "d \<notin> set (avail m)" and e: "target_inode e = r"
  shows "fs_inv K R (m\<lparr>fsds := (fsds m)(d \<mapsto> e)\<rparr>)" (is "fs_inv K R ?m")
proof -
  note p = fs_inv_parts [OF i]
  have l: "links ?m x = (if x = r then insert d (links m x) else links m x)" for x using d e by (auto simp: links_def)
  have dl: "d \<notin> links m r" using d by (simp add: links_def)
  have "finite (links m r)" using p finite_links by blast
  then have "inv_count R ?m" using p r(1) dl by (auto simp: inv_count_def l)
  moreover have "inv_objs ?m" using p r d e by (auto simp: inv_objs_def)
  moreover have "inv_dirs ?m"
    by (rule inv_dirs_sub [where m = m]) (use p d in \<open>fastforce simp: inv_dirs_def\<close>)+
  moreover have "inv_supers ?m" using p by (simp add: inv_supers_def)
  moreover have "inv_fresh ?m" using p d by (auto simp: inv_fresh_def)
  moreover have "inv_pages K ?m" using p by (simp add: inv_pages_def)
  ultimately show ?thesis by (simp add: fs_inv_def)
qed


section \<open>Mounting\<close>

lemma d_alloc_raw_name:
  assumes r: "d_alloc_raw sb name v = Some (Inr d, w)"
  shows "d \<noteq> 0 \<and> (\<exists>e. dentries w d = Some e \<and> d_name e = Some name)"
proof -
  obtain a u where k: "vkmalloc v = (a, u)" by (cases "vkmalloc v")
  obtain err x where x: "a = d" "d \<noteq> 0" "dentry_rename d name (u\<lparr>dentries := (dentries u)(d \<mapsto> blank_dentry)\<rparr>) = Some (err, x)" "\<not> err < 0"
    and w: "\<exists>e. dentries x d = Some e \<and> dentries w = (dentries x)(d \<mapsto> e\<lparr>d_hash := [], d_sb := sb\<rparr>)"
    using r k by (auto simp: d_alloc_raw_def bind_eq_Some_conv upd_Some split: if_splits)
  have "dentry_rename d name (u\<lparr>dentries := (dentries u)(d \<mapsto> blank_dentry)\<rparr>) = Some (0, x)" using x dentry_rename_ret by fastforce
  from dentry_rename_spec [OF this] show ?thesis using w x(2) by auto
qed

text \<open>The first stages: the tree's superblock, the root dentry, and the block of the root entry.\<close>

lemma mount_head:
  assumes r: "fs_mount K reg v = Some (Inr root, v')"
  shows "\<exists>s m1 v2 d v3. fs_superblock_create K (fsm v) = Some (s, m1) \<and> s \<noteq> 0 \<and>
    d_alloc_raw 0 root_name (v\<lparr>fsm := m1\<rparr>) = Some (Inr root, v2) \<and> vkmalloc v2 = (d, v3) \<and> d \<noteq> 0"
proof -
  obtain s m1 where s: "fs_superblock_create K (fsm v) = Some (s, m1)" "s \<noteq> 0"
    using r by (auto simp: fs_mount_def on_fs_def bind_eq_Some_conv split: if_splits)
  obtain res v2 where v2: "d_alloc_raw 0 root_name (v\<lparr>fsm := m1\<rparr>) = Some (res, v2)"
    using r s by (auto simp: fs_mount_def on_fs_def bind_eq_Some_conv split: if_splits)
  have res: "res = Inr root"
    using r s v2 by (cases res) (auto simp: fs_mount_def on_fs_def bind_eq_Some_conv vkmalloc_def Let_def split: if_splits prod.splits)
  obtain d v3 where k: "vkmalloc v2 = (d, v3)" by (cases "vkmalloc v2")
  have "d \<noteq> 0" using r s v2 res k by (auto simp: fs_mount_def on_fs_def bind_eq_Some_conv split: if_splits)
  then show ?thesis using s v2 res k by blast
qed

text \<open>The last stage of a mount: the VFS superblock, and the root dentry that it and the root share.\<close>

lemma mount_tail:
  assumes tail: "(do {
      ds \<leftarrow> upd (dentries v5) root (\<lambda>e. e\<lparr>d_inode := ri\<rparr>);
      (sb, v) \<leftarrow> fs_get_vfs_superblock K reg s (v5\<lparr>dentries := ds\<rparr>);
      if sb = 0 then None
      else do {
        ss \<leftarrow> upd (supers v) sb (\<lambda>x. x\<lparr>s_root := root\<rparr>);
        ds \<leftarrow> upd (dentries v) root (\<lambda>e. e\<lparr>d_sb := sb\<rparr>);
        Some (v\<lparr>supers := ss, dentries := ds\<rparr>) } }) = Some v'"
    and e: "dentries v5 root = Some e1" "root \<noteq> 0"
  shows "(\<exists>sb. dentries v' root = Some (e1\<lparr>d_inode := ri, d_sb := sb\<rparr>)) \<and> inodes v' = inodes v5 \<and> only_avail (fsm v5) (fsm v')"
proof -
  define v6 where "v6 = v5\<lparr>dentries := (dentries v5)(root \<mapsto> e1\<lparr>d_inode := ri\<rparr>)\<rparr>"
  obtain sb w where q: "fs_get_vfs_superblock K reg s v6 = Some (sb, w)" "sb \<noteq> 0"
    "(do { ss \<leftarrow> upd (supers w) sb (\<lambda>x. x\<lparr>s_root := root\<rparr>);
      ds \<leftarrow> upd (dentries w) root (\<lambda>e. e\<lparr>d_sb := sb\<rparr>);
      Some (w\<lparr>supers := ss, dentries := ds\<rparr>) }) = Some v'"
    using tail e by (auto simp: bind_eq_Some_conv v6_def split: if_splits)
  have f: "only_avail (fsm v6) (fsm w)" "inodes w = inodes v6" "dentries w = dentries v6" using get_vfs_superblock_frame [OF q(1)] by blast+
  then have "dentries w root = Some (e1\<lparr>d_inode := ri\<rparr>)" by (simp add: v6_def)
  then obtain ss where "v' = w\<lparr>supers := ss, dentries := (dentries w)(root \<mapsto> e1\<lparr>d_inode := ri, d_sb := sb\<rparr>)\<rparr>"
    using q(3) e(2) by (auto simp: bind_eq_Some_conv)
  then show ?thesis using f by (auto simp: v6_def intro: exI [of _ sb])
qed

lemma root_links:
  assumes i: "fs_inv K (insert r R) m" and n: "fsis m r = Some n" "dentry_count n = 1" and e: "target_inode e = r"
  shows "links (m\<lparr>fsds := (fsds m)(d \<mapsto> e)\<rparr>) r = {d}"
proof -
  note p = fs_inv_parts [OF i]
  have "card (links m r) = 0" using p n by (auto simp: inv_count_def)
  moreover have "finite (links m r)" using p finite_links by blast
  ultimately have "links m r = {}" by simp
  moreover have "links (m\<lparr>fsds := (fsds m)(d \<mapsto> e)\<rparr>) r = insert d (links m r)" using e by (auto simp: links_def)
  ultimately show ?thesis by simp
qed

text \<open>C4: mounting a file system puts a well-formed tree into memory beside those that are there: the root dentry is bound to a
  VFS inode of the file system whose own inode is an empty directory with the root entry as its only link, and every
  lookup in it finds nothing.\<close>

theorem mount_makes_tree:
  assumes i: "fs_inv K R (fsm v)" and R: "\<forall>r \<in> R. fsis (fsm v) r \<noteq> None" and r: "mount_of K reg v = Some (Inr root, v')"
  shows "fs_inv K R (fsm v') \<and>
    (\<exists>e x n. dentries v' root = Some e \<and> d_name e = Some root_name \<and> inodes v' (d_inode e) = Some x \<and> i_op x = Some K \<and> i_fop x = Some (kind_fops K) \<and>
       fsis (fsm v') (i_private x) = Some n \<and> (fi_mode n AND S_IFMT) = S_IFDIR \<and> dentry_list n = [] \<and>
       links (fsm v') (i_private x) = {d_fsdata e} \<and>
       (\<forall>name. fs_lookup (i_private x) name (fsm v') = Some 0))"
proof -
  have r: "fs_mount K reg v = Some (Inr root, v')" using r by simp
  from mount_head [OF r] obtain s m1 v2 d v3 where s: "fs_superblock_create K (fsm v) = Some (s, m1)" "s \<noteq> 0" and
    v2: "d_alloc_raw 0 root_name (v\<lparr>fsm := m1\<rparr>) = Some (Inr root, v2)" and k: "vkmalloc v2 = (d, v3)" and d: "d \<noteq> 0"
    by (elim exE conjE)
  obtain b n where b: "fsss m1 s = Some b" "fsis m1 (rootinode b) = Some n" "fs_inv K (insert (rootinode b) R) m1" "rootinode b \<notin> R"
    "fi_mode n = S_IFDIR OR mode_755" "dentry_list n = []" "dentry_count n = 1" "fi_fop n = Some (kind_fops K)"
    using superblock_create_inv [OF i R s] by blast
  have a2: "only_avail m1 (fsm v2)" using d_alloc_raw_only [OF v2] by simp
  have a3: "only_avail m1 (fsm v3)" using vkmalloc_only [OF k] a2 only_avail_trans by blast
  have i2: "fs_inv K (insert (rootinode b) R) (fsm v2)" by (rule only_avail_inv [OF b(3) a2])
  have kd: "kmalloc (fsm v2) = (d, fsm v3)" using k by (cases "kmalloc (fsm v2)") (auto simp: vkmalloc_def)
  have i3: "fs_inv K (insert (rootinode b) R) (fsm v3)" "fsds (fsm v3) d = None" "d \<notin> set (avail (fsm v3))"
    using kmalloc_inv [OF i2 kd] d only_avail_simps [OF kmalloc_only [OF kd]] by auto
  have t3: "fsss (fsm v3) s = Some b" "fsis (fsm v3) (rootinode b) = Some n" using only_avail_simps [OF a3] b by simp_all
  define E where "E = \<lparr>fd_magic = MAGIC, fd_name = None :: u8 list option, target_inode = rootinode b\<rparr>"
  define m4 where "m4 = (fsm v3)\<lparr>fsds := (fsds (fsm v3))(d \<mapsto> E)\<rparr>"
  have i4: "fs_inv K R m4" unfolding m4_def
    by (rule root_entry_inv [OF i3(1) b(4) _ d i3(2,3)]) (simp_all add: t3 E_def)
  obtain e0 where e0: "dentries v2 root = Some e0" "d_name e0 = Some root_name" "root \<noteq> 0"
    using d_alloc_raw_name [OF v2] by blast
  have v3: "dentries v3 = dentries v2" using vkmalloc_only [OF k] by (metis vfs.select_convs(3) vfs.surjective vfs.update_convs(1))
  define v4 where "v4 = v3\<lparr>fsm := m4, dentries := (dentries v2)(root \<mapsto> e0\<lparr>d_fsdata := d\<rparr>)\<rparr>"
  obtain ri v5 where g: "fs_get_inode K (rootinode b) 0 v4 = Some (ri, v5)" "ri \<noteq> 0"
    and tail: "(do {
      ds \<leftarrow> upd (dentries v5) root (\<lambda>e. e\<lparr>d_inode := ri\<rparr>);
      (sb, v) \<leftarrow> fs_get_vfs_superblock K reg s (v5\<lparr>dentries := ds\<rparr>);
      if sb = 0 then None
      else do {
        ss \<leftarrow> upd (supers v) sb (\<lambda>x. x\<lparr>s_root := root\<rparr>);
        ds \<leftarrow> upd (dentries v) root (\<lambda>e. e\<lparr>d_sb := sb\<rparr>);
        Some (v\<lparr>supers := ss, dentries := ds\<rparr>) } }) = Some v'"
    using r s v2 k d t3(1) e0 v3
    by (auto simp: fs_mount_def on_fs_def bind_eq_Some_conv v4_def m4_def E_def split: if_splits)
  have v4: "dentries v4 root = Some (e0\<lparr>d_fsdata := d\<rparr>)" "fsm v4 = m4" by (simp_all add: v4_def)
  have n4: "fsis m4 (rootinode b) = Some n" by (simp add: m4_def t3)
  from fs_get_inode_spec [OF g(1)] g(2) v4(2) n4 obtain x where
    v5: "v5 = v4\<lparr>fsm := (fsm v4)\<lparr>avail := avail (fsm v5)\<rparr>, inodes := inodes v5\<rparr>" and
    x: "inodes v5 ri = Some x" "i_private x = rootinode b" "i_op x = Some K" "i_fop x = fi_fop n" by auto
  have d5: "dentries v5 = dentries v4" by (subst v5) simp
  have a5: "only_avail m4 (fsm v5)" using fs_get_inode_only [OF g(1)] v4(2) by simp
  obtain sb where v': "dentries v' root = Some (e0\<lparr>d_fsdata := d, d_inode := ri, d_sb := sb\<rparr>)" "inodes v' = inodes v5" "only_avail (fsm v5) (fsm v')"
    using mount_tail [OF tail] d5 v4(1) e0(3) by auto
  have a': "only_avail m4 (fsm v')" using a5 v'(3) by (rule only_avail_trans)
  note f = only_avail_simps [OF a']
  have mode: "(fi_mode n AND S_IFMT) = S_IFDIR" by (simp add: b(5))
  have rb: "0 < rootinode b" using fs_inv_parts [OF b(3)] b(2) fsis_pos by blast
  have "links (fsm v') (rootinode b) = {d}"
    using root_links [OF i3(1) t3(2) b(7), of E d] by (simp add: links_def f m4_def E_def)
  moreover have "fs_lookup (rootinode b) name (fsm v') = Some 0" for name
    using rb f(1) n4 b(6) mode by (simp add: fs_lookup_def)
  ultimately show ?thesis
    using only_avail_inv [OF i4 a'] f(1) n4 x b mode e0 v' by auto
qed


theorem mount_makes_tree_witness:
  "\<exists>root v'. mount_of Pipefs (\<lambda>a. a) ((boot_w [])\<lparr>fsm := mounted_w\<lparr>avail := [10, 11, 12, 13, 14, 15, 16]\<rparr>\<rparr>) = Some (Inr root, v') \<and> fs_inv Pipefs {1} (fsm v')"
  (is "\<exists>root v'. mount_of _ _ ?v = _ \<and> _")
proof -
  have "fs_inv Pipefs {1} (fsm ?v)"
    by (auto simp: fs_inv_def inv_objs_def inv_dirs_def inv_count_def inv_supers_def inv_fresh_def inv_pages_def links_def
        mounted_w_def root_inode_w_def split: if_splits)
  moreover have "\<forall>r \<in> {1}. fsis (fsm ?v) r \<noteq> None" by (simp add: mounted_w_def)
  moreover have "\<exists>v'. mount_of Pipefs (\<lambda>a. a) ?v = Some (Inr 12, v')"
    by (simp add: fs_mount_def fs_superblock_create_def fs_create_empty_inode_def new_fs_inode_def d_alloc_raw_def dentry_rename_def
        fs_get_inode_def new_inode_def fs_get_vfs_superblock_def alloc_super_def vfs_eval root_name_def)
  ultimately show ?thesis using mount_makes_tree [of Pipefs "{1}" ?v "\<lambda>a. a" 12] by blast
qed

end
