(* ===== verification/Vsprintf.thy ===== *)
theory Vsprintf
  imports Prelude "HOL-Library.Sublist"
begin

text \<open>
  Formatted output, \<^verbatim>\<open>lib/vsprintf.c\<close>: the conversion of numbers without division, and the interpreter of
  format strings with its bounded buffer.

  Strings and formats are their bytes before the NUL. The digits of a number are written backwards from
  the end of a buffer; a result is the list of the bytes from the pointer that is returned to that end.
  The position in the output has 32 bits and wraps. \<open>int\<close> values are mathematical integers, and where the code's arithmetic on
  them may leave their range, in the numbers of a format and in the padding of a field, \<open>None\<close> is the overflow.
\<close>

section \<open>Digits\<close>

fun put_dec_loop :: "nat \<Rightarrow> u32 \<Rightarrow> u8 list \<Rightarrow> u8 list" where
  "put_dec_loop 0 r acc = (48 + ucast r) # acc"
| "put_dec_loop (Suc i) r acc = (let q = drop_bit 15 (r * 3277) in put_dec_loop i q ((48 + ucast (r - q * 10)) # acc))"

definition put_dec_full4 :: "u32 \<Rightarrow> u8 list" where
  "put_dec_full4 r = put_dec_loop 3 r []"

definition put_dec_helper4 :: "u32 \<Rightarrow> u32 \<times> u8 list" where
  "put_dec_helper4 x = (let q = ucast (drop_bit 43 (ucast x * 879609303 :: u64)) in (q, put_dec_full4 (x - q * 10000)))"

definition put_dec :: "u64 \<Rightarrow> u8 list" where
  "put_dec n = (let d1 = drop_bit 16 (ucast n :: u32); h = ucast (drop_bit 32 n) :: u32;
     d2 = h AND 65535; d3 = drop_bit 16 h;
     q = 656 * d3 + 7296 * d2 + 5536 * d1 + ((ucast n :: u32) AND 65535);
     (q, a) = put_dec_helper4 q;
     q = q + (7671 * d3 + 9496 * d2 + 6 * d1);
     (q, b) = put_dec_helper4 q;
     q = q + (4749 * d3 + 42 * d2);
     (q, c) = put_dec_helper4 q;
     q = q + 281 * d3;
     (q, d) = put_dec_helper4 q;
     e = put_dec_full4 q in
     dropWhile (\<lambda>x. x = 48) (e @ d @ c @ b @ a))"

text \<open>The loops for the bases 8 and 16 shift a number of \<open>64\<close> bits until it is zero; \<open>digits\<close> is the table.\<close>

definition hex_digits :: "u8 list" where
  "hex_digits = [48, 49, 50, 51, 52, 53, 54, 55, 56, 57, 65, 66, 67, 68, 69, 70]"

lemma unat_shift_less: "num \<noteq> 0 \<Longrightarrow> 0 < k \<Longrightarrow> unat (drop_bit k num) < unat (num :: u64)"
proof -
  assume "num \<noteq> 0" "0 < k"
  then have "0 < unat num" "(1 :: nat) < 2 ^ k" using one_less_power [of "2 :: nat" k] by (simp_all add: unat_gt_0)
  then have "unat num div 2 ^ k < unat num" by (rule div_less_dividend [rotated])
  moreover have "unat (drop_bit k num) = drop_bit k (unat num)" by (rule unat_drop_bit_eq)
  moreover have "drop_bit k (unat num) = unat num div 2 ^ k" by (rule drop_bit_eq_div)
  ultimately show ?thesis by linarith
qed

function put_oct :: "u64 \<Rightarrow> u8 list \<Rightarrow> u8 list" where
  "put_oct num acc = (if num = 0 then acc else put_oct (drop_bit 3 num) ((48 + ucast (num AND 7)) # acc))"
  by pat_completeness auto
termination
  by (relation "measure (\<lambda>(num, _). unat num)") (auto simp del: drop_bit_numeral_bit1 simp: unat_shift_less)

function put_hex :: "u64 \<Rightarrow> u8 \<Rightarrow> u8 list \<Rightarrow> u8 list" where
  "put_hex num locase acc = (if num = 0 then acc
     else put_hex (drop_bit 4 num) locase ((hex_digits ! unat (num AND 15) OR locase) # acc))"
  by pat_completeness auto
termination
  by (relation "measure (\<lambda>(num, _). unat num)") (auto simp del: drop_bit_numeral_bit1 simp: unat_shift_less)

declare put_oct.simps [simp del] put_hex.simps [simp del]

definition number :: "u64 \<Rightarrow> nat \<Rightarrow> u8 \<Rightarrow> u8 list option" where
  "number num base locase =
     (if base = 10 then Some (if num \<noteq> 0 then put_dec num else [])
      else if base = 8 then Some (put_oct num [])
      else if base = 16 then Some (put_hex num locase [])
      else None)"

section \<open>Directives\<close>

abbreviation (input) ZEROPAD :: u32 where "ZEROPAD \<equiv> 1"
abbreviation (input) SIGN :: u32 where "SIGN \<equiv> 2"
abbreviation (input) PLUS :: u32 where "PLUS \<equiv> 4"
abbreviation (input) SPACE :: u32 where "SPACE \<equiv> 8"
abbreviation (input) LEFT :: u32 where "LEFT \<equiv> 16"
abbreviation (input) SMALL :: u32 where "SMALL \<equiv> 32"
abbreviation (input) SPECIAL :: u32 where "SPECIAL \<equiv> 64"
abbreviation (input) WIDE :: u32 where "WIDE \<equiv> 128"
abbreviation (input) INT_MAX :: int where "INT_MAX \<equiv> 2147483647"

text \<open>
  An argument of the variable part of a call: a word (\<open>int\<close>, \<open>long\<close> and pointers printed with \<open>%p\<close> have
  32 bits), a \<open>long long\<close>, or a string, \<open>None\<close> for NULL. Taking one that is not there or is of another type is a fault.
\<close>

datatype va = Word u32 | Long_long u64 | Str "u8 list option" | Wide "u16 list option"

definition isdigit :: "u8 \<Rightarrow> bool" where
  "isdigit c \<longleftrightarrow> 48 \<le> c \<and> c \<le> 57"

fun skip_atoi :: "int \<Rightarrow> u8 list \<Rightarrow> (int \<times> u8 list) option" where
  "skip_atoi i [] = Some (i, [])"
| "skip_atoi i (c # s) = (if isdigit c
     then if i * 10 + uint c > INT_MAX then None else skip_atoi (i * 10 + uint c - 48) s
     else Some (i, c # s))"

fun get_flags :: "u32 \<Rightarrow> u8 list \<Rightarrow> u32 \<times> u8 list" where
  "get_flags flags [] = (flags, [])"
| "get_flags flags (c # s) =
     (if c = 45 then get_flags (flags OR LEFT) s
      else if c = 43 then get_flags (flags OR PLUS) s
      else if c = 32 then get_flags (flags OR SPACE) s
      else if c = 35 then get_flags (flags OR SPECIAL) s
      else if c = 48 then get_flags (flags OR ZEROPAD) s
      else (flags, c # s))"

definition get_int :: "u8 list \<Rightarrow> va list \<Rightarrow> (int \<times> u8 list \<times> va list) option" where
  "get_int fmt ap = (case fmt of [] \<Rightarrow> Some (0, [], ap)
     | c # s \<Rightarrow> if isdigit c then do { (i, s) \<leftarrow> skip_atoi 0 fmt; Some (i, s, ap) }
         else if c = 42 then (case ap of Word w # ap \<Rightarrow> Some (sint w, s, ap) | _ \<Rightarrow> None)
         else Some (0, fmt, ap))"

text \<open>The qualifiers: \<open>h\<close>, \<open>l\<close>, and their doubled forms \<open>H\<close> and \<open>L\<close>.\<close>

definition get_number :: "bool \<Rightarrow> u8 option \<Rightarrow> va list \<Rightarrow> (u64 \<times> va list) option" where
  "get_number sign q ap = (case ap of
       Long_long n # ap \<Rightarrow> if q = Some 76 then Some (n, ap) else None
     | Word w # ap \<Rightarrow>
         if q = Some 76 then None
         else if q = Some 104 then Some (if sign then scast (ucast w :: u16) else ucast (ucast w :: u16), ap)
         else if q = Some 72 then Some (if sign then scast (ucast w :: u8) else ucast (ucast w :: u8), ap)
         else Some (if sign then scast w else ucast w, ap)
     | _ \<Rightarrow> None)"

text \<open>The smallest \<open>long long\<close> cannot be negated in C.\<close>

definition get_sign :: "u64 \<Rightarrow> u32 \<Rightarrow> (u8 \<times> u64) option" where
  "get_sign num flags =
     (if flags AND SIGN = 0 then Some (0, num)
      else if sint num < 0 then if sint num = - (2 ^ 63) then None else Some (45, - num)
      else if flags AND PLUS \<noteq> 0 then Some (43, num)
      else if flags AND SPACE \<noteq> 0 then Some (32, num)
      else Some (0, num))"

section \<open>Wide strings\<close>

text \<open>The bytes a UTF-16 string takes in UTF-8, up to \<open>maxlen\<close>; the string ends with its list.\<close>

fun utf16s_utf8nlen :: "u16 list \<Rightarrow> nat \<Rightarrow> nat \<Rightarrow> nat" where
  "utf16s_utf8nlen [] maxlen len = len"
| "utf16s_utf8nlen (c0 # s) maxlen len =
     (if len \<ge> maxlen then len
      else let clen = 1 + (if c0 \<ge> 128 then 1 else 0) + (if c0 \<ge> 2048 then 1 else 0) in
        if len + clen > maxlen then len
        else if (c0 AND 64512) = 55296 then
          if len + clen = maxlen then len
          else (case s of [] \<Rightarrow> len + clen
            | c1 # s' \<Rightarrow> if (c1 AND 64512) = 56320 then utf16s_utf8nlen s' maxlen (len + clen + 1)
                else utf16s_utf8nlen s maxlen (len + clen))
        else utf16s_utf8nlen s maxlen (len + clen))"

definition utf16_to_utf32 :: "u16 list \<Rightarrow> (u32 \<times> u16 list) option" where
  "utf16_to_utf32 s = (case s of [] \<Rightarrow> None
     | c0 # s \<Rightarrow>
         if (c0 AND 63488) \<noteq> 55296 then Some (ucast c0, s)
         else if c0 AND 1024 \<noteq> 0 then Some (65533, s)
         else let c1 = (case s of [] \<Rightarrow> 0 | c1 # _ \<Rightarrow> c1) in
           if (c1 AND 64512) \<noteq> 56320 then Some (65533, s)
           else Some (65536 - push_bit 10 55296 - 56320 + push_bit 10 (ucast c0) + ucast c1, tl s))"

section \<open>The buffer\<close>

text \<open>The caller's buffer, as long as its size, and the position, which runs on beyond it and wraps round.\<close>

type_synonym out = "u8 list \<times> u32"

fun putc :: "u8 \<Rightarrow> out \<Rightarrow> out" where
  "putc c (buf, pos) = (if unat pos < length buf then buf[unat pos := c] else buf, pos + 1)"

fun puts :: "u8 list \<Rightarrow> out \<Rightarrow> out" where
  "puts [] b = b"
| "puts (c # cs) b = puts cs (putc c b)"

text \<open>
  The trailing bytes of a character are written backwards, from the one at \<open>at\<close>; what is left of the character ends in
  its leading byte.
\<close>

fun put_trail :: "nat \<Rightarrow> nat \<Rightarrow> u32 \<Rightarrow> u8 list \<Rightarrow> u8 list" where
  "put_trail 0 p c buf = buf[p := buf ! p OR ucast c]"
| "put_trail (Suc clen) p c buf = put_trail clen (p - 1) (drop_bit 6 c) (buf[p := 128 OR ucast (c AND 63)])"

text \<open>
  \<open>len\<close> counts bytes: the loop takes one for itself and the rest with the character. It ends with \<open>fuel\<close> = \<open>len\<close>. A position that wraps round
  within a character leaves its first bytes beyond the buffer.
\<close>

primrec put_wide :: "nat \<Rightarrow> nat \<Rightarrow> u16 list \<Rightarrow> out \<Rightarrow> out option" where
  "put_wide 0 len ws b = Some b"
| "put_wide (Suc fuel) len ws b = (if len = 0 then Some b
     else do {
       (c, ws) \<leftarrow> utf16_to_utf32 ws;
       if c < 128 then put_wide fuel (len - 1) ws (putc (ucast c) b)
       else do {
         let clen = 1 + (if c \<ge> 2048 then 1 else 0) + (if c \<ge> 65536 then 1 else 0);
         let pos = snd b;
         let b = (fst (putc 0 b), pos + 1 + of_nat clen);
         if len - 1 < clen then None
         else if unat (snd b) \<ge> length (fst b) then put_wide fuel (len - 1 - clen) ws b
         else if unat pos + clen \<ge> length (fst b) then None
         else put_wide fuel (len - 1 - clen) ws
           (put_trail clen (unat pos + clen) c ((fst b)[unat pos := ucast (drop_bit clen (1920 :: u32))]), snd b) } })"


section \<open>The interpreter\<close>

text \<open>A directive up to its conversion character: flags, width, precision, qualifier, and what is left.\<close>

record directive =
  flags :: u32
  width :: int
  precision :: int
  qualifier :: "u8 option"

definition get_precision :: "u32 \<Rightarrow> u8 list \<Rightarrow> va list \<Rightarrow> (u32 \<times> int \<times> u8 list \<times> va list) option" where
  "get_precision fl fmt ap = (case fmt of c # s \<Rightarrow>
       if c = 46 then do {
         (p, s, ap) \<leftarrow> get_int s ap;
         Some (if p \<ge> 0 then fl AND NOT ZEROPAD else fl, p, s, ap) }
       else Some (fl, -1, fmt, ap)
     | [] \<Rightarrow> Some (fl, -1, fmt, ap))"

definition get_qualifier :: "u8 list \<Rightarrow> u8 option \<times> u8 list" where
  "get_qualifier fmt = (case fmt of c # s \<Rightarrow>
       if c = 104 \<or> c = 108 then
         (case s of c' # s' \<Rightarrow> if c' = c then (Some (c - 32), s') else (Some c, s) | [] \<Rightarrow> (Some c, s))
       else (None, fmt)
     | [] \<Rightarrow> (None, fmt))"

definition get_directive :: "u8 list \<Rightarrow> va list \<Rightarrow> (directive \<times> u8 list \<times> va list) option" where
  "get_directive fmt ap = do {
     let (fl, fmt) = get_flags 0 fmt;
     (w, fmt, ap) \<leftarrow> get_int fmt ap;
     if w = - INT_MAX - 1 then None
     else do {
       let fl = (if w < 0 then fl OR LEFT else fl);
       let fl = (if fl AND LEFT \<noteq> 0 then fl AND NOT ZEROPAD else fl);
       (fl, p, fmt, ap) \<leftarrow> get_precision fl fmt ap;
       let (q, fmt) = get_qualifier fmt;
       Some (\<lparr>flags = fl, width = \<bar>w\<bar>, precision = p, qualifier = q\<rparr>, fmt, ap) } }"

text \<open>
  What is printed: the sign, the bytes, the zeros before them, and the blanks around them. Each of the loops over the blanks counts the
  width down once more than it prints, which overflows when the precision exceeds the width by as much as an \<open>int\<close> can hold.
\<close>

definition field :: "u32 \<Rightarrow> u8 \<Rightarrow> int \<Rightarrow> int \<Rightarrow> nat \<Rightarrow> (u8 list \<times> u8 list) option" where
  "field fl sign fw prec len = (let w = fw - prec in
     if w < (if fl AND LEFT = 0 then 2 - INT_MAX - 1 else 1 - INT_MAX - 1) then None
     else Some ((if fl AND LEFT = 0 then replicate (nat w) 32 else []) @
        (if sign \<noteq> 0 then [sign] else []) @
        (if fl AND SPECIAL \<noteq> 0 then [48, 88 OR ucast (fl AND SMALL)] else []) @
        replicate (nat (prec - int len)) 48,
      if fl AND LEFT = 0 then [] else replicate (nat w) 32))"

definition put_bytes :: "directive \<Rightarrow> u8 \<Rightarrow> u8 list \<Rightarrow> out \<Rightarrow> out option" where
  "put_bytes d sign s b = do {
     (before, after) \<leftarrow> field (flags d) sign (width d) (precision d) (length s);
     Some (puts (before @ s @ after) b) }"

definition put_string :: "directive \<Rightarrow> u16 list \<Rightarrow> out \<Rightarrow> out option" where
  "put_string d ws b = do {
     let len = utf16s_utf8nlen ws (nat (precision d)) 0;
     (before, after) \<leftarrow> field (flags d OR WIDE) 0 (width d) (int len) len;
     b \<leftarrow> put_wide len len ws (puts before b);
     Some (puts after b) }"

text \<open>Numbers: the conversion character \<open>c\<close> gives the base and adjusts the flags.\<close>

definition number_base :: "u8 \<Rightarrow> directive \<Rightarrow> (nat \<times> directive) option" where
  "number_base c d =
     (if c = 111 then Some (8, d)
      else if c = 112 then Some (16, d\<lparr>precision := if precision d < 0 then 8 else precision d, flags := flags d OR SMALL\<rparr>)
      else if c = 120 then Some (16, d\<lparr>flags := flags d OR SMALL\<rparr>)
      else if c = 88 then Some (16, d)
      else if c = 100 \<or> c = 105 then Some (10, d\<lparr>flags := (flags d OR SIGN) AND NOT SPECIAL\<rparr>)
      else if c = 117 then Some (10, d\<lparr>flags := flags d AND NOT SPECIAL\<rparr>)
      else None)"

definition number_layout :: "nat \<Rightarrow> u8 \<Rightarrow> int \<Rightarrow> directive \<Rightarrow> directive" where
  "number_layout base sign len d =
     (let w = (if sign \<noteq> 0 then width d - 1 else width d);
        p = max (if precision d < 0 then 1 else precision d) len;
        (fl, w, p) = (if flags d AND SPECIAL \<noteq> 0 then
            let p = (if base = 8 \<and> p = len then p + 1 else p) in
            if base = 16 \<and> p > 0 then (flags d, w - 2, p) else (flags d AND NOT SPECIAL, w, p)
          else (flags d, w, p));
        p = (if fl AND ZEROPAD \<noteq> 0 \<and> w > p then w else p) in
      d\<lparr>flags := fl, width := w, precision := p\<rparr>)"

definition put_number :: "u8 \<Rightarrow> nat \<Rightarrow> directive \<Rightarrow> va list \<Rightarrow> out \<Rightarrow> (out \<times> va list) option" where
  "put_number c base d ap b = do {
     (num, ap) \<leftarrow> get_number (flags d AND SIGN \<noteq> 0) (if c = 112 then None else qualifier d) ap;
     (sign, num) \<leftarrow> get_sign num (flags d);
     s \<leftarrow> number num base (ucast (flags d AND SMALL));
     b \<leftarrow> put_bytes (number_layout base sign (int (length s)) d) sign s b;
     Some (b, ap) }"

text \<open>The name a NULL string is printed as.\<close>

definition null_name :: "u8 list" where
  "null_name = [40, 110, 117, 108, 108, 41]"

text \<open>One conversion; the inner \<open>None\<close> is a character that is no conversion, at which the output ends.\<close>

definition convert :: "u8 \<Rightarrow> directive \<Rightarrow> va list \<Rightarrow> out \<Rightarrow> ((out \<times> va list) option) option" where
  "convert c d ap b =
     (if c = 99 then
        (case ap of Word w # ap \<Rightarrow>
           if qualifier d = Some 108
           then map_option (\<lambda>b. Some (b, ap)) (put_string (d\<lparr>flags := flags d AND LEFT, precision := INT_MAX\<rparr>)
             (if (ucast w :: u16) = 0 then [] else [ucast w]) b)
           else map_option (\<lambda>b. Some (b, ap)) (put_bytes (d\<lparr>flags := flags d AND LEFT, precision := 1\<rparr>) 0 [ucast w] b)
         | _ \<Rightarrow> None)
      else if c = 115 then
        let d = d\<lparr>flags := flags d AND LEFT, precision := if precision d < 0 then INT_MAX else precision d\<rparr>;
          narrow = (\<lambda>s ap. let s = take (nat (precision d)) s in
            map_option (\<lambda>b. Some (b, ap)) (put_bytes (d\<lparr>precision := int (length s)\<rparr>) 0 s b)) in
        (case ap of
           Str None # ap \<Rightarrow> narrow (if precision d < 6 then [] else null_name) ap
         | Wide None # ap \<Rightarrow> narrow (if precision d < 6 then [] else null_name) ap
         | Str (Some s) # ap \<Rightarrow> if qualifier d = Some 108 then None else narrow s ap
         | Wide (Some ws) # ap \<Rightarrow> if qualifier d = Some 108 then map_option (\<lambda>b. Some (b, ap)) (put_string d ws b) else None
         | _ \<Rightarrow> None)
      else (case number_base c d of None \<Rightarrow> Some None
        | Some (base, d) \<Rightarrow> map_option Some (put_number c base d ap b)))"

text \<open>Every part of a directive leaves a suffix of the format.\<close>

lemma skip_atoi_suffix: "skip_atoi i s = Some (j, t) \<Longrightarrow> suffix t s"
  by (induction i s rule: skip_atoi.induct) (auto split: if_splits intro: suffix_ConsI)

lemma get_int_suffix: "get_int s ap = Some (j, t, ap') \<Longrightarrow> suffix t s"
  by (auto simp: get_int_def bind_eq_Some_conv dest!: skip_atoi_suffix intro: suffix_ConsI split: list.splits if_splits va.splits)

lemma get_flags_suffix: "get_flags fl s = (fl', t) \<Longrightarrow> suffix t s"
  by (induction fl s rule: get_flags.induct) (auto split: if_splits intro: suffix_ConsI)

lemma get_precision_suffix: "get_precision fl s ap = Some (fl', p, t, ap') \<Longrightarrow> suffix t s"
  by (auto simp: get_precision_def bind_eq_Some_conv dest!: get_int_suffix intro: suffix_ConsI split: list.splits if_splits)

lemma get_qualifier_suffix: "get_qualifier s = (q, t) \<Longrightarrow> suffix t s"
  by (auto simp: get_qualifier_def intro: suffix_ConsI split: list.splits if_splits)

lemma get_directive_parts:
  assumes r: "get_directive s ap = Some (d, t, ap')"
  obtains f where "suffix f s" "get_qualifier f = (qualifier d, t)"
proof -
  obtain fl0 f1 where g: "get_flags 0 s = (fl0, f1)" by (cases "get_flags 0 s")
  obtain w f2 a2 fl fl' p f3 a3 where i: "get_int f1 ap = Some (w, f2, a2)" "get_precision fl f2 a2 = Some (fl', p, f3, a3)"
    "get_qualifier f3 = (qualifier d, t)"
    using r g by (auto simp: get_directive_def bind_eq_Some_conv Let_def split_beta split: if_splits)
  have "suffix f3 s"
    using get_flags_suffix [OF g] get_int_suffix [OF i(1)] get_precision_suffix [OF i(2)] by (meson suffix_order.trans)
  then show thesis using i(3) by (rule that)
qed

lemma get_directive_suffix: "get_directive s ap = Some (d, t, ap') \<Longrightarrow> suffix t s"
  by (erule get_directive_parts) (blast dest: get_qualifier_suffix intro: suffix_order.trans)

lemma get_directive_length: "get_directive s ap = Some (d, t, ap') \<Longrightarrow> length t \<le> length s"
  by (blast dest: get_directive_suffix suffix_length_le)

function vs_loop :: "u8 list \<Rightarrow> va list \<Rightarrow> out \<Rightarrow> out option" where
  "vs_loop fmt ap b = (case fmt of [] \<Rightarrow> Some b
     | c # s \<Rightarrow>
         if c \<noteq> 37 then vs_loop s ap (putc c b)
         else if s \<noteq> [] \<and> hd s = 37 then vs_loop (tl s) ap (putc 37 b)
         else (case get_directive s ap of None \<Rightarrow> None
           | Some (d, s', ap) \<Rightarrow> (case s' of [] \<Rightarrow> Some b
             | k # t \<Rightarrow> (case convert k d ap b of None \<Rightarrow> None
               | Some None \<Rightarrow> Some b
               | Some (Some (b, ap)) \<Rightarrow> vs_loop t ap b))))"
  by pat_completeness auto
termination
  by (relation "measure (\<lambda>(fmt, _). length fmt)") (auto dest!: get_directive_length)

declare vs_loop.simps [simp del]

text \<open>The position in the end, returned as an \<open>int\<close>, and the buffer with its NUL.\<close>

definition vsnprintf :: "u8 list \<Rightarrow> u8 list \<Rightarrow> va list \<Rightarrow> (int \<times> u8 list) option" where
  "vsnprintf buf fmt ap = do {
     (buf, pos) \<leftarrow> vs_loop fmt ap (buf, 0);
     Some (sint pos, if buf = [] then buf else buf[min (unat pos) (length buf - 1) := 0]) }"

definition snprintf :: "u8 list \<Rightarrow> u8 list \<Rightarrow> va list \<Rightarrow> (int \<times> u8 list) option" where
  "snprintf buf fmt ap = vsnprintf buf fmt ap"

end
