(* ===== verification/VsprintfSpec.thy ===== *)
theory VsprintfSpec
  imports Vsprintf
begin

text \<open>
  What formatted output computes: the digits \<open>number\<close> finds by multiplications and shifts are those of the
  number, and the text a format produces does not depend on the buffer, which receives as much of it as fits.
\<close>

section \<open>Numbers\<close>

function to_digits :: "nat \<Rightarrow> nat \<Rightarrow> nat list" where
  "to_digits b n = (if n = 0 \<or> b \<le> 1 then [] else to_digits b (n div b) @ [n mod b])"
  by pat_completeness auto
termination
  by (relation "measure snd") auto

declare to_digits.simps [simp del]

text \<open>The last \<open>k\<close> digits.\<close>

fun dig :: "nat \<Rightarrow> nat \<Rightarrow> nat list" where
  "dig 0 n = []"
| "dig (Suc k) n = dig k (n div 10) @ [n mod 10]"

abbreviation dchar :: "nat \<Rightarrow> u8" where "dchar d \<equiv> 48 + of_nat d"

lemma to_digits_0 [simp]: "to_digits b 0 = []"
  by (simp add: to_digits.simps)

lemma to_digits_step: "0 < n \<Longrightarrow> 1 < b \<Longrightarrow> to_digits b n = to_digits b (n div b) @ [n mod b]"
  by (subst to_digits.simps) simp

lemma unat_and_mask: "unat (num AND mask k) = unat num mod 2 ^ k"
proof -
  have "unat (num AND mask k) = take_bit k (unat num)" by (simp only: take_bit_eq_mask [symmetric] unsigned_take_bit_eq)
  then show ?thesis by (simp only: take_bit_eq_mod)
qed

lemma unat_and_7: "unat (num AND 7 :: u64) = unat num mod 8"
  using unat_and_mask [of num 3] by (simp add: mask_eq_exp_minus_1)

lemma unat_and_15: "unat (num AND 15 :: u64) = unat num mod 16"
  using unat_and_mask [of num 4] by (simp add: mask_eq_exp_minus_1)

lemma unat_shift: "unat (drop_bit k num) = unat num div 2 ^ k"
  unfolding unat_drop_bit_eq by (rule drop_bit_eq_div)

lemma ucast_of_unat: "(ucast (w :: u64) :: u8) = of_nat (unat w)"
  by simp

lemma put_oct_digits: "put_oct num acc = map dchar (to_digits 8 (unat num)) @ acc"
proof (induction num acc rule: put_oct.induct)
  case (1 num acc)
  show ?case
  proof (cases "num = 0")
    case False
    then have "0 < unat num" by (simp add: unat_gt_0)
    then have "to_digits 8 (unat num) = to_digits 8 (unat num div 8) @ [unat num mod 8]" by (simp add: to_digits_step)
    moreover have "unat (drop_bit 3 num) = unat num div 8" using unat_shift [of 3 num] by simp
    moreover have "(ucast (num AND 7) :: u8) = of_nat (unat num mod 8)" by (metis ucast_of_unat unat_and_7)
    moreover have "put_oct num acc = put_oct (drop_bit 3 num) ((48 + ucast (num AND 7)) # acc)"
      using False by (simp add: put_oct.simps [of num])
    ultimately show ?thesis using 1 False by simp
  qed (simp add: put_oct.simps)
qed

lemma dec_step: "r < 10000 \<Longrightarrow> drop_bit 15 (of_nat r * 3277 :: u32) = of_nat (r div 10)"
proof -
  assume r: "r < 10000"
  define q d where "q = r div 10" and "d = r mod 10"
  have qd: "r = 10 * q + d" "d < 10" by (simp_all add: q_def d_def)
  have "r * 3277 div 32768 = q" using r qd by (intro div_nat_eqI) simp_all
  moreover have "unat (of_nat (r * 3277) :: u32) = r * 3277" using r by (intro unat_of_nat_small) simp
  ultimately have "unat (drop_bit 15 (of_nat (r * 3277) :: u32)) = unat (of_nat q :: u32)"
    using r qd by (simp add: unat_shift unat_of_nat_small)
  then show ?thesis by (simp add: q_def word_unat_eq_iff)
qed


lemma put_hex_digits: "put_hex num l acc = map (\<lambda>d. hex_digits ! d OR l) (to_digits 16 (unat num)) @ acc"
proof (induction num l acc rule: put_hex.induct)
  case (1 num l acc)
  show ?case
  proof (cases "num = 0")
    case False
    then have "0 < unat num" by (simp add: unat_gt_0)
    then have "to_digits 16 (unat num) = to_digits 16 (unat num div 16) @ [unat num mod 16]" by (simp add: to_digits_step)
    moreover have "unat (drop_bit 4 num) = unat num div 16" using unat_shift [of 4 num] by simp
    moreover have "put_hex num l acc = put_hex (drop_bit 4 num) l ((hex_digits ! (unat num mod 16) OR l) # acc)"
      using False by (simp add: put_hex.simps [of num] unat_and_15)
    ultimately show ?thesis using 1 False by (simp add: unat_and_15)
  qed (simp add: put_hex.simps)
qed

lemma ucast_of_nat_small: "n < 2 ^ LENGTH('a) \<Longrightarrow> (ucast (of_nat n :: 'a :: len word) :: 'b :: len word) = of_nat n"
proof -
  assume n: "n < 2 ^ LENGTH('a)"
  have "(ucast (of_nat n :: 'a word) :: 'b word) = of_nat (unat (of_nat n :: 'a word))" by simp
  then show ?thesis by (simp only: unat_of_nat_small [OF n])
qed

lemma ucast_dchar: "d < 2 ^ 32 \<Longrightarrow> (48 + ucast (of_nat d :: u32) :: u8) = dchar d"
  by (simp add: ucast_of_nat_small)

lemma put_dec_loop_digits:
  "r < 10 ^ Suc i \<Longrightarrow> i < 4 \<Longrightarrow> put_dec_loop i (of_nat r) acc = map dchar (dig (Suc i) r) @ acc"
proof (induction i arbitrary: r acc)
  case (Suc i)
  have "r < 10000" using Suc.prems power_increasing [of "Suc (Suc i)" 4 "10 :: nat"] by simp
  then have q: "drop_bit 15 (of_nat r * 3277 :: u32) = of_nat (r div 10)" by (rule dec_step)
  have "(of_nat r - of_nat (r div 10) * 10 :: u32) = of_nat (r - r div 10 * 10)" by (simp add: of_nat_diff)
  also have "r - r div 10 * 10 = r mod 10" by (simp add: minus_div_mult_eq_mod)
  finally have "(of_nat r - of_nat (r div 10) * 10 :: u32) = of_nat (r mod 10)" .
  then have "put_dec_loop (Suc i) (of_nat r) acc = put_dec_loop i (of_nat (r div 10)) (dchar (r mod 10) # acc)"
    using ucast_dchar [of "r mod 10"] by (simp add: q Let_def)
  moreover have "r div 10 < 10 ^ Suc i" using Suc.prems by (simp add: less_mult_imp_div_less)
  ultimately show ?case using Suc by simp
qed (simp add: ucast_dchar)

lemma put_dec_full4_digits: "r < 10000 \<Longrightarrow> put_dec_full4 (of_nat r) = map dchar (dig 4 r)"
  using put_dec_loop_digits [of r 3 "[]"] by (simp add: put_dec_full4_def del: dig.simps put_dec_loop.simps)

lemma put_dec_helper4_digits:
  assumes x: "x < 1128860000"
  shows "put_dec_helper4 (of_nat x) = (of_nat (x div 10000), map dchar (dig 4 (x mod 10000)))"
proof -
  define q d where "q = x div 10000" and "d = x mod 10000"
  have qd: "x = 10000 * q + d" "d < 10000" by (simp_all add: q_def d_def)
  have "x * 879609303 div 8796093022208 = q" using x qd by (intro div_nat_eqI) simp_all
  moreover have "unat (of_nat (x * 879609303) :: u64) = x * 879609303" using x by (intro unat_of_nat_small) simp
  ultimately have "unat (drop_bit 43 (of_nat (x * 879609303) :: u64)) = q" by (simp add: unat_shift)
  then have "drop_bit 43 (of_nat (x * 879609303) :: u64) = of_nat q" using word_unat_eq_iff of_nat_unat by (metis ucast_id)
  moreover have "(ucast (of_nat x :: u32) :: u64) = of_nat x" using x by (simp add: ucast_of_nat_small)
  moreover have "(ucast (of_nat q :: u64) :: u32) = of_nat q" using x qd by (simp add: ucast_of_nat_small)
  ultimately have "ucast (drop_bit 43 (ucast (of_nat x :: u32) * 879609303 :: u64)) = (of_nat q :: u32)" by simp
  moreover have "of_nat x - of_nat q * 10000 = (of_nat d :: u32)" by (simp add: qd)
  ultimately show ?thesis using qd by (simp add: put_dec_helper4_def put_dec_full4_digits flip: q_def d_def)
qed

lemma dig_add: "dig (k + l) n = dig k (n div 10 ^ l) @ dig l n"
  by (induction l arbitrary: n) (simp_all add: div_mult2_eq)

lemma dig_mod: "dig l (n mod 10 ^ l) = dig l n"
proof (induction l arbitrary: n)
  case (Suc l)
  have "n mod 10 ^ Suc l div 10 = n div 10 mod 10 ^ l" by (simp add: mod_mult2_eq)
  moreover have "n mod 10 ^ Suc l mod 10 = n mod 10" by (simp add: mod_mult2_eq)
  ultimately show ?case using Suc [of "n div 10"] by simp
qed simp

lemma dig_range: "\<forall>d \<in> set (dig k n). d < 10"
  by (induction k arbitrary: n) auto

lemma dig_zero: "dropWhile (\<lambda>d. d = 0) (dig k 0) = []"
  by (induction k) (simp_all add: dropWhile_append)

lemma dig_to_digits: "n < 10 ^ k \<Longrightarrow> dropWhile (\<lambda>d. d = 0) (dig k n) = to_digits 10 n"
proof (induction k arbitrary: n)
  case (Suc k)
  have "n div 10 < 10 ^ k" using Suc.prems by (simp add: less_mult_imp_div_less)
  note IH = Suc.IH [OF this]
  show ?case
  proof (cases "n = 0")
    case False
    then have "to_digits 10 n = to_digits 10 (n div 10) @ [n mod 10]" by (simp add: to_digits_step)
    moreover have "dropWhile (\<lambda>d. d = 0) (dig (Suc k) n) = to_digits 10 (n div 10) @ [n mod 10]"
    proof (cases "n div 10 = 0")
      case True
      then show ?thesis using False dig_zero [of k] by (auto simp: dropWhile_append dropWhile_eq_Nil_conv)
    next
      case nz: False
      then have "\<not> (\<forall>d \<in> set (dig k (n div 10)). d = 0)" using IH to_digits_step [of "n div 10" 10] by (auto simp flip: dropWhile_eq_Nil_conv)
      then show ?thesis using IH by (auto simp: dropWhile_append)
    qed
    ultimately show ?thesis by simp
  qed (use dig_zero [of "Suc k"] in simp)
qed simp


text \<open>Four limbs of \<open>16\<close> bits, and the limbs of base \<open>10000\<close> they make up.\<close>

lemma put_dec_limbs:
  fixes n :: u64
  defines "d0 \<equiv> unat n mod 65536" and "d1 \<equiv> unat n div 65536 mod 65536"
    and "d2 \<equiv> unat n div 4294967296 mod 65536" and "d3 \<equiv> unat n div 281474976710656"
  shows "(ucast n :: u32) AND 65535 = of_nat d0" "drop_bit 16 (ucast n :: u32) = of_nat d1"
    "ucast (drop_bit 32 n) AND 65535 = (of_nat d2 :: u32)" "drop_bit 16 (ucast (drop_bit 32 n)) = (of_nat d3 :: u32)"
    "unat n = d0 + 65536 * d1 + 4294967296 * d2 + 281474976710656 * d3" "d0 < 65536" "d1 < 65536" "d2 < 65536" "d3 < 65536"
proof -
  have m: "unat (w AND 65535 :: u32) = unat w mod 65536" for w using unat_and_mask [of w 16] by (simp add: mask_eq_exp_minus_1)
  have lo: "unat (ucast w :: u32) = unat w mod 4294967296" for w :: u64 by (simp add: unsigned_ucast_eq take_bit_eq_mod)
  have u: "unat n < 2 ^ 64" using unsigned_less [of n] by simp
  have k: "w = of_nat x" if "unat w = x" for w :: u32 and x using that by auto
  show "(ucast n :: u32) AND 65535 = of_nat d0" by (rule k) (simp add: m lo d0_def mod_mod_cancel)
  show "drop_bit 16 (ucast n :: u32) = of_nat d1"
    using mod_mult2_eq [of "unat n" 65536 65536] by (intro k) (simp add: unat_shift lo d1_def)
  show "ucast (drop_bit 32 n) AND 65535 = (of_nat d2 :: u32)" by (rule k) (simp add: m lo unat_shift d2_def mod_mod_cancel)
  show "drop_bit 16 (ucast (drop_bit 32 n)) = (of_nat d3 :: u32)"
    using u by (intro k) (simp add: unat_shift lo d3_def flip: div_mult2_eq)
  have "unat n div 4294967296 = unat n div 65536 div 65536" "unat n div 281474976710656 = unat n div 65536 div 65536 div 65536"
    by (simp_all flip: div_mult2_eq)
  moreover have "N = m0 + 65536 * m1 + 4294967296 * m2 + 281474976710656 * c"
    if "N = 65536 * a + m0" "a = 65536 * b + m1" "b = 65536 * c + m2" for N a b c m0 m1 m2 :: nat using that by simp
  ultimately show "unat n = d0 + 65536 * d1 + 4294967296 * d2 + 281474976710656 * d3"
    unfolding d0_def d1_def d2_def d3_def by (metis mult_div_mod_eq)
  show "d0 < 65536" "d1 < 65536" "d2 < 65536" "d3 < 65536"
    using u by (simp_all add: d0_def d1_def d2_def d3_def)
qed

lemma dropWhile_dchar: "\<forall>d \<in> set ds. d < 10 \<Longrightarrow> dropWhile (\<lambda>x. x = 48) (map dchar ds) = map dchar (dropWhile (\<lambda>d. d = 0) ds)"
proof (induction ds)
  case (Cons d ds)
  then have "unat (of_nat d :: u8) = d" by (intro unat_of_nat_small) simp
  then have "(of_nat d :: u8) = 0 \<longleftrightarrow> d = 0" by force
  then have "dchar d = 48 \<longleftrightarrow> d = 0" by (simp add: add_cancel_left_right del: of_nat_eq_0_iff)
  then show ?case using Cons by auto
qed simp

lemma limb: "(a + 10000 * t) mod 10000 = a mod (10000 :: nat)" "(a + 10000 * t) div 10000 = a div (10000 :: nat) + t"
  by simp_all

lemma dig_limbs: "map f (dig 20 n) = map f (dig 4 (n div 10 ^ 16)) @ map f (dig 4 (n div 10 ^ 12 mod 10 ^ 4))
  @ map f (dig 4 (n div 10 ^ 8 mod 10 ^ 4)) @ map f (dig 4 (n div 10 ^ 4 mod 10 ^ 4)) @ map f (dig 4 (n mod 10 ^ 4))"
  using dig_add [of 16 4 n] dig_add [of 12 4 "n div 10 ^ 4"] dig_add [of 8 4 "n div 10 ^ 8"] dig_add [of 4 4 "n div 10 ^ 12"]
  unfolding dig_mod by (simp flip: div_mult2_eq map_append)

lemma put_dec_digits: "put_dec n = map dchar (to_digits 10 (unat n))"
proof -
  note b = put_dec_limbs [of n]
  define d0 d1 d2 d3 where d: "d0 = unat n mod 65536" "d1 = unat n div 65536 mod 65536"
    "d2 = unat n div 4294967296 mod 65536" "d3 = unat n div 281474976710656"
  note b = put_dec_limbs [of n, folded d]
  define q0 where "q0 = 656 * d3 + 7296 * d2 + 5536 * d1 + d0"
  define q1 where "q1 = q0 div 10000 + (7671 * d3 + 9496 * d2 + 6 * d1)"
  define q2 where "q2 = q1 div 10000 + (4749 * d3 + 42 * d2)"
  define q3 where "q3 = q2 div 10000 + 281 * d3"
  have l: "q0 < 1128860000" "q1 < 1128860000" "q2 < 1128860000" "q3 div 10000 < 10000" "q3 < 1128860000"
    using b(6-9) by (simp_all add: q0_def q1_def q2_def q3_def)
  have w: "656 * of_nat d3 + 7296 * of_nat d2 + 5536 * of_nat d1 + of_nat d0 = (of_nat q0 :: u32)"
    "of_nat (q0 div 10000) + (7671 * of_nat d3 + 9496 * of_nat d2 + 6 * of_nat d1) = (of_nat q1 :: u32)"
    "of_nat (q1 div 10000) + (4749 * of_nat d3 + 42 * of_nat d2) = (of_nat q2 :: u32)"
    "of_nat (q2 div 10000) + 281 * of_nat d3 = (of_nat q3 :: u32)"
    by (simp_all add: q0_def q1_def q2_def q3_def)
  have "put_dec n = dropWhile (\<lambda>x. x = 48) (map dchar (dig 4 (q3 div 10000)) @ map dchar (dig 4 (q3 mod 10000))
      @ map dchar (dig 4 (q2 mod 10000)) @ map dchar (dig 4 (q1 mod 10000)) @ map dchar (dig 4 (q0 mod 10000)))"
    unfolding put_dec_def Let_def b(1-4) w put_dec_helper4_digits [OF l(1)] split put_dec_helper4_digits [OF l(2)]
      put_dec_helper4_digits [OF l(3)] put_dec_helper4_digits [OF l(5)] put_dec_full4_digits [OF l(4)] by simp
  also have "\<dots> = dropWhile (\<lambda>x. x = 48) (map dchar (dig 20 (unat n)))"
  proof -
    define e1 e2 e3 where "e1 = 7671 * d3 + 9496 * d2 + 6 * d1" and "e2 = 4749 * d3 + 42 * d2" and "e3 = 281 * d3"
    have q: "q1 = q0 div 10000 + e1" "q2 = q1 div 10000 + e2" "q3 = q2 div 10000 + e3"
      by (simp_all add: q1_def q2_def q3_def e1_def e2_def e3_def)
    have "unat n = q0 + 10000 * (e1 + 10000 * (e2 + 10000 * e3))"
      using b(5) by (simp add: q0_def e1_def e2_def e3_def)
    then have 1: "unat n mod 10000 = q0 mod 10000" "unat n div 10000 = q1 + 10000 * (e2 + 10000 * e3)"
      by (simp_all only: limb) (simp add: q)
    then have 2: "unat n div 10000 mod 10000 = q1 mod 10000" "unat n div 10000 div 10000 = q2 + 10000 * e3"
      by (simp_all only: limb) (simp add: q)
    then have 3: "unat n div 10000 div 10000 mod 10000 = q2 mod 10000" "unat n div 10000 div 10000 div 10000 = q3"
      by (simp_all only: limb) (simp add: q)
    have "unat n div 100000000 = unat n div 10000 div 10000" "unat n div 1000000000000 = unat n div 10000 div 10000 div 10000"
      "unat n div 10000000000000000 = unat n div 10000 div 10000 div 10000 div 10000" by (simp_all only: div_mult2_eq [symmetric]) simp_all
    then have "unat n div 100000000 mod 10000 = q2 mod 10000" "unat n div 1000000000000 = q3"
      "unat n div 10000000000000000 = q3 div 10000" using 3 by simp_all
    then show ?thesis unfolding dig_limbs using 1(1) 2(1) by simp
  qed
  also have "\<dots> = map dchar (to_digits 10 (unat n))"
  proof -
    have "unat n < 2 ^ 64" using unsigned_less [of n] by simp
    then have "unat n < 10 ^ 20" by simp
    then show ?thesis by (simp add: dropWhile_dchar dig_range dig_to_digits)
  qed
  finally show ?thesis .
qed


text \<open>The digits of a number in a base, the most significant first, without leading zeros.\<close>

definition numeral_of :: "nat \<Rightarrow> nat \<Rightarrow> nat list \<Rightarrow> bool" where
  "numeral_of b n ds \<longleftrightarrow> foldl (\<lambda>a d. a * b + d) 0 ds = n \<and> list_all (\<lambda>d. d < b) ds \<and> take 1 ds \<noteq> [0]"

lemma numeral_of_to_digits: "1 < b \<Longrightarrow> numeral_of b n (to_digits b n)"
proof (induction b n rule: to_digits.induct)
  case (1 b n)
  show ?case
  proof (cases "n < b")
    case True
    then have "to_digits b n = (if n = 0 then [] else [n])" using 1 by (simp add: to_digits.simps [of b n])
    then show ?thesis using True by (simp add: numeral_of_def)
  next
    case False
    then have "0 < n div b" "0 < n" using 1 by (simp_all add: div_greater_zero_iff)
    moreover from this 1 have "numeral_of b (n div b) (to_digits b (n div b))" by simp
    moreover have "to_digits b (n div b) \<noteq> []" using to_digits_step [of "n div b" b] calculation 1 by simp
    ultimately show ?thesis using 1 by (cases "to_digits b (n div b)") (simp_all add: to_digits_step [of n] numeral_of_def)
  qed
qed

text \<open>C36: The digits of printed numbers. The conversion \<open>number\<close>, which finds decimal digits by multiplications and shifts
  of four limbs and never divides, gives for every \<open>64\<close>-bit number the digits of its representation in the base:
  their value is the number, each is below the base, and there is no leading zero (so the number \<open>0\<close> has no digits).
\<close>

theorem number_digits:
  "\<exists>ds es fs. numeral_of 10 (unat num) ds \<and> number num 10 l = Some (map (\<lambda>d. 48 + of_nat d) ds)
     \<and> numeral_of 8 (unat num) es \<and> number num 8 l = Some (map (\<lambda>d. 48 + of_nat d) es)
     \<and> numeral_of 16 (unat num) fs \<and> number num 16 l = Some (map (\<lambda>d. hex_digits ! d OR l) fs)"
  by (intro exI [of _ "to_digits 10 (unat num)"] exI [of _ "to_digits 8 (unat num)"] exI [of _ "to_digits 16 (unat num)"])
    (simp add: numeral_of_to_digits number_def put_dec_digits put_oct_digits put_hex_digits)

section \<open>The text\<close>

lemma puts_append [simp]: "puts (s @ t) b = puts t (puts s b)"
  by (induction s arbitrary: b) auto

lemma puts_buffer: "unat p + length s < 2 ^ 32 \<Longrightarrow> puts s (buf, p) =
    (take (unat p) buf @ take (length buf - unat p) s @ drop (unat p + length s) buf, p + of_nat (length s))"
proof (induction s arbitrary: buf p)
  case (Cons c s)
  have u: "unat (p + 1) = unat p + 1" using Cons.prems by (simp add: unat_word_ariths)
  show ?case
  proof (cases "unat p < length buf")
    case True
    then show ?thesis using Cons.IH [of "p + 1" "buf[unat p := c]"] Cons.prems u
      by (simp add: take_Suc_conv_app_nth drop_Cons' nth_list_update take_Cons' Suc_diff_Suc add.assoc)
  next
    case False
    then show ?thesis using Cons.IH [of "p + 1" buf] Cons.prems u by (simp add: add.assoc)
  qed
qed simp

text \<open>
  What a text leaves in a buffer when the position wraps round: in each place the last of its bytes that go there.
\<close>

definition laid :: "u8 list \<Rightarrow> u8 list \<Rightarrow> u8 list" where
  "laid t buf = map (\<lambda>i. if i < length t then t ! (i + (length t - 1 - i) div 2 ^ 32 * 2 ^ 32) else buf ! i) [0 ..< length buf]"

lemma length_laid [simp]: "length (laid t buf) = length buf"
  by (simp add: laid_def)

lemma turns_Suc: "i < n \<Longrightarrow> n mod M \<noteq> i \<Longrightarrow> i < M \<Longrightarrow> (n - i) div M = (n - 1 - i) div (M :: nat)"
proof -
  assume i: "i < n" "n mod M \<noteq> i" "i < M"
  have "(n - i) mod M \<noteq> 0"
  proof
    assume "(n - i) mod M = 0"
    then have "(n - i + i) mod M = i" using i(3) by (subst mod_add_left_eq [symmetric]) simp
    then show False using i(1,2) by simp
  qed
  then have "Suc (n - 1 - i) mod M \<noteq> 0" using i(1) by (simp add: Suc_diff_Suc)
  then show ?thesis using i(1) div_Suc [of "n - 1 - i" M] by (simp add: Suc_diff_Suc)
qed

lemma laid_snoc:
  assumes "length buf < 2 ^ 32"
  shows "laid (t @ [c]) buf = (if length t mod 2 ^ 32 < length buf then (laid t buf)[length t mod 2 ^ 32 := c] else laid t buf)"
proof -
  let ?M = "2 ^ 32 :: nat" and ?n = "length t"
  have "laid (t @ [c]) buf ! i = (if i = ?n mod ?M then c else laid t buf ! i)" if "i < length buf" for i
  proof (cases "i = ?n mod ?M")
    case True
    then have "i + (?n - i) div ?M * ?M = ?n" using minus_mod_eq_div_mult [of ?n ?M] mod_less_eq_dividend [of ?n ?M] by simp
    moreover have "i \<le> ?n" using True mod_less_eq_dividend by blast
    then have "i < Suc ?n" by simp
    ultimately show ?thesis using that True by (simp add: laid_def nth_append del: upt_Suc)
  next
    case False
    then have "i \<noteq> ?n" using that assms by auto
    show ?thesis
    proof (cases "i < ?n")
      case True
      have "(?n - i) div ?M = (?n - 1 - i) div ?M" using turns_Suc [OF True, of ?M] False that assms by simp
      moreover have "i + (?n - 1 - i) div ?M * ?M \<le> i + (?n - 1 - i)" by simp
      then have "i + (?n - 1 - i) div ?M * ?M < ?n" using True by linarith
      ultimately show ?thesis using that True False by (simp add: laid_def nth_append)
    qed (use that False \<open>i \<noteq> ?n\<close> in \<open>simp add: laid_def\<close>)
  qed
  then show ?thesis by (auto intro!: nth_equalityI simp: nth_list_update)
qed

lemma puts_laid: "length buf < 2 ^ 32 \<Longrightarrow> puts t (buf, 0) = (laid t buf, of_nat (length t))"
proof (induction t rule: rev_induct)
  case Nil
  then show ?case by (simp add: laid_def map_nth)
next
  case (snoc c t)
  have "unat (of_nat (length t) :: u32) = length t mod 2 ^ 32" by (simp add: unsigned_of_nat take_bit_eq_mod)
  then show ?case using snoc by (simp add: laid_snoc)
qed


lemma put_bytes_text: "\<exists>r. \<forall>b. put_bytes d sign s b = map_option (\<lambda>t. puts t b) r"
  by (rule exI [of _ "map_option (\<lambda>(before, after). before @ s @ after) (field (flags d) sign (width d) (precision d) (length s))"])
    (cases "field (flags d) sign (width d) (precision d) (length s)"; auto simp: put_bytes_def split_beta simp del: puts_append)

lemma put_number_text: "\<exists>r. \<forall>b. put_number c base d ap b = map_option (\<lambda>(s, ap). (puts s b, ap)) r"
proof -
  define r where "r = do {
     (num, ap) \<leftarrow> get_number (flags d AND SIGN \<noteq> 0) (if c = 112 then None else qualifier d) ap;
     (sign, num) \<leftarrow> get_sign num (flags d);
     s \<leftarrow> number num base (ucast (flags d AND SMALL));
     t \<leftarrow> (SOME t. \<forall>b. put_bytes (number_layout base sign (int (length s)) d) sign s b = map_option (\<lambda>t. puts t b) t);
     Some (t, ap) }"
  have *: "put_bytes e sign s b = map_option (\<lambda>t. puts t b) (SOME t. \<forall>b. put_bytes e sign s b = map_option (\<lambda>t. puts t b) t)" for e sign s b
    using someI_ex [OF put_bytes_text [of e sign s]] by blast
  have "put_number c base d ap b = map_option (\<lambda>(s, ap). (puts s b, ap)) r" for b
    unfolding put_number_def r_def by (subst *) (simp add: case_prod_unfold map_conv_bind_option comp_def)
  then show ?thesis by blast
qed

text \<open>A conversion whose output does not depend on the buffer.\<close>

definition textual :: "(out \<Rightarrow> ((out \<times> va list) option) option) \<Rightarrow> bool" where
  "textual f \<longleftrightarrow> (\<exists>r. \<forall>b. f b = map_option (map_option (\<lambda>(s, ap). (puts s b, ap))) r)"

lemma textual_narrow [simp]: "textual (\<lambda>b. map_option (\<lambda>b. Some (b, ap)) (put_bytes d sign s b))"
proof -
  obtain r where "\<And>b. put_bytes d sign s b = map_option (\<lambda>t. puts t b) r" using put_bytes_text by blast
  then show ?thesis unfolding textual_def
    by (intro exI [of _ "map_option (\<lambda>t. Some (t, ap)) r"]) (simp add: option.map_comp comp_def)
qed

lemma textual_None [simp]: "textual (\<lambda>b. None)"
  unfolding textual_def by (intro exI [of _ None]) simp

lemma textual_stop [simp]: "textual (\<lambda>b. Some None)"
  unfolding textual_def by (intro exI [of _ "Some None"]) simp

lemma textual_if [simp]: "textual f \<Longrightarrow> textual g \<Longrightarrow> textual (\<lambda>b. if P then f b else g b)"
  by (cases P) simp_all

lemma textual_number [simp]: "textual (\<lambda>b. map_option Some (put_number c base d ap b))"
proof -
  obtain r where "\<And>b. put_number c base d ap b = map_option (\<lambda>(s, ap). (puts s b, ap)) r"
    using put_number_text by blast
  then show ?thesis unfolding textual_def
    by (intro exI [of _ "map_option Some r"]) (simp add: split_beta option.map_comp comp_def)
qed










text \<open>The whole output of a format is a text put out into whatever buffer there is.\<close>

definition texts :: "(out \<Rightarrow> out option) \<Rightarrow> bool" where
  "texts f \<longleftrightarrow> (\<exists>r. \<forall>b. f b = map_option (\<lambda>s. puts s b) r)"

lemma texts_None [simp]: "texts (\<lambda>b. None)"
  unfolding texts_def by (intro exI [of _ None]) simp

lemma texts_Some [simp]: "texts Some"
  unfolding texts_def by (intro exI [of _ "Some []"]) simp




lemma vs_loop_char: "c \<noteq> 37 \<Longrightarrow> vs_loop (c # s) ap b = vs_loop s ap (putc c b)"
  by (simp add: vs_loop.simps [of "c # s"])


lemma vs_loop_directive: "s = [] \<or> hd s \<noteq> 37 \<Longrightarrow> vs_loop (37 # s) ap b =
    (case get_directive s ap of None \<Rightarrow> None | Some (d, s', ap) \<Rightarrow>
      (case s' of [] \<Rightarrow> Some b | k # t \<Rightarrow> (case convert k d ap b of None \<Rightarrow> None | Some None \<Rightarrow> Some b
        | Some (Some (b, ap)) \<Rightarrow> vs_loop t ap b)))"
  by (subst vs_loop.simps) auto



definition truncated :: "u8 list \<Rightarrow> u8 list \<Rightarrow> u8 list" where
  "truncated t buf = (if buf = [] then [] else
     take (length buf - 1) t @ [0] @ drop (Suc (length t)) buf)"

lemma terminate_truncated:
  assumes "buf \<noteq> []"
  shows "(take (length buf) t @ drop (length t) buf)[min (length t) (length buf - Suc 0) := 0] = truncated t buf"
proof (cases "length t < length buf")
  case True
  then have "drop (length t) buf = buf ! length t # drop (Suc (length t)) buf" by (simp add: Cons_nth_drop_Suc)
  then show ?thesis using True assms by (simp add: truncated_def list_update_append)
next
  case False
  then have "take (length buf) t = take (length buf - 1) t @ [t ! (length buf - 1)]" using assms
    by (metis Suc_diff_1 Suc_le_lessD length_greater_0_conv linorder_not_less take_Suc_conv_app_nth)
  then show ?thesis using False assms by (simp add: truncated_def list_update_append)
qed

definition stored :: "u8 list \<Rightarrow> u8 list \<Rightarrow> u8 list" where
  "stored t buf = (if buf = [] then [] else (laid t buf)[min (length t mod 2 ^ 32) (length buf - 1) := 0])"

lemma laid_once: "length t < 2 ^ 32 \<Longrightarrow> length buf < 2 ^ 32 \<Longrightarrow> laid t buf = take (length buf) t @ drop (length t) buf"
  using puts_laid [of buf t] puts_buffer [of 0 t buf] by simp

lemma stored_once: "length t < 2 ^ 32 \<Longrightarrow> length buf < 2 ^ 32 \<Longrightarrow> stored t buf = truncated t buf"
  using terminate_truncated [of buf t] by (auto simp: stored_def laid_once truncated_def)

lemma vsnprintf_stored:
  assumes "vs_loop fmt ap (buf, 0) = map_option (\<lambda>s. puts s (buf, 0)) r" "length buf < 2 ^ 32"
  shows "vsnprintf buf fmt ap = map_option (\<lambda>t. (sint (of_nat (length t) :: u32), stored t buf)) r"
proof -
  have "unat (of_nat n :: u32) = n mod 2 ^ 32" for n by (simp add: unsigned_of_nat take_bit_eq_mod)
  then show ?thesis using assms
    by (cases r; cases "buf = []") (simp_all add: vsnprintf_def puts_laid stored_def, auto simp: laid_def)
qed




section \<open>Strings in buffers\<close>

text \<open>The string in a buffer: its bytes before the first NUL, and a fault when there is none.\<close>

definition c_string :: "u8 list \<Rightarrow> u8 list option" where
  "c_string buf = (if 0 \<in> set buf then Some (takeWhile (\<lambda>c. c \<noteq> 0) buf) else None)"

lemma c_string_terminated: "0 \<notin> set s \<Longrightarrow> c_string (s @ 0 # r) = Some s"
  by (auto simp: c_string_def takeWhile_tail)

lemma vsnprintf_text:
  assumes "vs_loop fmt ap (stack, 0) = Some (puts t (stack, 0))" "length t < length stack" "length t < 2147483648"
  shows "vsnprintf stack fmt ap = Some (int (length t), t @ 0 # drop (Suc (length t)) stack)"
proof -
  have "unat (of_nat (length t) :: u32) = length t" using assms(3) by (intro unat_of_nat_small) simp
  moreover have "puts t (stack, 0) = (t @ drop (length t) stack, of_nat (length t))" using assms(2,3) by (simp add: puts_buffer)
  moreover have "(t @ drop (length t) stack)[length t := 0] = t @ 0 # drop (Suc (length t)) stack"
    using assms(2) by (subst list_update_append) (simp add: Cons_nth_drop_Suc [symmetric])
  ultimately show ?thesis using assms by (auto simp: vsnprintf_def sint_length)
qed

lemma print_plain: "37 \<notin> set s \<Longrightarrow> vs_loop s ap b = Some (puts s b)"
  by (induction s arbitrary: b) (auto simp: vs_loop_char vs_loop.simps [of "[]"])

section \<open>Formats and what they print\<close>

text \<open>The whole text of a format, whatever buffer it goes to; and a text the position can count.\<close>

definition writes :: "u8 list \<Rightarrow> va list \<Rightarrow> u8 list \<Rightarrow> bool" where
  "writes fmt ap t \<longleftrightarrow> (\<forall>b. vs_loop fmt ap b = Some (puts t b))"

definition prints :: "u8 list \<Rightarrow> va list \<Rightarrow> u8 list \<Rightarrow> bool" where
  "prints fmt ap t \<longleftrightarrow> length t < 2 ^ 32 \<and> writes fmt ap t"

text \<open>Decimal digits of at least the given width.\<close>

definition decimal :: "nat \<Rightarrow> nat \<Rightarrow> u8 list" where
  "decimal k n = replicate (k - length (to_digits 10 n)) 48 @ map dchar (to_digits 10 n)"

lemma to_digits_length: "n < 10 ^ k \<Longrightarrow> length (to_digits 10 n) \<le> k"
proof (induction k arbitrary: n)
  case (Suc k)
  then show ?case by (cases "n = 0") (auto simp: to_digits_step intro: Suc.IH)
qed simp

lemma digits_u32: "length (to_digits 10 (unat (w :: u32))) \<le> 10"
proof -
  have "unat w < 2 ^ LENGTH(32)" by (rule unsigned_less)
  then show ?thesis by (intro to_digits_length) simp
qed

text \<open>A field that its precision fills.\<close>

lemma field_filled: "fl AND LEFT = 0 \<Longrightarrow> fl AND SPECIAL = 0 \<Longrightarrow> fw \<le> prec \<Longrightarrow> prec - fw \<le> 2147483646 \<Longrightarrow>
    field fl 0 fw prec len = Some (replicate (nat (prec - int len)) 48, [])"
  by (simp add: field_def Let_def)

lemma writes_Nil: "writes [] ap []"
  by (simp add: writes_def vs_loop.simps [of "[]"])

lemma writes_char: "c \<noteq> 37 \<Longrightarrow> writes s ap t \<Longrightarrow> writes (c # s) ap (c # t)"
  by (simp add: writes_def vs_loop_char)

lemma writes_plain: "37 \<notin> set p \<Longrightarrow> writes s ap t \<Longrightarrow> writes (p @ s) ap (p @ t)"
  by (induction p) (auto intro: writes_char)

lemma writes_string: "length x < 2147483647 \<Longrightarrow> writes s ap t \<Longrightarrow> writes (37 # 115 # s) (Str (Some x) # ap) (x @ t)"
  by (simp add: writes_def vs_loop_directive get_directive_def get_int_def get_precision_def get_qualifier_def isdigit_def convert_def put_bytes_def
      field_def Let_def del: split_paired_All)

lemma number_10: "number n 10 l = Some (map dchar (to_digits 10 (unat n)))"
  by (simp add: number_def put_dec_digits)

lemma directive_u: "get_directive (117 # s) ap = Some (\<lparr>flags = 0, width = 0, precision = -1, qualifier = None\<rparr>, 117 # s, ap)"
  by (simp add: get_directive_def get_int_def get_precision_def get_qualifier_def isdigit_def)

lemma directive_06u: "get_directive (48 # 54 # 117 # s) ap = Some (\<lparr>flags = ZEROPAD, width = 6, precision = -1, qualifier = None\<rparr>, 117 # s, ap)"
  by (simp add: get_directive_def get_int_def get_precision_def get_qualifier_def isdigit_def)

lemma put_number_unsigned:
  assumes "flags e AND SIGN = 0" "qualifier e = None"
  shows "put_number 117 10 e (Word w # ap) b =
    map_option (\<lambda>b. (b, ap)) (put_bytes (number_layout 10 0 (int (length (to_digits 10 (unat w)))) e) 0 (map dchar (to_digits 10 (unat w))) b)"
proof -
  have "unat w < 2 ^ LENGTH(32)" by (rule unsigned_less)
  then have "unat (ucast w :: u64) = unat w" by (simp add: unsigned_ucast_eq take_bit_nat_eq_self)
  then show ?thesis using assms by (simp add: put_number_def get_number_def get_sign_def number_10 map_conv_bind_option comp_def)
qed

lemma writes_unsigned: "writes s ap t \<Longrightarrow> writes (37 # 117 # s) (Word w # ap) (decimal 1 (unat w) @ t)"
proof -
  have "number_layout 10 0 (int l) \<lparr>flags = 0, width = 0, precision = -1, qualifier = None\<rparr> =
      \<lparr>flags = 0, width = 0, precision = max 1 (int l), qualifier = None\<rparr>" for l by (simp add: number_layout_def)
  then have "convert 117 \<lparr>flags = 0, width = 0, precision = -1, qualifier = None\<rparr> (Word w # ap) b = Some (Some (puts (decimal 1 (unat w)) b, ap))" for b
    using digits_u32 [of w]
    by (simp add: convert_def number_base_def put_number_unsigned put_bytes_def field_filled decimal_def max_def nat_diff_distrib)
  then show "writes s ap t \<Longrightarrow> ?thesis" by (simp add: writes_def vs_loop_directive directive_u del: split_paired_All)
qed

lemma writes_padded: "writes s ap t \<Longrightarrow> writes (37 # 48 # 54 # 117 # s) (Word w # ap) (decimal 6 (unat w) @ t)"
proof -
  have "number_layout 10 0 (int l) \<lparr>flags = ZEROPAD, width = 6, precision = -1, qualifier = None\<rparr> =
      \<lparr>flags = ZEROPAD, width = 6, precision = max 6 (int l), qualifier = None\<rparr>" for l by (simp add: number_layout_def Let_def max_def)
  then have "convert 117 \<lparr>flags = ZEROPAD, width = 6, precision = -1, qualifier = None\<rparr> (Word w # ap) b = Some (Some (puts (decimal 6 (unat w)) b, ap))" for b
    using digits_u32 [of w]
    by (simp add: convert_def number_base_def put_number_unsigned put_bytes_def field_filled decimal_def max_def nat_diff_distrib del: One_nat_def)
  then show "writes s ap t \<Longrightarrow> ?thesis" by (simp add: writes_def vs_loop_directive directive_06u del: split_paired_All)
qed

lemma prints_buffer:
  assumes p: "prints fmt ap t" and b: "buf \<noteq> []" "length buf < 2 ^ 32" and t: "0 \<notin> set t"
  obtains n buf' where "vsnprintf buf fmt ap = Some (n, buf')" "c_string buf' = Some (take (length buf - 1) t)" "length buf' = length buf"
proof -
  have "vs_loop fmt ap (buf, 0) = map_option (\<lambda>s. puts s (buf, 0)) (Some t)" using p by (simp add: prints_def writes_def del: split_paired_All)
  then have "vsnprintf buf fmt ap = Some (sint (of_nat (length t) :: u32), truncated t buf)"
    using b p vsnprintf_stored [where r = "Some t"] by (simp add: stored_once prints_def)
  moreover have "c_string (truncated t buf) = Some (take (length buf - 1) t)"
    using c_string_terminated [of "take (length buf - 1) t"] t b by (auto simp: truncated_def dest: in_set_takeD)
  moreover have "length (truncated t buf) = length buf" using b by (simp add: truncated_def) (cases buf; simp)
  ultimately show thesis by (rule that)
qed

lemma to_digits_range: "1 < b \<Longrightarrow> d \<in> set (to_digits b n) \<Longrightarrow> d < b"
  using numeral_of_to_digits [of b n] by (auto simp: numeral_of_def list_all_iff)

lemma decimal_length: "n < 10 ^ 10 \<Longrightarrow> k \<le> 10 \<Longrightarrow> length (decimal k n) \<le> 10"
  using to_digits_length [of n 10] by (simp add: decimal_def)

lemma decimal_digits: "c \<in> set (decimal k n) \<Longrightarrow> 48 \<le> c \<and> c \<le> 57"
proof -
  have "48 \<le> dchar d \<and> dchar d \<le> 57" if "d < 10" for d :: nat
  proof -
    have "d \<in> {0, 1, 2, 3, 4, 5, 6, 7, 8, 9}" using that by auto
    then show ?thesis by auto
  qed
  moreover assume "c \<in> set (decimal k n)"
  ultimately show ?thesis using to_digits_range [of 10 _ n] by (auto simp: decimal_def)
qed

end
