(* ===== verification/Locks.thy ===== *)
theory Locks
  imports Prelude
begin

text \<open>
  Locks: the spin lock of \<^verbatim>\<open>lib/lock/spinlock.c\<close> as tasks execute it, one memory access after the other, in any
  interleaving, and the locked reference counts of \<^verbatim>\<open>lib/lockref.c\<close>.
\<close>

section \<open>The spin lock\<close>

text \<open>
  \<open>spinlock_t\<close> is a union: \<open>flag\<close> and \<open>owner\<close> are the same word (\<^verbatim>\<open>include/linux/spinlock_types.h\<close>). Tasks are
  named by their addresses.
\<close>

type_synonym spinlock = nat

definition spin_lock_init :: "spinlock \<Rightarrow> spinlock" where
  "spin_lock_init w = 0"

text \<open>\<open>try_atomic_set_flag\<close> runs with interrupts off (or under the hardware lock): it is one step. True is the result 0.\<close>

definition try_atomic_set_flag :: "nat \<Rightarrow> spinlock \<Rightarrow> bool \<times> spinlock" where
  "try_atomic_set_flag f w = (if w \<noteq> f then (True, f) else (False, w))"

text \<open>
  Where a task is: outside; at the head of the loop of \<open>_spin_lock\<close>; after setting the flag, about to store the owner;
  after finding the flag set, about to read the owner; returned from \<open>_spin_lock\<close>, holding the lock.
\<close>

datatype pc = Outside | Trying | Won | Lost | Holding

record locking =
  lock :: spinlock
  pcs :: "nat \<Rightarrow> pc"

text \<open>The next access of task \<open>t\<close>; a task outside calls \<open>spin_lock\<close>, one that holds the lock calls \<open>spin_unlock\<close>.\<close>

definition lock_step :: "nat \<Rightarrow> locking \<Rightarrow> locking" where
  "lock_step t s = (case pcs s t of
       Outside \<Rightarrow> s\<lparr>pcs := (pcs s)(t := Trying)\<rparr>
     | Trying \<Rightarrow> let (ok, w) = try_atomic_set_flag 1 (lock s) in
         s\<lparr>lock := w, pcs := (pcs s)(t := if ok then Won else Lost)\<rparr>
     | Won \<Rightarrow> s\<lparr>lock := t, pcs := (pcs s)(t := Holding)\<rparr>
     | Lost \<Rightarrow> s\<lparr>pcs := (pcs s)(t := if lock s = t then Holding else Trying)\<rparr>
     | Holding \<Rightarrow> s\<lparr>lock := snd (try_atomic_set_flag 0 (lock s)), pcs := (pcs s)(t := Outside)\<rparr>)"

text \<open>The runs from a lock just initialised: at each step the scheduler picks any task; 1 is the address of none.\<close>

inductive lock_run :: "nat list \<Rightarrow> locking \<Rightarrow> bool" where
  start: "lock_run [] \<lparr>lock = spin_lock_init w, pcs = \<lambda>_. Outside\<rparr>"
| step: "lock_run ts s \<Longrightarrow> t \<noteq> 1 \<Longrightarrow> lock_run (t # ts) (lock_step t s)"

inductive_cases lock_run_stepE: "lock_run (t # ts) s"

text \<open>The flag is 1 only while the task that set it has not stored itself over it.\<close>

lemma lock_flag_won: "lock_run ts s \<Longrightarrow> lock s = 1 \<Longrightarrow> \<exists>t. pcs s t = Won"
proof (induction rule: lock_run.induct)
  case (step ts s t)
  show ?case
  proof (cases "pcs s t = Trying \<and> lock s \<noteq> 1")
    case True
    then show ?thesis by (intro exI [of _ t]) (simp add: lock_step_def try_atomic_set_flag_def)
  next
    case False
    then have "lock s = 1" "pcs s t \<noteq> Won" using step.prems step.hyps
      by (cases "pcs s t"; simp add: lock_step_def try_atomic_set_flag_def split: if_splits)+
    moreover from this obtain u where "pcs s u = Won" using step.IH by blast
    ultimately have "u \<noteq> t" "pcs (lock_step t s) u = Won"
      by (auto simp: lock_step_def try_atomic_set_flag_def split: pc.splits)
    then show ?thesis by blast
  qed
qed (simp add: spin_lock_init_def)

text \<open>A task that runs alone gets the lock in three steps, whoever holds it.\<close>

lemma lock_alone:
  assumes "lock_run ts s" and "pcs s t = Outside" and "\<forall>u. pcs s u \<in> {Outside, Holding}" and "t \<noteq> 1"
  shows "lock_run (t # t # t # ts) \<lparr>lock = t, pcs = (pcs s)(t := Holding)\<rparr>"
proof -
  have "lock s \<noteq> 1" using lock_flag_won [OF assms(1)] assms(3) by (metis insertE empty_iff pc.distinct(3) pc.distinct(19) pc.distinct(17) pc.distinct(5) pc.distinct(15))
  then have "lock_step t (lock_step t (lock_step t s)) = \<lparr>lock = t, pcs = (pcs s)(t := Holding)\<rparr>"
    using assms(2) by (simp add: lock_step_def try_atomic_set_flag_def)
  then show ?thesis using assms(1,4) lock_run.step by metis
qed

lemma lock_all:
  "distinct us \<Longrightarrow> 1 \<notin> set us \<Longrightarrow> \<exists>ts s. lock_run ts s \<and> set ts \<subseteq> set us \<and> (\<forall>u. pcs s u = (if u \<in> set us then Holding else Outside))"
proof (induction us)
  case Nil
  then show ?case using lock_run.start by force
next
  case (Cons t us)
  then obtain ts s where s: "lock_run ts s" "set ts \<subseteq> set us" "\<forall>u. pcs s u = (if u \<in> set us then Holding else Outside)" by auto
  then have "lock_run (t # t # t # ts) \<lparr>lock = t, pcs = (pcs s)(t := Holding)\<rparr>" using Cons.prems by (intro lock_alone) auto
  moreover have "\<forall>u. pcs \<lparr>lock = t, pcs = (pcs s)(t := Holding)\<rparr> u = (if u \<in> set (t # us) then Holding else Outside)"
    using s(3) by simp
  ultimately show ?case using s(2) by (intro exI [of _ "t # t # t # ts"] exI conjI) (assumption, auto)
qed

text \<open>C11: What the spin lock does, at the granularity of single accesses. It does not exclude: any set of tasks can
  hold it all together, each calling \<open>spin_lock\<close> in turn and none of them unlocking, since storing the owner overwrites
  the flag. It does not block either: in every run, a task that tries finds the lock free unless another
  task is between setting the flag and storing itself as the owner.
\<close>

theorem spin_lock_excludes_nobody:
  "(\<forall>us. distinct us \<longrightarrow> 1 \<notin> set us \<longrightarrow> (\<exists>ts s. lock_run ts s \<and> (\<forall>t \<in> set us. pcs s t = Holding))) \<and>
   (\<forall>ts s t. lock_run ts s \<longrightarrow> pcs s t = Trying \<longrightarrow> (\<forall>u. pcs s u \<noteq> Won) \<longrightarrow> pcs (lock_step t s) t = Won)"
proof (intro conjI allI impI)
  fix us :: "nat list"
  assume "distinct us" "1 \<notin> set us"
  then show "\<exists>ts s. lock_run ts s \<and> (\<forall>t \<in> set us. pcs s t = Holding)" using lock_all [of us] by fastforce
next
  fix ts s t
  assume "lock_run ts s" "pcs s t = Trying" "\<forall>u. pcs s u \<noteq> Won"
  then show "pcs (lock_step t s) t = Won" using lock_flag_won [of ts s]
    by (auto simp: lock_step_def try_atomic_set_flag_def)
qed

text \<open>Two tasks hold the lock; the first step of a task that is alone.\<close>

theorem spin_lock_excludes_nobody_witness:
  "(\<exists>ts s. lock_run ts s \<and> pcs s 8192 = Holding \<and> pcs s 12288 = Holding) \<and>
   (\<exists>ts s. lock_run ts s \<and> pcs s 8192 = Trying \<and> pcs (lock_step 8192 s) 8192 = Won)"
proof
  show "\<exists>ts s. lock_run ts s \<and> pcs s 8192 = Holding \<and> pcs s 12288 = Holding"
    using conjunct1 [OF spin_lock_excludes_nobody, rule_format, of "[8192, 12288]"] by auto
  have r: "lock_run [8192] (lock_step 8192 \<lparr>lock = spin_lock_init 0, pcs = \<lambda>_. Outside\<rparr>)" (is "lock_run _ ?s")
    by (rule lock_run.step [OF lock_run.start]) simp
  have "pcs ?s 8192 = Trying" "\<forall>u. pcs ?s u \<noteq> Won" by (auto simp: lock_step_def)
  then show "\<exists>ts s. lock_run ts s \<and> pcs s 8192 = Trying \<and> pcs (lock_step 8192 s) 8192 = Won"
    using conjunct2 [OF spin_lock_excludes_nobody, rule_format, OF r, of 8192] r by blast
qed

section \<open>Locked reference counts\<close>

text \<open>
  The count is a C \<open>int\<close>; counting beyond its bounds is undefined. Every operation takes the lock first, so it is
  one step here. \<open>lockref_put_or_lock\<close> returns 1 with the lock still held.
\<close>

definition count_up :: "int \<Rightarrow> int option" where
  "count_up c = (if c = 2147483647 then None else Some (c + 1))"

definition count_down :: "int \<Rightarrow> int option" where
  "count_down c = (if c = - 2147483648 then None else Some (c - 1))"

definition lockref_get :: "int \<Rightarrow> int option" where
  "lockref_get c = count_up c"

definition lockref_put_return :: "int \<Rightarrow> (int \<times> int) option" where
  "lockref_put_return c = map_option (\<lambda>c. (c, c)) (count_down c)"

definition lockref_get_not_zero :: "int \<Rightarrow> (int \<times> int) option" where
  "lockref_get_not_zero c = (if c \<noteq> 0 then map_option (Pair 1) (count_up c) else Some (0, c))"

definition lockref_put_not_zero :: "int \<Rightarrow> (int \<times> int) option" where
  "lockref_put_not_zero c = (if c \<noteq> 0 then map_option (Pair 1) (count_down c) else Some (0, c))"

definition lockref_put_or_lock :: "int \<Rightarrow> (int \<times> int) option" where
  "lockref_put_or_lock c = map_option (\<lambda>c. (if c = 0 then 1 else 0, c)) (count_down c)"

definition lockref_mark_dead :: "int \<Rightarrow> int" where
  "lockref_mark_dead c = -1"

definition lockref_get_not_dead :: "int \<Rightarrow> (int \<times> int) option" where
  "lockref_get_not_dead c = (if c \<ge> 0 then map_option (Pair 1) (count_up c) else Some (0, c))"

text \<open>The last put of \<open>n\<close> references, and only that one, ends with the lock held.\<close>

fun puts_or_lock :: "nat \<Rightarrow> int \<Rightarrow> int list option" where
  "puts_or_lock 0 c = Some []"
| "puts_or_lock (Suc n) c = do { (r, c) \<leftarrow> lockref_put_or_lock c; rs \<leftarrow> puts_or_lock n c; Some (r # rs) }"

lemma puts_or_lock_last: "n < 2147483647 \<Longrightarrow> puts_or_lock (Suc n) (int (Suc n)) = Some (replicate n 0 @ [1])"
  by (induction n) (auto simp: lockref_put_or_lock_def count_down_def)

text \<open>A dead object stays dead for \<open>get_not_dead\<close>, but \<open>get_not_zero\<close> counts it up to zero.\<close>

lemma lockref_dead: "lockref_get_not_dead (lockref_mark_dead c) = Some (0, -1)"
  "lockref_get_not_zero (lockref_mark_dead c) = Some (1, 0)"
  by (simp_all add: lockref_get_not_dead_def lockref_get_not_zero_def lockref_mark_dead_def count_up_def)

end
