(* ===== verification/Irq.thy ===== *)
theory Irq
  imports Prelude "HOL-Library.Sublist"
begin

text \<open>
  The table of interrupt handlers, \<^verbatim>\<open>kernel/irq/irq.c\<close>: for each interrupt number a chain of actions linked both ways
  (\<open>secondary\<close> is the previous one), to which requests append and which the dispatcher runs through.

  \<open>supply\<close> is what the allocator returns, in order, 0 when it fails. A handler is a name; that it runs is recorded with
  its arguments. Handlers do not touch the table. The lock and the interrupt mask make each operation one step.
\<close>

record irqaction =
  handler :: nat
  dev_id :: nat
  next_act :: nat
  secondary :: nat
  irq :: nat
  act_flags :: nat
  act_name :: nat

record irq_state =
  IRQ_list :: "nat \<Rightarrow> nat"
  acts :: "nat \<Rightarrow> irqaction option"
  names :: "nat \<Rightarrow> u8 list option"
  supply_of :: "nat list"
  last_byte :: "nat \<Rightarrow> u8"

abbreviation (input) IRQS :: nat where "IRQS \<equiv> 52"

definition IRQ_int_router :: "irq_state \<Rightarrow> irq_state" where
  "IRQ_int_router t = t\<lparr>IRQ_list := \<lambda>_. 0\<rparr>"

definition irq_alloc :: "irq_state \<Rightarrow> nat \<times> irq_state" where
  "irq_alloc t = (case supply_of t of [] \<Rightarrow> (0, t) | a # as \<Rightarrow> (a, t\<lparr>supply_of := as\<rparr>))"

text \<open>The copy of the name has no terminating NUL: the byte after it is what the block held.\<close>

definition new_irq_create :: "u8 list \<Rightarrow> irq_state \<Rightarrow> (int + nat) \<times> irq_state" where
  "new_irq_create name t = (let (a, t) = irq_alloc t in
     if a = 0 then (Inl (- ENOMEM), t)
     else let (n, t) = irq_alloc t in
       if n = 0 then (Inl (- ENOMEM), t)
       else (Inr a, t\<lparr>names := (names t)(n \<mapsto> name @ [last_byte t n]),
         acts := (acts t)(a \<mapsto> \<lparr>handler = 0, dev_id = 0, next_act = 0, secondary = 0, irq = 0, act_flags = 0, act_name = n\<rparr>)\<rparr>))"

partial_function (option) last_action :: "(nat \<Rightarrow> irqaction option) \<Rightarrow> nat \<Rightarrow> nat option" where
  "last_action m i = do { a \<leftarrow> at m i; if next_act a = 0 then Some i else last_action m (next_act a) }"

text \<open>The table is indexed with whatever number was asked for.\<close>

definition add_irq_to_table :: "nat \<Rightarrow> irq_state \<Rightarrow> irq_state option" where
  "add_irq_to_table new t = do {
     a \<leftarrow> at (acts t) new;
     if irq a \<ge> IRQS then None
     else if IRQ_list t (irq a) = 0 then Some (t\<lparr>IRQ_list := (IRQ_list t)(irq a := new)\<rparr>)
     else do {
       i \<leftarrow> last_action (acts t) (IRQ_list t (irq a));
       m \<leftarrow> upd (acts t) new (\<lambda>a. a\<lparr>secondary := i\<rparr>);
       m \<leftarrow> upd m i (\<lambda>a. a\<lparr>next_act := new\<rparr>);
       Some (t\<lparr>acts := m\<rparr>) } }"

definition request_irq :: "nat \<Rightarrow> nat \<Rightarrow> nat \<Rightarrow> u8 list \<Rightarrow> nat \<Rightarrow> irq_state \<Rightarrow> (int \<times> irq_state) option" where
  "request_irq n h fl name dev t = (case new_irq_create name t of
       (Inl e, t) \<Rightarrow> Some (e, t)
     | (Inr a, t) \<Rightarrow> do {
         m \<leftarrow> upd (acts t) a (\<lambda>v. v\<lparr>irq := n, handler := h, act_flags := fl, dev_id := dev\<rparr>);
         t \<leftarrow> add_irq_to_table a (t\<lparr>acts := m\<rparr>);
         Some (0, t) })"

definition remove_irq :: "nat \<Rightarrow> irq_state \<Rightarrow> irq_state option" where
  "remove_irq x t = do {
     a \<leftarrow> at (acts t) x;
     if irq a \<ge> IRQS then None
     else if IRQ_list t (irq a) = 0 then Some t
     else if IRQ_list t (irq a) = x then Some (t\<lparr>IRQ_list := (IRQ_list t)(irq a := 0)\<rparr>)
     else do {
       m \<leftarrow> (if secondary a \<noteq> 0 then upd (acts t) (secondary a) (\<lambda>v. v\<lparr>next_act := next_act a\<rparr>) else Some (acts t));
       m \<leftarrow> (if next_act a \<noteq> 0 then upd m (next_act a) (\<lambda>v. v\<lparr>secondary := secondary a\<rparr>) else Some m);
       Some (t\<lparr>acts := m\<rparr>) } }"

text \<open>The calls of handlers with their arguments; their number is the result of the code.\<close>

partial_function (option) Run_IRQ_Fn :: "(nat \<Rightarrow> irqaction option) \<Rightarrow> nat \<Rightarrow> (nat \<times> nat \<times> nat) list option" where
  "Run_IRQ_Fn m i = (if i = 0 then Some [] else do {
     a \<leftarrow> at m i;
     cs \<leftarrow> Run_IRQ_Fn m (next_act a);
     Some ((handler a, irq a, dev_id a) # cs) })"

text \<open>The second component is whether the pending flag of an unregistered interrupt is cleared.\<close>

definition C_IRQ_Dispatcher :: "int \<Rightarrow> irq_state \<Rightarrow> ((nat \<times> nat \<times> nat) list \<times> bool) option" where
  "C_IRQ_Dispatcher n t =
     (if n \<ge> int IRQS then Some ([], False)
      else if n < 0 then None
      else do { cs \<leftarrow> Run_IRQ_Fn (acts t) (IRQ_list t (nat n)); Some (cs, cs = []) })"

section \<open>Chains\<close>

text \<open>The actions from \<open>i\<close> on, each linked back to the one before, and all for interrupt \<open>n\<close>.\<close>

fun act_chain :: "(nat \<Rightarrow> irqaction option) \<Rightarrow> nat \<Rightarrow> nat \<Rightarrow> nat \<Rightarrow> nat list \<Rightarrow> bool" where
  "act_chain m n p i [] \<longleftrightarrow> i = 0"
| "act_chain m n p i (x # xs) \<longleftrightarrow> i = x \<and> x \<noteq> 0 \<and> (case m x of None \<Rightarrow> False
     | Some a \<Rightarrow> irq a = n \<and> secondary a = p \<and> act_chain m n x (next_act a) xs)"

lemma act_chain_members: "act_chain m n p i xs \<Longrightarrow> x \<in> set xs \<Longrightarrow> 0 < x \<and> (\<exists>a. m x = Some a \<and> irq a = n)"
  by (induction xs arbitrary: p i) (auto split: option.splits)

lemma act_chain_frame: "act_chain m n p i xs \<Longrightarrow> (\<And>x. x \<in> set xs \<Longrightarrow> m' x = m x) \<Longrightarrow> act_chain m' n p i xs"
  by (induction xs arbitrary: p i) (auto split: option.splits)

lemma act_chain_run: "act_chain m n p i xs \<Longrightarrow>
  Run_IRQ_Fn m i = Some (map (\<lambda>x. (handler (the (m x)), n, dev_id (the (m x)))) xs)"
proof (induction xs arbitrary: p i)
  case (Cons x xs)
  then show ?case by (subst Run_IRQ_Fn.simps) (auto split: option.splits)
qed (simp add: Run_IRQ_Fn.simps)

lemma act_chain_last: "act_chain m n p i xs \<Longrightarrow> xs \<noteq> [] \<Longrightarrow> last_action m i = Some (last xs)"
proof (induction xs arbitrary: p i)
  case (Cons x xs)
  then show ?case by (subst last_action.simps) (cases xs, auto split: option.splits)
qed simp

lemma act_chain_append:
  assumes "act_chain m n p i xs" "xs \<noteq> []" "distinct xs" "new \<notin> set xs" "0 < new" "m new = Some a" "irq a = n" "next_act a = 0"
    and "m last_x = Some b"
  shows "last xs = last_x \<Longrightarrow> act_chain (m(new \<mapsto> a\<lparr>secondary := last_x\<rparr>, last_x \<mapsto> b\<lparr>next_act := new\<rparr>)) n p i (xs @ [new])"
  using assms(1-4)
proof (induction xs arbitrary: p i)
  case (Cons x xs)
  show ?case
  proof (cases "xs = []")
    case True
    then show ?thesis using Cons.prems assms(5-) by (auto split: option.splits)
  next
    case False
    then have "x \<noteq> last_x" using Cons.prems by auto
    then show ?thesis using Cons False by (auto split: option.splits)
  qed
qed simp

lemma act_chain_prev: "act_chain m n p i xs \<Longrightarrow> x \<in> set xs \<Longrightarrow> m x = Some a \<Longrightarrow> (secondary a = p \<and> i = x) \<or> secondary a \<in> set xs"
proof (induction xs arbitrary: p i)
  case (Cons y xs)
  then obtain v where y: "m y = Some v" "secondary v = p" "act_chain m n y (next_act v) xs" "i = y" by (auto split: option.splits)
  show ?case
  proof (cases "x = y")
    case False
    then show ?thesis using Cons.IH [OF y(3)] Cons.prems by auto
  qed (use y Cons.prems in auto)
qed simp

lemma act_chain_next: "act_chain m n p i xs \<Longrightarrow> x \<in> set xs \<Longrightarrow> m x = Some a \<Longrightarrow> next_act a = 0 \<or> next_act a \<in> set xs"
proof (induction xs arbitrary: p i)
  case (Cons y xs)
  then show ?case by (cases xs) (auto split: option.splits)
qed simp

text \<open>Taking out a member that is not the first.\<close>

lemma act_chain_remove:
  assumes "act_chain m n p i xs" "distinct xs" "x \<in> set xs" "i \<noteq> x" "m x = Some a" "m (secondary a) = Some b"
    and "m' = m(secondary a \<mapsto> b\<lparr>next_act := next_act a\<rparr>)"
    and "next_act a = 0 \<and> m'' = m' \<or>
      next_act a \<noteq> 0 \<and> (\<exists>c. m' (next_act a) = Some c \<and> m'' = m'(next_act a \<mapsto> c\<lparr>secondary := secondary a\<rparr>))"
  shows "act_chain m'' n p i (remove1 x xs)"
  using assms(1-4)
proof (induction xs arbitrary: p i)
  case (Cons y xs)
  obtain v where y: "m y = Some v" "irq v = n" "secondary v = p" "act_chain m n y (next_act v) xs" "y \<noteq> 0" "i = y"
    using Cons.prems(1) by (auto split: option.splits)
  show ?case
  proof (cases "next_act v = x")
    case True
    then obtain xs' where xs: "xs = x # xs'" using y Cons.prems by (cases xs) (auto split: option.splits)
    then have a: "irq a = n" "secondary a = y" "act_chain m n x (next_act a) xs'" using y(4) assms(5) by auto
    have b: "b = v" "m' = m(y \<mapsto> v\<lparr>next_act := next_act a\<rparr>)" using a(2) y(1) assms(6,7) by auto
    have r: "remove1 x (y # xs) = y # xs'" using xs Cons.prems(2) by auto
    show ?thesis
    proof (cases xs')
      case Nil
      then have "m'' = m'" using a(3) assms(8) by auto
      then show ?thesis unfolding r using y a Nil b by simp
    next
      case (Cons z zs)
      obtain c where c: "next_act a = z" "z \<noteq> 0" "m z = Some c" "irq c = n" "act_chain m n z (next_act c) zs"
        using a(3) Cons by (auto split: option.splits)
      have d: "z \<noteq> y" "y \<notin> set zs" "z \<notin> set zs" using Cons.prems(2) xs Cons by auto
      then have m: "m'' = m'(z \<mapsto> c\<lparr>secondary := y\<rparr>)" using assms(8) c a(2) b by auto
      have "act_chain m'' n z (next_act c) zs" by (rule act_chain_frame [OF c(5)]) (use d in \<open>auto simp: m b\<close>)
      moreover have "m'' y = Some (v\<lparr>next_act := z\<rparr>)" "m'' z = Some (c\<lparr>secondary := y\<rparr>)" using d by (simp_all add: m b c(1))
      ultimately show ?thesis unfolding r Cons using y c by simp
    qed
  next
    case False
    have x: "x \<in> set xs" "x \<noteq> y" using Cons.prems y(6) by auto
    have "secondary a \<noteq> y" using act_chain_prev [OF y(4) x(1) assms(5)] False Cons.prems(2) by auto
    moreover have "next_act a \<noteq> y" using act_chain_next [OF y(4) x(1) assms(5)] Cons.prems(2) y(5) by auto
    ultimately have "m'' y = Some v" using assms(7,8) y(1) by auto
    then show ?thesis using Cons.IH [OF y(4)] False x Cons.prems(2) y by simp
  qed
qed simp

section \<open>The table as lists\<close>

text \<open>What the table is for: for each interrupt the actions asked for, in order, as address, handler and device.\<close>

type_synonym irq_lists = "nat \<Rightarrow> (nat \<times> nat \<times> nat) list"

definition irq_rel :: "irq_state \<Rightarrow> irq_lists \<Rightarrow> bool" where
  "irq_rel t A \<longleftrightarrow>
     (\<forall>n < IRQS. act_chain (acts t) n 0 (IRQ_list t n) (map fst (A n)) \<and> distinct (map fst (A n)) \<and>
        (\<forall>(x, h, d) \<in> set (A n). map_option (\<lambda>a. (handler a, dev_id a)) (acts t x) = Some (h, d))) \<and>
     distinct (filter (\<lambda>a. a \<noteq> 0) (supply_of t)) \<and> (\<forall>a \<in> set (supply_of t). a \<noteq> 0 \<longrightarrow> acts t a = None)"

lemma irq_rel_pay: "irq_rel t A \<Longrightarrow> k < IRQS \<Longrightarrow> (x, h, d) \<in> set (A k) \<Longrightarrow>
  map_option (\<lambda>a. (handler a, dev_id a)) (acts t x) = Some (h, d)"
  by (auto simp: irq_rel_def)

lemma irq_rel_router: "distinct (filter (\<lambda>a. a \<noteq> 0) (supply_of t)) \<Longrightarrow> (\<forall>a \<in> set (supply_of t). a \<noteq> 0 \<longrightarrow> acts t a = None) \<Longrightarrow>
  irq_rel (IRQ_int_router t) (\<lambda>_. [])"
  by (simp add: irq_rel_def IRQ_int_router_def)

lemma irq_rel_dispatch:
  assumes "irq_rel t A" "n < IRQS"
  shows "C_IRQ_Dispatcher (int n) t = Some (map (\<lambda>(x, h, d). (h, n, d)) (A n), A n = [])"
proof -
  have c: "act_chain (acts t) n 0 (IRQ_list t n) (map fst (A n))"
    and p: "\<And>x h d. (x, h, d) \<in> set (A n) \<Longrightarrow> map_option (\<lambda>a. (handler a, dev_id a)) (acts t x) = Some (h, d)"
    using assms by (auto simp: irq_rel_def)
  have "map (\<lambda>x. (handler (the (acts t x)), n, dev_id (the (acts t x)))) (map fst (A n)) = map (\<lambda>(x, h, d). (h, n, d)) (A n)"
    using p by (fastforce simp: case_prod_unfold)
  then show ?thesis using act_chain_run [OF c] assms(2) by (simp add: C_IRQ_Dispatcher_def)
qed

lemma map_fst_filter: "distinct (map fst xs) \<Longrightarrow> map fst (filter (\<lambda>e. fst e \<noteq> x) xs) = remove1 x (map fst xs)"
proof (induction xs)
  case (Cons e xs)
  then show ?case by (cases "fst e = x") (auto simp: remove1_idem)
qed simp

lemma irq_rel_update:
  assumes r: "irq_rel t A"
    and frame: "\<And>y a. acts t y = Some a \<Longrightarrow> irq a \<noteq> n \<Longrightarrow> m y = Some a" "\<And>k. k \<noteq> n \<Longrightarrow> L k = IRQ_list t k"
    and new: "act_chain m n 0 (L n) (map fst B)" "distinct (map fst B)"
      "\<And>x h d. (x, h, d) \<in> set B \<Longrightarrow> map_option (\<lambda>a. (handler a, dev_id a)) (m x) = Some (h, d)"
    and spare: "distinct (filter (\<lambda>a. a \<noteq> 0) s)" "\<And>a. a \<in> set s \<Longrightarrow> a \<noteq> 0 \<Longrightarrow> m a = None"
  shows "irq_rel (t\<lparr>IRQ_list := L, acts := m, names := nm, supply_of := s\<rparr>) (A(n := B))"
proof -
  have "act_chain m k 0 (L k) (map fst (A k)) \<and> (\<forall>(x, h, d) \<in> set (A k). map_option (\<lambda>a. (handler a, dev_id a)) (m x) = Some (h, d))"
    if "k \<noteq> n" "k < IRQS" for k
  proof -
    have c: "act_chain (acts t) k 0 (IRQ_list t k) (map fst (A k))" using r that by (simp add: irq_rel_def)
    have e: "m x = acts t x" if "x \<in> set (map fst (A k))" for x
      using act_chain_members [OF c that] frame(1) [of x] \<open>k \<noteq> n\<close> by auto
    have "act_chain m k 0 (L k) (map fst (A k))" using act_chain_frame [OF c e] frame(2) that by simp
    moreover have "map_option (\<lambda>a. (handler a, dev_id a)) (m x) = Some (h, d)" if "(x, h, d) \<in> set (A k)" for x h d
    proof -
      have "x \<in> set (map fst (A k))" using that by force
      then show ?thesis using irq_rel_pay [OF r \<open>k < IRQS\<close> that] by (simp only: e)
    qed
    ultimately show ?thesis by auto
  qed
  moreover have "distinct (map fst (A k))" if "k < IRQS" for k using r that by (simp add: irq_rel_def)
  ultimately have "act_chain m k 0 (L k) (map fst ((A(n := B)) k)) \<and> distinct (map fst ((A(n := B)) k)) \<and>
      (\<forall>(x, h, d) \<in> set ((A(n := B)) k). map_option (\<lambda>a. (handler a, dev_id a)) (m x) = Some (h, d))" if "k < IRQS" for k
    using that new by (cases "k = n") auto
  then show ?thesis using spare unfolding irq_rel_def by simp
qed

lemma irq_rel_remove:
  assumes r: "irq_rel t A" and n: "n < IRQS" and x: "x \<in> fst ` set (A n)"
  shows "\<exists>t'. remove_irq x t = Some t' \<and>
    irq_rel t' (A(n := if x = fst (hd (A n)) then [] else filter (\<lambda>e. fst e \<noteq> x) (A n)))"
proof -
  have c: "act_chain (acts t) n 0 (IRQ_list t n) (map fst (A n))" and d: "distinct (map fst (A n))" and x': "x \<in> set (map fst (A n))"
    using r n x by (auto simp: irq_rel_def)
  obtain a where a: "0 < x" "acts t x = Some a" "irq a = n" using act_chain_members [OF c x'] by auto
  have hd: "IRQ_list t n = fst (hd (A n))" "IRQ_list t n \<noteq> 0" using c x' by (cases "A n"; auto split: option.splits)+
  show ?thesis
  proof (cases "x = fst (hd (A n))")
    case True
    then have "remove_irq x t = Some (t\<lparr>IRQ_list := (IRQ_list t)(n := 0)\<rparr>)" using a hd n by (simp add: remove_irq_def)
    moreover have "irq_rel (t\<lparr>IRQ_list := (IRQ_list t)(n := 0)\<rparr>) (A(n := []))" using r by (auto simp: irq_rel_def)
    ultimately show ?thesis using True by simp
  next
    case False
    then have ih: "IRQ_list t n \<noteq> x" using hd by simp
    have "secondary a \<in> set (map fst (A n))" using act_chain_prev [OF c x' a(2)] ih by simp
    then obtain b where b: "0 < secondary a" "acts t (secondary a) = Some b" using act_chain_members [OF c] by blast
    define m' where "m' = (acts t)(secondary a \<mapsto> b\<lparr>next_act := next_act a\<rparr>)"
    have "next_act a = 0 \<or> 0 < next_act a \<and> (\<exists>c. m' (next_act a) = Some c)"
      using act_chain_next [OF c x' a(2)] act_chain_members [OF c, of "next_act a"] by (auto simp: m'_def)
    then obtain m'' where m'': "(if next_act a \<noteq> 0 then upd m' (next_act a) (\<lambda>v. v\<lparr>secondary := secondary a\<rparr>) else Some m') = Some m''"
      by (cases "next_act a = 0") auto
    then have m''_eq: "next_act a = 0 \<and> m'' = m' \<or>
        next_act a \<noteq> 0 \<and> (\<exists>c. m' (next_act a) = Some c \<and> m'' = m'(next_act a \<mapsto> c\<lparr>secondary := secondary a\<rparr>))"
      by (auto simp: upd_Some split: if_splits)
    have run: "remove_irq x t = Some (t\<lparr>acts := m''\<rparr>)" using a hd n ih b m'' by (simp add: remove_irq_def m'_def cong: if_cong)
    have pay: "map_option (\<lambda>a. (handler a, dev_id a)) (m'' y) = map_option (\<lambda>a. (handler a, dev_id a)) (acts t y)" for y
      using m''_eq b by (auto simp: m'_def)
    have "irq b = n" "\<And>c. next_act a \<noteq> 0 \<Longrightarrow> acts t (next_act a) = Some c \<Longrightarrow> irq c = n"
      using act_chain_prev [OF c x' a(2)] ih act_chain_next [OF c x' a(2)] act_chain_members [OF c] b by force+
    then have frame: "m'' y = Some v" if "acts t y = Some v" "irq v \<noteq> n" for y v
      using m''_eq that b by (auto simp: m'_def split: if_splits)
    let ?B = "filter (\<lambda>e. fst e \<noteq> x) (A n)"
    have f: "map fst ?B = remove1 x (map fst (A n))" by (rule map_fst_filter [OF d])
    have "act_chain m'' n 0 (IRQ_list t n) (map fst ?B)" unfolding f
      by (rule act_chain_remove [OF c d x' ih a(2) b(2) m'_def m''_eq])
    moreover have "distinct (map fst ?B)" using d by (simp add: distinct_map_filter)
    ultimately have "irq_rel (t\<lparr>IRQ_list := IRQ_list t, acts := m'', names := names t, supply_of := supply_of t\<rparr>) (A(n := ?B))"
    proof (intro irq_rel_update [OF r])
      fix y h d assume "(y, h, d) \<in> set ?B"
      then show "map_option (\<lambda>a. (handler a, dev_id a)) (m'' y) = Some (h, d)" unfolding pay using r n by (auto simp: irq_rel_def)
    next
      fix y assume "y \<in> set (supply_of t)" "y \<noteq> 0"
      then have "acts t y = None" using r by (auto simp: irq_rel_def)
      then show "m'' y = None" using pay [of y] by simp
    qed (use r frame in \<open>auto simp: irq_rel_def\<close>)
    then show ?thesis using run False by simp
  qed
qed

text \<open>A request with memory for the action and its name; \<open>v\<close> is the action it makes.\<close>

lemma irq_rel_add:
  assumes r: "irq_rel t A" and n: "n < IRQS" and s: "supply_of t = a # b # rest" "a \<noteq> 0"
    and v: "irq v = n" "next_act v = 0" "secondary v = 0"
  shows "\<exists>t'. add_irq_to_table a (t\<lparr>acts := (acts t)(a \<mapsto> v), names := nm, supply_of := rest\<rparr>) = Some t' \<and>
    irq_rel t' (A(n := A n @ [(a, handler v, dev_id v)]))"
proof -
  define m where "m = (acts t)(a \<mapsto> v)"
  have fresh: "acts t a = None" using r s by (auto simp: irq_rel_def)
  have c0: "act_chain (acts t) n 0 (IRQ_list t n) (map fst (A n))" and d: "distinct (map fst (A n))" using r n by (auto simp: irq_rel_def)
  have out: "a \<notin> set (map fst (A n))" using act_chain_members [OF c0, of a] fresh by auto
  have c: "act_chain m n 0 (IRQ_list t n) (map fst (A n))" by (rule act_chain_frame [OF c0]) (use out in \<open>auto simp: m_def\<close>)
  let ?B = "A n @ [(a, handler v, dev_id v)]"
  have dB: "distinct (map fst ?B)" using d out by simp
  have rest: "distinct (filter (\<lambda>a. a \<noteq> 0) rest)" "\<And>x. x \<in> set rest \<Longrightarrow> x \<noteq> 0 \<Longrightarrow> acts t x = None \<and> x \<noteq> a"
    using r s by (auto simp: irq_rel_def split: if_splits)
  show ?thesis
  proof (cases "A n = []")
    case True
    then have "IRQ_list t n = 0" using c by simp
    then have "add_irq_to_table a (t\<lparr>acts := m, names := nm, supply_of := rest\<rparr>)
        = Some (t\<lparr>IRQ_list := (IRQ_list t)(n := a), acts := m, names := nm, supply_of := rest\<rparr>)"
      using s v n by (simp add: add_irq_to_table_def m_def)
    moreover have "irq_rel (t\<lparr>IRQ_list := (IRQ_list t)(n := a), acts := m, names := nm, supply_of := rest\<rparr>) (A(n := ?B))"
      by (rule irq_rel_update [OF r]) (use fresh True s v dB rest in \<open>auto simp: m_def split: if_splits\<close>)
    ultimately show ?thesis unfolding m_def by blast
  next
    case False
    define i where "i = last (map fst (A n))"
    have i: "i \<in> set (map fst (A n))" using False unfolding i_def by (intro last_in_set) simp
    then obtain w where w: "0 < i" "m i = Some w" "irq w = n" using act_chain_members [OF c] by blast
    have l: "last_action m (IRQ_list t n) = Some i" using act_chain_last [OF c] False by (simp add: i_def)
    define m' where "m' = m(a \<mapsto> v\<lparr>secondary := i\<rparr>, i \<mapsto> w\<lparr>next_act := a\<rparr>)"
    have m_a: "m a = Some v" by (simp add: m_def)
    have ia: "i \<noteq> a" using i out by metis
    have "IRQ_list t n \<noteq> 0" using c False by (cases "A n") (auto split: option.splits)
    then have "add_irq_to_table a (t\<lparr>acts := m, names := nm, supply_of := rest\<rparr>)
        = Some (t\<lparr>IRQ_list := IRQ_list t, acts := m', names := nm, supply_of := rest\<rparr>)"
      using s v n l w ia by (simp add: add_irq_to_table_def m'_def) (simp add: m_def)
    moreover have "irq_rel (t\<lparr>IRQ_list := IRQ_list t, acts := m', names := nm, supply_of := rest\<rparr>) (A(n := ?B))"
    proof (rule irq_rel_update [OF r])
      show "act_chain m' n 0 (IRQ_list t n) (map fst ?B)"
        using act_chain_append [OF c _ d out _ _ v(1,2) w(2)] s False by (simp add: m'_def i_def m_a)
      fix x h d
      assume "(x, h, d) \<in> set ?B"
      then show "map_option (\<lambda>a. (handler a, dev_id a)) (m' x) = Some (h, d)"
      proof (cases "x = a")
        case True
        then have "h = handler v" "d = dev_id v" using \<open>(x, h, d) \<in> set ?B\<close> out by force+
        then show ?thesis using True ia by (simp add: m'_def)
      next
        case False
        then show ?thesis using \<open>(x, h, d) \<in> set ?B\<close> irq_rel_pay [OF r n, of x h d] w(2) by (auto simp: m'_def m_def)
      qed
    qed (use dB rest fresh w v i in \<open>auto simp: m'_def m_def split: if_splits\<close>)
    ultimately show ?thesis unfolding m_def by blast
  qed
qed

lemma irq_rel_supply: "irq_rel t A \<Longrightarrow> suffix s (supply_of t) \<Longrightarrow> irq_rel (t\<lparr>supply_of := s\<rparr>) A"
  by (auto simp: irq_rel_def suffix_def)

lemma irq_rel_request:
  assumes r: "irq_rel t A" and n: "n < IRQS"
  shows "\<exists>e t'. request_irq n h fl nm dev t = Some (e, t') \<and>
    (if 0 \<in> set (take 2 (supply_of t @ [0, 0])) then e = - ENOMEM \<and> irq_rel t' A
     else e = 0 \<and> irq_rel t' (A(n := A n @ [(hd (supply_of t), h, dev)])))"
proof (cases "0 \<in> set (take 2 (supply_of t @ [0, 0]))")
  case False
  then obtain a b rest where s: "supply_of t = a # b # rest" "a \<noteq> 0" "b \<noteq> 0"
    by (cases "supply_of t"; cases "tl (supply_of t)") auto
  define v where "v = \<lparr>handler = h, dev_id = dev, next_act = 0, secondary = 0, irq = n, act_flags = fl, act_name = b\<rparr>"
  let ?t = "t\<lparr>acts := (acts t)(a \<mapsto> v), names := (names t)(b \<mapsto> nm @ [last_byte t b]), supply_of := rest\<rparr>"
  obtain t' where t': "add_irq_to_table a ?t = Some t'" "irq_rel t' (A(n := A n @ [(a, h, dev)]))"
    using irq_rel_add [OF r n s(1,2), of v] by (auto simp: v_def)
  have "?t = t\<lparr>supply_of := rest, names := (names t)(b \<mapsto> nm @ [last_byte t b]), acts := (acts t)(a \<mapsto> v)\<rparr>"
    by (cases t) simp
  note t'1 = t'(1) [unfolded this]
  have "request_irq n h fl nm dev t = Some (0, t')"
    using s t'1 by (simp add: request_irq_def new_irq_create_def irq_alloc_def v_def)
  then show ?thesis using False t'(2) s by simp
next
  case True
  have "\<exists>s. suffix s (supply_of t) \<and> request_irq n h fl nm dev t = Some (- ENOMEM, t\<lparr>supply_of := s\<rparr>)"
  proof (cases "supply_of t = [] \<or> hd (supply_of t) = 0")
    case T: True
    then show ?thesis by (intro exI [of _ "tl (supply_of t)"])
        (cases "supply_of t"; simp add: request_irq_def new_irq_create_def irq_alloc_def suffix_def)
  next
    case F: False
    then obtain a s where "supply_of t = a # s" "a \<noteq> 0" "s = [] \<or> hd s = 0" using True by (cases "supply_of t"; cases "tl (supply_of t)") auto
    then show ?thesis by (intro exI [of _ "tl s"])
        (cases s; simp add: request_irq_def new_irq_create_def irq_alloc_def suffix_def)
  qed
  then show ?thesis using irq_rel_supply [OF r] True by auto
qed

text \<open>C14: The interrupt table keeps, for each interrupt, the actions asked for, in the order of the requests. A request
  appends one, or fails with \<open>-ENOMEM\<close> and changes nothing; the dispatcher runs exactly the handlers of the
  interrupt, in this order, each with its own device, and clears the pending flag when there is none; removing an action that is not
  the first of its interrupt removes that one. Removing the first one removes all actions of the interrupt.
\<close>

theorem irq_table_refines:
  assumes "irq_rel t A" and "n < 52"
  shows "(\<exists>e t'. request_irq n h fl nm dev t = Some (e, t') \<and>
      (if 0 \<in> set (take 2 (supply_of t @ [0, 0])) then e = - 12 \<and> irq_rel t' A
       else e = 0 \<and> irq_rel t' (A(n := A n @ [(hd (supply_of t), h, dev)])))) \<and>
    C_IRQ_Dispatcher (int n) t = Some (map (\<lambda>(x, h, d). (h, n, d)) (A n), A n = []) \<and>
    (\<forall>x \<in> fst ` set (A n). \<exists>t'. remove_irq x t = Some t' \<and>
      irq_rel t' (A(n := if x = fst (hd (A n)) then [] else filter (\<lambda>e. fst e \<noteq> x) (A n))))"
  using irq_rel_request [OF assms] irq_rel_dispatch [OF assms] irq_rel_remove [OF assms] by simp

text \<open>Three requests for interrupt 7 are run in order; then the second one is removed.\<close>

definition irq_boot :: irq_state where
  "irq_boot = IRQ_int_router \<lparr>IRQ_list = \<lambda>_. 5, acts = \<lambda>_. None, names = \<lambda>_. None,
     supply_of = [16, 32, 48, 64, 80, 96], last_byte = \<lambda>_. 0\<rparr>"

theorem irq_table_refines_witness:
  "\<exists>t. request_irq 7 100 0 [97] 1 irq_boot = Some (0, t) \<and> C_IRQ_Dispatcher 7 t = Some ([(100, 7, 1)], False)"
proof -
  have r: "irq_rel irq_boot (\<lambda>_. [])" unfolding irq_boot_def by (rule irq_rel_router) auto
  obtain t where t: "request_irq 7 100 0 [97] 1 irq_boot = Some (0, t)" "irq_rel t ((\<lambda>_. [])(7 := [(16, 100, 1)]))"
    using irq_table_refines [OF r, of 7 100 0 "[97]" 1] by (auto simp: irq_boot_def IRQ_int_router_def)
  then show ?thesis using irq_table_refines [OF t(2), of 7] by auto
qed

end
