(* ===== verification/Ini.thy ===== *)
theory Ini
  imports Prelude
begin

text \<open>
  The scanner of configuration files, \<^verbatim>\<open>lib/script/kini.c\<close>.

  A text is its bytes before the NUL, and a pointer into it an offset. Reading at an offset beyond the NUL is a
  fault (the outer \<open>None\<close>); the inner \<open>None\<close> is the pointer NULL. Buffers are given by their
  size: writing more bytes than that, the NUL included, is a fault.
\<close>

section \<open>Characters and words\<close>

definition ch :: "u8 list \<Rightarrow> nat \<Rightarrow> u8 option" where
  "ch t i = (if i < length t then Some (t ! i) else if i = length t then Some 0 else None)"

function goto_next_char :: "u8 list \<Rightarrow> nat \<Rightarrow> u8 \<Rightarrow> u8 \<Rightarrow> nat option option" where
  "goto_next_char t i c limit = (case ch t i of None \<Rightarrow> None | Some x \<Rightarrow>
     if x = 0 then Some None
     else if x = limit then Some (Some i)
     else if x = c then Some (Some i)
     else goto_next_char t (i + 1) c limit)"
  by pat_completeness auto
termination
  by (relation "measure (\<lambda>(t, i, _). length t - i)") (auto simp: ch_def split: if_splits)

definition is_word_start :: "u8 \<Rightarrow> bool" where
  "is_word_start x \<longleftrightarrow> (48 \<le> x \<and> x \<le> 57) \<or> (97 \<le> x \<and> x \<le> 122) \<or> (65 \<le> x \<and> x \<le> 90) \<or> x = 95 \<or> x = 34 \<or> x = 47"

function goto_next_string :: "u8 list \<Rightarrow> nat \<Rightarrow> u8 \<Rightarrow> nat option option" where
  "goto_next_string t i limit = (case ch t i of None \<Rightarrow> None | Some x \<Rightarrow>
     if x = 0 then Some None
     else if x = limit then Some None
     else if is_word_start x then Some (Some i)
     else goto_next_string t (i + 1) limit)"
  by pat_completeness auto
termination
  by (relation "measure (\<lambda>(t, i, _). length t - i)") (auto simp: ch_def split: if_splits)

declare goto_next_char.simps [simp del] goto_next_string.simps [simp del]

text \<open>The bytes of a word: letters, digits, and the signs up to the slash and from the semicolon to the at sign.\<close>

definition is_word_char :: "u8 \<Rightarrow> bool" where
  "is_word_char x \<longleftrightarrow> (48 \<le> x \<and> x \<le> 57) \<or> (97 \<le> x \<and> x \<le> 122) \<or> (65 \<le> x \<and> x \<le> 90) \<or>
     (33 < x \<and> x \<le> 47) \<or> (58 < x \<and> x \<le> 64) \<or> x = 95"

text \<open>The word, and how far the scan goes on: past both quotes of a quoted word, though the second one may not be there.\<close>

definition copy_string_data :: "nat \<Rightarrow> u8 list \<Rightarrow> nat \<Rightarrow> (u8 list \<times> nat) option" where
  "copy_string_data cap t i = (case ch t i of None \<Rightarrow> None | Some x \<Rightarrow>
     if x = 34 then
       let w = takeWhile (\<lambda>x. x \<noteq> 0 \<and> x \<noteq> 10 \<and> x \<noteq> 34) (drop (i + 1) t) in
       if length w + 1 > cap then None else Some (w, length w + 2)
     else
       let w = takeWhile is_word_char (drop i t) in
       if length w + 1 > cap then None else Some (w, length w))"

section \<open>Heads, keys and values\<close>

definition get_next_head :: "u8 list \<Rightarrow> nat \<Rightarrow> (nat \<times> u8 list) option option" where
  "get_next_head t i = do {
     p \<leftarrow> goto_next_char t i 91 93;
     case p of None \<Rightarrow> Some None | Some i \<Rightarrow> do {
       p \<leftarrow> goto_next_string t (i + 1) 93;
       case p of None \<Rightarrow> Some None | Some i \<Rightarrow> do {
         (w, n) \<leftarrow> copy_string_data 64 t i;
         p \<leftarrow> goto_next_char t (i + n) 93 0;
         case p of None \<Rightarrow> Some None | Some i \<Rightarrow> do {
           p \<leftarrow> goto_next_char t i 10 0;
           Some (Some (case p of None \<Rightarrow> i | Some j \<Rightarrow> j, w)) } } } }"

definition get_next_key :: "nat \<Rightarrow> u8 list \<Rightarrow> nat \<Rightarrow> (nat \<times> u8 list) option option" where
  "get_next_key cap t i = do {
     p \<leftarrow> goto_next_string t i 91;
     case p of None \<Rightarrow> Some None | Some i \<Rightarrow> do {
       (w, n) \<leftarrow> copy_string_data cap t i;
       Some (Some (i + n, w)) } }"

lemma goto_next_char_range: "goto_next_char t i c l = Some (Some j) \<Longrightarrow> i \<le> j \<and> j < length t"
proof (induction t i c l rule: goto_next_char.induct)
  case (1 t i c l)
  then show ?case by (subst (asm) (2) goto_next_char.simps) (auto simp: ch_def split: if_splits option.splits)
qed

lemma goto_next_string_range: "goto_next_string t i l = Some (Some j) \<Longrightarrow> i \<le> j \<and> j < length t"
proof (induction t i l rule: goto_next_string.induct)
  case (1 t i l)
  then show ?case by (subst (asm) (2) goto_next_string.simps) (auto simp: ch_def split: if_splits option.splits)
qed

text \<open>A pointer that is tested for NULL.\<close>

lemma bind_pointer: "(do { p \<leftarrow> f; case p of None \<Rightarrow> Some None | Some i \<Rightarrow> g i }) = Some (Some r) \<longleftrightarrow>
    (\<exists>i. f = Some (Some i) \<and> g i = Some (Some r))"
  by (cases f) (auto split: option.splits)

lemma get_next_head_range:
  assumes "get_next_head t i = Some (Some (j, w))"
  shows "i < j \<and> j < length t"
proof -
  obtain i1 where 1: "goto_next_char t i 91 93 = Some (Some i1)"
    and r1: "do { p \<leftarrow> goto_next_string t (i1 + 1) 93;
       case p of None \<Rightarrow> Some None | Some i \<Rightarrow> do {
         (w, n) \<leftarrow> copy_string_data 64 t i;
         p \<leftarrow> goto_next_char t (i + n) 93 0;
         case p of None \<Rightarrow> Some None | Some i \<Rightarrow> do {
           p \<leftarrow> goto_next_char t i 10 0;
           Some (Some (case p of None \<Rightarrow> i | Some j \<Rightarrow> j, w)) } } } = Some (Some (j, w))"
    using assms unfolding get_next_head_def bind_pointer by blast
  obtain i2 where 2: "goto_next_string t (i1 + 1) 93 = Some (Some i2)"
    and r2: "do { (w, n) \<leftarrow> copy_string_data 64 t i2;
         p \<leftarrow> goto_next_char t (i2 + n) 93 0;
         case p of None \<Rightarrow> Some None | Some i \<Rightarrow> do {
           p \<leftarrow> goto_next_char t i 10 0;
           Some (Some (case p of None \<Rightarrow> i | Some j \<Rightarrow> j, w)) } } = Some (Some (j, w))"
    using r1 unfolding bind_pointer by blast
  obtain v n where "copy_string_data 64 t i2 = Some (v, n)" using r2 by (cases "copy_string_data 64 t i2") auto
  with r2 obtain i3 where 3: "goto_next_char t (i2 + n) 93 0 = Some (Some i3)"
    and r3: "do { p \<leftarrow> goto_next_char t i3 10 0; Some (Some (case p of None \<Rightarrow> i3 | Some j \<Rightarrow> j, v)) } = Some (Some (j, w))"
    by (auto simp: bind_pointer)
  then obtain p where g: "goto_next_char t i3 10 0 = Some p" "j = (case p of None \<Rightarrow> i3 | Some j \<Rightarrow> j)"
    by (auto simp: bind_eq_Some_conv)
  then have "i3 \<le> j \<and> j < length t"
    using goto_next_char_range [OF 3] by (cases p) (auto dest: goto_next_char_range)
  then show ?thesis using goto_next_char_range [OF 1] goto_next_string_range [OF 2] goto_next_char_range [OF 3] by simp
qed

lemma get_next_key_range: "get_next_key cap t i = Some (Some (j, w)) \<Longrightarrow> i \<le> j"
  unfolding get_next_key_def bind_pointer by (auto simp: bind_eq_Some_conv dest: goto_next_string_range)

function get_key :: "u8 list \<Rightarrow> nat \<Rightarrow> u8 list \<Rightarrow> nat option option" where
  "get_key t i key = (case get_next_key 32 t i of None \<Rightarrow> None | Some None \<Rightarrow> Some None
     | Some (Some (i', w)) \<Rightarrow> if key = w then Some (Some i')
         else (case goto_next_char t i' 10 0 of None \<Rightarrow> None | Some None \<Rightarrow> Some None
           | Some (Some i'') \<Rightarrow> get_key t (i'' + 1) key))"
  by pat_completeness auto
termination
  by (relation "measure (\<lambda>(t, i, _). length t - i)") (auto dest!: goto_next_char_range get_next_key_range)

declare get_key.simps [simp del]

text \<open>The increment of NULL is not NULL.\<close>

definition get_value :: "nat \<Rightarrow> u8 list \<Rightarrow> nat \<Rightarrow> u8 list \<Rightarrow> (nat \<times> u8 list) option option" where
  "get_value cap t i key = do {
     p \<leftarrow> get_key t i key;
     case p of None \<Rightarrow> Some None | Some i \<Rightarrow> do {
       p \<leftarrow> goto_next_char t i 61 10;
       case p of None \<Rightarrow> None | Some i \<Rightarrow> get_next_key cap t (i + 1) } }"

function get_head_start :: "u8 list \<Rightarrow> nat \<Rightarrow> u8 list \<Rightarrow> nat option option" where
  "get_head_start t i head = (case get_next_head t i of None \<Rightarrow> None
     | Some None \<Rightarrow> Some None
     | Some (Some (i', w)) \<Rightarrow> if w = head then Some (Some i') else get_head_start t i' head)"
  by pat_completeness auto
termination
  by (relation "measure (\<lambda>(t, i, _). length t - i)") (auto dest!: get_next_head_range)

declare get_head_start.simps [simp del]

text \<open>The group may be NULL, the others are given. \<open>cap\<close> is the size of the caller's buffer for the value.\<close>

definition get_value_from_ini :: "nat \<Rightarrow> u8 list \<Rightarrow> u8 list option \<Rightarrow> u8 list \<Rightarrow> (nat \<times> u8 list) option option" where
  "get_value_from_ini cap t grou key = do {
     p \<leftarrow> (case grou of None \<Rightarrow> Some (Some 0) | Some g \<Rightarrow> get_head_start t 0 g);
     case p of None \<Rightarrow> Some None | Some i \<Rightarrow> get_value cap t i key }"

text \<open>Comments go from a hash sign or a semicolon to the end of the line.\<close>

function preprocess_ini_data :: "u8 list \<Rightarrow> u8 list" where
  "preprocess_ini_data [] = []"
| "preprocess_ini_data (x # s) = (if x = 35 \<or> x = 59 then preprocess_ini_data (dropWhile (\<lambda>x. x \<noteq> 10) s)
     else x # preprocess_ini_data s)"
  by pat_completeness auto
termination
  by (relation "measure length") (auto simp: le_imp_less_Suc length_dropWhile_le)

section \<open>Scanning forward\<close>

lemma ch_append [simp]: "ch (a @ x # r) (length a) = Some x"
  by (simp add: ch_def)

lemma ch_append2: "k = length a \<Longrightarrow> ch (a @ x # r) k = Some x"
  by simp

lemma goto_next_char_skip:
  "\<forall>x \<in> set b. x \<noteq> 0 \<and> x \<noteq> l \<and> x \<noteq> c \<Longrightarrow> y \<noteq> 0 \<Longrightarrow> y = l \<or> y = c \<Longrightarrow> n = length a \<Longrightarrow>
    goto_next_char (a @ b @ y # r) n c l = Some (Some (n + length b))"
proof (induction b arbitrary: a n)
  case Nil
  then show ?case by (subst goto_next_char.simps) auto
next
  case (Cons x b)
  have "goto_next_char ((a @ [x]) @ b @ y # r) (n + 1) c l = Some (Some (n + 1 + length b))" using Cons.prems by (intro Cons.IH) auto
  then show ?case using Cons.prems by (subst goto_next_char.simps) auto
qed

lemma goto_next_char_end:
  "\<forall>x \<in> set b. x \<noteq> 0 \<and> x \<noteq> l \<and> x \<noteq> c \<Longrightarrow> n = length a \<Longrightarrow> goto_next_char (a @ b) n c l = Some None"
proof (induction b arbitrary: a n)
  case Nil
  then show ?case by (subst goto_next_char.simps) (simp add: ch_def)
next
  case (Cons x b)
  have "goto_next_char ((a @ [x]) @ b) (n + 1) c l = Some None" using Cons.prems by (intro Cons.IH) auto
  then show ?case using Cons.prems by (subst goto_next_char.simps) auto
qed

lemma goto_next_string_skip:
  "\<forall>x \<in> set b. x \<noteq> 0 \<and> x \<noteq> l \<and> \<not> is_word_start x \<Longrightarrow> is_word_start y \<Longrightarrow> y \<noteq> l \<Longrightarrow> n = length a \<Longrightarrow>
    goto_next_string (a @ b @ y # r) n l = Some (Some (n + length b))"
proof (induction b arbitrary: a n)
  case Nil
  moreover have "y \<noteq> 0" using Nil.prems by (auto simp: is_word_start_def)
  ultimately show ?case by (subst goto_next_string.simps) auto
next
  case (Cons x b)
  have "goto_next_string ((a @ [x]) @ b @ y # r) (n + 1) l = Some (Some (n + 1 + length b))" using Cons.prems by (intro Cons.IH) auto
  then show ?case using Cons.prems by (subst goto_next_string.simps) auto
qed

lemma goto_next_string_stop:
  "\<forall>x \<in> set b. x \<noteq> 0 \<and> x \<noteq> l \<and> \<not> is_word_start x \<Longrightarrow> n = length a \<Longrightarrow> r = [] \<or> hd r = l \<Longrightarrow>
    goto_next_string (a @ b @ r) n l = Some None"
proof (induction b arbitrary: a n)
  case Nil
  then show ?case by (subst goto_next_string.simps) (cases r, auto simp: ch_def)
next
  case (Cons x b)
  have "goto_next_string ((a @ [x]) @ b @ r) (n + 1) l = Some None" using Cons.prems by (intro Cons.IH) auto
  then show ?case using Cons.prems by (subst goto_next_string.simps) auto
qed

text \<open>A plain word, followed by a byte that is not of a word; and a quoted one.\<close>

lemma copy_plain:
  assumes "w \<noteq> []" "list_all is_word_char w" "hd w \<noteq> 34" "length w < cap" "r = [] \<or> \<not> is_word_char (hd r)" "n = length a"
  shows "copy_string_data cap (a @ w @ r) n = Some (w, length w)"
proof -
  obtain x w' where w: "w = x # w'" using assms(1) by (cases w) auto
  have "takeWhile is_word_char (w @ r) = w" using assms(2,5) by (cases r) (auto simp: takeWhile_append list_all_iff)
  then show ?thesis using assms w by (simp add: copy_string_data_def)
qed

lemma copy_quoted:
  assumes "list_all (\<lambda>x. x \<noteq> 0 \<and> x \<noteq> 10 \<and> x \<noteq> 34) w" "length w < cap" "n = length a"
  shows "copy_string_data cap (a @ 34 # w @ 34 # r) n = Some (w, length w + 2)"
proof -
  have "takeWhile (\<lambda>x. x \<noteq> 0 \<and> x \<noteq> 10 \<and> x \<noteq> 34) (w @ 34 # r) = w" using assms(1) by (auto simp: takeWhile_append list_all_iff)
  then show ?thesis using assms by (simp add: copy_string_data_def)
qed

end
