(* ===== verification/IniSpec.thy ===== *)
theory IniSpec
  imports Ini
begin

text \<open>
  Reading a configuration file back: the file is written from its sections and entries, each entry as
  \<open>key = "value"\<close> on a line of its own.
\<close>

type_synonym entries = "(u8 list \<times> u8 list) list"

definition render_entry :: "u8 list \<times> u8 list \<Rightarrow> u8 list" where
  "render_entry e = fst e @ [32, 61, 32, 34] @ snd e @ [34, 10]"

definition render_section :: "u8 list \<times> entries \<Rightarrow> u8 list" where
  "render_section s = 91 # fst s @ 93 # 10 # concat (map render_entry (snd s))"

definition render_ini :: "(u8 list \<times> entries) list \<Rightarrow> u8 list" where
  "render_ini secs = concat (map render_section secs)"

definition ini_name :: "nat \<Rightarrow> u8 list \<Rightarrow> bool" where
  "ini_name cap w \<longleftrightarrow> w \<noteq> [] \<and> length w < cap \<and> list_all (\<lambda>x. is_word_start x \<and> x \<noteq> 34) w"

definition ini_value :: "nat \<Rightarrow> u8 list \<Rightarrow> bool" where
  "ini_value cap w \<longleftrightarrow> length w < cap \<and> list_all (\<lambda>x. x \<noteq> 0 \<and> x \<noteq> 10 \<and> x \<noteq> 34 \<and> x \<noteq> 91 \<and> x \<noteq> 93) w"

definition ini_entries :: "nat \<Rightarrow> entries \<Rightarrow> bool" where
  "ini_entries cap es \<longleftrightarrow> list_all (\<lambda>(k, v). ini_name 32 k \<and> ini_value cap v) es"

definition ini_file :: "nat \<Rightarrow> (u8 list \<times> entries) list \<Rightarrow> bool" where
  "ini_file cap secs \<longleftrightarrow> list_all (\<lambda>(h, es). ini_name 64 h \<and> ini_entries cap es) secs"

lemma word_start_char: "is_word_start x \<Longrightarrow> x \<noteq> 34 \<Longrightarrow> is_word_char x"
  by (auto simp: is_word_start_def is_word_char_def)

lemma word_start_not: "is_word_start x \<Longrightarrow> x \<noteq> 0 \<and> x \<noteq> 10 \<and> x \<noteq> 32 \<and> x \<noteq> 91 \<and> x \<noteq> 93 \<and> x \<noteq> 61"
  by (auto simp: is_word_start_def)

lemma word_start_values [simp]: "\<not> is_word_start 10" "\<not> is_word_start 32" "is_word_start 34" "\<not> is_word_char 32" "\<not> is_word_char 93"
  by (simp_all add: is_word_start_def is_word_char_def)

lemma ini_name_copy: "ini_name cap w \<Longrightarrow> r = [] \<or> \<not> is_word_char (hd r) \<Longrightarrow> n = length a \<Longrightarrow>
    copy_string_data cap (a @ w @ r) n = Some (w, length w)"
  by (rule copy_plain) (auto simp: ini_name_def list_all_iff word_start_char)

lemma ini_name_hd: "ini_name cap w \<Longrightarrow> \<exists>x w'. w = x # w' \<and> is_word_start x"
  by (cases w) (auto simp: ini_name_def)

lemma next_key_name:
  assumes "ini_name 32 k" "\<forall>x \<in> set b. x \<noteq> 0 \<and> x \<noteq> 91 \<and> \<not> is_word_start x" "n = length a"
  shows "get_next_key 32 (a @ b @ k @ 32 # r) n = Some (Some (n + length b + length k, k))"
proof -
  obtain x w where k: "k = x # w" "is_word_start x" using ini_name_hd [OF assms(1)] by blast
  have "goto_next_string (a @ b @ x # w @ 32 # r) n 91 = Some (Some (n + length b))"
    using assms k word_start_not by (intro goto_next_string_skip) auto
  moreover have "copy_string_data 32 ((a @ b) @ k @ 32 # r) (n + length b) = Some (k, length k)"
    using assms by (intro ini_name_copy) auto
  ultimately show ?thesis by (simp add: get_next_key_def k)
qed

lemma get_key_entries:
  assumes "ini_entries cap es" "\<forall>x \<in> set b. x \<noteq> 0 \<and> x \<noteq> 91 \<and> \<not> is_word_start x" "n = length a" "r = [] \<or> hd r = 91"
  shows "(map_of es key = None \<longrightarrow> get_key (a @ b @ concat (map render_entry es) @ r) n key = Some None) \<and>
    (\<forall>v. map_of es key = Some v \<longrightarrow> (\<exists>c s. a @ b @ concat (map render_entry es) @ r = c @ [32, 61, 32, 34] @ v @ 34 # s \<and>
       get_key (a @ b @ concat (map render_entry es) @ r) n key = Some (Some (length c))))"
  using assms
proof (induction es arbitrary: a b n)
  case Nil
  have "goto_next_string (a @ b @ r) n 91 = Some None" using Nil by (intro goto_next_string_stop) auto
  then have "get_next_key 32 (a @ b @ r) n = Some None" by (simp add: get_next_key_def)
  then show ?case by (subst get_key.simps) simp
next
  case (Cons e es)
  obtain k v where e: "e = (k, v)" by (cases e)
  have k: "ini_name 32 k" and v: "ini_value cap v" using Cons.prems(1) e by (auto simp: ini_entries_def)
  let ?rest = "concat (map render_entry es) @ r"
  define T where "T = a @ b @ concat (map render_entry (e # es)) @ r"
  have t: "T = a @ b @ k @ 32 # ([61, 32, 34] @ v @ 34 # 10 # ?rest)" by (simp add: T_def e render_entry_def)
  have nk: "get_next_key 32 T n = Some (Some (n + length b + length k, k))"
    unfolding t using Cons.prems k by (intro next_key_name) auto
  have "(map_of (e # es) key = None \<longrightarrow> get_key T n key = Some None) \<and>
    (\<forall>v. map_of (e # es) key = Some v \<longrightarrow> (\<exists>c s. T = c @ [32, 61, 32, 34] @ v @ 34 # s \<and> get_key T n key = Some (Some (length c))))"
  proof (cases "key = k")
    case True
    then have "get_key T n key = Some (Some (n + length b + length k))" by (subst get_key.simps) (simp add: nk)
    moreover have "T = (a @ b @ k) @ [32, 61, 32, 34] @ v @ 34 # 10 # ?rest" by (simp add: t)
    moreover have "length (a @ b @ k) = n + length b + length k" using Cons.prems(3) by simp
    moreover have "map_of (e # es) key = Some v" using True e by simp
    ultimately have "T = (a @ b @ k) @ [32, 61, 32, 34] @ v @ 34 # 10 # ?rest \<and> get_key T n key = Some (Some (length (a @ b @ k)))"
      by simp
    then have "\<exists>c s. T = c @ [32, 61, 32, 34] @ v @ 34 # s \<and> get_key T n key = Some (Some (length c))" by blast
    then show ?thesis using \<open>map_of (e # es) key = Some v\<close> by simp
  next
    case False
    let ?a = "a @ b @ k @ [32, 61, 32, 34] @ v @ [34, 10]"
    have s: "\<forall>x \<in> set ([32, 61, 32, 34] @ v @ [34]). x \<noteq> 0 \<and> x \<noteq> 0 \<and> x \<noteq> 10" using v by (auto simp: ini_value_def list_all_iff)
    have "goto_next_char ((a @ b @ k) @ ([32, 61, 32, 34] @ v @ [34]) @ 10 # ?rest) (n + length b + length k) 10 0
        = Some (Some (n + length b + length k + length ([32, 61, 32, 34] @ v @ [34 :: u8])))"
      using Cons.prems(3) by (intro goto_next_char_skip s) auto
    then have g: "goto_next_char T (n + length b + length k) 10 0 = Some (Some (n + length b + length k + length v + 5))"
      by (simp add: t)
    have "get_key T n key = get_key T (n + length b + length k + length v + 5 + 1) key"
      using False by (subst get_key.simps) (simp only: nk g option.case prod.case if_False)
    moreover have "n + length b + length k + length v + 5 + 1 = length ?a" using Cons.prems(3) by simp
    ultimately have "get_key T n key = get_key T (length ?a) key" by (simp only:)
    moreover have tr: "T = ?a @ [] @ ?rest" by (simp add: t)
    moreover have "map_of (e # es) key = map_of es key" using False e by simp
    moreover have "ini_entries cap es" "\<forall>x \<in> set ([] :: u8 list). x \<noteq> 0 \<and> x \<noteq> 91 \<and> \<not> is_word_start x"
      using Cons.prems(1) by (simp_all add: ini_entries_def)
    note Cons.IH [OF this refl Cons.prems(4), of ?a, folded tr]
    ultimately show ?thesis by (simp only:)
  qed
  then show ?case by (simp only: T_def)
qed


lemma get_value_found:
  assumes "ini_value cap v" "get_key t n key = Some (Some (length c))" "t = c @ [32, 61, 32, 34] @ v @ 34 # s"
  shows "\<exists>p. get_value cap t n key = Some (Some (p, v))"
proof -
  have "goto_next_char (c @ [32] @ 61 # [32, 34] @ v @ 34 # s) (length c) 61 10 = Some (Some (length c + length [32 :: u8]))"
    by (rule goto_next_char_skip) auto
  then have 1: "goto_next_char t (length c) 61 10 = Some (Some (length c + 1))" by (simp add: assms(3))
  have "goto_next_string ((c @ [32, 61]) @ [32] @ 34 # v @ 34 # s) (length c + 2) 91 = Some (Some (length c + 2 + length [32 :: u8]))"
    by (rule goto_next_string_skip) auto
  then have 2: "goto_next_string t (length c + 2) 91 = Some (Some (length c + 3))" by (simp add: assms(3))
  have "copy_string_data cap ((c @ [32, 61, 32]) @ 34 # v @ 34 # s) (length c + 3) = Some (v, length v + 2)"
    using assms(1) by (intro copy_quoted) (auto simp: ini_value_def list_all_iff)
  then have 3: "copy_string_data cap t (length c + 3) = Some (v, length v + 2)" by (simp add: assms(3))
  show ?thesis using 1 2 3 by (simp add: get_value_def get_next_key_def assms(2))
qed

lemma get_next_head_section:
  assumes "ini_name 64 h" "\<forall>x \<in> set u. x \<noteq> 0 \<and> x \<noteq> 91 \<and> x \<noteq> 93" "n = length a"
  shows "get_next_head (a @ u @ 91 # h @ 93 # 10 # r) n = Some (Some (n + length u + length h + 2, h))"
proof -
  obtain x w where h: "h = x # w" "is_word_start x" using ini_name_hd [OF assms(1)] by blast
  define t where "t = a @ u @ 91 # h @ 93 # 10 # r"
  have 1: "goto_next_char t n 91 93 = Some (Some (n + length u))"
    unfolding t_def using assms(2,3) by (intro goto_next_char_skip) auto
  have "goto_next_string ((a @ u @ [91]) @ [] @ x # w @ 93 # 10 # r) (n + length u + 1) 93 = Some (Some (n + length u + 1 + length ([] :: u8 list)))"
    using h(2) word_start_not assms(3) by (intro goto_next_string_skip) auto
  then have 2: "goto_next_string t (n + length u + 1) 93 = Some (Some (n + length u + 1))" by (simp add: t_def h)
  have "copy_string_data 64 ((a @ u @ [91]) @ h @ 93 # 10 # r) (n + length u + 1) = Some (h, length h)"
    using assms by (intro ini_name_copy) auto
  then have 3: "copy_string_data 64 t (n + length u + 1) = Some (h, length h)" by (simp add: t_def)
  have "goto_next_char ((a @ u @ 91 # h) @ [] @ 93 # 10 # r) (n + length u + 1 + length h) 93 0 = Some (Some (n + length u + 1 + length h + length ([] :: u8 list)))"
    using assms(3) by (intro goto_next_char_skip) auto
  then have 4: "goto_next_char t (n + length u + 1 + length h) 93 0 = Some (Some (n + length u + 1 + length h))" by (simp add: t_def)
  have "goto_next_char ((a @ u @ 91 # h) @ [93] @ 10 # r) (n + length u + 1 + length h) 10 0 = Some (Some (n + length u + 1 + length h + length [93 :: u8]))"
    using assms(3) by (intro goto_next_char_skip) auto
  then have 5: "goto_next_char t (n + length u + 1 + length h) 10 0 = Some (Some (n + length u + length h + 2))" by (simp add: t_def)
  show ?thesis unfolding t_def [symmetric] using 1 2 3 4 5 by (simp add: get_next_head_def)
qed

lemma section_clean: "ini_entries cap es \<Longrightarrow> \<forall>x \<in> set (10 # concat (map render_entry es)). x \<noteq> 0 \<and> x \<noteq> 91 \<and> x \<noteq> 93"
proof -
  assume e: "ini_entries cap es"
  have "x \<noteq> 0 \<and> x \<noteq> 91 \<and> x \<noteq> 93" if "(k, v) \<in> set es" "x \<in> set (render_entry (k, v))" for k v x
  proof -
    have "ini_name 32 k" "ini_value cap v" using e that(1) by (auto simp: ini_entries_def list_all_iff)
    moreover have "x \<in> set k \<or> x \<in> set v \<or> x \<in> {32, 61, 34, 10}" using that(2) by (auto simp: render_entry_def)
    moreover have "x \<noteq> 0 \<and> x \<noteq> 91 \<and> x \<noteq> 93" if "x \<in> {32, 61, 34, 10}" using that by auto
    ultimately show ?thesis using word_start_not [of x] unfolding ini_name_def ini_value_def list_all_iff by blast
  qed
  then show ?thesis by auto
qed

lemma get_head_start_sections:
  assumes "ini_file cap secs" "\<forall>x \<in> set u. x \<noteq> 0 \<and> x \<noteq> 91 \<and> x \<noteq> 93" "n = length a"
  shows "(map_of secs g = None \<longrightarrow> get_head_start (a @ u @ render_ini secs) n g = Some None) \<and>
    (\<forall>es. map_of secs g = Some es \<longrightarrow> ini_entries cap es \<and> (\<exists>c r. a @ u @ render_ini secs = c @ [10] @ concat (map render_entry es) @ r \<and>
       (r = [] \<or> hd r = 91) \<and> get_head_start (a @ u @ render_ini secs) n g = Some (Some (length c))))"
  using assms
proof (induction secs arbitrary: a u n)
  case Nil
  have "goto_next_char (a @ u) n 91 93 = Some None" using Nil by (intro goto_next_char_end) auto
  then show ?case by (subst get_head_start.simps) (simp add: render_ini_def get_next_head_def)
next
  case (Cons sec secs)
  obtain h es where e: "sec = (h, es)" by (cases sec)
  have h: "ini_name 64 h" and es: "ini_entries cap es" and f: "ini_file cap secs" using Cons.prems(1) e by (auto simp: ini_file_def)
  define T where "T = a @ u @ render_ini (sec # secs)"
  let ?c = "a @ u @ 91 # h @ [93]"
  have t: "T = a @ u @ 91 # h @ 93 # 10 # concat (map render_entry es) @ render_ini secs"
    by (simp add: T_def e render_ini_def render_section_def)
  have nh: "get_next_head T n = Some (Some (length ?c, h))"
    unfolding t using get_next_head_section [OF h Cons.prems(2,3)] Cons.prems(3) by simp
  have r: "render_ini secs = [] \<or> hd (render_ini secs) = 91" by (cases secs) (simp_all add: render_ini_def render_section_def)
  have "(map_of (sec # secs) g = None \<longrightarrow> get_head_start T n g = Some None) \<and>
    (\<forall>es. map_of (sec # secs) g = Some es \<longrightarrow> ini_entries cap es \<and> (\<exists>c r. T = c @ [10] @ concat (map render_entry es) @ r \<and>
       (r = [] \<or> hd r = 91) \<and> get_head_start T n g = Some (Some (length c))))"
  proof (cases "g = h")
    case True
    then have "get_head_start T n g = Some (Some (length ?c))" by (subst get_head_start.simps) (simp add: nh)
    moreover have "T = ?c @ [10] @ concat (map render_entry es) @ render_ini secs" by (simp add: t)
    ultimately have "\<exists>c r. T = c @ [10] @ concat (map render_entry es) @ r \<and> (r = [] \<or> hd r = 91) \<and> get_head_start T n g = Some (Some (length c))"
      using r by blast
    then show ?thesis using True e es by simp
  next
    case False
    then have "get_head_start T n g = get_head_start T (length ?c) g" by (subst get_head_start.simps) (simp add: nh)
    moreover have "T = ?c @ (10 # concat (map render_entry es)) @ render_ini secs" by (simp add: t)
    moreover have "map_of (sec # secs) g = map_of secs g" using False e by simp
    ultimately show ?thesis using Cons.IH [OF f section_clean [OF es] refl, of ?c] by simp
  qed
  then show ?case by (simp only: T_def)
qed

lemma ini_lookup_value:
  assumes "ini_file cap secs"
  shows "map_option (map_option snd) (get_value_from_ini cap (render_ini secs) (Some g) k) =
    Some (case map_of secs g of None \<Rightarrow> None | Some es \<Rightarrow> map_of es k)"
proof -
  have "\<forall>x \<in> set ([] :: u8 list). x \<noteq> 0 \<and> x \<noteq> 91 \<and> x \<noteq> 93" "0 = length ([] :: u8 list)" by simp_all
  note h = get_head_start_sections [OF assms this, of g, unfolded append_Nil]
  show ?thesis
  proof (cases "map_of secs g")
    case None
    then show ?thesis using h by (simp add: get_value_from_ini_def)
  next
    case (Some es)
    have es: "ini_entries cap es" using h Some by blast
    obtain c r where t: "render_ini secs = c @ [10] @ concat (map render_entry es) @ r"
      "r = [] \<or> hd r = 91" "get_head_start (render_ini secs) 0 g = Some (Some (length c))"
      using h Some by blast
    have v: "get_value_from_ini cap (render_ini secs) (Some g) k = get_value cap (render_ini secs) (length c) k"
      using t(3) by (simp add: get_value_from_ini_def)
    have key: "(map_of es k = None \<longrightarrow> get_key (render_ini secs) (length c) k = Some None) \<and>
      (\<forall>v. map_of es k = Some v \<longrightarrow> (\<exists>c' s. render_ini secs = c' @ [32, 61, 32, 34] @ v @ 34 # s \<and>
       get_key (render_ini secs) (length c) k = Some (Some (length c'))))"
      unfolding t(1) by (rule get_key_entries [OF es _ refl t(2)]) simp
    show ?thesis
    proof (cases "map_of es k")
      case None
      then show ?thesis using key Some by (simp add: v get_value_def)
    next
      case S: (Some w)
      have "ini_value cap w" using es map_of_SomeD [OF S] by (auto simp: ini_entries_def list_all_iff)
      moreover obtain c' s where "render_ini secs = c' @ [32, 61, 32, 34] @ w @ 34 # s"
        "get_key (render_ini secs) (length c) k = Some (Some (length c'))" using key S by blast
      ultimately obtain p where "get_value cap (render_ini secs) (length c) k = Some (Some (p, w))" using get_value_found by blast
      then show ?thesis using S Some by (simp add: v)
    qed
  qed
qed

text \<open>C17: Reading a configuration file. In a file written from sections of entries the scanner finds, for a section and
  a key, the value of the first entry with this key in the first section with this name, and nothing when there is
  none; no buffer overflows and nothing is read beyond the end. Names have fewer than 64 and keys fewer than 32 bytes
  of letters, digits, underscore and slash; a value has no quote, newline or bracket and fits its buffer.
\<close>

theorem ini_lookup:
  assumes "ini_file cap secs"
  shows "map_option (map_option snd) (get_value_from_ini cap (render_ini secs) (Some g) k) =
    Some (case map_of secs g of None \<Rightarrow> None | Some es \<Rightarrow> map_of es k)"
  by (rule ini_lookup_value [OF assms])

text \<open>A file with the two sections \<open>[Ld]\<close> and \<open>[sys]\<close>, the second of which has the entry \<open>tab = "/t"\<close>.\<close>

theorem ini_lookup_witness:
  "map_option (map_option snd) (get_value_from_ini 64
     (render_ini [([76, 100], [([109], [55])]), ([115, 121, 115], [([116, 97, 98], [47, 116])])]) (Some [115, 121, 115]) [116, 97, 98])
   = Some (Some [47, 116])"
  by (subst ini_lookup) (simp_all add: ini_file_def ini_entries_def ini_name_def ini_value_def is_word_start_def)

text \<open>Comments: what is left has none, and stripping it again changes nothing.\<close>

lemma preprocess_clean: "x \<in> set (preprocess_ini_data s) \<Longrightarrow> x \<noteq> 35 \<and> x \<noteq> 59"
  by (induction s rule: preprocess_ini_data.induct) (auto split: if_splits)

lemma preprocess_id: "(\<forall>x \<in> set s. x \<noteq> 35 \<and> x \<noteq> 59) \<Longrightarrow> preprocess_ini_data s = s"
  by (induction s) auto

lemma preprocess_idem: "preprocess_ini_data (preprocess_ini_data s) = preprocess_ini_data s"
  using preprocess_clean by (intro preprocess_id) blast

end
