(* ===== verification/Syscall.thy ===== *)
theory Syscall
  imports IniSpec
begin

text \<open>
  System calls, \<^verbatim>\<open>ipc/systemcall.c\<close>: the table read from a text file of lines "number ABI name entry point", the
  look-up of exported functions (\<^verbatim>\<open>kernel/symbol_table/get_symbl.c\<close>), and the dispatch through the table.

  Functions are their addresses. Where the boot stops in an endless loop the result is \<open>None\<close>, as for a fault.
\<close>

section \<open>The parser\<close>

definition goto_next_data_line :: "u8 list \<Rightarrow> nat \<Rightarrow> nat option option" where
  "goto_next_data_line t i = do {
     p \<leftarrow> goto_next_char t i 10 0;
     case p of None \<Rightarrow> Some None | Some i \<Rightarrow> goto_next_string t i 0 }"

record syscall =
  sc_number :: "u8 list"
  sc_ABI :: "u8 list"
  sc_Name :: "u8 list"
  sc_EntryPoint :: "u8 list"

text \<open>The next word and the offset behind it.\<close>

definition get_word :: "nat \<Rightarrow> u8 list \<Rightarrow> nat \<Rightarrow> (nat \<times> u8 list) option option" where
  "get_word cap t i = do {
     p \<leftarrow> goto_next_string t i 0;
     case p of None \<Rightarrow> Some None | Some i \<Rightarrow> do {
       (w, n) \<leftarrow> copy_string_data cap t i;
       Some (Some (i + n, w)) } }"

text \<open>Four words, and something after them.\<close>

definition get_line_data :: "u8 list \<Rightarrow> nat \<Rightarrow> syscall option option" where
  "get_line_data t i = do {
     p \<leftarrow> get_word 8 t i;
     case p of None \<Rightarrow> Some None | Some (i, number) \<Rightarrow> do {
       p \<leftarrow> get_word 32 t i;
       case p of None \<Rightarrow> Some None | Some (i, abi) \<Rightarrow> do {
         p \<leftarrow> get_word 32 t i;
         case p of None \<Rightarrow> Some None | Some (i, name) \<Rightarrow> do {
           p \<leftarrow> get_word 32 t i;
           case p of None \<Rightarrow> Some None | Some (i, entry) \<Rightarrow> do {
             p \<leftarrow> goto_next_string t i 0;
             Some (map_option (\<lambda>_. \<lparr>sc_number = number, sc_ABI = abi, sc_Name = name, sc_EntryPoint = entry\<rparr>) p) } } } } }"

text \<open>That there is no next line is not tested for: the NULL pointer is read.\<close>

definition get_next_line_data :: "u8 list \<Rightarrow> nat \<Rightarrow> (nat \<times> syscall) option option" where
  "get_next_line_data t i = do {
     p \<leftarrow> goto_next_data_line t i;
     case p of None \<Rightarrow> None | Some i \<Rightarrow> do {
       l \<leftarrow> get_line_data t i;
       Some (map_option (Pair i) l) } }"

definition str_to_uint32 :: "u8 list \<Rightarrow> u32" where
  "str_to_uint32 s = foldl (\<lambda>r c. r * 10 + (ucast c - 48)) 0 s"

lemma goto_next_data_line_range: "goto_next_data_line t i = Some (Some j) \<Longrightarrow> i < j \<and> j < length t"
proof -
  assume a: "goto_next_data_line t i = Some (Some j)"
  then obtain k where k: "goto_next_char t i 10 0 = Some (Some k)" "goto_next_string t k 0 = Some (Some j)"
    unfolding goto_next_data_line_def bind_pointer by blast
  have "ch t k \<noteq> Some 10 \<Longrightarrow> False"
    using k(1) by (induction t i "10 :: u8" "0 :: u8" rule: goto_next_char.induct)
      (subst (asm) (2) goto_next_char.simps, auto split: option.splits if_splits)
  then have c: "ch t k = Some 10" by blast
  have "k \<noteq> j"
  proof
    assume "k = j"
    then have "goto_next_string t (j + 1) 0 = Some (Some j)"
      using k(2) c by (subst (asm) goto_next_string.simps) (simp add: is_word_start_def)
    then show False by (auto dest: goto_next_string_range)
  qed
  then show ?thesis using goto_next_char_range [OF k(1)] goto_next_string_range [OF k(2)] by simp
qed

lemma get_next_line_range: "get_next_line_data t i = Some (Some (j, l)) \<Longrightarrow> i < j \<and> j < length t"
  by (auto simp: get_next_line_data_def bind_eq_Some_conv dest!: goto_next_data_line_range split: option.splits)

function get_syscall_numbers :: "u8 list \<Rightarrow> nat \<Rightarrow> u32 \<Rightarrow> u32 option" where
  "get_syscall_numbers t i number = (case get_next_line_data t i of None \<Rightarrow> None
     | Some None \<Rightarrow> Some (number + 1)
     | Some (Some (i', l)) \<Rightarrow> get_syscall_numbers t i' (max number (str_to_uint32 (sc_number l))))"
  by pat_completeness auto
termination
  by (relation "measure (\<lambda>(t, i, _). length t - i)") (auto dest!: get_next_line_range)

section \<open>Exported functions\<close>

text \<open>The table of exports; a node may have no name.\<close>

fun find_table_by_fnname :: "(u8 list option \<times> nat) list \<Rightarrow> u8 list \<Rightarrow> nat" where
  "find_table_by_fnname [] name = 0"
| "find_table_by_fnname ((n, f) # ex) name = (if n = Some name then f else find_table_by_fnname ex name)"

section \<open>Loading and dispatch\<close>

definition load_syscall :: "(u8 list option \<times> nat) list \<Rightarrow> syscall \<Rightarrow> nat list \<Rightarrow> nat list option" where
  "load_syscall ex l tab = (let n = unat (str_to_uint32 (sc_number l)); f = find_table_by_fnname ex (sc_EntryPoint l) in
     if f = 0 then None else if n < length tab then Some (tab[n := f]) else None)"

function load_syscalls :: "(u8 list option \<times> nat) list \<Rightarrow> u8 list \<Rightarrow> nat \<Rightarrow> nat list \<Rightarrow> nat list option" where
  "load_syscalls ex t i tab = (case get_next_line_data t i of None \<Rightarrow> None
     | Some None \<Rightarrow> Some tab
     | Some (Some (i', l)) \<Rightarrow> (case load_syscall ex l tab of None \<Rightarrow> None | Some tab \<Rightarrow> load_syscalls ex t i' tab))"
  by pat_completeness auto
termination
  by (relation "measure (\<lambda>(ex, t, i, _). length t - i)") (auto dest!: get_next_line_range)

declare get_syscall_numbers.simps [simp del] load_syscalls.simps [simp del]

text \<open>The table is as long as its size in bytes, reduced to 32 bits, allows; \<open>granted\<close> is whether there is memory.\<close>

definition parse_syscall_table :: "(u8 list option \<times> nat) list \<Rightarrow> bool \<Rightarrow> u8 list \<Rightarrow> (nat list \<times> u32) option" where
  "parse_syscall_table ex granted t = do {
     n \<leftarrow> get_syscall_numbers t 0 0;
     if n = 0 then None
     else if \<not> granted then None
     else do {
       tab \<leftarrow> load_syscalls ex t 0 (replicate (sz (4 * unat n) div 4) 0);
       Some (tab, n) } }"

text \<open>What a system call does: it returns, or it calls a function with the six arguments.\<close>

datatype outcome = Returns int | Calls nat "u32 list"

definition system_call :: "nat list option \<Rightarrow> u32 \<Rightarrow> u32 \<Rightarrow> u32 list \<Rightarrow> outcome option" where
  "system_call tab number sys_no args = (case tab of None \<Rightarrow> Some (Returns 0)
     | Some fs \<Rightarrow>
         if sys_no > number then Some (Returns 0)
         else if unat sys_no \<ge> length fs then None
         else if fs ! unat sys_no = 0 then Some (Returns (- ENOSYS))
         else Some (Calls (fs ! unat sys_no) args))"

section \<open>Start-up\<close>

text \<open>
  The files by their paths. What a file holds is read up to its first NUL; of the table the code asks for one byte too few, and
  the last byte of the buffer is what the block held (\<open>junk\<close>). The byte written behind the buffer of the path is left out.
\<close>

definition bytes :: "string \<Rightarrow> u8 list" where
  "bytes s = map of_char s"

definition c_text :: "u8 list \<Rightarrow> u8 list" where
  "c_text s = preprocess_ini_data (takeWhile (\<lambda>x. x \<noteq> 0) s)"

definition syscall_init :: "(u8 list \<Rightarrow> u8 list option) \<Rightarrow> u8 \<Rightarrow> (u8 list option \<times> nat) list \<Rightarrow> bool \<Rightarrow> (nat list \<times> u32) option" where
  "syscall_init files junk ex granted = do {
     cfg \<leftarrow> files (bytes ''/boot/config.txt'');
     v \<leftarrow> get_value_from_ini 64 (c_text cfg) (Some (bytes ''syscall'')) (bytes ''SyscallTable'');
     (_, path) \<leftarrow> v;
     tab \<leftarrow> files path;
     if tab = [] then None else parse_syscall_table ex granted (c_text (butlast tab @ [junk])) }"

lemma c_text_id: "(\<forall>x \<in> set s. x \<noteq> 0 \<and> x \<noteq> 35 \<and> x \<noteq> 59) \<Longrightarrow> c_text s = s"
  by (simp add: c_text_def preprocess_id takeWhile_eq_all_conv [THEN iffD2])

section \<open>Reading a table back\<close>

definition render_line :: "syscall \<Rightarrow> u8 list" where
  "render_line l = sc_number l @ 32 # sc_ABI l @ 32 # sc_Name l @ 32 # sc_EntryPoint l"

text \<open>A heading and the lines.\<close>

definition render_table :: "u8 list \<Rightarrow> syscall list \<Rightarrow> u8 list" where
  "render_table h ls = h @ 10 # concat (map (\<lambda>l. render_line l @ [10]) ls)"

definition line_ok :: "syscall \<Rightarrow> bool" where
  "line_ok l \<longleftrightarrow> ini_name 8 (sc_number l) \<and> ini_name 32 (sc_ABI l) \<and> ini_name 32 (sc_Name l) \<and> ini_name 32 (sc_EntryPoint l)"

lemma get_word_name:
  assumes "ini_name cap w" "\<forall>x \<in> set b. x \<noteq> 0 \<and> \<not> is_word_start x" "n = length a" "r = [] \<or> \<not> is_word_char (hd r)"
  shows "get_word cap (a @ b @ w @ r) n = Some (Some (n + length b + length w, w))"
proof -
  obtain x v where w: "w = x # v" "is_word_start x" using ini_name_hd [OF assms(1)] by blast
  have "goto_next_string (a @ b @ x # v @ r) n 0 = Some (Some (n + length b))"
    using assms w word_start_not by (intro goto_next_string_skip) auto
  moreover have "copy_string_data cap ((a @ b) @ w @ r) (n + length b) = Some (w, length w)"
    using assms by (intro ini_name_copy) auto
  ultimately show ?thesis by (simp add: get_word_def w)
qed

lemma not_word_char_nl [simp]: "\<not> is_word_char 10"
  by (simp add: is_word_char_def)

lemma get_line_data_line:
  assumes l: "line_ok l" and n: "n = length a" and r: "r = [] \<or> is_word_start (hd r)"
  shows "get_line_data (a @ render_line l @ 10 # r) n = Some (if r = [] then None else Some l)"
proof -
  obtain num abi nm ent where f: "l = \<lparr>sc_number = num, sc_ABI = abi, sc_Name = nm, sc_EntryPoint = ent\<rparr>" by (cases l)
  define T where "T = a @ render_line l @ 10 # r"
  note o = l [unfolded line_ok_def f, simplified]
  have "get_word 8 (a @ [] @ num @ 32 # abi @ 32 # nm @ 32 # ent @ 10 # r) n = Some (Some (n + length ([] :: u8 list) + length num, num))"
    using o n by (intro get_word_name) auto
  then have 1: "get_word 8 T n = Some (Some (n + length num, num))" by (simp add: T_def f render_line_def)
  have "get_word 32 ((a @ num) @ [32] @ abi @ 32 # nm @ 32 # ent @ 10 # r) (n + length num) = Some (Some (n + length num + length [32 :: u8] + length abi, abi))"
    using o n by (intro get_word_name) auto
  then have 2: "get_word 32 T (n + length num) = Some (Some (n + length num + 1 + length abi, abi))" by (simp add: T_def f render_line_def)
  have "get_word 32 ((a @ num @ 32 # abi) @ [32] @ nm @ 32 # ent @ 10 # r) (n + length num + 1 + length abi)
      = Some (Some (n + length num + 1 + length abi + length [32 :: u8] + length nm, nm))"
    using o n by (intro get_word_name) auto
  then have 3: "get_word 32 T (n + length num + 1 + length abi) = Some (Some (n + length num + 2 + length abi + length nm, nm))"
    by (simp add: T_def f render_line_def)
  have "get_word 32 ((a @ num @ 32 # abi @ 32 # nm) @ [32] @ ent @ 10 # r) (n + length num + 2 + length abi + length nm)
      = Some (Some (n + length num + 2 + length abi + length nm + length [32 :: u8] + length ent, ent))"
    using o n by (intro get_word_name) auto
  then have 4: "get_word 32 T (n + length num + 2 + length abi + length nm) = Some (Some (n + length num + 3 + length abi + length nm + length ent, ent))"
    by (simp add: T_def f render_line_def)
  let ?e = "n + length num + 3 + length abi + length nm + length ent"
  have 5: "goto_next_string T ?e 0 = Some (if r = [] then None else Some (?e + 1))"
  proof (cases r)
    case Nil
    have "goto_next_string ((a @ render_line l) @ [10] @ []) ?e 0 = Some None"
      using n by (intro goto_next_string_stop) (auto simp: f render_line_def)
    then show ?thesis by (simp add: T_def Nil)
  next
    case (Cons x r')
    have "goto_next_string ((a @ render_line l) @ [10] @ x # r') ?e 0 = Some (Some (?e + length [10 :: u8]))"
      using n r Cons word_start_not by (intro goto_next_string_skip) (auto simp: f render_line_def)
    then show ?thesis by (simp add: T_def Cons)
  qed
  show ?thesis unfolding T_def [symmetric] by (simp only: get_line_data_def 1 2 3 4 5 f Option.bind.bind_lunit option.case prod.case) (simp split: option.split)
qed

lemma render_line_hd: "line_ok l \<Longrightarrow> \<exists>x s. render_line l = x # s \<and> is_word_start x"
  using ini_name_hd [of 8 "sc_number l"] by (auto simp: line_ok_def render_line_def)

lemma get_next_line:
  assumes l: "line_ok l" and n: "n = length a" and u: "\<forall>x \<in> set u. x \<noteq> 0 \<and> x \<noteq> 10" and r: "r = [] \<or> is_word_start (hd r)"
  shows "get_next_line_data (a @ u @ 10 # render_line l @ 10 # r) n = Some (if r = [] then None else Some (n + length u + 1, l))"
proof -
  define T where "T = a @ u @ 10 # render_line l @ 10 # r"
  obtain x s where x: "render_line l = x # s" "is_word_start x" using render_line_hd [OF l] by blast
  have 1: "goto_next_char T n 10 0 = Some (Some (n + length u))"
    unfolding T_def using n u by (intro goto_next_char_skip) auto
  have "goto_next_string ((a @ u) @ [10] @ x # s @ 10 # r) (n + length u) 0 = Some (Some (n + length u + length [10 :: u8]))"
    using n x word_start_not by (intro goto_next_string_skip) auto
  then have 2: "goto_next_string T (n + length u) 0 = Some (Some (n + length u + 1))" by (simp add: T_def x)
  have "get_line_data ((a @ u @ [10]) @ render_line l @ 10 # r) (n + length u + 1) = Some (if r = [] then None else Some l)"
    using n by (intro get_line_data_line [OF l _ r]) simp
  then have 3: "get_line_data T (n + length u + 1) = Some (if r = [] then None else Some l)" by (simp add: T_def)
  show ?thesis unfolding T_def [symmetric] by (simp only: get_next_line_data_def goto_next_data_line_def 1 2 3 Option.bind.bind_lunit option.case) simp
qed

section \<open>The table that is loaded\<close>

definition lines_text :: "syscall list \<Rightarrow> u8 list" where
  "lines_text ls = concat (map (\<lambda>l. render_line l @ [10]) ls)"

lemma lines_text_Cons [simp]: "lines_text (l # ls) = render_line l @ 10 # lines_text ls"
  by (simp add: lines_text_def)

lemma lines_text_hd: "list_all line_ok ls \<Longrightarrow> ls \<noteq> [] \<Longrightarrow> lines_text ls \<noteq> [] \<and> is_word_start (hd (lines_text ls))"
  using render_line_hd by (cases ls) fastforce+

lemma line_clean: "line_ok l \<Longrightarrow> \<forall>x \<in> set (render_line l). x \<noteq> 0 \<and> x \<noteq> 10"
proof -
  have "x \<noteq> 0 \<and> x \<noteq> 10" if "ini_name cap w" "x \<in> set w" for cap w x
    using that word_start_not [of x] by (auto simp: ini_name_def list_all_iff)
  moreover assume "line_ok l"
  ultimately show ?thesis by (auto simp: line_ok_def render_line_def)
qed

text \<open>One step of either loop: the last line is not seen.\<close>

lemma next_line_step:
  assumes "list_all line_ok (l # ls)" "n = length a" "\<forall>x \<in> set u. x \<noteq> 0 \<and> x \<noteq> 10"
  shows "get_next_line_data (a @ u @ 10 # lines_text (l # ls)) n = Some (if ls = [] then None else Some (length (a @ u @ [10]), l))"
proof -
  have "lines_text ls = [] \<or> is_word_start (hd (lines_text ls))" using lines_text_hd [of ls] assms(1) by (cases ls) (auto simp: lines_text_def)
  then have "get_next_line_data (a @ u @ 10 # render_line l @ 10 # lines_text ls) n
      = Some (if lines_text ls = [] then None else Some (n + length u + 1, l))"
    using assms by (intro get_next_line) auto
  moreover have "lines_text ls = [] \<longleftrightarrow> ls = []" using lines_text_hd [of ls] assms(1) by (cases ls) (auto simp: lines_text_def)
  ultimately show ?thesis using assms(2) by simp
qed

abbreviation line_number :: "syscall \<Rightarrow> u32" where
  "line_number l \<equiv> str_to_uint32 (sc_number l)"

lemma get_syscall_numbers_lines:
  "list_all line_ok ls \<Longrightarrow> ls \<noteq> [] \<Longrightarrow> n = length a \<Longrightarrow> \<forall>x \<in> set u. x \<noteq> 0 \<and> x \<noteq> 10 \<Longrightarrow>
    get_syscall_numbers (a @ u @ 10 # lines_text ls) n m = Some (fold (\<lambda>l m. max m (line_number l)) (butlast ls) m + 1)"
proof (induction ls arbitrary: a u n m)
  case (Cons l ls)
  note step = next_line_step [OF Cons.prems(1,3,4)]
  show ?case
  proof (cases "ls = []")
    case True
    then show ?thesis by (subst get_syscall_numbers.simps) (simp add: step [unfolded True] del: lines_text_Cons)
  next
    case False
    have "get_syscall_numbers (a @ u @ 10 # lines_text (l # ls)) n m
        = get_syscall_numbers ((a @ u @ [10]) @ render_line l @ 10 # lines_text ls) (length (a @ u @ [10])) (max m (line_number l))"
      using False by (subst get_syscall_numbers.simps) (simp only: step if_False option.case prod.case, simp)
    also have "\<dots> = Some (fold (\<lambda>l m. max m (line_number l)) (butlast ls) (max m (line_number l)) + 1)"
      using Cons.prems False line_clean by (intro Cons.IH) auto
    finally show ?thesis using False by simp
  qed
qed simp

lemma load_syscalls_lines:
  "list_all line_ok ls \<Longrightarrow> ls \<noteq> [] \<Longrightarrow> n = length a \<Longrightarrow> \<forall>x \<in> set u. x \<noteq> 0 \<and> x \<noteq> 10 \<Longrightarrow>
    \<forall>l \<in> set (butlast ls). find_table_by_fnname ex (sc_EntryPoint l) \<noteq> 0 \<and> unat (line_number l) < length tab \<Longrightarrow>
    load_syscalls ex (a @ u @ 10 # lines_text ls) n tab =
      Some (fold (\<lambda>l tab. tab[unat (line_number l) := find_table_by_fnname ex (sc_EntryPoint l)]) (butlast ls) tab)"
proof (induction ls arbitrary: a u n tab)
  case (Cons l ls)
  note step = next_line_step [OF Cons.prems(1,3,4)]
  show ?case
  proof (cases "ls = []")
    case True
    then show ?thesis by (subst load_syscalls.simps) (simp add: step [unfolded True] del: lines_text_Cons)
  next
    case False
    let ?tab = "tab[unat (line_number l) := find_table_by_fnname ex (sc_EntryPoint l)]"
    have l: "load_syscall ex l tab = Some ?tab" using Cons.prems(5) False by (simp add: load_syscall_def Let_def)
    have "load_syscalls ex (a @ u @ 10 # lines_text (l # ls)) n tab
        = load_syscalls ex ((a @ u @ [10]) @ render_line l @ 10 # lines_text ls) (length (a @ u @ [10])) ?tab"
      using False by (subst load_syscalls.simps) (simp only: step if_False option.case prod.case l, simp)
    also have "\<dots> = Some (fold (\<lambda>l tab. tab[unat (line_number l) := find_table_by_fnname ex (sc_EntryPoint l)]) (butlast ls) ?tab)"
      using Cons.prems False line_clean by (intro Cons.IH) auto
    finally show ?thesis using False by simp
  qed
qed simp

lemma fold_max_bound: "m \<le> fold (\<lambda>l m. max m (f l)) ls m \<and> (\<forall>l \<in> set ls. f l \<le> fold (\<lambda>l m. max m (f l)) ls (m :: u32))"
proof (induction ls arbitrary: m)
  case (Cons l ls)
  then show ?case using Cons [of "max m (f l)"] by (auto intro: order_trans [OF max.cobounded1] order_trans [OF max.cobounded2])
qed simp

lemma fold_max_mem: "fold (\<lambda>l m. max m (f l)) ls m \<in> insert (m :: u32) (f ` set ls)"
proof (induction ls arbitrary: m)
  case (Cons l ls)
  then show ?case using Cons [of "max m (f l)"] by (auto simp: max_def split: if_splits)
qed simp

lemma fold_update_nth:
  "k < length tab \<Longrightarrow> \<forall>l \<in> set ls. g l < length tab \<Longrightarrow>
    fold (\<lambda>l tab. tab[g l := f l]) ls tab ! k = (case map_of (rev (map (\<lambda>l. (g l, f l)) ls)) k of None \<Rightarrow> tab ! k | Some x \<Rightarrow> x)"
proof (induction ls arbitrary: tab)
  case (Cons l ls)
  then have "fold (\<lambda>l tab. tab[g l := f l]) ls (tab[g l := f l]) ! k
      = (case map_of (rev (map (\<lambda>l. (g l, f l)) ls)) k of None \<Rightarrow> tab[g l := f l] ! k | Some x \<Rightarrow> x)" by simp
  then show ?case using Cons.prems by (auto simp: map_add_def nth_list_update split: option.splits)
qed simp

lemma length_fold_update [simp]: "length (fold (\<lambda>l tab. tab[g l := f l]) ls tab) = length tab"
  by (induction ls arbitrary: tab) auto

lemma map_of_rev_map:
  "inj f \<Longrightarrow> map_of (rev (map (\<lambda>l. (f (g l), h (e l))) ls)) (f k) = map_option h (map_of (rev (map (\<lambda>l. (g l, e l)) ls)) k)"
  by (induction ls) (auto simp: map_add_def inj_eq split: option.splits)

text \<open>C15: The system call table. From a text of a heading and lines of number, ABI, name and entry point the kernel
  loads all lines but the last one, a later line for the same number replacing an earlier one. A call of a number
  that is listed calls the function of that name with the arguments; one of a number below the greatest that is
  not listed returns \<open>-ENOSYS\<close>; the number one above the greatest passes the test and reads behind the table; beyond, the call returns 0.
\<close>

theorem syscall_table_loaded:
  assumes ok: "list_all line_ok ls" "ls \<noteq> []" "\<forall>x \<in> set h. x \<noteq> 0 \<and> x \<noteq> 10"
    and res: "\<forall>l \<in> set (butlast ls). find_table_by_fnname ex (sc_EntryPoint l) \<noteq> 0"
    and small: "\<forall>l \<in> set ls. str_to_uint32 (sc_number l) < 536870911"
  shows "\<exists>tab N. parse_syscall_table ex True (render_table h ls) = Some (tab, N) \<and>
    N = fold max (map (\<lambda>l. str_to_uint32 (sc_number l)) (butlast ls)) 0 + 1 \<and>
    (\<forall>k < N. system_call (Some tab) N k args = Some
       (case map_of (rev (map (\<lambda>l. (str_to_uint32 (sc_number l), sc_EntryPoint l)) (butlast ls))) k of
          None \<Rightarrow> Returns (- ENOSYS) | Some e \<Rightarrow> Calls (find_table_by_fnname ex e) args)) \<and>
    system_call (Some tab) N N args = None \<and> (\<forall>k > N. system_call (Some tab) N k args = Some (Returns 0))"
proof -
  define M where "M = fold (\<lambda>l m. max m (line_number l)) (butlast ls) 0"
  have t: "render_table h ls = [] @ h @ 10 # lines_text ls" by (simp add: render_table_def lines_text_def)
  have M: "M < 536870911" "\<forall>l \<in> set (butlast ls). line_number l \<le> M"
    using fold_max_mem [of line_number "butlast ls" 0] fold_max_bound [of 0 line_number "butlast ls"] small
    by (auto simp: M_def dest: in_set_butlastD)
  then have uN: "unat (M + 1) = unat M + 1" by (simp add: unat_word_ariths word_less_nat_alt)
  have len: "sz (4 * unat (M + 1)) div 4 = unat M + 1" using M(1) uN by (simp add: word_less_nat_alt)
  define f where "f l = find_table_by_fnname ex (sc_EntryPoint l)" for l :: syscall
  define tab where "tab = fold (\<lambda>l tab. tab[unat (line_number l) := f l]) (butlast ls) (replicate (unat M + 1) 0)"
  have N: "M + 1 = fold max (map line_number (butlast ls)) 0 + 1"
  proof -
    have "(\<lambda>l m. max m (line_number l)) = (\<lambda>l. max (line_number l))" by (simp add: fun_eq_iff max.commute)
    then show ?thesis by (simp add: M_def fold_map comp_def)
  qed
  have nums: "get_syscall_numbers (render_table h ls) 0 0 = Some (M + 1)"
    unfolding t M_def using ok by (intro get_syscall_numbers_lines) auto
  have less: "\<forall>l \<in> set (butlast ls). unat (line_number l) < unat M + 1" using M(2) by (auto simp: word_le_nat_alt)
  have "load_syscalls ex (render_table h ls) 0 (replicate (unat M + 1) 0) = Some tab"
    unfolding t tab_def f_def using ok res less by (intro load_syscalls_lines) auto
  moreover have "M + 1 \<noteq> 0" using uN by (metis Suc_eq_plus1 nat.distinct(1) unat_0)
  ultimately have p: "parse_syscall_table ex True (render_table h ls) = Some (tab, M + 1)"
    by (simp add: parse_syscall_table_def nums len)
  have lt: "length tab = unat M + 1" by (simp add: tab_def)
  have get: "tab ! unat k = (case map_of (rev (map (\<lambda>l. (line_number l, sc_EntryPoint l)) (butlast ls))) k of
      None \<Rightarrow> 0 | Some e \<Rightarrow> find_table_by_fnname ex e)" if "k < M + 1" for k
  proof -
    have k: "unat k < unat M + 1" using that uN by (simp add: word_less_nat_alt)
    have "map_of (rev (map (\<lambda>l. (unat (line_number l), f l)) (butlast ls))) (unat k)
        = map_option (find_table_by_fnname ex) (map_of (rev (map (\<lambda>l. (line_number l, sc_EntryPoint l)) (butlast ls))) k)"
      unfolding f_def by (rule map_of_rev_map) (simp add: inj_def word_unat_eq_iff)
    then show ?thesis using fold_update_nth [of "unat k" "replicate (unat M + 1) 0" "butlast ls" "\<lambda>l. unat (line_number l)" f] k less
        nth_replicate [OF k, of "0 :: nat"] by (auto simp: tab_def nth_Cons' split: option.splits)
  qed
  have nz: "find_table_by_fnname ex e \<noteq> 0" if "map_of (rev (map (\<lambda>l. (line_number l, sc_EntryPoint l)) (butlast ls))) k = Some e" for k e
    using map_of_SomeD [OF that] res by auto
  have "system_call (Some tab) (M + 1) k args = Some
       (case map_of (rev (map (\<lambda>l. (line_number l, sc_EntryPoint l)) (butlast ls))) k of
          None \<Rightarrow> Returns (- ENOSYS) | Some e \<Rightarrow> Calls (find_table_by_fnname ex e) args)" if "k < M + 1" for k
    using get [OF that] nz that uN lt by (auto simp: system_call_def word_less_nat_alt split: option.splits)
  moreover have "system_call (Some tab) (M + 1) (M + 1) args = None" using uN lt by (simp add: system_call_def)
  moreover have "system_call (Some tab) (M + 1) k args = Some (Returns 0)" if "k > M + 1" for k using that by (simp add: system_call_def)
  ultimately show ?thesis using p N by (intro exI [of _ tab] exI [of _ "M + 1"]) simp
qed

text \<open>Lines for the calls 0 and 2 and a last one: 2 is called, 1 is not implemented.\<close>

definition sys_lines :: "syscall list" where
  "sys_lines = [\<lparr>sc_number = [48], sc_ABI = [97], sc_Name = [120], sc_EntryPoint = [120]\<rparr>,
     \<lparr>sc_number = [50], sc_ABI = [97], sc_Name = [121], sc_EntryPoint = [121]\<rparr>,
     \<lparr>sc_number = [57], sc_ABI = [97], sc_Name = [122], sc_EntryPoint = [122]\<rparr>]"

theorem syscall_table_loaded_witness:
  "\<exists>tab. parse_syscall_table [(Some [120], 400), (None, 7), (Some [121], 500)] True (render_table [78] sys_lines) = Some (tab, 3) \<and>
     system_call (Some tab) 3 2 [1] = Some (Calls 500 [1]) \<and> system_call (Some tab) 3 1 [1] = Some (Returns (- ENOSYS)) \<and>
     system_call (Some tab) 3 3 [1] = None"
  using syscall_table_loaded [of sys_lines "[78]" "[(Some [120], 400), (None, 7), (Some [121], 500)]" "[1]"]
  by (auto simp: sys_lines_def line_ok_def ini_name_def is_word_start_def str_to_uint32_def max_def)

end
