(* ===== verification/Loader.thy ===== *)
theory Loader
  imports Syscall
begin

text \<open>
  The loader of user applications, \<^verbatim>\<open>kernel/loader/user_application_loader.c\<close>: its configuration, the checks of
  an image's header, and the relocation of its global offset table.

  Words of memory are at the addresses they are read from; the entries of a table are four bytes apart.
\<close>

section \<open>Headers and configuration\<close>

record app_meta =
  magic :: u32
  kernel_ver :: u32
  cmd :: u32
  arch_flags :: u32
  stack_size :: u32
  start :: u32
  got_start :: u32
  got_end :: u32
  program_size :: u32

record loader_config =
  cf_magic :: u32
  min_kernel_ver :: u32
  max_kernel_ver :: u32
  cf_cmd :: u32
  max_stack_size :: u32
  default_priority :: u32
  cf_arch_flags :: u32
  max_app_size :: u32

definition check_app :: "loader_config \<Rightarrow> app_meta \<Rightarrow> int" where
  "check_app c a =
     (if magic a \<noteq> cf_magic c then - EINVAL
      else if kernel_ver a < min_kernel_ver c \<or> kernel_ver a > max_kernel_ver c then - EINVAL
      else if cmd a \<noteq> cf_cmd c then - EINVAL
      else if arch_flags a \<noteq> cf_arch_flags c then - EINVAL
      else if stack_size a div 1024 > max_stack_size c then - EINVAL
      else if program_size a > max_app_size c * 1024 then - EINVAL
      else 0)"

text \<open>
  \<open>loader_init\<close>: the configuration and what the buffer of the values holds in the end, the path of the first application or else
  the value read last. \<open>files\<close> gives the contents of the file opened at a path; \<open>file_data\<close> and \<open>data\<close> are what
  \<open>kmalloc\<close> returns for the two blocks, 0 or an address. Where the code stops the boot the result is \<open>None\<close>, and
  so it is where it writes through \<open>data\<close> without having tested it for NULL.
\<close>

definition conf_value :: "u8 list \<Rightarrow> string \<Rightarrow> u8 list option" where
  "conf_value t k = do {
     v \<leftarrow> get_value_from_ini 64 t (Some (bytes ''Loader_Config'')) (bytes k);
     (_, s) \<leftarrow> v;
     Some s }"

definition loader_init :: "nat \<Rightarrow> nat \<Rightarrow> (u8 list \<Rightarrow> u8 list option) \<Rightarrow> (loader_config \<times> u8 list) option" where
  "loader_init file_data data files = do {
     cfg \<leftarrow> files (bytes ''/boot/config.txt'');
     (if file_data = 0 then None else Some ());
     let t = c_text cfg;
     (if data = 0 then None else Some ());
     mg \<leftarrow> conf_value t ''magic'';
     lo \<leftarrow> conf_value t ''min_kernel_ver'';
     hi \<leftarrow> conf_value t ''max_kernel_ver'';
     cm \<leftarrow> conf_value t ''cmd'';
     ss \<leftarrow> conf_value t ''max_stack_size_limit'';
     pr \<leftarrow> conf_value t ''default_priority'';
     ar \<leftarrow> conf_value t ''arch_flags'';
     ms \<leftarrow> conf_value t ''max_app_size'';
     p \<leftarrow> get_value_from_ini 64 t (Some (bytes ''user_start_app'')) (bytes ''path'');
     Some (\<lparr>cf_magic = str_to_uint32 mg, min_kernel_ver = str_to_uint32 lo, max_kernel_ver = str_to_uint32 hi,
        cf_cmd = str_to_uint32 cm, max_stack_size = str_to_uint32 ss, default_priority = str_to_uint32 pr,
        cf_arch_flags = str_to_uint32 ar,
        max_app_size = (if ms = bytes ''Auto'' then 4294967295 else str_to_uint32 ms)\<rparr>,
       (case p of None \<Rightarrow> ms | Some (_, s) \<Rightarrow> s)) }"

section \<open>Relocation\<close>

text \<open>The loop over the entries; it need not end, since the address wraps round.\<close>

partial_function (option) relocate :: "u32 \<Rightarrow> u32 \<Rightarrow> u32 \<Rightarrow> (u32 \<Rightarrow> u32) \<Rightarrow> (u32 \<Rightarrow> u32) option" where
  "relocate base entry bound m =
     (if entry < bound then relocate base (entry + 4) bound (if m entry \<noteq> 0 then m(entry := m entry + base) else m)
      else Some m)"

definition set_got_table :: "app_meta \<Rightarrow> u32 \<Rightarrow> (u32 \<Rightarrow> u32) \<Rightarrow> (u32 \<Rightarrow> u32) option" where
  "set_got_table a base m = relocate base (got_start a + base) (got_end a + base) m"

text \<open>The address the application starts at.\<close>

definition start_address :: "app_meta \<Rightarrow> u32 \<Rightarrow> u32" where
  "start_address a base = start a + base"

lemma relocate_entries:
  assumes "unat entry + 4 * n < 2 ^ 32" "unat bound \<le> unat entry + 4 * n" "0 < n \<longrightarrow> unat entry + 4 * (n - 1) < unat bound"
  shows "relocate base entry bound m =
    Some (\<lambda>x. if \<exists>i < n. x = entry + of_nat (4 * i) then (if m x \<noteq> 0 then m x + base else 0) else m x)"
  using assms
proof (induction n arbitrary: entry m)
  case 0
  then show ?case by (subst relocate.simps) (simp add: word_less_nat_alt)
next
  case (Suc n)
  have u: "unat (entry + of_nat (4 * k)) = unat entry + 4 * k" if "k \<le> Suc n" for k
    using that Suc.prems by (simp add: unat_word_ariths unat_of_nat_small take_bit_nat_eq_self)
  have lt: "entry < bound" using Suc.prems by (simp add: word_less_nat_alt)
  have u4: "unat (entry + 4) = unat entry + 4" using u [of 1] by simp
  let ?m = "if m entry \<noteq> 0 then m(entry := m entry + base) else m"
  have "relocate base entry bound m = relocate base (entry + 4) bound ?m"
    using lt by (subst relocate.simps) (simp only: if_True)
  also have "\<dots> = Some (\<lambda>x. if \<exists>i < n. x = entry + 4 + of_nat (4 * i) then (if ?m x \<noteq> 0 then ?m x + base else 0) else ?m x)"
    using u4 Suc.prems by (intro Suc.IH) auto
  also have "\<dots> = Some (\<lambda>x. if \<exists>i < Suc n. x = entry + of_nat (4 * i) then (if m x \<noteq> 0 then m x + base else 0) else m x)"
  proof -
    have ne: "entry + 4 + of_nat (4 * i) \<noteq> entry" if "i < n" for i
    proof
      assume "entry + 4 + of_nat (4 * i) = entry"
      then have "entry + of_nat (4 * Suc i) = entry" by simp
      then show False using u [of "Suc i"] that by simp
    qed
    have ex: "(\<exists>i < Suc n. x = entry + of_nat (4 * i)) \<longleftrightarrow> x = entry \<or> (\<exists>i < n. x = entry + 4 + of_nat (4 * i))" for x
      by (simp add: Ex_less_Suc2 add.assoc)
    show ?thesis unfolding ex using ne by (auto simp: fun_eq_iff)
  qed
  finally show ?case .
qed

text \<open>When the bound lies above the last entry before the address wraps round, the loop never sees an entry that is not below it.\<close>

lemma relocate_wraps: "relocate base entry bound m = Some m' \<Longrightarrow> unat bound \<le> 4294967292 + unat entry mod 4"
proof (induction rule: relocate.raw_induct [rotated, consumes 1])
  case (1 f base entry bound m m')
  have "unat (entry + 4) mod 4 = unat entry mod 4" by (simp add: unat_word_ariths mod_mod_cancel)
  moreover have "unat entry \<le> 4294967292 + unat entry mod 4"
  proof -
    have "unat entry < 2 ^ 32" using unsigned_less [of entry] by simp
    then have "unat entry div 4 \<le> 1073741823" by simp
    then show ?thesis using div_mult_mod_eq [of "unat entry" 4] by linarith
  qed
  ultimately show ?case
  proof (cases "entry < bound")
    case True
    then have "f base (entry + 4) bound (if m entry \<noteq> 0 then m(entry := m entry + base) else m) = Some m'" using 1(2) by simp
    from 1(1) [OF this] show ?thesis using \<open>unat (entry + 4) mod 4 = unat entry mod 4\<close> by simp
  next
    case False
    then have "unat bound \<le> unat entry" by (simp add: word_less_nat_alt)
    then show ?thesis using \<open>unat entry \<le> 4294967292 + unat entry mod 4\<close> by linarith
  qed
qed

lemma got_room:
  fixes s e :: nat
  assumes "s < 4294967296" "e \<le> 4294967292 + s mod 4"
  shows "s + 4 * ((e - s + 3) div 4) < 4294967296"
proof (cases "e \<le> s")
  case False
  define n where "n = (e - s + 3) div 4"
  have "4 * n \<le> e - s + 3" unfolding n_def by simp
  then have "s + 4 * n \<le> 4294967295 + s mod 4" using assms False by linarith
  moreover have "(s + 4 * n) mod 4 = s mod 4" by simp
  ultimately have "4 * ((s + 4 * n) div 4) \<le> 4294967295" using div_mult_mod_eq [of "s + 4 * n" 4] by linarith
  then have "(s + 4 * n) div 4 \<le> 1073741823" by simp
  then show ?thesis unfolding n_def [symmetric] using mod_less_divisor [of 4 "s + 4 * n"] div_mult_mod_eq [of "s + 4 * n" 4] by linarith
qed (use assms in simp)

text \<open>C19: Relocation of an image loaded at \<open>base\<close>. The loop over the global offset table ends exactly when the last entry does not lie
  at the end of the address space, and then it has added the base to every entry that is not zero and
  changed nothing else; otherwise it goes round the address space for ever.
\<close>

theorem got_relocation:
  "set_got_table a base m = (let s = got_start a + base; e = got_end a + base in
     if unat e \<le> 4294967292 + unat s mod 4
     then Some (\<lambda>x. if \<exists>i < (unat e - unat s + 3) div 4. x = s + of_nat (4 * i) then (if m x \<noteq> 0 then m x + base else 0) else m x)
     else None)"
proof -
  define s e where "s = got_start a + base" and "e = got_end a + base"
  have "set_got_table a base m = (if unat e \<le> 4294967292 + unat s mod 4
     then Some (\<lambda>x. if \<exists>i < (unat e - unat s + 3) div 4. x = s + of_nat (4 * i) then (if m x \<noteq> 0 then m x + base else 0) else m x)
     else None)"
  proof (cases "unat e \<le> 4294967292 + unat s mod 4")
  case True
  have s: "unat s < 2 ^ 32" using unsigned_less [of s] by simp
  have "relocate base s e m = Some (\<lambda>x. if \<exists>i < (unat e - unat s + 3) div 4. x = s + of_nat (4 * i) then (if m x \<noteq> 0 then m x + base else 0) else m x)"
  proof (rule relocate_entries)
    show "unat s + 4 * ((unat e - unat s + 3) div 4) < 2 ^ 32" using got_room [OF _ True] s by simp
    show "unat e \<le> unat s + 4 * ((unat e - unat s + 3) div 4)" by linarith
    show "0 < (unat e - unat s + 3) div 4 \<longrightarrow> unat s + 4 * ((unat e - unat s + 3) div 4 - 1) < unat e" by linarith
  qed
  then show ?thesis using True by (simp add: set_got_table_def s_def e_def)
next
  case False
  then have "relocate base s e m = None" using relocate_wraps [of base s e m] by (cases "relocate base s e m") auto
  then show ?thesis using False by (simp add: set_got_table_def s_def e_def)
qed
  then show ?thesis by (simp only: Let_def s_def e_def)
qed

text \<open>An image with an entry at 36, loaded at 4096; and one loaded so high that its table ends at the last address.\<close>

theorem got_relocation_witness:
  "set_got_table \<lparr>magic = 1, kernel_ver = 1, cmd = 0, arch_flags = 0, stack_size = 0, start = 44, got_start = 36, got_end = 40,
      program_size = 64\<rparr> 4096 (\<lambda>x. x) = Some (\<lambda>x. if x = 4132 then 8228 else x) \<and>
   set_got_table \<lparr>magic = 1, kernel_ver = 1, cmd = 0, arch_flags = 0, stack_size = 0, start = 44, got_start = 0, got_end = 15,
      program_size = 64\<rparr> 4294967280 (\<lambda>x. x) = None"
  by (auto simp: got_relocation fun_eq_iff)

section \<open>The configuration that is read\<close>

lemma conf_value_read:
  assumes "ini_file 64 secs"
  shows "conf_value (render_ini secs) k = Option.bind (map_of secs (bytes ''Loader_Config'')) (\<lambda>es. map_of es (bytes k))"
  using ini_lookup_value [OF assms, of "bytes ''Loader_Config''" "bytes k"]
  unfolding conf_value_def
  by (cases "map_of secs (bytes ''Loader_Config'')"; cases "get_value_from_ini 64 (render_ini secs) (Some (bytes ''Loader_Config'')) (bytes k)") (auto split: Option.bind_splits)

definition conf_keys :: "string list" where
  "conf_keys = [''magic'', ''min_kernel_ver'', ''max_kernel_ver'', ''cmd'', ''max_stack_size_limit'', ''default_priority'', ''arch_flags'', ''max_app_size'']"

text \<open>C18: The loader's configuration. From a configuration file written from sections of entries, without comment characters, start-up
  reads the eight numbers of the section \<open>Loader_Config\<close> (\<open>Auto\<close> is the greatest size) and the path of the first application, in whose
  place it keeps the last value read when there is none. It gets past this exactly when both of its blocks are had and none of the
  eight is missing: without the first block, or with a number missing, it stops the boot; without the second it writes at address 63.
\<close>

theorem loader_config_read:
  assumes "ini_file 64 secs" and "\<forall>x \<in> set (render_ini secs). x \<noteq> 0 \<and> x \<noteq> 35 \<and> x \<noteq> 59"
    and "files (bytes ''/boot/config.txt'') = Some (render_ini secs)"
  shows "loader_init file_data data files = (if file_data = 0 \<or> data = 0 then None else case map_of secs (bytes ''Loader_Config'') of None \<Rightarrow> None | Some es \<Rightarrow>
    let v = (\<lambda>k. the (map_of es (bytes k))); n = (\<lambda>k. str_to_uint32 (v k)) in
    if \<exists>k \<in> set conf_keys. map_of es (bytes k) = None then None
    else Some (\<lparr>cf_magic = n ''magic'', min_kernel_ver = n ''min_kernel_ver'', max_kernel_ver = n ''max_kernel_ver'',
        cf_cmd = n ''cmd'', max_stack_size = n ''max_stack_size_limit'', default_priority = n ''default_priority'',
        cf_arch_flags = n ''arch_flags'',
        max_app_size = (if v ''max_app_size'' = bytes ''Auto'' then 4294967295 else n ''max_app_size'')\<rparr>,
      (case Option.bind (map_of secs (bytes ''user_start_app'')) (\<lambda>es. map_of es (bytes ''path'')) of
         None \<Rightarrow> v ''max_app_size'' | Some p \<Rightarrow> p)))"
proof -
  obtain p where p: "get_value_from_ini 64 (render_ini secs) (Some (bytes ''user_start_app'')) (bytes ''path'') = Some p"
    "map_option snd p = Option.bind (map_of secs (bytes ''user_start_app'')) (\<lambda>es. map_of es (bytes ''path''))"
    using ini_lookup_value [OF assms(1), of "bytes ''user_start_app''" "bytes ''path''"] by (auto split: option.splits)
  have no: "loader_init file_data data files = None" if "file_data = 0 \<or> data = 0"
    using that by (auto simp: loader_init_def assms(3) Let_def)
  note e = loader_init_def assms(3) c_text_id [OF assms(2)] conf_value_read [OF assms(1)] p(1) Let_def
  consider "file_data = 0 \<or> data = 0"
    | "file_data \<noteq> 0" "data \<noteq> 0" "map_of secs (bytes ''Loader_Config'') = None"
    | es where "file_data \<noteq> 0" "data \<noteq> 0" "map_of secs (bytes ''Loader_Config'') = Some es"
    by fastforce
  then show ?thesis
  proof cases
    case 1
    then show ?thesis using no by simp
  next
    case 2
    then show ?thesis by (simp add: e)
  next
    case Some: (3 es)
    have v: "(case p of None \<Rightarrow> x | Some (_, s) \<Rightarrow> s) = (case map_option snd p of None \<Rightarrow> x | Some s \<Rightarrow> s)" for x
      by (cases p) auto
    show ?thesis
    proof (cases "\<exists>k \<in> set conf_keys. map_of es (bytes k) = None")
      case True
      then have "loader_init file_data data files = None" by (auto simp: e Some conf_keys_def Option.bind_eq_None_conv)
      then show ?thesis using True Some by simp
    next
      case False
      then have "map_of es (bytes k) = Some (the (map_of es (bytes k)))" if "k \<in> set conf_keys" for k using that by auto
      then have "conf_value (render_ini secs) k = Some (the (map_of es (bytes k)))" if "k \<in> set conf_keys" for k
        using that by (simp add: conf_value_read [OF assms(1)] Some)
      note c = this [of "''magic''"] this [of "''min_kernel_ver''"] this [of "''max_kernel_ver''"] this [of "''cmd''"]
        this [of "''max_stack_size_limit''"] this [of "''default_priority''"] this [of "''arch_flags''"] this [of "''max_app_size''"]
      note c' = c [unfolded conf_keys_def, simplified]
      show ?thesis unfolding loader_init_def assms(3) Option.bind.bind_lunit Let_def c_text_id [OF assms(2)] c' p(1) v p(2)
        using False Some by simp
    qed
  qed
qed

text \<open>A file with the eight numbers.\<close>

definition boot_config :: "(u8 list \<times> entries) list" where
  "boot_config = [(bytes ''Loader_Config'', map (\<lambda>k. (bytes k, bytes ''7'')) conf_keys), (bytes ''syscall'', [])]"

theorem loader_config_read_witness:
  "loader_init 4096 8192 [bytes ''/boot/config.txt'' \<mapsto> render_ini boot_config]
   = Some (\<lparr>cf_magic = 7, min_kernel_ver = 7, max_kernel_ver = 7, cf_cmd = 7, max_stack_size = 7, default_priority = 7,
       cf_arch_flags = 7, max_app_size = 7\<rparr>, bytes ''7'') \<and>
   loader_init 4096 0 [bytes ''/boot/config.txt'' \<mapsto> render_ini boot_config] = None"
proof -
  have 1: "ini_file 64 boot_config"
    by (simp add: boot_config_def conf_keys_def ini_file_def ini_entries_def ini_name_def ini_value_def bytes_def is_word_start_def)
  have 2: "\<forall>x \<in> set (render_ini boot_config). x \<noteq> 0 \<and> x \<noteq> 35 \<and> x \<noteq> 59"
    by (simp add: boot_config_def conf_keys_def render_ini_def render_section_def render_entry_def bytes_def)
  show ?thesis
    by (subst (1 2) loader_config_read [OF 1 2]) (simp_all add: boot_config_def conf_keys_def bytes_def str_to_uint32_def Let_def)
qed

end
