(* ===== verification/Partition.thy ===== *)
theory Partition
  imports Bytes
begin

text \<open>
  MBR partition tables, \<^verbatim>\<open>block/partition.c\<close>: their layout in the first sector, the search for a free slot, and the
  creation and deletion of partitions.

  A device is the sectors it is read from, a read failing when there is none (\<open>None\<close>), the number of its
  sectors, and what the bytes behind its descriptor read as (\<open>behind\<close>), since the code looks there for a table. A table is a list of four entries.
\<close>

section \<open>Entries\<close>

record mbr_partition =
  boot_ind :: u8
  start_head :: u8
  start_sector :: u8
  start_cyl :: u8
  sys_ind :: u8
  end_head :: u8
  end_sector :: u8
  end_cyl :: u8
  start_lba :: u32
  nr_sectors :: u32

definition empty_mbr :: mbr_partition where
  "empty_mbr = \<lparr>boot_ind = 0, start_head = 0, start_sector = 0, start_cyl = 0, sys_ind = 0, end_head = 0, end_sector = 0,
     end_cyl = 0, start_lba = 0, nr_sectors = 0\<rparr>"

text \<open>The sixteen bytes of an entry, packed; the processor is little endian.\<close>

definition mbr_bytes :: "mbr_partition \<Rightarrow> u8 list" where
  "mbr_bytes p = [boot_ind p, start_head p, start_sector p, start_cyl p, sys_ind p, end_head p, end_sector p, end_cyl p]
     @ le_bytes 4 (start_lba p) @ le_bytes 4 (nr_sectors p)"

definition mbr_of_bytes :: "u8 list \<Rightarrow> mbr_partition" where
  "mbr_of_bytes s = \<lparr>boot_ind = s ! 0, start_head = s ! 1, start_sector = s ! 2, start_cyl = s ! 3, sys_ind = s ! 4,
     end_head = s ! 5, end_sector = s ! 6, end_cyl = s ! 7,
     start_lba = of_bytes (take 4 (drop 8 s)), nr_sectors = of_bytes (take 4 (drop 12 s))\<rparr>"

type_synonym mbr_table = "mbr_partition list"

abbreviation (input) INVALID_PARTITION :: u32 where "INVALID_PARTITION \<equiv> 4294967295"

definition check_empty_MBR_Table :: "mbr_table \<Rightarrow> nat \<Rightarrow> bool" where
  "check_empty_MBR_Table p i \<longleftrightarrow> list_all (\<lambda>x. x = 0) (mbr_bytes (p ! i))"

definition clear_MBR_Table :: "mbr_table \<Rightarrow> nat \<Rightarrow> mbr_table" where
  "clear_MBR_Table p i = p[i := mbr_of_bytes (replicate 16 0)]"

definition get_empty_MBR_Table :: "mbr_table \<Rightarrow> nat option" where
  "get_empty_MBR_Table p = find (check_empty_MBR_Table p) [0..<4]"

definition MBR_partition_table_create :: "u8 \<Rightarrow> u32 \<Rightarrow> u32 \<Rightarrow> u8 \<Rightarrow> mbr_partition" where
  "MBR_partition_table_create boot start n flag = \<lparr>boot_ind = boot, start_head = 32, start_sector = 33, start_cyl = 0, sys_ind = flag,
     end_head = 254, end_sector = 63, end_cyl = 1, start_lba = start, nr_sectors = n\<rparr>"

definition get_mbr_partition_size :: "mbr_table \<Rightarrow> int \<Rightarrow> u32" where
  "get_mbr_partition_size p i = (if i < 0 \<or> i > 3 then INVALID_PARTITION
     else if check_empty_MBR_Table p (nat i) then INVALID_PARTITION
     else nr_sectors (p ! nat i))"

definition get_mbr_partition_start_address :: "mbr_table \<Rightarrow> int \<Rightarrow> u32" where
  "get_mbr_partition_start_address p i = (if i < 0 \<or> i > 3 then INVALID_PARTITION
     else if check_empty_MBR_Table p (nat i) then INVALID_PARTITION
     else start_lba (p ! nat i))"

definition get_mbr_partition_type :: "mbr_table \<Rightarrow> int \<Rightarrow> u8" where
  "get_mbr_partition_type p i = (if i < 0 \<or> i > 3 then 255
     else if check_empty_MBR_Table p (nat i) then 255
     else sys_ind (p ! nat i))"

definition set_mbr_partition_size :: "mbr_table \<Rightarrow> int \<Rightarrow> u32 \<Rightarrow> int \<times> mbr_table" where
  "set_mbr_partition_size p i n = (if i < 0 \<or> i > 3 then (-1, p)
     else if check_empty_MBR_Table p (nat i) then (-1, p)
     else (0, p[nat i := (p ! nat i)\<lparr>nr_sectors := n\<rparr>]))"

definition set_mbr_partition_start_address :: "mbr_table \<Rightarrow> int \<Rightarrow> u32 \<Rightarrow> int \<times> mbr_table" where
  "set_mbr_partition_start_address p i a = (if i < 0 \<or> i > 3 then (-1, p)
     else if check_empty_MBR_Table p (nat i) then (-1, p)
     else (0, p[nat i := (p ! nat i)\<lparr>start_lba := a\<rparr>]))"

definition set_mbr_partition_type :: "mbr_table \<Rightarrow> int \<Rightarrow> u8 \<Rightarrow> int \<times> mbr_table" where
  "set_mbr_partition_type p i t = (if i < 0 \<or> i > 3 then (-1, p)
     else if check_empty_MBR_Table p (nat i) then (-1, p)
     else (0, p[nat i := (p ! nat i)\<lparr>sys_ind := t\<rparr>]))"

text \<open>\<open>tidy_up_MBR_Table\<close>: which slots are taken is found once; three passes of exchanges with the next slot.\<close>

definition move_MBR_Table :: "nat \<Rightarrow> nat \<Rightarrow> mbr_table \<Rightarrow> mbr_table" where
  "move_MBR_Table from to p = p[to := p ! from, from := mbr_of_bytes (replicate 16 0)]"

definition tidy_step :: "nat \<Rightarrow> bool list \<times> mbr_table \<Rightarrow> bool list \<times> mbr_table" where
  "tidy_step k sp = (let (state, p) = sp in
     if \<not> state ! k \<and> state ! (k + 1) then (state[k := True, k + 1 := False], move_MBR_Table (k + 1) k p) else (state, p))"

definition tidy_up_MBR_Table :: "mbr_table \<Rightarrow> mbr_table" where
  "tidy_up_MBR_Table p = snd (fold tidy_step ([0..<3] @ [0..<3] @ [0..<3]) (map (\<lambda>i. \<not> check_empty_MBR_Table p i) [0..<4], p))"

section \<open>The device\<close>

record device =
  sectors :: "nat \<Rightarrow> u8 list option"
  bd_nr_sectors :: u64
  behind :: "nat \<Rightarrow> mbr_partition"

definition mbr_partition_table_load :: "device \<Rightarrow> mbr_table option" where
  "mbr_partition_table_load d = do {
     s \<leftarrow> sectors d 0;
     Some (map (\<lambda>i. mbr_of_bytes (take 16 (drop (446 + 16 * i) s))) [0..<4]) }"

text \<open>
  The sector is made up in a fresh block: \<open>junk\<close> is what its first 446 bytes held, \<open>None\<close> when there is no memory.
  The result is \<open>-1\<close> when the write succeeds, and \<open>0\<close> when it fails.
\<close>

definition mbr_partition_table_update :: "u8 list option \<Rightarrow> bool \<Rightarrow> mbr_table \<Rightarrow> device \<Rightarrow> int \<times> device" where
  "mbr_partition_table_update junk written p d =
     (case junk of None \<Rightarrow> (-1, d)
      | Some s \<Rightarrow> if written then (-1, d\<lparr>sectors := (sectors d)(0 \<mapsto> s @ concat (map mbr_bytes p) @ [85, 170])\<rparr>)
          else (0, d))"

datatype block_device_flags = BLOCK_DEVICE_FLAG_NOT_INITIALIZED | BLOCK_DEVICE_FLAG_MBR | BLOCK_DEVICE_FLAG_GPT
  | BLOCK_DEVICE_FLAG_PROTECTIVE_MBR | BLOCK_DEVICE_FLAG_BROKEN_MBR | BLOCK_DEVICE_FLAG_BROKEN_GPT
  | BLOCK_DEVICE_FLAG_BROKEN_PROTECTIVE_MBR

definition gpt_head :: "u8 list" where
  "gpt_head = [69, 70, 73, 32, 80, 65, 82, 84]"

definition detect_partition_table :: "device \<Rightarrow> block_device_flags option" where
  "detect_partition_table d = do {
     s \<leftarrow> sectors d 0;
     let f = (if s ! 510 = 85 \<and> s ! 511 = 170 then BLOCK_DEVICE_FLAG_MBR else BLOCK_DEVICE_FLAG_NOT_INITIALIZED);
     s \<leftarrow> sectors d 1;
     Some (if take 8 s = gpt_head then if f = BLOCK_DEVICE_FLAG_MBR then BLOCK_DEVICE_FLAG_PROTECTIVE_MBR else BLOCK_DEVICE_FLAG_GPT else f) }"

definition mbr_table_delete :: "u8 list option \<Rightarrow> bool \<Rightarrow> int \<Rightarrow> block_device_flags \<Rightarrow> device \<Rightarrow> int \<times> device" where
  "mbr_table_delete junk written i f d =
     (if f \<noteq> BLOCK_DEVICE_FLAG_MBR \<and> f \<noteq> BLOCK_DEVICE_FLAG_PROTECTIVE_MBR then (-1, d)
      else if i < 0 \<or> i > 3 then (-1, d)
      else case mbr_partition_table_load d of None \<Rightarrow> (-1, d)
        | Some p \<Rightarrow> if check_empty_MBR_Table p (nat i) then (-1, d)
            else (0, snd (mbr_partition_table_update junk written
              (tidy_up_MBR_Table (p[nat i := mbr_of_bytes (replicate 16 0)])) d)))"

text \<open>Where the new partition goes: after the previous one, or at sector 2048, rounded up to a multiple of 8.\<close>

definition start_for :: "mbr_table \<Rightarrow> nat \<Rightarrow> device \<Rightarrow> u32 option" where
  "start_for p i d = do {
     let a = (if i = 0 then INVALID_PARTITION else get_mbr_partition_start_address p (int i - 1));
     a \<leftarrow> (if a = INVALID_PARTITION then if bd_nr_sectors d < 2048 then None else Some 2048
          else Some (a + get_mbr_partition_size p (int i - 1)));
     Some (if a mod 8 > 0 then a - a mod 8 + 8 else a) }"

text \<open>Where it has to end: the entry after it is looked for behind the device's descriptor, not in the table.\<close>

definition end_for :: "nat \<Rightarrow> device \<Rightarrow> u32" where
  "end_for i d = (let e = (if i + 1 < 4
       then get_mbr_partition_start_address (map (behind d) [0..<4]) (int i + 1) else INVALID_PARTITION) in
     if e = INVALID_PARTITION then ucast (bd_nr_sectors d - 33 - 1) else e)"

definition mbr_partition_table_format :: "u8 list option \<Rightarrow> bool \<Rightarrow> u32 \<Rightarrow> u8 \<Rightarrow> device \<Rightarrow> int \<times> device" where
  "mbr_partition_table_format junk written n t d =
     (case mbr_partition_table_load d of None \<Rightarrow> (-1, d)
      | Some p \<Rightarrow> let n = n div 8 * 8 in
         (case get_empty_MBR_Table p of None \<Rightarrow> (-1, d)
          | Some i \<Rightarrow> (case start_for p i d of None \<Rightarrow> (-1, d)
             | Some a \<Rightarrow> let e = end_for i d in
                 if e < a then (-1, d)
                 else let n = (if e \<le> a + n then e - a else n) in
                   if n = 0 then (-1, d)
                   else (0, snd (mbr_partition_table_update junk written
                     (tidy_up_MBR_Table (p[i := MBR_partition_table_create 0 a n t])) d)))))"

definition create_mbr_artiton :: "u8 list option \<Rightarrow> bool \<Rightarrow> u32 \<Rightarrow> u8 \<Rightarrow> device \<Rightarrow> int \<times> device" where
  "create_mbr_artiton junk written n t d = mbr_partition_table_format junk written n t d"

definition get_partiton_data :: "mbr_table option \<Rightarrow> int \<Rightarrow> u32 \<Rightarrow> u32" where
  "get_partiton_data p i fl = (case p of None \<Rightarrow> 0 | Some p \<Rightarrow>
     if fl = 1 then get_mbr_partition_start_address p i
     else if fl = 2 then get_mbr_partition_size p i
     else if fl = 3 then ucast (get_mbr_partition_type p i)
     else 0)"

text \<open>\<open>granted\<close> is whether there is memory for the table or the sector.\<close>

definition get_partition_from_device :: "bool \<Rightarrow> device \<Rightarrow> int + mbr_table" where
  "get_partition_from_device granted d =
     (if \<not> granted then Inl (- ENOMEM)
      else case mbr_partition_table_load d of None \<Rightarrow> Inl (- EIO) | Some p \<Rightarrow> Inr p)"

fun flag_number :: "block_device_flags \<Rightarrow> int" where
  "flag_number BLOCK_DEVICE_FLAG_NOT_INITIALIZED = 0"
| "flag_number BLOCK_DEVICE_FLAG_MBR = 1"
| "flag_number BLOCK_DEVICE_FLAG_GPT = 2"
| "flag_number BLOCK_DEVICE_FLAG_PROTECTIVE_MBR = 3"
| "flag_number BLOCK_DEVICE_FLAG_BROKEN_MBR = 4"
| "flag_number BLOCK_DEVICE_FLAG_BROKEN_GPT = 5"
| "flag_number BLOCK_DEVICE_FLAG_BROKEN_PROTECTIVE_MBR = 6"

definition get_partition_type :: "bool \<Rightarrow> device \<Rightarrow> int option" where
  "get_partition_type granted d = (if \<not> granted then Some (- ENOMEM) else map_option flag_number (detect_partition_table d))"

section \<open>Entries and their bytes\<close>

lemma of_le_bytes: "of_bytes (le_bytes 4 w) = (w :: u32)"
proof (rule bit_word_eqI)
  fix n assume "n < LENGTH(32)"
  then consider "n < 8" | "8 \<le> n" "n < 16" | "16 \<le> n" "n < 24" | "24 \<le> n" "n < 32" by force
  then show "bit (of_bytes (le_bytes 4 w) :: u32) n = bit w n"
    by cases (auto simp: le_bytes_def upt_conv_Cons bit_simps)
qed

lemma le_bytes_zero: "list_all (\<lambda>x. x = 0) (le_bytes 4 w) \<longleftrightarrow> w = (0 :: u32)"
proof
  assume "list_all (\<lambda>x. x = 0) (le_bytes 4 w)"
  then have "le_bytes 4 w = replicate 4 0" by (intro replicate_eqI) (auto simp: list_all_iff)
  moreover have "of_bytes (replicate 4 0) = (0 :: u32)" by (simp add: numeral_eq_Suc)
  ultimately show "w = 0" using of_le_bytes [of w] by simp
qed (auto simp: le_bytes_def list_all_iff)

lemma length_mbr_bytes [simp]: "length (mbr_bytes p) = 16"
  by (simp add: mbr_bytes_def)

lemma mbr_of_mbr_bytes [simp]: "mbr_of_bytes (mbr_bytes p) = p"
  by (cases p) (simp add: mbr_of_bytes_def mbr_bytes_def of_le_bytes)

lemma mbr_of_zero [simp]: "mbr_of_bytes (replicate 16 0) = empty_mbr"
  by (simp add: mbr_of_bytes_def empty_mbr_def numeral_eq_Suc)

lemma check_empty [simp]: "check_empty_MBR_Table p i \<longleftrightarrow> p ! i = empty_mbr"
  by (cases "p ! i") (auto simp: check_empty_MBR_Table_def mbr_bytes_def empty_mbr_def le_bytes_zero)

lemma tidy_filter:
  assumes "length p = 4"
  shows "tidy_up_MBR_Table p = filter (\<lambda>e. e \<noteq> empty_mbr) p @ replicate (length (filter (\<lambda>e. e = empty_mbr) p)) empty_mbr"
proof -
  obtain a b c d where p: "p = [a, b, c, d]" using assms by (auto simp: numeral_eq_Suc length_Suc_conv)
  show ?thesis unfolding p
    by (cases "a = empty_mbr"; cases "b = empty_mbr"; cases "c = empty_mbr"; cases "d = empty_mbr")
      (simp_all add: tidy_up_MBR_Table_def upt_conv_Cons tidy_step_def move_MBR_Table_def)
qed

section \<open>Creating and deleting\<close>

text \<open>A table as the code leaves it: the first \<open>k\<close> slots are taken and the others are free.\<close>

definition packed :: "mbr_table \<Rightarrow> nat \<Rightarrow> bool" where
  "packed p k \<longleftrightarrow> length p = 4 \<and> k \<le> 4 \<and> (\<forall>i < 4. p ! i = empty_mbr \<longleftrightarrow> k \<le> i)"

lemma packed_nth: "packed p k \<Longrightarrow> i < 4 \<Longrightarrow> p ! i = empty_mbr \<longleftrightarrow> k \<le> i"
  by (simp add: packed_def)

lemma packed_split:
  assumes "packed p k"
  shows "p = take k p @ replicate (4 - k) empty_mbr" "list_all (\<lambda>e. e \<noteq> empty_mbr) (take k p)"
proof -
  have l: "length p = 4" "k \<le> 4" using assms by (simp_all add: packed_def)
  show "p = take k p @ replicate (4 - k) empty_mbr"
    by (rule nth_equalityI) (use l packed_nth [OF assms] in \<open>auto simp: nth_append\<close>)
  show "list_all (\<lambda>e. e \<noteq> empty_mbr) (take k p)"
    using l packed_nth [OF assms] by (auto simp: list_all_length)
qed

lemma packedI:
  assumes "list_all (\<lambda>e. e \<noteq> empty_mbr) xs" "length xs = k" "k \<le> 4"
  shows "packed (xs @ replicate (4 - k) empty_mbr) k"
  using assms by (auto simp: packed_def nth_append list_all_length)

lemma tidy_packed:
  assumes "list_all (\<lambda>e. e \<noteq> empty_mbr) xs" "length xs + n = 4"
  shows "tidy_up_MBR_Table (xs @ replicate n empty_mbr) = xs @ replicate n empty_mbr"
  using assms by (subst tidy_filter) (auto simp: list_all_iff)

lemma first_free:
  assumes "packed p k" "k < 4"
  shows "get_empty_MBR_Table p = Some k"
  unfolding get_empty_MBR_Table_def find_Some_iff
  by (rule exI [of _ k]) (use assms packed_nth [OF assms(1)] in auto)

lemma packed_snoc:
  assumes "packed p k" "k < 4"
  shows "packed (p[k := MBR_partition_table_create b a m t]) (Suc k)"
proof -
  have "MBR_partition_table_create b a m t \<noteq> empty_mbr" by (simp add: MBR_partition_table_create_def empty_mbr_def)
  then show ?thesis using assms by (auto simp: packed_def nth_list_update)
qed

lemma load_update:
  assumes "length junk = 446" "length p = 4"
  shows "mbr_partition_table_load (snd (mbr_partition_table_update (Some junk) True p d)) = Some p"
proof -
  obtain a b c e where p: "p = [a, b, c, e]" using assms(2) by (auto simp: numeral_eq_Suc length_Suc_conv)
  show ?thesis unfolding p using assms(1)
    by (simp add: mbr_partition_table_load_def mbr_partition_table_update_def upt_conv_Cons)
qed

lemma update_other: "s \<noteq> 0 \<Longrightarrow> sectors (snd (mbr_partition_table_update junk w p d)) s = sectors d s"
  by (simp add: mbr_partition_table_update_def split: option.splits)

definition align8 :: "u32 \<Rightarrow> u32" where
  "align8 a = (if a mod 8 > 0 then a - a mod 8 + 8 else a)"

lemma rounded_up: "x = 8 * q + r \<Longrightarrow> r < 8 \<Longrightarrow> 0 < r \<Longrightarrow> (x + 7) div 8 = q + (1 :: nat)"
  by (rule div_nat_eqI) simp_all

lemma rounded_zero: "x = 8 * q \<Longrightarrow> (x + 7) div 8 = (q :: nat)"
  by (rule div_nat_eqI) simp_all

lemma align8_up:
  assumes "unat a + 7 < 2 ^ 32"
  shows "unat (align8 a) = (unat a + 7) div 8 * 8"
proof -
  have m: "unat (a mod 8) = unat a mod 8" by (simp add: unat_mod)
  have "unat (align8 a) = (if unat a mod 8 > 0 then unat a - unat a mod 8 + 8 else unat a)"
  proof (cases "a mod 8 > 0")
    case True
    have "a mod 8 \<le> a" by (simp add: word_le_nat_alt m)
    then have "unat (a - a mod 8) = unat a - unat a mod 8" by (simp add: unat_sub m)
    moreover have "unat a - unat a mod 8 + 8 < 2 ^ 32" using assms True by (simp add: word_less_nat_alt m)
    ultimately show ?thesis using True by (simp add: align8_def word_less_nat_alt m unat_word_ariths)
  next
    case False
    then show ?thesis by (simp add: align8_def word_less_nat_alt m)
  qed
  moreover have "(if x mod 8 > 0 then x - x mod 8 + 8 else x) = (x + 7) div 8 * 8" for x :: nat
  proof -
    have x: "x = 8 * (x div 8) + x mod 8" "x mod 8 < 8" by simp_all
    show ?thesis
    proof (cases "x mod 8 > 0")
      case True
      then have "x - x mod 8 + 8 = 8 * (x div 8) + 8" by (simp flip: minus_mod_eq_mult_div)
      then show ?thesis using True rounded_up [OF x True] by (simp only: if_True) simp
    next
      case False
      then have "x = 8 * (x div 8)" using x(1) by simp
      then have "(x + 7) div 8 = x div 8" by (rule rounded_zero)
      then show ?thesis using False \<open>x = 8 * (x div 8)\<close> by simp
    qed
  qed
  ultimately show ?thesis by simp
qed

lemma start_for_first: "start_for p 0 d = (if bd_nr_sectors d < 2048 then None else Some 2048)"
  by (simp add: start_for_def)

lemma start_for_next:
  assumes "packed p k" "0 < k" "k < 4" "start_lba (p ! (k - 1)) \<noteq> INVALID_PARTITION"
  shows "start_for p k d = Some (align8 (start_lba (p ! (k - 1)) + nr_sectors (p ! (k - 1))))"
proof -
  have "p ! (k - 1) \<noteq> empty_mbr" using packed_nth [OF assms(1), of "k - 1"] assms(2,3) by simp
  moreover have "nat (int k - 1) = k - 1" using assms(2) by simp
  ultimately show ?thesis using assms(2-4)
    by (simp add: start_for_def get_mbr_partition_start_address_def get_mbr_partition_size_def align8_def Let_def)
qed

lemma clip_size:
  fixes a e n :: u32
  assumes "\<not> e < a" "unat a + unat n < 2 ^ 32"
  defines "m \<equiv> (if e \<le> a + n div 8 * 8 then e - a else n div 8 * 8)"
  shows "unat a + unat m \<le> unat e" "m \<le> n"
proof -
  have "unat n < 2 ^ 32" using unsigned_less [of n] by simp
  then have "unat n div 8 * 8 < 2 ^ 32" using div_times_less_eq_dividend [of "unat n" 8] by linarith
  then have n: "unat (n div 8 * 8) = unat n div 8 * 8" by (simp add: unat_div unat_word_ariths)
  then have le: "unat (n div 8 * 8) \<le> unat n" by simp
  then have "unat (a + n div 8 * 8) = unat a + unat (n div 8 * 8)" using assms(2) by (simp add: unat_word_ariths)
  moreover have "unat (e - a) = unat e - unat a" using assms(1) by (simp add: unat_sub)
  ultimately show "unat a + unat m \<le> unat e" "m \<le> n" using le assms(1)
    by (auto simp: m_def word_le_nat_alt word_less_nat_alt)
qed


text \<open>What the creation of a partition writes.\<close>

lemma format_table:
  assumes d: "mbr_partition_table_load d = Some p" and p: "packed p k" "k < 4" and junk: "length junk = 446"
    and r: "mbr_partition_table_format (Some junk) True n t d = (0, d')"
  obtains a m where "start_for p k d = Some a" "\<not> end_for k d < a" "m \<noteq> 0"
    "m = (if end_for k d \<le> a + n div 8 * 8 then end_for k d - a else n div 8 * 8)"
    "mbr_partition_table_load d' = Some (p[k := MBR_partition_table_create 0 a m t])"
    "\<And>s. s \<noteq> 0 \<Longrightarrow> sectors d' s = sectors d s"
proof -
  obtain a where a: "start_for p k d = Some a"
    using r by (cases "start_for p k d") (auto simp: mbr_partition_table_format_def d first_free [OF p] Let_def)
  define m where "m = (if end_for k d \<le> a + n div 8 * 8 then end_for k d - a else n div 8 * 8)"
  let ?q = "p[k := MBR_partition_table_create 0 a m t]"
  have r: "\<not> end_for k d < a" "m \<noteq> 0" "d' = snd (mbr_partition_table_update (Some junk) True (tidy_up_MBR_Table ?q) d)"
    using r by (auto simp: mbr_partition_table_format_def d first_free [OF p] a Let_def m_def split: if_splits)
  have q: "packed ?q (Suc k)" using p by (rule packed_snoc)
  have "tidy_up_MBR_Table ?q = ?q"
    using packed_split [OF q] p tidy_packed [of "take (Suc k) ?q" "4 - Suc k"] by (simp add: packed_def)
  then show ?thesis using that [OF a r(1,2) m_def] load_update [OF junk, of ?q d] update_other p r(3)
    by (simp add: packed_def)
qed

lemma align8_aligned: "unat (align8 a) mod 8 = 0"
proof -
  have m: "unat (a mod 8) = unat a mod 8" by (simp add: unat_mod)
  have "a mod 8 \<le> a" by (simp add: word_le_nat_alt m)
  then have "unat (a - a mod 8) = unat a - unat a mod 8" by (simp add: unat_sub m)
  then have s: "8 dvd unat (a - a mod 8)" by (simp add: minus_mod_eq_mult_div)
  then have "8 dvd (unat (a - a mod 8) + 8)" by simp
  then have "8 dvd (unat (a - a mod 8) + 8) mod 2 ^ 32" by (simp add: dvd_mod_iff)
  then have "8 dvd unat (a - a mod 8 + 8)" by (simp add: unat_word_ariths)
  then show ?thesis by (auto simp: align8_def word_less_nat_alt m simp flip: mod_eq_0_iff_dvd)
qed

lemma start_for_aligned:
  assumes "start_for p i d = Some a"
  shows "unat a mod 8 = 0"
proof -
  have "\<exists>b. a = align8 b"
    using assms unfolding start_for_def Let_def align8_def [symmetric]
    by (auto split: if_splits Option.bind_splits)
  then show ?thesis by (auto simp: align8_aligned)
qed

text \<open>The partitions of a table follow each other on the disk without overlap.\<close>

definition placed :: "mbr_partition list \<Rightarrow> bool" where
  "placed = sorted_wrt (\<lambda>x y. unat (start_lba x) + unat (nr_sectors x) \<le> unat (start_lba y))"

lemma placed_snoc:
  assumes "placed xs" "xs \<noteq> [] \<Longrightarrow> unat (start_lba (last xs)) + unat (nr_sectors (last xs)) \<le> unat (start_lba y)"
  shows "placed (xs @ [y])"
proof (cases xs rule: rev_cases)
  case (snoc zs z)
  have "unat (start_lba x) + unat (nr_sectors x) \<le> unat (start_lba y)" if "x \<in> set zs" for x
    using assms that snoc by (fastforce simp: placed_def sorted_wrt_append)
  then show ?thesis using assms snoc by (auto simp: placed_def sorted_wrt_append)
qed (simp add: placed_def)

lemma placed_drop:
  assumes "placed (xs @ y # ys)"
  shows "placed (xs @ ys)"
  using assms by (simp add: placed_def sorted_wrt_append)

lemma start_for_after:
  assumes p: "packed p k" "0 < k" "k < 4" and room: "unat (start_lba (p ! (k - 1))) + unat (nr_sectors (p ! (k - 1))) + 7 < 2 ^ 32"
    and a: "start_for p k d = Some a"
  shows "unat (start_lba (p ! (k - 1))) + unat (nr_sectors (p ! (k - 1))) \<le> unat a"
proof -
  let ?s = "start_lba (p ! (k - 1)) + nr_sectors (p ! (k - 1))"
  have s: "unat ?s = unat (start_lba (p ! (k - 1))) + unat (nr_sectors (p ! (k - 1)))" using room by (simp add: unat_word_ariths)
  have "start_lba (p ! (k - 1)) \<noteq> INVALID_PARTITION" using room by auto
  then have "a = align8 ?s" using start_for_next [OF p] a by simp
  then have "unat a = (unat ?s + 7) div 8 * 8" using align8_up [of ?s] room s by simp
  then show ?thesis using s by linarith
qed

lemma create_placed:
  assumes d: "mbr_partition_table_load d = Some p" and p: "packed p k" "placed (take k p)" and junk: "length junk = 446"
    and room: "k = 0 \<or> unat (start_lba (p ! (k - 1))) + unat (nr_sectors (p ! (k - 1))) + 7 < 2 ^ 32"
    and r: "create_mbr_artiton (Some junk) True n t d = (0, d')"
  obtains a m where "k < 4" "mbr_partition_table_load d' = Some (p[k := MBR_partition_table_create 0 a m t])"
    "packed (p[k := MBR_partition_table_create 0 a m t]) (Suc k)" "placed (take k p @ [MBR_partition_table_create 0 a m t])"
    "unat a mod 8 = 0" "0 < m" "unat a + unat n < 2 ^ 32 \<Longrightarrow> m \<le> n \<and> unat a + unat m \<le> unat (end_for k d)"
    "\<And>s. s \<noteq> 0 \<Longrightarrow> sectors d' s = sectors d s"
proof -
  have k: "k < 4"
  proof (rule ccontr)
    assume "\<not> k < 4"
    then have "get_empty_MBR_Table p = None" using packed_nth [OF p(1)] by (auto simp: get_empty_MBR_Table_def find_None_iff)
    then show False using r by (simp add: create_mbr_artiton_def mbr_partition_table_format_def d Let_def)
  qed
  obtain a m where am: "start_for p k d = Some a" "\<not> end_for k d < a" "m \<noteq> 0"
    "m = (if end_for k d \<le> a + n div 8 * 8 then end_for k d - a else n div 8 * 8)"
    "mbr_partition_table_load d' = Some (p[k := MBR_partition_table_create 0 a m t])"
    "\<And>s. s \<noteq> 0 \<Longrightarrow> sectors d' s = sectors d s"
    using format_table [OF d p(1) k junk, of n t d'] r unfolding create_mbr_artiton_def by metis
  have after: "unat (start_lba (last (take k p))) + unat (nr_sectors (last (take k p))) \<le> unat a" if "take k p \<noteq> []"
  proof -
    have "0 < k" "last (take k p) = p ! (k - 1)" using that p(1) k by (auto simp: packed_def last_conv_nth)
    then show ?thesis using start_for_after [OF p(1) _ k _ am(1)] room by simp
  qed
  show ?thesis
    by (rule that [OF k am(5) packed_snoc [OF p(1) k] placed_snoc [OF p(2)] start_for_aligned [OF am(1)] _ _ am(6)])
      (use after am(3) clip_size [OF am(2), of n] in \<open>auto simp: word_gt_0 am(4) MBR_partition_table_create_def\<close>)
qed


lemma delete_packed:
  assumes d: "mbr_partition_table_load d = Some p" and p: "packed p k" "placed (take k p)" and junk: "length junk = 446"
    and r: "mbr_table_delete (Some junk) True (int i) f d = (0, d')"
  obtains q where "i < k" "mbr_partition_table_load d' = Some q" "packed q (k - 1)" "placed (take (k - 1) q)"
    "take (k - 1) q = take i p @ drop (Suc i) (take k p)" "\<And>s. s \<noteq> 0 \<Longrightarrow> sectors d' s = sectors d s"
proof -
  have i: "i < 4" "p ! i \<noteq> empty_mbr"
    and d': "d' = snd (mbr_partition_table_update (Some junk) True (tidy_up_MBR_Table (p[i := empty_mbr])) d)"
    using r by (auto simp: mbr_table_delete_def d split: if_splits)
  then have ik: "i < k" using packed_nth [OF p(1), of i] by simp
  define xs ys where "xs = take i p" and "ys = drop (Suc i) (take k p)"
  have tk: "take k p = xs @ p ! i # ys"
    using id_take_nth_drop [of i "take k p"] ik p(1) by (simp add: xs_def ys_def packed_def)
  have l: "length p = 4" "length xs = i" "length xs + length ys = k - 1" "k \<le> 4"
    using p(1) ik i(1) by (simp_all add: packed_def xs_def ys_def)
  have ne: "list_all (\<lambda>e. e \<noteq> empty_mbr) (xs @ ys)" using packed_split(2) [OF p(1)] tk by simp
  have "p[i := empty_mbr] = xs @ empty_mbr # ys @ replicate (4 - k) empty_mbr"
    by (subst packed_split(1) [OF p(1)]) (simp add: tk list_update_append l(2))
  then have q: "tidy_up_MBR_Table (p[i := empty_mbr]) = (xs @ ys) @ replicate (4 - (k - 1)) empty_mbr"
    using tidy_filter [of "p[i := empty_mbr]"] l ne ik by (simp add: list_all_iff filter_id_conv Suc_diff_le flip: replicate_Suc)
  let ?q = "(xs @ ys) @ replicate (4 - (k - 1)) empty_mbr"
  have lq: "length ?q = 4" "take (k - 1) ?q = xs @ ys" using l ik by simp_all
  have "packed ?q (k - 1)"
    using packedI [OF ne, of "k - 1"] l by simp
  moreover have "placed (xs @ ys)" using p(2) unfolding tk by (rule placed_drop)
  ultimately show ?thesis
  proof (intro that [OF ik])
    show "mbr_partition_table_load d' = Some ?q" unfolding d' q by (rule load_update [OF junk lq(1)])
    show "take (k - 1) ?q = take i p @ drop (Suc i) (take k p)" using lq(2) unfolding xs_def ys_def .
  qed (simp_all only: lq(2) d' update_other not_False_eq_True)
qed

text \<open>C16: On a table whose first slots are taken by partitions that follow each other without overlap, creating a
  partition leaves such a table, with the old entries as they were, the new one aligned to eight sectors after them and, when
  the sum does not wrap around, no larger than asked for and within the end the code computes; deleting one leaves such a table
  without it; neither writes another sector than the first.
\<close>

theorem mbr_table_packed:
  assumes "mbr_partition_table_load d = Some p" "packed p k" "placed (take k p)" "length junk = 446"
    and "k = 0 \<or> unat (start_lba (p ! (k - 1))) + unat (nr_sectors (p ! (k - 1))) + 7 < 2 ^ 32"
  shows "(create_mbr_artiton (Some junk) True n t d = (0, d') \<longrightarrow>
      (\<exists>q a m. mbr_partition_table_load d' = Some q \<and> packed q (k + 1) \<and> placed (take (k + 1) q)
        \<and> take (k + 1) q = take k p @ [MBR_partition_table_create 0 a m t] \<and> unat a mod 8 = 0 \<and> 0 < m
        \<and> (unat a + unat n < 2 ^ 32 \<longrightarrow> m \<le> n \<and> unat a + unat m \<le> unat (end_for k d))
        \<and> (\<forall>s > 0. sectors d' s = sectors d s)))
    \<and> (mbr_table_delete (Some junk) True (int i) f d = (0, d') \<longrightarrow>
      (\<exists>q. mbr_partition_table_load d' = Some q \<and> packed q (k - 1) \<and> placed (take (k - 1) q)
        \<and> take (k - 1) q = take i p @ drop (i + 1) (take k p) \<and> (\<forall>s > 0. sectors d' s = sectors d s)))"
proof (intro conjI impI)
  assume "create_mbr_artiton (Some junk) True n t d = (0, d')"
  then obtain a m where a: "k < 4" "mbr_partition_table_load d' = Some (p[k := MBR_partition_table_create 0 a m t])"
    "packed (p[k := MBR_partition_table_create 0 a m t]) (Suc k)" "placed (take k p @ [MBR_partition_table_create 0 a m t])"
    "unat a mod 8 = 0" "0 < m" "unat a + unat n < 2 ^ 32 \<Longrightarrow> m \<le> n \<and> unat a + unat m \<le> unat (end_for k d)"
    "\<And>s. s \<noteq> 0 \<Longrightarrow> sectors d' s = sectors d s"
    using create_placed [OF assms] by metis
  have "take (k + 1) (p[k := MBR_partition_table_create 0 a m t]) = take k p @ [MBR_partition_table_create 0 a m t]"
    using a(1) assms(2) by (simp add: packed_def take_Suc_conv_app_nth)
  with a show "\<exists>q a m. mbr_partition_table_load d' = Some q \<and> packed q (k + 1) \<and> placed (take (k + 1) q)
        \<and> take (k + 1) q = take k p @ [MBR_partition_table_create 0 a m t] \<and> unat a mod 8 = 0 \<and> 0 < m
        \<and> (unat a + unat n < 2 ^ 32 \<longrightarrow> m \<le> n \<and> unat a + unat m \<le> unat (end_for k d))
        \<and> (\<forall>s > 0. sectors d' s = sectors d s)"
    by (intro exI [of _ "p[k := MBR_partition_table_create 0 a m t]"] exI [of _ a] exI [of _ m]) simp
next
  assume "mbr_table_delete (Some junk) True (int i) f d = (0, d')"
  then obtain q where "mbr_partition_table_load d' = Some q" "packed q (k - 1)" "placed (take (k - 1) q)"
    "take (k - 1) q = take i p @ drop (Suc i) (take k p)" "\<And>s. s \<noteq> 0 \<Longrightarrow> sectors d' s = sectors d s"
    using delete_packed [OF assms(1-4)] by metis
  then show "\<exists>q. mbr_partition_table_load d' = Some q \<and> packed q (k - 1) \<and> placed (take (k - 1) q)
        \<and> take (k - 1) q = take i p @ drop (i + 1) (take k p) \<and> (\<forall>s > 0. sectors d' s = sectors d s)" by auto
qed


definition blank_disk :: device where
  "blank_disk = \<lparr>sectors = (\<lambda>_. Some (replicate 512 0)), bd_nr_sectors = 100000, behind = (\<lambda>_. empty_mbr)\<rparr>"

lemma blank_disk_values:
  "mbr_partition_table_load blank_disk = Some (replicate 4 empty_mbr)"
  "fst (create_mbr_artiton (Some (replicate 446 0)) True 1000 131 blank_disk) = 0"
  by code_simp+

theorem mbr_table_packed_witness:
  "\<exists>q a m. mbr_partition_table_load (snd (create_mbr_artiton (Some (replicate 446 0)) True 1000 131 blank_disk)) = Some q
     \<and> packed q 1 \<and> take 1 q = [MBR_partition_table_create 0 a m 131] \<and> unat a mod 8 = 0 \<and> 0 < m"
proof -
  have "packed (replicate 4 empty_mbr) 0" by (simp add: packed_def)
  from mbr_table_packed [OF blank_disk_values(1) this _ _ disjI1, of "replicate 446 0" 1000 131
      "snd (create_mbr_artiton (Some (replicate 446 0)) True 1000 131 blank_disk)"]
  show ?thesis using blank_disk_values(2) by (fastforce simp: placed_def prod_eq_iff)
qed

end
