(* ===== verification/W25q.thy ===== *)
theory W25q
  imports Bytes
begin

text \<open>
  The driver of the serial flash chips W25Qxx, \<^verbatim>\<open>drivers/storage/w25qxx/w25qxx.h\<close> and the transfers of \<^verbatim>\<open>w25qxx.c\<close>.

  The chip is reached through the four functions the driver keeps in its \<open>w25qxx_dev\<close>; they act on the state \<open>'c\<close> of the
  chip and its wires, which is a parameter. What the chip does with the commands is the hypothesis \<open>flash_chip\<close>, after its data sheet.
\<close>

section \<open>Commands\<close>

record 'c w25qxx_dev =
  send_start :: "'c \<Rightarrow> 'c"
  send_stop :: "'c \<Rightarrow> 'c"
  send_data :: "u8 list \<Rightarrow> 'c \<Rightarrow> 'c"
  read_data :: "nat \<Rightarrow> 'c \<Rightarrow> u8 list \<times> 'c"

text \<open>A command with an address: the low three bytes, the highest first.\<close>

definition command :: "u8 \<Rightarrow> u32 \<Rightarrow> u8 list" where
  "command b a = [b, ucast (drop_bit 16 a), ucast (drop_bit 8 a), ucast a]"

definition W25Qxx_write_enable :: "'c w25qxx_dev \<Rightarrow> 'c \<Rightarrow> 'c" where
  "W25Qxx_write_enable dev c = send_stop dev (send_data dev [6] (send_start dev c))"

text \<open>
  The two bytes that come back replace those that were sent, and only the second is set again for the next turn: what is sent in
  place of the command from then on is the first byte read.
\<close>

partial_function (option) busy_loop :: "'c w25qxx_dev \<Rightarrow> u8 \<Rightarrow> 'c \<Rightarrow> 'c option" where
  "busy_loop dev x c = (let (s, c) = read_data dev 2 (send_data dev [x, 255] c) in
     if s ! 1 AND 1 = 1 then busy_loop dev (s ! 0) c else Some c)"

definition W25Qxx_wait_busy :: "'c w25qxx_dev \<Rightarrow> 'c \<Rightarrow> 'c option" where
  "W25Qxx_wait_busy dev c = map_option (send_stop dev) (busy_loop dev 5 (send_start dev c))"

definition W25Qxx_erase_sector :: "'c w25qxx_dev \<Rightarrow> u32 \<Rightarrow> 'c \<Rightarrow> 'c" where
  "W25Qxx_erase_sector dev n c =
     send_stop dev (send_data dev (command 32 (n * 4096)) (send_start dev (W25Qxx_write_enable dev c)))"

definition W25Qxx_write :: "'c w25qxx_dev \<Rightarrow> u8 list \<Rightarrow> u32 \<Rightarrow> 'c \<Rightarrow> 'c option" where
  "W25Qxx_write dev s a c = do {
     c \<leftarrow> W25Qxx_wait_busy dev c;
     let c = W25Qxx_write_enable dev c;
     Some (send_stop dev (send_data dev s (send_data dev (command 2 a) (send_start dev c)))) }"

text \<open>The number of bytes is 16 bits wide.\<close>

definition W25Qxx_read :: "'c w25qxx_dev \<Rightarrow> u32 \<Rightarrow> u16 \<Rightarrow> 'c \<Rightarrow> (u8 list \<times> 'c) option" where
  "W25Qxx_read dev a n c = do {
     c \<leftarrow> W25Qxx_wait_busy dev c;
     let (s, c) = read_data dev (unat n) (send_data dev (command 3 a) (send_start dev c));
     Some (s, send_stop dev c) }"

text \<open>\<open>s\<close> is the buffer; the code reads 256 bytes of it for each page, and beyond its end is a fault.\<close>

fun write_pages :: "'c w25qxx_dev \<Rightarrow> nat \<Rightarrow> u8 list \<Rightarrow> u32 \<Rightarrow> 'c \<Rightarrow> 'c option" where
  "write_pages dev 0 s a c = Some c"
| "write_pages dev (Suc n) s a c = (if length s < 256 then None else do {
     c \<leftarrow> W25Qxx_write dev (take 256 s) a c;
     write_pages dev n (drop 256 s) (a + 256) c })"

definition W25Qxx_device_write_page :: "'c w25qxx_dev \<Rightarrow> u8 list \<Rightarrow> nat \<Rightarrow> u32 \<Rightarrow> 'c \<Rightarrow> (int \<times> 'c) option" where
  "W25Qxx_device_write_page dev s len page_4k c =
     map_option (Pair (int len)) (write_pages dev (len div 256) s (page_4k * 4096) (W25Qxx_erase_sector dev page_4k c))"

definition W25Qxx_device_read_page :: "'c w25qxx_dev \<Rightarrow> nat \<Rightarrow> u32 \<Rightarrow> 'c \<Rightarrow> (int \<times> u8 list \<times> 'c) option" where
  "W25Qxx_device_read_page dev len page_512b c =
     map_option (Pair (int len)) (W25Qxx_read dev (page_512b * 512) (of_nat len) c)"

text \<open>
  The size from the identification: \<open>1 << id[2]\<close>, 0 when the third byte is none of a chip. The manufacturer's number is read
  after it.
\<close>

definition w25qxx_read_id :: "'c w25qxx_dev \<Rightarrow> 'c \<Rightarrow> (u32 \<times> u8 list) option \<times> 'c" where
  "w25qxx_read_id dev c = (let
     (i, c) = read_data dev 3 (send_data dev [159] (send_start dev c));
     c = send_stop dev c;
     n = (if 16 \<le> i ! 2 \<and> i ! 2 \<le> 37 then push_bit (unat (i ! 2)) 1 else 0) in
     if n = 0 then (None, c)
     else let (i, c) = read_data dev 2 (send_data dev [144, 0, 0, 0] (send_start dev c)) in (Some (n, i), send_stop dev c))"

section \<open>Segments\<close>

text \<open>\<open>memcpy\<close> of \<open>n\<close> bytes between two blocks, from and to offsets.\<close>

definition copy_into :: "u8 list \<Rightarrow> nat \<Rightarrow> u8 list \<Rightarrow> nat \<Rightarrow> nat \<Rightarrow> u8 list option" where
  "copy_into d i s j n = (if i + n \<le> length d \<and> j + n \<le> length s
     then Some (take i d @ take n (drop j s) @ drop (i + n) d) else None)"

text \<open>
  Writing the segment \<open>s\<close> at the 512 byte sector \<open>start\<close>: whole aligned pages directly, anything else through the
  driver's buffer of 4096 bytes, which has the old contents of the page read into it first. The result is that of the last transfer.
\<close>

definition write_segment :: "'c w25qxx_dev \<Rightarrow> u32 \<Rightarrow> u8 list \<Rightarrow> 'c \<Rightarrow> (int \<times> 'c) option" where
  "write_segment dev start s c = (let page_4k = start div 8; off = unat (start mod 8) * 512; len = length s in
     if off = 0 \<and> len = 4096 then W25Qxx_device_write_page dev s len page_4k c
     else do {
       (ret, buf, c) \<leftarrow> W25Qxx_device_read_page dev 4096 page_4k c;
       if ret < 0 then Some (ret, c) else do {
       let n = min (4096 - off) len;
       buf \<leftarrow> copy_into buf off s 0 n;
       (ret, c) \<leftarrow> W25Qxx_device_write_page dev buf 4096 page_4k c;
       if ret < 0 \<or> off + len \<le> 4096 then Some (ret, c) else do {
       (ret, buf, c) \<leftarrow> W25Qxx_device_read_page dev 4096 (page_4k + 1) c;
       if ret < 0 then Some (ret, c) else do {
       buf \<leftarrow> copy_into buf 0 s n (len - n);
       W25Qxx_device_write_page dev buf 4096 (page_4k + 1) c }}}})"

definition read_segment :: "'c w25qxx_dev \<Rightarrow> u32 \<Rightarrow> nat \<Rightarrow> 'c \<Rightarrow> (int \<times> u8 list \<times> 'c) option" where
  "read_segment dev start len c = W25Qxx_device_read_page dev len start c"


section \<open>The chip\<close>

text \<open>
  What the data sheet promises of a chip of \<open>N\<close> bytes: \<open>cells\<close> are its contents, \<open>ready\<close> says that it is deselected
  and not busy. After the command to read it the status comes again and again, whatever is sent meanwhile, until its lowest bit clears; then nothing has changed.
  A chip that is ready reads, erases a sector of 4096 bytes to ones, and clears bits of a page of 256 bytes; the last two need
  the write enable command before them, and leave the chip busy for some time.
\<close>

definition poll :: "'c w25qxx_dev \<Rightarrow> u8 \<Rightarrow> 'c \<Rightarrow> u8 list \<times> 'c" where
  "poll dev x c = read_data dev 2 (send_data dev [x, 255] c)"

definition polls :: "'c w25qxx_dev \<Rightarrow> u8 list \<Rightarrow> 'c \<Rightarrow> 'c" where
  "polls dev xs c = fold (\<lambda>x c. snd (poll dev x c)) xs c"

definition select_with :: "'c w25qxx_dev \<Rightarrow> u8 \<Rightarrow> nat \<Rightarrow> 'c \<Rightarrow> 'c" where
  "select_with dev b a c = send_data dev [b, of_nat (a div 65536), of_nat (a div 256), of_nat a] (send_start dev c)"

definition enabled :: "'c w25qxx_dev \<Rightarrow> 'c \<Rightarrow> 'c" where
  "enabled dev c = send_stop dev (send_data dev [6] (send_start dev c))"

definition settles :: "'c w25qxx_dev \<Rightarrow> ('c \<Rightarrow> nat \<Rightarrow> u8) \<Rightarrow> ('c \<Rightarrow> bool) \<Rightarrow> bool" where
  "settles dev cells ready \<longleftrightarrow> (\<forall>c. \<exists>n. \<forall>xs x. hd (xs @ [x]) = 5 \<longrightarrow> length xs \<le> n \<longrightarrow>
     (case poll dev x (polls dev xs (send_start dev c)) of (s, c') \<Rightarrow>
        (s ! 1 AND 1 = 1 \<longleftrightarrow> length xs < n) \<and>
        (length xs = n \<longrightarrow> ready (send_stop dev c') \<and> cells (send_stop dev c') = cells c)))"

definition reads :: "'c w25qxx_dev \<Rightarrow> ('c \<Rightarrow> nat \<Rightarrow> u8) \<Rightarrow> ('c \<Rightarrow> bool) \<Rightarrow> nat \<Rightarrow> bool" where
  "reads dev cells ready N \<longleftrightarrow> (\<forall>c a n. ready c \<longrightarrow> a + n \<le> N \<longrightarrow>
     (case read_data dev n (select_with dev 3 a c) of (s, c') \<Rightarrow>
        s = map (cells c) [a ..< a + n] \<and> ready (send_stop dev c') \<and> cells (send_stop dev c') = cells c))"

definition erases :: "'c w25qxx_dev \<Rightarrow> ('c \<Rightarrow> nat \<Rightarrow> u8) \<Rightarrow> ('c \<Rightarrow> bool) \<Rightarrow> nat \<Rightarrow> bool" where
  "erases dev cells ready N \<longleftrightarrow> (\<forall>c p. ready c \<longrightarrow> (p + 1) * 4096 \<le> N \<longrightarrow>
     cells (send_stop dev (select_with dev 32 (p * 4096) (enabled dev c))) =
       (\<lambda>x. if x div 4096 = p then 255 else cells c x))"

definition programs :: "'c w25qxx_dev \<Rightarrow> ('c \<Rightarrow> nat \<Rightarrow> u8) \<Rightarrow> ('c \<Rightarrow> bool) \<Rightarrow> nat \<Rightarrow> bool" where
  "programs dev cells ready N \<longleftrightarrow> (\<forall>c p s. ready c \<longrightarrow> (p + 1) * 256 \<le> N \<longrightarrow> length s = 256 \<longrightarrow>
     cells (send_stop dev (send_data dev s (select_with dev 2 (p * 256) (enabled dev c)))) =
       (\<lambda>x. if x div 256 = p then cells c x AND s ! (x mod 256) else cells c x))"

definition flash_chip :: "'c w25qxx_dev \<Rightarrow> ('c \<Rightarrow> nat \<Rightarrow> u8) \<Rightarrow> ('c \<Rightarrow> bool) \<Rightarrow> nat \<Rightarrow> bool" where
  "flash_chip dev cells ready N \<longleftrightarrow> N \<le> 16777216 \<and> settles dev cells ready \<and> reads dev cells ready N \<and>
     erases dev cells ready N \<and> programs dev cells ready N"

section \<open>What the commands do\<close>

lemma command_select: "a < 16777216 \<Longrightarrow> send_data dev (command b (of_nat a)) (send_start dev c) = select_with dev b a c"
proof -
  assume "a < 16777216"
  then have u: "unat (of_nat a :: u32) = a" by (intro unat_of_nat_small) simp
  have "(ucast (drop_bit k (of_nat a :: u32)) :: u8) = of_nat (a div 2 ^ k)" for k
  proof -
    have "(ucast (drop_bit k (of_nat a :: u32)) :: u8) = of_nat (unat (drop_bit k (of_nat a :: u32)))" by simp
    also have "unat (drop_bit k (of_nat a :: u32)) = a div 2 ^ k" by (simp only: unat_drop_bit_eq u) (simp only: drop_bit_eq_div)
    finally show ?thesis .
  qed
  from this [of 16] this [of 8] this [of 0] show ?thesis
    by (simp add: command_def select_with_def)
qed

lemma polls_snoc: "polls dev (xs @ [x]) c = snd (poll dev x (polls dev xs c))"
  by (simp add: polls_def)

lemma busy_loop_ends:
  assumes chip: "settles dev cells ready"
  obtains c' where "busy_loop dev 5 (send_start dev c) = Some c'" "ready (send_stop dev c')" "cells (send_stop dev c') = cells c"
proof -
  obtain n where n: "\<And>xs x. hd (xs @ [x]) = 5 \<Longrightarrow> length xs \<le> n \<Longrightarrow>
     (case poll dev x (polls dev xs (send_start dev c)) of (s, c') \<Rightarrow> (s ! 1 AND 1 = 1 \<longleftrightarrow> length xs < n) \<and>
        (length xs = n \<longrightarrow> ready (send_stop dev c') \<and> cells (send_stop dev c') = cells c))"
    using chip unfolding settles_def by blast
  have "\<exists>c'. busy_loop dev x (polls dev xs (send_start dev c)) = Some c' \<and> ready (send_stop dev c') \<and> cells (send_stop dev c') = cells c"
    if "hd (xs @ [x]) = 5" "length xs \<le> n" for xs x
    using that
  proof (induction "n - length xs" arbitrary: xs x)
    case 0
    then show ?case using n [OF 0(2,3)] by (subst busy_loop.simps) (auto simp: poll_def split: prod.splits)
  next
    case (Suc k)
    have l: "length xs < n" using Suc(2) by linarith
    obtain s c1 where p: "poll dev x (polls dev xs (send_start dev c)) = (s, c1)" by fastforce
    have "busy_loop dev x (polls dev xs (send_start dev c)) = busy_loop dev (s ! 0) (polls dev (xs @ [x]) (send_start dev c))"
      using n [OF Suc.prems] p l by (subst busy_loop.simps) (simp add: poll_def polls_snoc)
    moreover have "hd ((xs @ [x]) @ [s ! 0]) = 5" using Suc.prems(1) by (cases xs) simp_all
    ultimately show ?case using Suc.hyps(1) [of "xs @ [x]" "s ! 0"] Suc(2) by simp
  qed
  from this [of "[]" 5] show thesis using that by (auto simp: polls_def)
qed

lemma wait_busy:
  assumes "flash_chip dev cells ready N"
  obtains c' where "W25Qxx_wait_busy dev c = Some c'" "ready c'" "cells c' = cells c"
proof -
  have "settles dev cells ready" using assms by (simp add: flash_chip_def)
  then obtain c' where "busy_loop dev 5 (send_start dev c) = Some c'" "ready (send_stop dev c')" "cells (send_stop dev c') = cells c"
    by (rule busy_loop_ends)
  then show thesis by (intro that [of "send_stop dev c'"]) (simp_all add: W25Qxx_wait_busy_def)
qed

lemma read_bytes:
  assumes chip: "flash_chip dev cells ready N" and "a + n \<le> N" "n < 65536" "0 < n"
  obtains c' where "W25Qxx_read dev (of_nat a) (of_nat n) c = Some (map (cells c) [a ..< a + n], c')" "ready c'" "cells c' = cells c"
proof -
  obtain c1 where c1: "W25Qxx_wait_busy dev c = Some c1" "ready c1" "cells c1 = cells c" by (rule wait_busy [OF chip])
  have N: "a < 16777216" using assms by (simp add: flash_chip_def)
  obtain s c2 where r: "read_data dev n (select_with dev 3 a c1) = (s, c2)" by fastforce
  have "s = map (cells c1) [a ..< a + n] \<and> ready (send_stop dev c2) \<and> cells (send_stop dev c2) = cells c1"
    using chip assms(2) c1(2) r unfolding flash_chip_def reads_def by fastforce
  then show thesis using that [of "send_stop dev c2"] c1 r N assms(3)
    by (simp add: W25Qxx_read_def command_select unat_of_nat_small)
qed

lemma write_page256:
  assumes chip: "flash_chip dev cells ready N" and "(p + 1) * 256 \<le> N" "length s = 256"
  obtains c' where "W25Qxx_write dev s (of_nat (p * 256)) c = Some c'"
    "cells c' = (\<lambda>x. if x div 256 = p then cells c x AND s ! (x mod 256) else cells c x)"
proof -
  obtain c1 where c1: "W25Qxx_wait_busy dev c = Some c1" "ready c1" "cells c1 = cells c" by (rule wait_busy [OF chip])
  have N: "p * 256 < 16777216" using assms by (simp add: flash_chip_def)
  have "W25Qxx_write dev s (of_nat (p * 256)) c = Some (send_stop dev (send_data dev s (select_with dev 2 (p * 256) (enabled dev c1))))"
    using c1 command_select [OF N, of dev] by (simp add: W25Qxx_write_def W25Qxx_write_enable_def enabled_def)
  moreover have "cells (send_stop dev (send_data dev s (select_with dev 2 (p * 256) (enabled dev c1)))) =
      (\<lambda>x. if x div 256 = p then cells c1 x AND s ! (x mod 256) else cells c1 x)"
    using chip assms(2,3) c1(2) unfolding flash_chip_def programs_def by blast
  ultimately show thesis unfolding c1(3) by (rule that)
qed

lemma erase_page:
  assumes "flash_chip dev cells ready N" "(p + 1) * 4096 \<le> N" "ready c"
  shows "cells (W25Qxx_erase_sector dev (of_nat p) c) = (\<lambda>x. if x div 4096 = p then 255 else cells c x)"
proof -
  have N: "p * 4096 < 16777216" using assms by (simp add: flash_chip_def)
  have "(of_nat p * 4096 :: u32) = of_nat (p * 4096)" by simp
  then have "W25Qxx_erase_sector dev (of_nat p) c = send_stop dev (select_with dev 32 (p * 4096) (enabled dev c))"
    using command_select [OF N, of dev 32] by (simp add: W25Qxx_erase_sector_def W25Qxx_write_enable_def enabled_def)
  then show ?thesis using assms unfolding flash_chip_def erases_def by simp
qed

text \<open>Programming pages one after the other: where the cells were erased they hold the buffer.\<close>

lemma write_pages_cells:
  assumes chip: "flash_chip dev cells ready N"
  shows "length s = n * 256 \<Longrightarrow> (p + n) * 256 \<le> N \<Longrightarrow>
    \<exists>c'. write_pages dev n s (of_nat (p * 256)) c = Some c' \<and>
      cells c' = (\<lambda>x. if p \<le> x div 256 \<and> x div 256 < p + n then cells c x AND s ! (x - p * 256) else cells c x)"
proof (induction n arbitrary: s p c)
  case (Suc n)
  have l: "(p + 1) * 256 \<le> N" "length (take 256 s) = 256" using Suc.prems by simp_all
  obtain c1 where c1: "W25Qxx_write dev (take 256 s) (of_nat (p * 256)) c = Some c1"
    "cells c1 = (\<lambda>x. if x div 256 = p then cells c x AND take 256 s ! (x mod 256) else cells c x)"
    by (rule write_page256 [OF chip l])
  have "(of_nat (p * 256) + 256 :: u32) = of_nat ((p + 1) * 256)" by simp
  moreover obtain c2 where c2: "write_pages dev n (drop 256 s) (of_nat ((p + 1) * 256)) c1 = Some c2"
    "cells c2 = (\<lambda>x. if p + 1 \<le> x div 256 \<and> x div 256 < p + 1 + n then cells c1 x AND drop 256 s ! (x - (p + 1) * 256) else cells c1 x)"
    using Suc.IH [of "drop 256 s" "p + 1" c1] Suc.prems by auto
  ultimately have w: "write_pages dev (Suc n) s (of_nat (p * 256)) c = Some c2"
    using c1(1) Suc.prems(1) by (simp add: add.commute del: of_nat_mult)
  have "cells c2 x = (if p \<le> x div 256 \<and> x div 256 < p + Suc n then cells c x AND s ! (x - p * 256) else cells c x)" for x
  proof (cases "x div 256 = p")
    case True
    then have "x mod 256 = x - p * 256" by (metis minus_div_mult_eq_mod)
    then show ?thesis using True c2(2) c1(2) by simp
  next
    case False
    show ?thesis
    proof (cases "p + 1 \<le> x div 256 \<and> x div 256 < p + 1 + n")
      case True
      then have "(p + 1) * 256 \<le> x" by (metis less_eq_div_iff_mult_less_eq zero_less_numeral)
      then have "drop 256 s ! (x - (p + 1) * 256) = s ! (x - p * 256)" using Suc.prems(1) by (simp add: add.commute)
      then show ?thesis using True False c1(2) c2(2) by simp
    qed (use False c1(2) c2(2) in auto)
  qed
  then show ?case using w by auto
qed (auto simp: fun_eq_iff)


lemma device_write_page:
  assumes chip: "flash_chip dev cells ready N" and p: "(p + 1) * 4096 \<le> N" and c: "ready c" and s: "length s = 4096"
  obtains c' where "W25Qxx_device_write_page dev s 4096 (of_nat p) c = Some (4096, c')"
    "cells c' = (\<lambda>x. if x div 4096 = p then s ! (x mod 4096) else cells c x)"
proof -
  let ?e = "W25Qxx_erase_sector dev (of_nat p) c"
  have e: "cells ?e = (\<lambda>x. if x div 4096 = p then 255 else cells c x)" by (rule erase_page [OF chip p c])
  have "length s = 16 * 256" "(p * 16 + 16) * 256 \<le> N" using s p by simp_all
  from write_pages_cells [OF chip this, of ?e] obtain c' where w: "write_pages dev 16 s (of_nat (p * 16 * 256)) ?e = Some c'"
    "cells c' = (\<lambda>x. if p * 16 \<le> x div 256 \<and> x div 256 < p * 16 + 16 then cells ?e x AND s ! (x - p * 16 * 256) else cells ?e x)"
    by blast
  have "cells c' x = (if x div 4096 = p then s ! (x mod 4096) else cells c x)" for x
  proof -
    have d: "x div 256 div 16 = x div 4096" by (simp flip: div_mult2_eq)
    have "p * 16 \<le> x div 256 \<and> x div 256 < p * 16 + 16 \<longleftrightarrow> x div 256 div 16 = p"
      by (auto simp: div_nat_eqI dest: less_mult_imp_div_less)
    moreover have "x - p * 16 * 256 = x mod 4096" if "x div 4096 = p" using that by (simp add: minus_div_mult_eq_mod [symmetric])
    moreover have "255 AND v = v" for v :: u8
    proof -
      have "(255 :: u8) = - 1" by simp
      then show ?thesis by (simp only: and.left_neutral)
    qed
    ultimately show ?thesis unfolding w(2) e d by simp
  qed
  then have "cells c' = (\<lambda>x. if x div 4096 = p then s ! (x mod 4096) else cells c x)" by blast
  moreover have "W25Qxx_device_write_page dev s 4096 (of_nat p) c = Some (4096, c')"
    using w(1) by (simp add: W25Qxx_device_write_page_def mult.assoc)
  ultimately show thesis using that by blast
qed

text \<open>The page that a partial write reads: the one 4096 bytes from sector number \<open>p\<close> of 512 bytes on.\<close>

lemma device_read_page:
  assumes chip: "flash_chip dev cells ready N" and "a * 512 + n \<le> N" "0 < n" "n < 65536"
  obtains c' where "W25Qxx_device_read_page dev n (of_nat a) c = Some (int n, map (cells c) [a * 512 ..< a * 512 + n], c')"
    "ready c'" "cells c' = cells c"
proof -
  obtain c' where c': "W25Qxx_read dev (of_nat (a * 512)) (of_nat n) c = Some (map (cells c) [a * 512 ..< a * 512 + n], c')"
    "ready c'" "cells c' = cells c" by (rule read_bytes [OF chip assms(2,4,3)])
  then show thesis using that by (simp add: W25Qxx_device_read_page_def)
qed

lemma copy_into_at: "i + length s \<le> length d \<Longrightarrow> copy_into d i s 0 (length s) = Some (take i d @ s @ drop (i + length s) d)"
  by (simp add: copy_into_def)

lemma splice_nth: "i + length s \<le> length d \<Longrightarrow> y < length d \<Longrightarrow>
    (take i d @ s @ drop (i + length s) d) ! y = (if i \<le> y \<and> y < i + length s then s ! (y - i) else d ! y)"
  by (auto simp: nth_append)

lemma write_segment_cells:
  assumes chip: "flash_chip dev cells ready N" and p: "(sec div 8 + 1) * 4096 \<le> N" and c: "ready c"
    and s: "0 < length s" "sec mod 8 * 512 + length s \<le> 4096"
  obtains c' where "write_segment dev (of_nat sec) s c = Some (4096, c')"
    "\<forall>x. cells c' x = (if x div 4096 \<noteq> sec div 8 then cells c x
       else if sec * 512 \<le> x \<and> x < sec * 512 + length s then s ! (x - sec * 512)
       else cells c (sec div 8 * 512 + x mod 4096))"
proof -
  let ?p = "sec div 8" and ?o = "sec mod 8 * 512"
  have "N \<le> 16777216" using chip by (simp add: flash_chip_def)
  then have "unat (of_nat sec :: u32) = sec" using p by (intro unat_of_nat_small) simp
  then have w: "(of_nat sec :: u32) div 8 = of_nat ?p" "unat ((of_nat sec :: u32) mod 8) = sec mod 8"
    by (simp_all add: word_arith_nat_div unat_mod)
  have at: "sec * 512 = ?p * 4096 + ?o" using div_mult_mod_eq [of sec 8] by linarith
  have in_page: "x = ?p * 4096 + x mod 4096" if "x div 4096 = ?p" for x using that by (metis div_mult_mod_eq)
  have in_page': "x - ?p * 4096 = x mod 4096" if "x div 4096 = ?p" for x using in_page [OF that] by linarith
  show thesis
  proof (cases "?o = 0 \<and> length s = 4096")
    case True
    obtain c' where c': "W25Qxx_device_write_page dev s 4096 (of_nat ?p) c = Some (4096, c')"
      "cells c' = (\<lambda>x. if x div 4096 = ?p then s ! (x mod 4096) else cells c x)"
      using device_write_page [OF chip p c] True by blast
    have "write_segment dev (of_nat sec) s c = Some (4096, c')"
      using c'(1) True by (simp add: write_segment_def w Let_def)
    moreover have "cells c' x = (if x div 4096 \<noteq> ?p then cells c x
       else if sec * 512 \<le> x \<and> x < sec * 512 + length s then s ! (x - sec * 512)
       else cells c (?p * 512 + x mod 4096))" for x
    proof -
      have a: "sec * 512 = ?p * 4096" using at True by linarith
      show ?thesis unfolding a using True in_page [of x] in_page' [of x] by (auto simp: c'(2))
    qed
    ultimately show thesis using that by blast
  next
    case False
    define old where "old = map (cells c) [?p * 512 ..< ?p * 512 + 4096]"
    obtain c1 where c1: "W25Qxx_device_read_page dev 4096 (of_nat ?p) c = Some (4096, old, c1)" "ready c1" "cells c1 = cells c"
      using device_read_page [OF chip, of ?p 4096 c] p by (auto simp: old_def)
    define buf where "buf = take ?o old @ s @ drop (?o + length s) old"
    have buf: "length buf = 4096" using s by (simp add: buf_def old_def)
    have cp: "copy_into old ?o s 0 (length s) = Some buf" using s by (simp add: copy_into_at buf_def old_def)
    obtain c' where c': "W25Qxx_device_write_page dev buf 4096 (of_nat ?p) c1 = Some (4096, c')"
      "cells c' = (\<lambda>x. if x div 4096 = ?p then buf ! (x mod 4096) else cells c1 x)"
      by (rule device_write_page [OF chip p c1(2) buf])
    have n: "min (4096 - ?o) (length s) = length s" "((4096 :: int) < 0) = False" "(?o + length s \<le> 4096) = True"
      "(?o = 0 \<and> length s = 4096) = False" using s(2) False by auto
    have "write_segment dev (of_nat sec) s c = Some (4096, c')"
      by (simp only: write_segment_def w Let_def n c1(1) cp c'(1) Option.bind.simps prod.case if_False if_True simp_thms)
    moreover have "cells c' x = (if x div 4096 \<noteq> ?p then cells c x
       else if sec * 512 \<le> x \<and> x < sec * 512 + length s then s ! (x - sec * 512)
       else cells c (?p * 512 + x mod 4096))" for x
    proof (cases "x div 4096 = ?p")
      case True
      obtain y where y: "x mod 4096 = y" "x = ?p * 4096 + y" "y < 4096" using in_page [OF True] by simp
      have "buf ! y = (if ?o \<le> y \<and> y < ?o + length s then s ! (y - ?o) else cells c (?p * 512 + y))"
        unfolding buf_def using splice_nth [of ?o s old y] s(2) y(3) by (simp add: old_def)
      moreover have "?o \<le> y \<longleftrightarrow> sec * 512 \<le> x" "y < ?o + length s \<longleftrightarrow> x < sec * 512 + length s" "y - ?o = x - sec * 512"
        unfolding at y(2) by simp_all
      ultimately show ?thesis using True by (simp only: c'(2) y(1) if_True not_True_eq_False if_False simp_thms)
    next
      case False
      then show ?thesis by (simp add: c'(2) c1(3))
    qed
    ultimately show thesis using that by blast
  qed
qed


text \<open>C9: Writing a segment that stays within one page of 4096 bytes of the chip returns after finitely many steps; the segment then
  reads back, and the other pages are as before. What was beside it in its page is not kept: it is replaced by what the chip holds from
  the sector of 512 bytes on that has the number of the page, so that only page 0 keeps its other sectors.
\<close>

theorem partial_write_clobbers:
  assumes "flash_chip dev cells ready N" "(sec div 8 + 1) * 4096 \<le> N" "ready c"
    and "0 < length s" "sec mod 8 * 512 + length s \<le> 4096"
  shows "\<exists>c'. write_segment dev (of_nat sec) s c = Some (4096, c') \<and>
    (\<exists>c''. read_segment dev (of_nat sec) (length s) c' = Some (int (length s), s, c'') \<and> cells c'' = cells c') \<and>
    (\<forall>x. cells c' x = (if x div 4096 \<noteq> sec div 8 then cells c x
       else if sec * 512 \<le> x \<and> x < sec * 512 + length s then s ! (x - sec * 512)
       else cells c (sec div 8 * 512 + x mod 4096)))"
proof -
  obtain c' where c': "write_segment dev (of_nat sec) s c = Some (4096, c')"
    "\<forall>x. cells c' x = (if x div 4096 \<noteq> sec div 8 then cells c x
       else if sec * 512 \<le> x \<and> x < sec * 512 + length s then s ! (x - sec * 512)
       else cells c (sec div 8 * 512 + x mod 4096))"
    by (rule write_segment_cells [OF assms])
  have at: "sec * 512 = sec div 8 * 4096 + sec mod 8 * 512" using div_mult_mod_eq [of sec 8] by linarith
  have "x div 4096 = sec div 8" if "sec * 512 \<le> x" "x < sec * 512 + length s" for x
  proof (rule div_nat_eqI)
    have "sec div 8 * 4096 \<le> sec * 512" unfolding at by simp
    then show "4096 * (sec div 8) \<le> x" using that(1) by simp
    have "sec * 512 + length s \<le> sec div 8 * 4096 + 4096" unfolding at using assms(5) by (simp only: add.assoc add_le_cancel_left)
    then show "x < 4096 * Suc (sec div 8)" using that(2) by simp
  qed
  then have "map (cells c') [sec * 512 ..< sec * 512 + length s] = s"
    by (intro nth_equalityI) (simp_all add: c'(2))
  moreover have "sec * 512 + length s \<le> N" "length s < 65536"
  proof -
    have "sec * 512 + length s \<le> sec div 8 * 4096 + 4096" unfolding at using assms(5) by (simp only: add.assoc add_le_cancel_left)
    then show "sec * 512 + length s \<le> N" using assms(2) by simp
    show "length s < 65536" using assms(5) by simp
  qed
  ultimately obtain c'' where "read_segment dev (of_nat sec) (length s) c' = Some (int (length s), s, c'')" "cells c'' = cells c'"
    using device_read_page [OF assms(1), of sec "length s" c'] assms(4) by (auto simp: read_segment_def)
  then show ?thesis using c' by blast
qed

section \<open>A simulated chip\<close>

text \<open>It is busy for a turn or two after it has erased or programmed, and answers with what it was sent before.\<close>

record sim_chip =
  sim_cells :: "nat \<Rightarrow> u8"
  shifted :: "u8 list"
  latch :: bool
  busy :: nat

definition sim_address :: "u8 list \<Rightarrow> nat" where
  "sim_address s = (unat (s ! 1) * 256 + unat (s ! 2)) * 256 + unat (s ! 3)"

definition sim_execute :: "sim_chip \<Rightarrow> sim_chip" where
  "sim_execute c = (let s = shifted c; a = sim_address s in
     if s = [6] then c\<lparr>latch := True\<rparr>
     else if latch c \<and> hd s = 32 then
       c\<lparr>sim_cells := \<lambda>x. if x div 4096 = a div 4096 then 255 else sim_cells c x, latch := False, busy := 2\<rparr>
     else if latch c \<and> hd s = 2 then
       c\<lparr>sim_cells := \<lambda>x. if x div 256 = a div 256 then sim_cells c x AND s ! (4 + x mod 256) else sim_cells c x, latch := False, busy := 1\<rparr>
     else c)"

definition sim_dev :: "sim_chip w25qxx_dev" where
  "sim_dev = \<lparr>send_start = \<lambda>c. c\<lparr>shifted := []\<rparr>, send_stop = sim_execute, send_data = \<lambda>s c. c\<lparr>shifted := shifted c @ s\<rparr>,
     read_data = \<lambda>n c. (if hd (shifted c) = 3 then (map (sim_cells c) [sim_address (shifted c) ..< sim_address (shifted c) + n], c)
       else if hd (shifted c) = 5 then (replicate n (if busy c = 0 then 252 else 253), c\<lparr>busy := busy c - 1\<rparr>)
       else (replicate n 0, c))\<rparr>"

lemma sim_address: "a < 16777216 \<Longrightarrow> sim_address (b # of_nat (a div 65536) # of_nat (a div 256) # of_nat a # s) = a"
proof -
  assume "a < 16777216"
  then have "a div 65536 mod 256 = a div 256 div 256" by (simp flip: div_mult2_eq)
  moreover have "a div 256 div 256 * 256 + a div 256 mod 256 = a div 256" "a div 256 * 256 + a mod 256 = a" by simp_all
  ultimately show ?thesis by (simp add: sim_address_def unsigned_of_nat take_bit_eq_mod)
qed

lemma sim_poll: "hd (shifted c @ [x, 255]) = 5 \<Longrightarrow> poll sim_dev x c =
    ([if busy c = 0 then 252 else 253, if busy c = 0 then 252 else 253], c\<lparr>shifted := shifted c @ [x, 255], busy := busy c - 1\<rparr>)"
  by (simp add: poll_def sim_dev_def numeral_2_eq_2)

lemma sim_stop: "hd (shifted c) = 5 \<Longrightarrow> shifted c \<noteq> [] \<Longrightarrow> send_stop sim_dev c = c"
  by (cases "shifted c") (simp_all add: sim_dev_def sim_execute_def Let_def)

lemma hd_pairs: "hd (xs @ [x]) = 5 \<Longrightarrow> hd (concat (map (\<lambda>x. [x, 255]) xs) @ [x, 255]) = (5 :: u8)"
  by (cases xs) simp_all

lemma sim_polls: "xs = [] \<or> hd xs = 5 \<Longrightarrow> polls sim_dev xs (send_start sim_dev c) =
    c\<lparr>shifted := concat (map (\<lambda>x. [x, 255]) xs), busy := busy c - length xs\<rparr>"
proof (induction xs rule: rev_induct)
  case (snoc x xs)
  then have IH: "polls sim_dev xs (send_start sim_dev c) = c\<lparr>shifted := concat (map (\<lambda>x. [x, 255]) xs), busy := busy c - length xs\<rparr>"
    by (cases xs) simp_all
  have "hd (xs @ [x]) = 5" using snoc.prems by simp
  then show ?case unfolding polls_snoc IH by (simp add: sim_poll hd_pairs)
qed (simp add: polls_def sim_dev_def)

lemma sim_settles: "settles sim_dev sim_cells (\<lambda>c. busy c = 0)"
proof -
  have turn: "case poll sim_dev x (polls sim_dev xs (send_start sim_dev c)) of (s, c') \<Rightarrow> (s ! 1 AND 1 = 1 \<longleftrightarrow> length xs < busy c) \<and>
      (length xs = busy c \<longrightarrow> busy (send_stop sim_dev c') = 0 \<and> sim_cells (send_stop sim_dev c') = sim_cells c)"
    if h: "hd (xs @ [x]) = 5" for xs x c
  proof -
    have "xs = [] \<or> hd xs = 5" using h by (cases xs) simp_all
    note p = sim_polls [OF this, of c]
    let ?c = "c\<lparr>shifted := concat (map (\<lambda>x. [x, 255]) xs), busy := busy c - length xs\<rparr>"
    have "hd (shifted ?c @ [x, 255]) = 5" using hd_pairs [OF h] by simp
    note q = sim_poll [OF this]
    have "send_stop sim_dev (snd (poll sim_dev x ?c)) = snd (poll sim_dev x ?c)"
      unfolding q using hd_pairs [OF h] by (intro sim_stop) simp_all
    then show ?thesis unfolding p q by (cases "busy c \<le> length xs") simp_all
  qed
  show ?thesis unfolding settles_def by (intro allI exI impI) (rule turn)
qed

lemma sim_chip: "flash_chip sim_dev sim_cells (\<lambda>c. busy c = 0) 16777216"
  unfolding flash_chip_def
proof (intro conjI)
  show "settles sim_dev sim_cells (\<lambda>c. busy c = 0)" by (rule sim_settles)
  have "read_data sim_dev n (select_with sim_dev 3 a c) = (map (sim_cells c) [a ..< a + n], select_with sim_dev 3 a c)"
    if "a + n \<le> 16777216" for a n c
    using that by (cases "n = 0") (auto simp: select_with_def sim_dev_def sim_address)
  moreover have "sim_cells (send_stop sim_dev (select_with sim_dev 3 a c)) = sim_cells c"
    "busy (send_stop sim_dev (select_with sim_dev 3 a c)) = busy c" for a c
    by (simp_all add: select_with_def sim_dev_def sim_execute_def Let_def)
  ultimately show "reads sim_dev sim_cells (\<lambda>c. busy c = 0) 16777216" by (simp add: reads_def)
  have "sim_cells (send_stop sim_dev (select_with sim_dev 32 a (enabled sim_dev c))) =
      (\<lambda>x. if x div 4096 = a div 4096 then 255 else sim_cells c x)" if "a < 16777216" for a c
    using that by (simp add: select_with_def enabled_def sim_dev_def sim_address sim_execute_def Let_def cong: if_cong)
  then show "erases sim_dev sim_cells (\<lambda>c. busy c = 0) 16777216" by (simp add: erases_def)
  have "sim_cells (send_stop sim_dev (send_data sim_dev s (select_with sim_dev 2 a (enabled sim_dev c)))) =
      (\<lambda>x. if x div 256 = a div 256 then sim_cells c x AND s ! (x mod 256) else sim_cells c x)" if "a < 16777216" for a c s
    using that by (simp add: select_with_def enabled_def sim_dev_def sim_address sim_execute_def Let_def cong: if_cong)
  then show "programs sim_dev sim_cells (\<lambda>c. busy c = 0) 16777216" by (simp add: programs_def)
qed simp

text \<open>Every byte holds the number of its sector; sector 9 is written, and sector 8 then holds what sector 1 held.\<close>

definition numbered :: sim_chip where
  "numbered = \<lparr>sim_cells = \<lambda>x. of_nat (x div 512), shifted = [], latch = False, busy = 0\<rparr>"

theorem partial_write_clobbers_witness:
  "\<exists>c'. write_segment sim_dev 9 (replicate 512 170) numbered = Some (4096, c') \<and>
    sim_cells numbered 4096 = 8 \<and> sim_cells c' 4096 = 1 \<and> sim_cells c' 4608 = 170"
proof -
  have "busy numbered = 0" by (simp add: numbered_def)
  then obtain c' where "write_segment sim_dev (of_nat 9) (replicate 512 170) numbered = Some (4096, c')"
    "\<forall>x. sim_cells c' x = (if x div 4096 \<noteq> 9 div 8 then sim_cells numbered x
       else if 9 * 512 \<le> x \<and> x < 9 * 512 + length (replicate 512 (170 :: u8)) then replicate 512 170 ! (x - 9 * 512)
       else sim_cells numbered (9 div 8 * 512 + x mod 4096))"
    using partial_write_clobbers [OF sim_chip, where sec = 9 and c = numbered and s = "replicate 512 170"] by auto
  then show ?thesis by (simp add: numbered_def)
qed

end
