(* ===== verification/Block.thy ===== *)
theory Block
  imports W25q FsTree
begin

text \<open>
  The block layer: \<^verbatim>\<open>block/bio.c\<close>, \<^verbatim>\<open>block/request.c\<close>, \<^verbatim>\<open>block/request_queue.c\<close> and the functions of
  \<^verbatim>\<open>include/linux/blkdev.h\<close> over them, on the doubly linked lists of \<^verbatim>\<open>include/linux/list.h\<close>, down to the
  driver \<^verbatim>\<open>drivers/storage/w25qxx/w25qxx.c\<close>.

  Every object that is threaded on a list has one \<open>list_head\<close>, which is identified by the address of the object; the head of a
  queue by that of the queue. Pages and their blocks are those of \<open>FsTree\<close>, whose allocator serves here as well.
\<close>

section \<open>Linked lists\<close>

record list_head =
  lh_next :: nat
  lh_prev :: nat

type_synonym heads = "nat \<Rightarrow> list_head option"

abbreviation (input) LIST_POISON1 :: nat where "LIST_POISON1 \<equiv> 256"
abbreviation (input) LIST_POISON2 :: nat where "LIST_POISON2 \<equiv> 290"

definition INIT_LIST_HEAD :: "nat \<Rightarrow> heads \<Rightarrow> heads option" where
  "INIT_LIST_HEAD a m = upd m a (\<lambda>_. \<lparr>lh_next = a, lh_prev = a\<rparr>)"

definition list_empty :: "nat \<Rightarrow> heads \<Rightarrow> bool option" where
  "list_empty a m = do { v \<leftarrow> at m a; Some (lh_next v = a) }"

definition list_is_singular :: "nat \<Rightarrow> heads \<Rightarrow> bool option" where
  "list_is_singular a m = do { v \<leftarrow> at m a; Some (lh_next v \<noteq> a \<and> lh_next v = lh_prev v) }"

definition list_insert :: "nat \<Rightarrow> nat \<Rightarrow> nat \<Rightarrow> heads \<Rightarrow> heads option" where
  "list_insert new prev nxt m = do {
     m \<leftarrow> upd m nxt (\<lambda>v. v\<lparr>lh_prev := new\<rparr>);
     m \<leftarrow> upd m new (\<lambda>v. v\<lparr>lh_next := nxt\<rparr>);
     m \<leftarrow> upd m new (\<lambda>v. v\<lparr>lh_prev := prev\<rparr>);
     upd m prev (\<lambda>v. v\<lparr>lh_next := new\<rparr>) }"

definition list_add_tail :: "nat \<Rightarrow> nat \<Rightarrow> heads \<Rightarrow> heads option" where
  "list_add_tail new head m = do { h \<leftarrow> at m head; list_insert new (lh_prev h) head m }"

definition list_unlink :: "nat \<Rightarrow> heads \<Rightarrow> heads option" where
  "list_unlink e m = do {
     v \<leftarrow> at m e;
     m \<leftarrow> upd m (lh_next v) (\<lambda>w. w\<lparr>lh_prev := lh_prev v\<rparr>);
     upd m (lh_prev v) (\<lambda>w. w\<lparr>lh_next := lh_next v\<rparr>) }"

definition list_del_entry :: "nat \<Rightarrow> heads \<Rightarrow> heads option" where
  "list_del_entry e m = do {
     m \<leftarrow> list_unlink e m;
     upd m e (\<lambda>_. \<lparr>lh_next = LIST_POISON1, lh_prev = LIST_POISON2\<rparr>) }"

definition list_del_init :: "nat \<Rightarrow> heads \<Rightarrow> heads option" where
  "list_del_init e m = do { m \<leftarrow> list_unlink e m; INIT_LIST_HEAD e m }"

section \<open>Requests and their parts\<close>

record bio_vec =
  bv_page :: nat
  bv_len :: u32
  bv_offset :: u32

text \<open>\<open>bi_end_io\<close> is whether \<open>my_end_io\<close> is to be called, the only handler there is.\<close>

record bio =
  bi_next :: nat
  bi_bdev :: nat
  bi_opf :: u32
  bi_flags :: u16
  bi_cnt :: int
  bi_sector :: u64
  bi_size :: u32
  bi_end_io :: bool
  bi_vcnt :: nat
  bi_max_vecs :: nat
  bi_io_vec :: "bio_vec list"

record request =
  rq_q :: nat
  cmd_flags :: u32
  data_len :: u32
  sector :: u64
  rq_bio :: nat
  biotail :: nat
  rq_timeout :: u32

record request_queue =
  q_disk :: nat
  max_sectors :: u32
  max_segment_size :: u32
  q_id :: int
  nr_requests :: u32

record block_device =
  bd_start_sect :: u64
  bd_nr_sects :: u64
  bd_queue :: nat

record 'c blk =
  mm :: fsmem
  heads :: heads
  bios :: "nat \<Rightarrow> bio option"
  requests :: "nat \<Rightarrow> request option"
  queues :: "nat \<Rightarrow> request_queue option"
  bdevs :: "nat \<Rightarrow> block_device option"
  chip :: 'c

definition kalloc :: "'c blk \<Rightarrow> nat \<times> 'c blk" where
  "kalloc s = (let (a, m) = kmalloc (mm s) in (a, s\<lparr>mm := m\<rparr>))"

text \<open>A bio holds up to four vectors itself; more of them are a block of their own.\<close>

definition bio_alloc_bioset :: "nat \<Rightarrow> nat \<Rightarrow> u32 \<Rightarrow> 'c blk \<Rightarrow> nat \<times> 'c blk" where
  "bio_alloc_bioset bdev nr opf s = (let (a, s) = kalloc s in
     if a = 0 then (0, s)
     else let (v, s) = (if nr \<le> 4 then (a, s) else kalloc s) in
       if v = 0 then (0, s)
       else (a, s\<lparr>bios := (bios s)(a \<mapsto> \<lparr>bi_next = 0, bi_bdev = bdev, bi_opf = opf, bi_flags = 0, bi_cnt = 1, bi_sector = 0,
         bi_size = 0, bi_end_io = False, bi_vcnt = 0, bi_max_vecs = nr,
         bi_io_vec = replicate nr \<lparr>bv_page = 0, bv_len = 0, bv_offset = 0\<rparr>\<rparr>)\<rparr>))"

definition bio_put :: "nat \<Rightarrow> 'c blk \<Rightarrow> 'c blk option" where
  "bio_put b s = (if b = 0 then Some s else do {
     bs \<leftarrow> upd (bios s) b (\<lambda>v. v\<lparr>bi_cnt := bi_cnt v - 1\<rparr>);
     v \<leftarrow> at bs b;
     Some (s\<lparr>bios := if bi_cnt v = 0 then free_at bs b else bs\<rparr>) })"

definition bio_set_dev :: "nat \<Rightarrow> nat \<Rightarrow> 'c blk \<Rightarrow> 'c blk option" where
  "bio_set_dev b bdev s = do {
     bs \<leftarrow> upd (bios s) b (\<lambda>v. let v = v\<lparr>bi_flags := bi_flags v AND NOT (push_bit 11 1)\<rparr>;
       v = (if bi_bdev v \<noteq> bdev then v\<lparr>bi_flags := bi_flags v AND NOT (push_bit 6 1)\<rparr> else v) in v\<lparr>bi_bdev := bdev\<rparr>);
     Some (s\<lparr>bios := bs\<rparr>) }"

definition bio_add_page :: "nat \<Rightarrow> nat \<Rightarrow> u32 \<Rightarrow> u32 \<Rightarrow> 'c blk \<Rightarrow> (int \<times> 'c blk) option" where
  "bio_add_page b page len off s =
     (if b = 0 \<or> page = 0 \<or> 4096 \<le> off then Some (- ENOMEM, s)
      else do {
        v \<leftarrow> at (bios s) b;
        if bi_max_vecs v \<le> bi_vcnt v \<or> bi_size v + len > 1048576 then Some (- ENOMEM, s)
        else Some (0, s\<lparr>bios := (bios s)(b \<mapsto> v\<lparr>
          bi_io_vec := (bi_io_vec v)[bi_vcnt v := \<lparr>bv_page = page, bv_len = len, bv_offset = off\<rparr>],
          bi_size := bi_size v + len, bi_vcnt := bi_vcnt v + 1\<rparr>)\<rparr>) })"

text \<open>\<open>request_alloc\<close> clears the request even when there is no memory for it; its lists and its place in a queue are empty.\<close>

definition request_alloc :: "nat \<Rightarrow> u32 \<Rightarrow> 'c blk \<Rightarrow> (nat \<times> 'c blk) option" where
  "request_alloc q opf s = (let (a, s) = kalloc s in
     if a = 0 then None
     else Some (a, s\<lparr>requests := (requests s)(a \<mapsto> \<lparr>rq_q = q, cmd_flags = opf, data_len = 0, sector = 0, rq_bio = 0, biotail = 0,
         rq_timeout = 1000\<rparr>), heads := (heads s)(a \<mapsto> \<lparr>lh_next = a, lh_prev = a\<rparr>)\<rparr>))"

definition blk_insert_request :: "nat \<Rightarrow> nat \<Rightarrow> 'c blk \<Rightarrow> 'c blk option" where
  "blk_insert_request r b s = do {
     bs \<leftarrow> upd (bios s) b (\<lambda>v. v\<lparr>bi_next := 0\<rparr>);
     rq \<leftarrow> at (requests s) r;
     if rq_bio rq = 0 then Some (s\<lparr>bios := bs, requests := (requests s)(r \<mapsto> rq\<lparr>rq_bio := b, biotail := b, data_len := data_len rq + 1\<rparr>)\<rparr>)
     else do {
       bs \<leftarrow> upd bs (biotail rq) (\<lambda>v. v\<lparr>bi_next := b\<rparr>);
       Some (s\<lparr>bios := bs, requests := (requests s)(r \<mapsto> rq\<lparr>biotail := b, data_len := data_len rq + 1\<rparr>)\<rparr>) } }"

section \<open>Queues\<close>

definition request_queue_init :: "int \<Rightarrow> nat \<Rightarrow> 'c blk \<Rightarrow> nat \<times> 'c blk" where
  "request_queue_init i gd s = (let (a, s) = kalloc s in
     if a = 0 then (0, s)
     else (a, s\<lparr>queues := (queues s)(a \<mapsto> \<lparr>q_disk = gd, max_sectors = 128, max_segment_size = 32, q_id = i, nr_requests = 1000\<rparr>),
       heads := (heads s)(a \<mapsto> \<lparr>lh_next = a, lh_prev = a\<rparr>)\<rparr>))"

text \<open>\<open>blk_init_queue\<close> stores the driver's function in the queue without looking whether there is one.\<close>

definition blk_init_queue :: "'c blk \<Rightarrow> (nat \<times> 'c blk) option" where
  "blk_init_queue s = (let (q, s) = request_queue_init 0 0 s in if q = 0 then None else Some (q, s))"

definition blk_cleanup_queue :: "nat \<Rightarrow> 'c blk \<Rightarrow> 'c blk" where
  "blk_cleanup_queue q s = (if q = 0 then s else s\<lparr>queues := free_at (queues s) q, heads := free_at (heads s) q\<rparr>)"

definition request_queue_add :: "nat \<Rightarrow> nat \<Rightarrow> 'c blk \<Rightarrow> 'c blk option" where
  "request_queue_add q r s = do { hs \<leftarrow> list_add_tail r q (heads s); Some (s\<lparr>heads := hs\<rparr>) }"

definition free_request :: "nat \<Rightarrow> 'c blk \<Rightarrow> 'c blk" where
  "free_request r s = s\<lparr>requests := free_at (requests s) r, heads := free_at (heads s) r\<rparr>"

definition request_queue_remove :: "nat \<Rightarrow> nat \<Rightarrow> 'c blk \<Rightarrow> 'c blk option" where
  "request_queue_remove q r s = do {
     e \<leftarrow> list_empty r (heads s);
     if e then Some s
     else do { hs \<leftarrow> list_del_init r (heads s); Some (free_request r (s\<lparr>heads := hs\<rparr>)) } }"

text \<open>The iteration reads the next entry before the current one is freed.\<close>

partial_function (option) process_loop :: "nat \<Rightarrow> nat \<Rightarrow> nat \<Rightarrow> 'c blk \<Rightarrow> 'c blk option" where
  "process_loop q r tmp s = (if r = q then Some s else Option.bind (list_del_entry r (heads s)) (\<lambda>hs.
     let s = free_request r (s\<lparr>heads := hs\<rparr>) in
     Option.bind (at (heads s) tmp) (\<lambda>t. process_loop q tmp (lh_next t) s)))"

definition process_requests_in_queue :: "nat \<Rightarrow> 'c blk \<Rightarrow> 'c blk option" where
  "process_requests_in_queue q s = do {
     h \<leftarrow> at (heads s) q;
     f \<leftarrow> at (heads s) (lh_next h);
     process_loop q (lh_next h) (lh_next f) s }"

definition blk_fetch_request :: "nat \<Rightarrow> 'c blk \<Rightarrow> (nat \<times> 'c blk) option" where
  "blk_fetch_request q s = do {
     e \<leftarrow> list_empty q (heads s);
     if e then Some (0, s)
     else do {
       h \<leftarrow> at (heads s) q;
       hs \<leftarrow> list_del_entry (lh_next h) (heads s);
       Some (lh_next h, s\<lparr>heads := hs\<rparr>) } }"

definition blk_end_request_cur :: "nat \<Rightarrow> 'c blk \<Rightarrow> bool option" where
  "blk_end_request_cur r s = do {
     v \<leftarrow> at (requests s) r;
     one \<leftarrow> list_is_singular (rq_q v) (heads s);
     none \<leftarrow> list_empty (rq_q v) (heads s);
     Some (one \<or> none) }"

definition blk_mq_end_request :: "nat \<Rightarrow> 'c blk \<Rightarrow> 'c blk option" where
  "blk_mq_end_request r s = do { v \<leftarrow> at (requests s) r; request_queue_remove (rq_q v) r s }"

text \<open>The flags of the allocation go where the operation belongs, which is then set.\<close>

definition blk_get_request :: "nat \<Rightarrow> u32 \<Rightarrow> u32 \<Rightarrow> 'c blk \<Rightarrow> (nat \<times> 'c blk) option" where
  "blk_get_request q op gmask s = (if q = 0 then Some (0, s) else do {
     (r, s) \<leftarrow> request_alloc q gmask s;
     rs \<leftarrow> upd (requests s) r (\<lambda>v. v\<lparr>cmd_flags := op\<rparr>);
     Some (r, s\<lparr>requests := rs\<rparr>) })"

text \<open>\<open>q_fn\<close> is the driver's function that the queue has been given.\<close>

definition submit_bio_wait :: "(nat \<Rightarrow> 'c blk \<Rightarrow> 'c blk option) \<Rightarrow> nat \<Rightarrow> 'c blk \<Rightarrow> 'c blk option" where
  "submit_bio_wait q_fn b s = do {
     v \<leftarrow> at (bios s) b;
     d \<leftarrow> at (bdevs s) (bi_bdev v);
     (r, s) \<leftarrow> blk_get_request (bd_queue d) (bi_opf v) 3264 s;
     rs \<leftarrow> upd (requests s) r (\<lambda>x. x\<lparr>sector := bi_sector v + bd_start_sect d\<rparr>);
     s \<leftarrow> blk_insert_request r b (s\<lparr>requests := rs\<rparr>);
     s \<leftarrow> request_queue_add (bd_queue d) r s;
     s \<leftarrow> q_fn (bd_queue d) s;
     v \<leftarrow> at (bios s) b;
     if bi_end_io v then bio_put b s else Some s }"

text \<open>\<open>trans_data_to_blk_dev\<close> of \<^verbatim>\<open>block/partition.c\<close>; the page is made over the data, from its start.\<close>

definition trans_data_to_blk_dev ::
    "(nat \<Rightarrow> 'c blk \<Rightarrow> 'c blk option) \<Rightarrow> nat \<Rightarrow> u64 \<Rightarrow> u32 \<Rightarrow> nat \<Rightarrow> u32 \<Rightarrow> 'c blk \<Rightarrow> (nat \<times> 'c blk) option" where
  "trans_data_to_blk_dev q_fn bdev sec n data op s = (let (p, m) = virt_to_page data (mm s); s = s\<lparr>mm := m\<rparr>;
     p = (case p of Inl e \<Rightarrow> nat (4294967296 + e) | Inr p \<Rightarrow> p); (b, s) = bio_alloc_bioset bdev 1 op s in do {
     s \<leftarrow> bio_set_dev b bdev s;
     bs \<leftarrow> upd (bios s) b (\<lambda>v. v\<lparr>bi_sector := sec, bi_end_io := True\<rparr>);
     (r, s) \<leftarrow> bio_add_page b p n 0 (s\<lparr>bios := bs\<rparr>);
     if r < 0 then do { s \<leftarrow> bio_put b s; Some (0, s) }
     else do { s \<leftarrow> submit_bio_wait q_fn b s; Some (data, s) } })"

section \<open>The driver\<close>

text \<open>
  One vector of a request. The buffer is the block of its page from the offset on; the length fits an \<open>int\<close>, since a bio is
  limited to a megabyte.
\<close>

definition w25qxx_vec :: "'c w25qxx_dev \<Rightarrow> bool \<Rightarrow> u32 \<Rightarrow> bio_vec \<Rightarrow> 'c blk \<Rightarrow> (int \<times> 'c blk) option" where
  "w25qxx_vec dev write_op start bv s = do {
     a \<leftarrow> kmap (bv_page bv) (mm s);
     d \<leftarrow> at (blocks (mm s)) a;
     let off = unat (bv_offset bv);
     let len = unat (bv_len bv);
     if length d < off + len then None
     else if write_op then do {
       (ret, c) \<leftarrow> write_segment dev start (take len (drop off d)) (chip s);
       Some (ret, s\<lparr>chip := c\<rparr>) }
     else do {
       (ret, xs, c) \<leftarrow> read_segment dev start len (chip s);
       d \<leftarrow> copy_into d off xs 0 (length xs);
       Some (ret, s\<lparr>chip := c, mm := (mm s)\<lparr>blocks := (blocks (mm s))(a \<mapsto> d)\<rparr>\<rparr>) } }"

text \<open>
  Every vector of every bio is transferred at the same sector. The page is released after it. The result of a transfer is its
  length, so the early ends of the loop for a negative one are never taken.
\<close>

fun w25qxx_vecs :: "'c w25qxx_dev \<Rightarrow> bool \<Rightarrow> u32 \<Rightarrow> bio_vec list \<Rightarrow> int \<Rightarrow> 'c blk \<Rightarrow> (int \<times> 'c blk) option" where
  "w25qxx_vecs dev write_op start [] ret s = Some (ret, s)"
| "w25qxx_vecs dev write_op start (bv # bvs) ret s = do {
     (ret, s) \<leftarrow> w25qxx_vec dev write_op start bv s;
     m \<leftarrow> put_page (bv_page bv) (mm s);
     w25qxx_vecs dev write_op start bvs ret (s\<lparr>mm := m\<rparr>) }"

partial_function (option) w25qxx_bios :: "'c w25qxx_dev \<Rightarrow> nat \<Rightarrow> bool \<Rightarrow> u32 \<Rightarrow> int \<Rightarrow> 'c blk \<Rightarrow> (int \<times> 'c blk) option" where
  "w25qxx_bios dev r write_op start ret s = Option.bind (at (requests s) r) (\<lambda>v.
     if rq_bio v = 0 then Some (ret, s)
     else Option.bind (at (bios s) (rq_bio v)) (\<lambda>b.
       Option.bind (w25qxx_vecs dev write_op start (take (bi_vcnt b) (bi_io_vec b)) ret s) (\<lambda>(ret, s).
       Option.bind (at (bios s) (rq_bio v)) (\<lambda>b.
       Option.bind (upd (requests s) r (\<lambda>v. v\<lparr>rq_bio := bi_next b\<rparr>)) (\<lambda>rs.
       w25qxx_bios dev r write_op start ret (s\<lparr>requests := rs\<rparr>))))))"

definition w25qxx_request :: "'c w25qxx_dev \<Rightarrow> nat \<Rightarrow> 'c blk \<Rightarrow> 'c blk option" where
  "w25qxx_request dev r s = (if r = 0 then Some s else do {
     v \<leftarrow> at (requests s) r;
     (ret, s) \<leftarrow> w25qxx_bios dev r (cmd_flags v AND 255 AND 1 \<noteq> 0) (ucast (sector v)) 0 s;
     blk_mq_end_request r s })"

partial_function (option) w25qxx_queue_loop :: "'c w25qxx_dev \<Rightarrow> nat \<Rightarrow> nat \<Rightarrow> 'c blk \<Rightarrow> 'c blk option" where
  "w25qxx_queue_loop dev q r s = (if r = 0 then Some s else
     Option.bind (w25qxx_request dev r s) (\<lambda>s. Option.bind (blk_fetch_request q s) (\<lambda>(r, s). w25qxx_queue_loop dev q r s)))"

definition w25qxx_request_queue :: "'c w25qxx_dev \<Rightarrow> nat \<Rightarrow> 'c blk \<Rightarrow> 'c blk option" where
  "w25qxx_request_queue dev q s = do { (r, s) \<leftarrow> blk_fetch_request q s; w25qxx_queue_loop dev q r s }"


section \<open>Lists of queue entries\<close>

fun dchain :: "(nat \<Rightarrow> nat) \<Rightarrow> (nat \<Rightarrow> nat) \<Rightarrow> nat list \<Rightarrow> bool" where
  "dchain nx pv (x # y # zs) \<longleftrightarrow> nx x = y \<and> pv y = x \<and> dchain nx pv (y # zs)"
| "dchain nx pv _ \<longleftrightarrow> True"

lemma dchain_append: "dchain nx pv (xs @ y # zs) \<longleftrightarrow> dchain nx pv (xs @ [y]) \<and> dchain nx pv (y # zs)"
  by (induction nx pv xs rule: dchain.induct) auto

lemma dchain_frame:
  "(\<And>a. a \<in> set (butlast l) \<Longrightarrow> nx' a = nx a) \<Longrightarrow> (\<And>b. b \<in> set (tl l) \<Longrightarrow> pv' b = pv b) \<Longrightarrow> dchain nx pv l \<Longrightarrow> dchain nx' pv' l"
proof (induction nx pv l rule: dchain.induct)
  case (1 nx pv x y zs)
  have "dchain nx' pv' (y # zs)"
    using "1.prems" by (intro "1.IH") (auto dest: in_set_butlastD list.set_sel(2))
  then show ?case using "1.prems" by simp
qed simp_all

lemma dchain_links:
  assumes "dchain nx pv (xs @ p # r # n # zs)"
  shows "pv r = p" "nx r = n"
  using assms [unfolded dchain_append [of nx pv xs p "r # n # zs"]] by simp_all

text \<open>Taking an entry out of the list and putting one in: the list heads at the two sides.\<close>

lemma dchain_unlink:
  assumes c: "dchain nx pv (q # xs @ r # ys @ [q])" and d: "distinct (q # xs @ r # ys)"
  defines "p \<equiv> last (q # xs)" and "n \<equiv> hd (ys @ [q])"
  shows "dchain (nx(p := n)) (pv(n := p)) (q # xs @ ys @ [q])"
proof -
  obtain A where A: "q # xs = A @ [p]" unfolding p_def by (metis append_butlast_last_id list.distinct(1))
  obtain B where B: "ys @ [q] = n # B" unfolding n_def by (metis append_is_Nil_conv list.collapse list.distinct(1))
  have "(q # xs) @ r # ys @ [q] = A @ p # r # n # B" unfolding A B by simp
  then have "dchain nx pv (A @ p # r # n # B)" using c by (metis append_Cons)
  then have l: "dchain nx pv (A @ [p])" "dchain nx pv (n # B)" unfolding dchain_append [of nx pv A p "r # n # B"] by simp_all
  have s: "distinct (A @ [p])" "n \<notin> set (tl (A @ [p]))" "p \<notin> set (butlast (n # B))" "n \<notin> set B"
  proof -
    have qx: "distinct (q # xs)" "distinct ys" "q \<notin> set ys" "set (q # xs) \<inter> set ys = {}" using d by auto
    show "distinct (A @ [p])" using qx(1) A by simp
    have "n \<in> insert q (set ys)" unfolding n_def by (cases ys) auto
    then show "n \<notin> set (tl (A @ [p]))" unfolding A [symmetric] using qx by auto
    have "butlast (n # B) = ys" unfolding B [symmetric] by simp
    moreover have "p \<in> set (q # xs)" unfolding p_def by simp
    ultimately show "p \<notin> set (butlast (n # B))" using qx(4) by auto
    show "n \<notin> set B" using B qx by (cases ys) auto
  qed
  have "dchain (nx(p := n)) (pv(n := p)) (A @ [p])" by (rule dchain_frame [OF _ _ l(1)]) (use s in \<open>auto simp: butlast_append\<close>)
  moreover have "dchain (nx(p := n)) (pv(n := p)) (n # B)" by (rule dchain_frame [OF _ _ l(2)]) (use s in auto)
  ultimately have "dchain (nx(p := n)) (pv(n := p)) (A @ p # n # B)" unfolding dchain_append [of _ _ A p "n # B"] by simp
  moreover have "A @ p # n # B = q # xs @ ys @ [q]" using A B by (metis append.assoc append_Cons append_Nil)
  ultimately show ?thesis by simp
qed

lemma dchain_insert:
  assumes c: "dchain nx pv (q # rs @ [q])" and d: "distinct (q # rs)" and r: "r \<notin> set (q # rs)"
  defines "p \<equiv> last (q # rs)"
  shows "dchain (nx(r := q, p := r)) (pv(q := r, r := p)) (q # (rs @ [r]) @ [q])"
proof -
  obtain A where A: "q # rs = A @ [p]" unfolding p_def by (metis append_butlast_last_id list.distinct(1))
  have "(q # rs) @ [q] = A @ p # [q]" unfolding A by simp
  then have "dchain nx pv (A @ p # [q])" using c by (metis append_Cons)
  then have l: "dchain nx pv (A @ [p])" unfolding dchain_append [of nx pv A p "[q]"] by simp
  have s: "distinct (A @ [p])" "r \<notin> set (A @ [p])" "q \<notin> set (tl (A @ [p]))" using d r by (simp_all flip: A)
  have "dchain (nx(r := q, p := r)) (pv(q := r, r := p)) (A @ [p])"
    by (rule dchain_frame [OF _ _ l]) (use s in \<open>auto simp: butlast_append dest: list.set_sel(2) [rotated]\<close>)
  moreover have "r \<noteq> p" "q \<noteq> r" using s r by auto
  ultimately have "dchain (nx(r := q, p := r)) (pv(q := r, r := p)) (A @ p # r # [q])"
    unfolding dchain_append [of _ _ A p "r # [q]"] by simp
  moreover have "A @ p # r # [q] = q # (rs @ [r]) @ [q]" using A by (metis append.assoc append_Cons append_Nil)
  ultimately show ?thesis by simp
qed

definition nx :: "heads \<Rightarrow> nat \<Rightarrow> nat" where
  "nx m a = (case m a of Some v \<Rightarrow> lh_next v | None \<Rightarrow> 0)"

definition pv :: "heads \<Rightarrow> nat \<Rightarrow> nat" where
  "pv m a = (case m a of Some v \<Rightarrow> lh_prev v | None \<Rightarrow> 0)"

text \<open>The list of head \<open>q\<close> has the entries \<open>rs\<close> in this order.\<close>

definition queued :: "heads \<Rightarrow> nat \<Rightarrow> nat list \<Rightarrow> bool" where
  "queued m q rs \<longleftrightarrow> distinct (q # rs) \<and> (\<forall>a \<in> set (q # rs). at m a \<noteq> None) \<and> dchain (nx m) (pv m) (q # rs @ [q])"

lemma queuedI:
  "distinct (q # rs) \<Longrightarrow> (\<And>a. a \<in> set (q # rs) \<Longrightarrow> at m a \<noteq> None) \<Longrightarrow> dchain (nx m) (pv m) (q # rs @ [q]) \<Longrightarrow> queued m q rs"
  unfolding queued_def by blast

lemma queued_at: "queued m q rs \<Longrightarrow> a \<in> set (q # rs) \<Longrightarrow> 0 < a \<and> (\<exists>v. m a = Some v \<and> lh_next v = nx m a \<and> lh_prev v = pv m a)"
  by (auto simp: queued_def at_def nx_def pv_def split: if_splits)

lemma queued_nx: "queued m q rs \<Longrightarrow> nx m q = hd (rs @ [q])"
  by (cases rs) (auto simp: queued_def)

lemma queued_empty:
  assumes q: "queued m q rs"
  shows "list_empty q m = Some (rs = [])"
proof -
  obtain v where "0 < q" "m q = Some v" "lh_next v = nx m q" using queued_at [OF q, of q] by auto
  then have "list_empty q m = Some (hd (rs @ [q]) = q)" by (simp add: list_empty_def queued_nx [OF q])
  moreover have "q \<notin> set rs" using q by (simp add: queued_def)
  ultimately show ?thesis by (cases rs) auto
qed

lemma nx_upd: "nx (m(a \<mapsto> v)) = (nx m)(a := lh_next v)" "pv (m(a \<mapsto> v)) = (pv m)(a := lh_prev v)"
  by (auto simp: nx_def pv_def)

lemma list_unlink_queued:
  assumes q: "queued m q (xs @ r # ys)"
  obtains m' where "list_unlink r m = Some m'" "queued m' q (xs @ ys)" "m' r = m r"
    "\<And>a. a \<notin> set (q # xs @ ys) \<Longrightarrow> m' a = m a" "\<And>a. m' a = None \<longleftrightarrow> m a = None"
proof -
  define p n where "p = last (q # xs)" and "n = hd (ys @ [q])"
  have c: "dchain (nx m) (pv m) (q # xs @ r # ys @ [q])" and d: "distinct (q # xs @ r # ys)"
    using q by (simp_all add: queued_def)
  have pn: "p \<in> set (q # xs)" "n \<in> insert q (set ys)" unfolding p_def n_def by simp (cases ys, auto)
  then have ne: "p \<noteq> r" "n \<noteq> r" using d by auto
  have l: "pv m r = p" "nx m r = n"
  proof -
    obtain A where A: "q # xs = A @ [p]" unfolding p_def by (metis append_butlast_last_id list.distinct(1))
    obtain B where B: "ys @ [q] = n # B" unfolding n_def by (metis append_is_Nil_conv list.collapse list.distinct(1))
    have "(q # xs) @ r # ys @ [q] = A @ p # r # n # B" unfolding A B by simp
    then have "dchain (nx m) (pv m) (A @ p # r # n # B)" using c by (metis append_Cons)
    then show "pv m r = p" "nx m r = n" by (rule dchain_links)+
  qed
  obtain v where v: "0 < r" "m r = Some v" "lh_next v = n" "lh_prev v = p" using queued_at [OF q, of r] l by auto
  obtain vn where n: "0 < n" "m n = Some vn" using queued_at [OF q, of n] pn by auto
  define m1 where "m1 = m(n \<mapsto> vn\<lparr>lh_prev := p\<rparr>)"
  obtain vp where p: "0 < p" "m1 p = Some vp" "lh_prev vp = pv m1 p" "lh_next vn = nx m n"
  proof -
    obtain vp0 where "0 < p" "m p = Some vp0" using queued_at [OF q, of p] pn by auto
    then have "\<exists>vp. m1 p = Some vp" by (simp add: m1_def)
    then show thesis using that \<open>0 < p\<close> n by (auto simp: nx_def pv_def)
  qed
  define m2 where "m2 = m1(p \<mapsto> vp\<lparr>lh_next := n\<rparr>)"
  have u: "list_unlink r m = Some m2" using v n p by (simp add: list_unlink_def m1_def m2_def)
  have links: "nx m2 = (nx m)(p := n)" "pv m2 = (pv m)(n := p)"
    using p n by (auto simp: m1_def m2_def nx_upd fun_eq_iff)
  have dom: "m2 a = None \<longleftrightarrow> m a = None" for a using p n by (auto simp: m1_def m2_def split: if_splits)
  have "queued m2 q (xs @ ys)"
  proof (rule queuedI)
    show "distinct (q # xs @ ys)" using d by auto
    show "at m2 a \<noteq> None" if "a \<in> set (q # xs @ ys)" for a using queued_at [OF q, of a] that dom [of a] by auto
    show "dchain (nx m2) (pv m2) (q # (xs @ ys) @ [q])" unfolding links p_def n_def using dchain_unlink [OF c d] by simp
  qed
  moreover have "m2 a = m a" if "a \<notin> set (q # xs @ ys)" for a using that pn by (auto simp: m1_def m2_def)
  moreover have "m2 r = m r" using ne by (simp add: m1_def m2_def)
  ultimately show thesis using that u dom by blast
qed

lemma list_add_tail_queued:
  assumes q: "queued m q rs" and r: "0 < r" "r \<notin> set (q # rs)" "m r \<noteq> None"
  obtains m' where "list_add_tail r q m = Some m'" "queued m' q (rs @ [r])" "\<And>a. a \<notin> set (q # rs @ [r]) \<Longrightarrow> m' a = m a"
    "\<And>a. m' a = None \<longleftrightarrow> m a = None"
proof -
  define p where "p = last (q # rs)"
  have c: "dchain (nx m) (pv m) (q # rs @ [q])" and d: "distinct (q # rs)" using q by (simp_all add: queued_def)
  have pin: "p \<in> set (q # rs)" unfolding p_def by simp
  then have ne: "p \<noteq> r" "q \<noteq> r" using r by auto
  have l: "pv m q = p"
  proof -
    obtain A where A: "q # rs = A @ [p]" unfolding p_def by (metis append_butlast_last_id list.distinct(1))
    have "(q # rs) @ [q] = A @ p # [q]" unfolding A by simp
    then have "dchain (nx m) (pv m) (A @ p # [q])" using c by (metis append_Cons)
    then show ?thesis unfolding dchain_append [of _ _ A p "[q]"] by simp
  qed
  obtain vq where vq: "0 < q" "m q = Some vq" "lh_prev vq = p" "lh_next vq = nx m q" using queued_at [OF q, of q] l by auto
  obtain vr where vr: "m r = Some vr" using r by blast
  obtain vp where vp: "0 < p" "m p = Some vp" "lh_prev vp = pv m p" using queued_at [OF q pin] by auto
  define m1 where "m1 = m(q \<mapsto> vq\<lparr>lh_prev := r\<rparr>, r \<mapsto> vr\<lparr>lh_next := q, lh_prev := p\<rparr>)"
  have "\<exists>wp. m1 p = Some wp" using vp ne by (simp add: m1_def)
  then obtain wp where wp: "m1 p = Some wp" "lh_prev wp = pv m1 p" by (auto simp: pv_def)
  define m2 where "m2 = m1(p \<mapsto> wp\<lparr>lh_next := r\<rparr>)"
  have u: "list_add_tail r q m = Some m2"
    using vq vr vp wp r(1) ne by (auto simp: list_add_tail_def list_insert_def m1_def m2_def upd_def at_def fun_upd_twist)
  have links: "nx m2 = (nx m)(r := q, p := r)" "pv m2 = (pv m)(q := r, r := p)"
    using wp(2) vq ne by (auto simp: m1_def m2_def nx_upd fun_eq_iff)
  have dom: "m2 a = None \<longleftrightarrow> m a = None" for a using vq vp vr by (auto simp: m1_def m2_def split: if_splits)
  have "queued m2 q (rs @ [r])"
  proof (rule queuedI)
    show "distinct (q # rs @ [r])" using d r by auto
    show "at m2 a \<noteq> None" if "a \<in> set (q # rs @ [r])" for a using queued_at [OF q, of a] that dom [of a] r by auto
    show "dchain (nx m2) (pv m2) (q # (rs @ [r]) @ [q])" unfolding links p_def by (rule dchain_insert [OF c d r(2)])
  qed
  moreover have "m2 a = m a" if "a \<notin> set (q # rs @ [r])" for a using that pin by (auto simp: m1_def m2_def)
  ultimately show thesis using that u dom by blast
qed


lemma queued_cong:
  assumes "queued m q rs" "\<And>a. a \<in> set (q # rs) \<Longrightarrow> m' a = m a"
  shows "queued m' q rs"
proof (rule queuedI)
  show "distinct (q # rs)" using assms(1) by (simp add: queued_def)
  show "at m' a \<noteq> None" if "a \<in> set (q # rs)" for a using that assms queued_at [OF assms(1)] by fastforce
  show "dchain (nx m') (pv m') (q # rs @ [q])"
  proof (rule dchain_frame)
    show "nx m' a = nx m a" if "a \<in> set (butlast (q # rs @ [q]))" for a
      using that assms(2) [of a] by (auto simp: nx_def butlast_append dest: in_set_butlastD split: if_splits)
    show "pv m' a = pv m a" if "a \<in> set (tl (q # rs @ [q]))" for a using that assms(2) [of a] by (auto simp: pv_def)
  qed (use assms(1) in \<open>simp add: queued_def\<close>)
qed

lemma queued_entry_links:
  assumes q: "queued m q (xs @ r # ys)"
  shows "list_empty r m = Some False"
proof -
  obtain v where v: "0 < r" "m r = Some v" "lh_next v = nx m r" using queued_at [OF q, of r] by auto
  have "dchain (nx m) (pv m) ((q # xs) @ r # ys @ [q])" using q by (simp add: queued_def)
  then have "dchain (nx m) (pv m) (r # ys @ [q])" using dchain_append [of "nx m" "pv m" "q # xs" r "ys @ [q]"] by blast
  then have "nx m r = hd (ys @ [q])" by (cases ys) auto
  moreover have "hd (ys @ [q]) \<noteq> r" using q by (cases ys) (auto simp: queued_def)
  ultimately show ?thesis using v by (simp add: list_empty_def)
qed

lemma list_del_entry_queued:
  assumes "queued m q (r # rs)"
  obtains m' where "list_del_entry r m = Some m'" "queued m' q rs" "m' r = Some \<lparr>lh_next = LIST_POISON1, lh_prev = LIST_POISON2\<rparr>"
    "\<And>a. a \<notin> set (q # r # rs) \<Longrightarrow> m' a = m a"
proof -
  have q: "queued m q ([] @ r # rs)" using assms by simp
  obtain m1 where m1: "list_unlink r m = Some m1" "queued m1 q ([] @ rs)" "m1 r = m r"
    "\<And>a. a \<notin> set (q # [] @ rs) \<Longrightarrow> m1 a = m a" by (rule list_unlink_queued [OF q]) blast
  have r: "0 < r" "m r \<noteq> None" "r \<notin> set (q # rs)" using queued_at [OF assms, of r] assms by (auto simp: queued_def)
  define m2 where "m2 = m1(r \<mapsto> \<lparr>lh_next = LIST_POISON1, lh_prev = LIST_POISON2\<rparr>)"
  have "list_del_entry r m = Some m2" using m1(1,3) r by (auto simp: list_del_entry_def m2_def upd_def)
  moreover have "queued m2 q rs" by (rule queued_cong [where m = m1]) (use m1(2) r in \<open>auto simp: m2_def\<close>)
  moreover have "m2 a = m a" if "a \<notin> set (q # r # rs)" for a using that m1(4) by (simp add: m2_def)
  ultimately show thesis using that by (simp add: m2_def)
qed

section \<open>The queue as a first-in first-out list\<close>

text \<open>The contract of a queue: what was put last comes out last; \<open>no_entry\<close> is what an empty queue gives.\<close>

fun gets :: "('s \<Rightarrow> ('a \<times> 's) option) \<Rightarrow> nat \<Rightarrow> 's \<Rightarrow> ('a list \<times> 's) option" where
  "gets get 0 s = Some ([], s)"
| "gets get (Suc n) s = do { (x, s) \<leftarrow> get s; (xs, s) \<leftarrow> gets get n s; Some (x # xs, s) }"

locale fifo =
  fixes put :: "'a \<Rightarrow> 's \<Rightarrow> 's option" and get :: "'s \<Rightarrow> ('a \<times> 's) option" and no_entry :: 'a
    and content :: "'s \<Rightarrow> 'a list \<Rightarrow> bool" and fresh :: "'s \<Rightarrow> 'a \<Rightarrow> bool"
  assumes put_last: "content s xs \<Longrightarrow> fresh s x \<Longrightarrow> x \<notin> set xs \<Longrightarrow> \<exists>s'. put x s = Some s' \<and> content s' (xs @ [x])"
    and get_empty: "content s [] \<Longrightarrow> get s = Some (no_entry, s)"
    and get_first: "content s (x # xs) \<Longrightarrow> \<exists>s'. get s = Some (x, s') \<and> content s' xs"
begin

lemma gets_in_order: "content s (xs @ ys) \<Longrightarrow> \<exists>s'. gets get (length xs) s = Some (xs, s') \<and> content s' ys"
proof (induction xs arbitrary: s)
  case (Cons x xs)
  then obtain s1 where "get s = Some (x, s1)" "content s1 (xs @ ys)" using get_first [of s x "xs @ ys"] by auto
  then show ?case using Cons.IH [of s1] by auto
qed simp

lemma drained: "content s xs \<Longrightarrow> \<exists>s'. gets get (length xs) s = Some (xs, s') \<and> content s' [] \<and> get s' = Some (no_entry, s')"
  using gets_in_order [of s xs "[]"] get_empty by auto

lemma last_put_last_got:
  assumes "content s xs" "fresh s x" "x \<notin> set xs"
  shows "\<exists>s' s''. put x s = Some s' \<and> gets get (Suc (length xs)) s' = Some (xs @ [x], s'') \<and> content s'' []"
proof -
  obtain s' where "put x s = Some s'" "content s' (xs @ [x])" using put_last [OF assms] by blast
  then show ?thesis using gets_in_order [of s' "xs @ [x]" "[]"] by auto
qed

end

text \<open>Requests of a queue are alive and know it; a fresh one has a list head of its own that is nobody's.\<close>

definition queue_of :: "nat \<Rightarrow> 'c blk \<Rightarrow> nat list \<Rightarrow> bool" where
  "queue_of q s rs \<longleftrightarrow> queued (heads s) q rs \<and> (\<forall>r \<in> set rs. \<exists>v. requests s r = Some v \<and> rq_q v = q)"

definition fresh_for :: "nat \<Rightarrow> 'c blk \<Rightarrow> nat \<Rightarrow> bool" where
  "fresh_for q s r \<longleftrightarrow> 0 < r \<and> r \<noteq> q \<and> heads s r \<noteq> None \<and> (\<exists>v. requests s r = Some v \<and> rq_q v = q)"

lemma queue_add:
  assumes "queue_of q s rs" "fresh_for q s r" "r \<notin> set rs"
  obtains s' where "request_queue_add q r s = Some s'" "queue_of q s' (rs @ [r])"
proof -
  have "queued (heads s) q rs" "0 < r" "r \<notin> set (q # rs)" "heads s r \<noteq> None" using assms by (auto simp: queue_of_def fresh_for_def)
  then obtain m where "list_add_tail r q (heads s) = Some m" "queued m q (rs @ [r])" by (rule list_add_tail_queued)
  then show thesis using that [of "s\<lparr>heads := m\<rparr>"] assms by (auto simp: request_queue_add_def queue_of_def fresh_for_def)
qed

lemma fetch_empty: "queue_of q s [] \<Longrightarrow> blk_fetch_request q s = Some (0, s)"
  by (simp add: blk_fetch_request_def queue_of_def queued_empty)

lemma fetch_first:
  assumes q: "queue_of q s (r # rs)"
  obtains m where "blk_fetch_request q s = Some (r, s\<lparr>heads := m\<rparr>)" "queue_of q (s\<lparr>heads := m\<rparr>) rs"
    "m r = Some \<lparr>lh_next = LIST_POISON1, lh_prev = LIST_POISON2\<rparr>" "\<And>a. a \<notin> set (q # r # rs) \<Longrightarrow> m a = heads s a"
proof -
  have qd: "queued (heads s) q (r # rs)" using q by (simp add: queue_of_def)
  obtain h where h: "0 < q" "heads s q = Some h" "lh_next h = r"
    using queued_at [OF qd, of q] queued_nx [OF qd] by auto
  obtain m where m: "list_del_entry r (heads s) = Some m" "queued m q rs"
    "m r = Some \<lparr>lh_next = LIST_POISON1, lh_prev = LIST_POISON2\<rparr>" "\<And>a. a \<notin> set (q # r # rs) \<Longrightarrow> m a = heads s a"
    by (rule list_del_entry_queued [OF qd]) blast
  show thesis by (rule that [of m]) (use m q h qd in \<open>auto simp: blk_fetch_request_def queued_empty queue_of_def\<close>)
qed

interpretation request_fifo: fifo "request_queue_add q" "blk_fetch_request q" 0 "queue_of q" "fresh_for q" for q
proof unfold_locales
  fix s :: "'a blk" and xs x assume "queue_of q s xs" "fresh_for q s x" "x \<notin> set xs"
  then show "\<exists>s'. request_queue_add q x s = Some s' \<and> queue_of q s' (xs @ [x])" by (metis queue_add)
next
  fix s :: "'a blk" and xs x assume "queue_of q s (x # xs)"
  then show "\<exists>s'. blk_fetch_request q s = Some (x, s') \<and> queue_of q s' xs" by (metis fetch_first)
qed (rule fetch_empty)

section \<open>The end of a request\<close>

lemma remove_queued:
  assumes q: "queue_of q s (xs @ r # ys)"
  obtains s' where "request_queue_remove q r s = Some s'" "queue_of q s' (xs @ ys)" "requests s' = (requests s)(r := None)"
proof -
  have qd: "queued (heads s) q (xs @ r # ys)" using q by (simp add: queue_of_def)
  obtain m where m: "list_unlink r (heads s) = Some m" "queued m q (xs @ ys)" "m r = heads s r"
    by (rule list_unlink_queued [OF qd]) blast
  have r: "0 < r" "heads s r \<noteq> None" "r \<notin> set (q # xs @ ys)" using queued_at [OF qd, of r] qd by (auto simp: queued_def)
  let ?s = "free_request r (s\<lparr>heads := m(r \<mapsto> \<lparr>lh_next = r, lh_prev = r\<rparr>)\<rparr>)"
  have "request_queue_remove q r s = Some ?s"
    using m r queued_entry_links [OF qd] by (auto simp: request_queue_remove_def list_del_init_def INIT_LIST_HEAD_def upd_def)
  moreover have "queued (heads ?s) q (xs @ ys)"
    by (rule queued_cong [OF m(2)]) (use r in \<open>auto simp: free_request_def\<close>)
  moreover have "requests ?s = (requests s)(r := None)" by (auto simp: free_request_def fun_eq_iff)
  moreover have "\<exists>v. requests ?s a = Some v \<and> rq_q v = q" if "a \<in> set (xs @ ys)" for a
  proof -
    have "a \<noteq> r" "a \<in> set (xs @ r # ys)" using that r by auto
    then show ?thesis using q by (simp add: queue_of_def free_request_def)
  qed
  ultimately show thesis using that [of ?s] by (simp add: queue_of_def)
qed

text \<open>A request that has been fetched is linked to nothing but the poison; its end follows that.\<close>

lemma poisoned_end:
  assumes "heads s r = Some \<lparr>lh_next = LIST_POISON1, lh_prev = LIST_POISON2\<rparr>" "heads s LIST_POISON1 = None"
  shows "blk_mq_end_request r s = None"
  using assms by (auto simp: blk_mq_end_request_def request_queue_remove_def list_empty_def list_del_init_def list_unlink_def
      upd_def at_def bind_eq_None_conv)

lemma vec_heads: "w25qxx_vec dev w start bv s = Some (ret, s') \<Longrightarrow> heads s' = heads s"
  by (auto simp: w25qxx_vec_def bind_eq_Some_conv Let_def split: if_splits)

lemma vecs_heads: "w25qxx_vecs dev w start bvs ret s = Some (ret', s') \<Longrightarrow> heads s' = heads s"
proof (induction bvs arbitrary: ret s)
  case (Cons bv bvs)
  obtain r1 s1 m where "w25qxx_vec dev w start bv s = Some (r1, s1)" "w25qxx_vecs dev w start bvs r1 (s1\<lparr>mm := m\<rparr>) = Some (ret', s')"
    using Cons.prems by (auto simp: bind_eq_Some_conv)
  then show ?case using Cons.IH [of r1 "s1\<lparr>mm := m\<rparr>"] vec_heads by simp
qed simp

lemma bios_heads:
  assumes "w25qxx_bios dev r w start ret s = Some x"
  shows "heads (snd x) = heads s"
  using assms
proof (induction rule: w25qxx_bios.raw_induct [rotated, consumes 1])
  case (1 f dev r w start ret s x)
  obtain v where v: "at (requests s) r = Some v" using 1(2) by (auto simp: bind_eq_Some_conv)
  show ?case
  proof (cases "rq_bio v = 0")
    case True
    then show ?thesis using 1(2) v by auto
  next
    case False
    obtain b :: bio and r1 s1 rs where b: "w25qxx_vecs dev w start (take (bi_vcnt b) (bi_io_vec b)) ret s = Some (r1, s1)"
      "f dev r w start r1 (s1\<lparr>requests := rs\<rparr>) = Some x"
      using 1(2) v False by (auto simp: bind_eq_Some_conv)
    from 1(1) [OF b(2)] vecs_heads [OF b(1)] show ?thesis by simp
  qed
qed

lemma request_faults:
  assumes "0 < r" "heads s r = Some \<lparr>lh_next = LIST_POISON1, lh_prev = LIST_POISON2\<rparr>" "heads s LIST_POISON1 = None"
  shows "w25qxx_request dev r s = None"
proof (rule ccontr)
  assume "w25qxx_request dev r s \<noteq> None"
  then obtain w start ret s1 s2 where "w25qxx_bios dev r w start 0 s = Some (ret, s1)" "blk_mq_end_request r s1 = Some s2"
    using assms(1) by (auto simp: w25qxx_request_def bind_eq_Some_conv)
  then show False using bios_heads [of dev r w start 0 s "(ret, s1)"] poisoned_end [of s1 r] assms by simp
qed

lemma queue_faults:
  assumes q: "queue_of q s (r # rs)" and p: "heads s LIST_POISON1 = None"
  shows "w25qxx_request_queue dev q s = None"
proof -
  obtain m where m: "blk_fetch_request q s = Some (r, s\<lparr>heads := m\<rparr>)"
    "m r = Some \<lparr>lh_next = LIST_POISON1, lh_prev = LIST_POISON2\<rparr>" "\<And>a. a \<notin> set (q # r # rs) \<Longrightarrow> m a = heads s a"
    by (rule fetch_first [OF q]) blast
  have e: "0 < a \<and> heads s a \<noteq> None" if "a \<in> set (q # r # rs)" for a
    using queued_at [of "heads s" q "r # rs" a] q that by (auto simp: queue_of_def)
  then have "m LIST_POISON1 = None" using m(3) p by metis
  moreover have "0 < r" using e by simp
  ultimately have "w25qxx_request dev r (s\<lparr>heads := m\<rparr>) = None" using m(2) by (intro request_faults) simp_all
  then show ?thesis using m(1) \<open>0 < r\<close> by (simp add: w25qxx_request_queue_def w25qxx_queue_loop.simps)
qed

lemma queued_first_nx: "queued m q (r # rs) \<Longrightarrow> nx m r = hd (rs @ [q])"
  by (cases rs) (auto simp: queued_def)

lemma process_loop_drains:
  "queue_of q s (r # rs) \<Longrightarrow> \<exists>s'. process_loop q r (hd (rs @ [q])) s = Some s' \<and> queue_of q s' [] \<and>
     (\<forall>a \<in> set (r # rs). requests s' a = None) \<and> (\<forall>a. requests s a = None \<longrightarrow> requests s' a = None)"
proof (induction rs arbitrary: r s)
  case (Cons r2 rs)
  obtain m where m: "list_del_entry r (heads s) = Some m" "queued m q (r2 # rs)"
    using Cons.prems by (auto simp: queue_of_def elim: list_del_entry_queued)
  have r: "r \<noteq> q" "r \<notin> set (r2 # rs)" using Cons.prems by (auto simp: queue_of_def queued_def)
  define s1 where "s1 = free_request r (s\<lparr>heads := m\<rparr>)"
  have q1: "queued (heads s1) q (r2 # rs)" by (rule queued_cong [OF m(2)]) (use r in \<open>auto simp: s1_def free_request_def\<close>)
  moreover have "requests s1 = (requests s)(r := None)" by (auto simp: s1_def free_request_def fun_eq_iff)
  ultimately have s1: "queue_of q s1 (r2 # rs)" "requests s1 = (requests s)(r := None)"
    using Cons.prems r by (auto simp: queue_of_def)
  obtain t where t: "at (heads s1) r2 = Some t" "lh_next t = hd (rs @ [q])"
    using queued_at [OF q1, of r2] queued_first_nx [OF q1] by auto
  have "process_loop q r r2 s = process_loop q r2 (hd (rs @ [q])) s1"
    using m(1) t r by (subst process_loop.simps) (simp flip: s1_def)
  then show ?case using Cons.IH [OF s1(1)] s1(2) by auto
next
  case Nil
  obtain m where m: "list_del_entry r (heads s) = Some m" "queued m q []"
    using Nil by (auto simp: queue_of_def elim: list_del_entry_queued)
  have r: "r \<noteq> q" using Nil by (auto simp: queue_of_def queued_def)
  define s1 where "s1 = free_request r (s\<lparr>heads := m\<rparr>)"
  have "queued (heads s1) q []" by (rule queued_cong [OF m(2)]) (use r in \<open>auto simp: s1_def free_request_def\<close>)
  then have s1: "queue_of q s1 []" "requests s1 = (requests s)(r := None)"
    by (auto simp: s1_def free_request_def queue_of_def fun_eq_iff)
  obtain t where t: "at (heads s1) q = Some t" using queued_at [of "heads s1" q "[]" q] s1(1) by (auto simp: queue_of_def)
  have "process_loop q r q s = Some s1"
    using m(1) t r by (subst process_loop.simps) (simp add: process_loop.simps [of q q] flip: s1_def)
  then show ?case using s1 by auto
qed

lemma process_drains:
  assumes q: "queue_of q s rs"
  obtains s' where "process_requests_in_queue q s = Some s'" "queue_of q s' []" "\<And>r. r \<in> set rs \<Longrightarrow> requests s' r = None"
proof -
  have qd: "queued (heads s) q rs" using q by (simp add: queue_of_def)
  obtain h where h: "0 < q" "heads s q = Some h" "lh_next h = hd (rs @ [q])" using queued_at [OF qd, of q] queued_nx [OF qd] by auto
  show thesis
  proof (cases rs)
    case Nil
    then have "process_requests_in_queue q s = Some s" using h by (simp add: process_requests_in_queue_def process_loop.simps [of q q])
    then show thesis using that q Nil by simp
  next
    case (Cons r rs')
    obtain f where f: "at (heads s) r = Some f" "lh_next f = hd (rs' @ [q])"
      using queued_at [of "heads s" q "r # rs'" r] queued_first_nx [of "heads s" q r rs'] qd Cons by auto
    then have "process_requests_in_queue q s = process_loop q r (hd (rs' @ [q])) s"
      using h Cons by (simp add: process_requests_in_queue_def)
    then show thesis using process_loop_drains [of q s r rs'] q Cons that by auto
  qed
qed

text \<open>C26: The queue of a block device hands out its requests in the order they were added, and one that is still queued is taken out and
  freed without disturbing the others; draining the queue frees them all. But no request that has been fetched can be ended: fetching poisons its links, and ending it
  follows them to store through the poison; so the flash driver faults on every queue that is not empty.
\<close>

theorem block_queue_order:
  assumes "queue_of q s rs" "heads s LIST_POISON1 = None"
  shows "(\<exists>s'. gets (blk_fetch_request q) (length rs) s = Some (rs, s') \<and> blk_fetch_request q s' = Some (0, s'))
    \<and> (\<forall>r. fresh_for q s r \<and> r \<notin> set rs \<longrightarrow> (\<exists>s' s''. request_queue_add q r s = Some s' \<and>
         gets (blk_fetch_request q) (Suc (length rs)) s' = Some (rs @ [r], s'')))
    \<and> (\<forall>xs r ys. rs = xs @ r # ys \<longrightarrow> (\<exists>s'. blk_mq_end_request r s = Some s' \<and> queue_of q s' (xs @ ys) \<and> requests s' r = None))
    \<and> (\<exists>s'. process_requests_in_queue q s = Some s' \<and> queue_of q s' [] \<and> (\<forall>r \<in> set rs. requests s' r = None))
    \<and> (rs \<noteq> [] \<longrightarrow> w25qxx_request_queue dev q s = None)"
proof (intro conjI allI impI)
  show "\<exists>s'. gets (blk_fetch_request q) (length rs) s = Some (rs, s') \<and> blk_fetch_request q s' = Some (0, s')"
    using request_fifo.drained [OF assms(1)] by blast
  show "\<exists>s' s''. request_queue_add q r s = Some s' \<and> gets (blk_fetch_request q) (Suc (length rs)) s' = Some (rs @ [r], s'')"
    if "fresh_for q s r \<and> r \<notin> set rs" for r
    using request_fifo.last_put_last_got [OF assms(1)] that by blast
  show "\<exists>s'. blk_mq_end_request r s = Some s' \<and> queue_of q s' (xs @ ys) \<and> requests s' r = None" if "rs = xs @ r # ys" for xs r ys
  proof -
    have q: "queue_of q s (xs @ r # ys)" using assms(1) that by simp
    obtain v where "0 < r" "requests s r = Some v" "rq_q v = q"
      using q queued_at [of "heads s" q "xs @ r # ys" r] by (auto simp: queue_of_def)
    moreover obtain s' where "request_queue_remove q r s = Some s'" "queue_of q s' (xs @ ys)" "requests s' = (requests s)(r := None)"
      by (rule remove_queued [OF q])
    ultimately show ?thesis by (intro exI [of _ s']) (simp add: blk_mq_end_request_def)
  qed
  show "\<exists>s'. process_requests_in_queue q s = Some s' \<and> queue_of q s' [] \<and> (\<forall>r \<in> set rs. requests s' r = None)"
    using process_drains [OF assms(1)] by metis
  show "w25qxx_request_queue dev q s = None" if "rs \<noteq> []"
    using queue_faults assms that by (cases rs) auto
qed


text \<open>Two requests in a queue, on any memory.\<close>

definition two_requests :: "fsmem \<Rightarrow> unit blk" where
  "two_requests m = (let r = \<lparr>rq_q = 1000, cmd_flags = 0, data_len = 1, sector = 0, rq_bio = 0, biotail = 0, rq_timeout = 1000\<rparr> in
     \<lparr>mm = m, heads = [1000 \<mapsto> \<lparr>lh_next = 2000, lh_prev = 3000\<rparr>, 2000 \<mapsto> \<lparr>lh_next = 3000, lh_prev = 1000\<rparr>,
        3000 \<mapsto> \<lparr>lh_next = 1000, lh_prev = 2000\<rparr>],
      bios = Map.empty, requests = [2000 \<mapsto> r, 3000 \<mapsto> r], queues = Map.empty, bdevs = Map.empty, chip = ()\<rparr>)"

theorem block_queue_order_witness:
  "\<forall>m dev. (\<exists>s'. gets (blk_fetch_request 1000) 2 (two_requests m) = Some ([2000, 3000], s')) \<and>
     w25qxx_request_queue dev 1000 (two_requests m) = None"
proof (intro allI)
  fix m :: fsmem and dev :: "unit w25qxx_dev"
  have "queue_of 1000 (two_requests m) [2000, 3000]" "heads (two_requests m) LIST_POISON1 = None"
    by (simp_all add: queue_of_def queued_def two_requests_def Let_def nx_def pv_def)
  from block_queue_order [OF this, of dev]
  show "(\<exists>s'. gets (blk_fetch_request 1000) 2 (two_requests m) = Some ([2000, 3000], s')) \<and>
     w25qxx_request_queue dev 1000 (two_requests m) = None"
    by (auto simp: numeral_eq_Suc)
qed

end
