(* ===== verification/Device.thy ===== *)
theory Device
  imports VfsSpec VsprintfSpec CharDev Partition Block
begin

text \<open>
  Devices as files: \<^verbatim>\<open>drivers/driver.c\<close>, and disks with their partitions, \<^verbatim>\<open>block/gendisk.c\<close> and
  \<^verbatim>\<open>block/add_disk.c\<close>. This is where the registry of character devices, the partition tables and the printing of names
  meet the virtual file system.

  The kernel here is the virtual file system with the registry and the stores of the objects that are made; all memory
  comes from the allocator of the file systems. The memory that reading a sector takes is not counted; what reading gives is a parameter.
\<close>

section \<open>Classes and devices\<close>

record device_class =
  cl_owner :: nat
  cl_name :: "u8 list"

record device_object =
  dv_parent :: nat
  dv_class :: nat

text \<open>A block device with the members that registration sets.\<close>

record disk_device = block_device +
  bd_disk :: nat
  bd_dev :: u32

record gendisk =
  gd_major :: u32
  first_minor :: u32
  minors :: u32
  disk_name :: "u8 list"
  part0 :: nat
  gd_queue :: nat
  gd_state :: u32

record kernel =
  kfs :: vfs
  chr :: "file_operations chrdev_state"
  classes :: "nat \<Rightarrow> device_class option"
  devs :: "nat \<Rightarrow> device_object option"
  disks :: "nat \<Rightarrow> gendisk option"
  bdevices :: "nat \<Rightarrow> disk_device option"
  disk_letter :: u8
  blk_dev_major :: u8

text \<open>A block that is given up when the second one cannot be had is not freed.\<close>

definition class_create :: "nat \<Rightarrow> u8 list \<Rightarrow> kernel \<Rightarrow> (int + nat) \<times> kernel" where
  "class_create owner name s = (let (c, v) = vkmalloc (kfs s) in
     if c = 0 then (Inl (- ENOMEM), s\<lparr>kfs := v\<rparr>)
     else let (n, v) = vkmalloc v in
       if n = 0 then (Inl (- ENOMEM), s\<lparr>kfs := v\<rparr>)
       else (Inr c, s\<lparr>kfs := v, classes := (classes s)(c \<mapsto> \<lparr>cl_owner = owner, cl_name = name\<rparr>)\<rparr>))"

text \<open>\<open>stack1\<close> and \<open>stack2\<close> are what the local arrays hold at first.\<close>

definition dev_path :: "u8 list \<Rightarrow> u8 list \<Rightarrow> u8 list option" where
  "dev_path stack2 name = do {
     (_, buf) \<leftarrow> snprintf stack2 (ascii ''/dev/%s'') [Str (Some name)];
     c_string buf }"

definition device_create ::
    "nat \<Rightarrow> nat \<Rightarrow> u32 \<Rightarrow> u8 list \<Rightarrow> u8 list \<Rightarrow> u8 list \<Rightarrow> va list \<Rightarrow> kernel \<Rightarrow> ((int + nat) \<times> kernel) option" where
  "device_create cls parent devt stack1 stack2 fmt ap s = do {
     (_, buf) \<leftarrow> vsnprintf stack1 fmt ap;
     devname \<leftarrow> c_string buf;
     path \<leftarrow> dev_path stack2 devname;
     (r, v) \<leftarrow> create_new_dentry path (S_IFREG OR mode_755) (kfs s);
     case r of Inl e \<Rightarrow> Some (Inl e, s\<lparr>kfs := v\<rparr>)
     | Inr d \<Rightarrow> (let (a, v) = vkmalloc v in
         if a = 0 then Some (Inl (- ENOMEM), s\<lparr>kfs := v\<rparr>)
         else do {
           fop \<leftarrow> find_chrdev (chr s) (unat devt) 0;
           e \<leftarrow> at (dentries v) d;
           (_, v) \<leftarrow> devfs_mount_device (d_inode e) devt fop v;
           Some (Inr a, s\<lparr>kfs := v, devs := (devs s)(a \<mapsto> \<lparr>dv_parent = parent, dv_class = cls\<rparr>)\<rparr>) }) }"

section \<open>Disks\<close>

text \<open>
  The name of a disk is that of the disk itself, or a format without arguments. A failure is returned; success ends without a value, here \<open>Inr 0\<close>.
\<close>

definition register_disk ::
    "nat \<Rightarrow> nat \<Rightarrow> u8 list option \<Rightarrow> u8 list \<Rightarrow> u8 list \<Rightarrow> kernel \<Rightarrow> ((int + nat) \<times> kernel) option" where
  "register_disk dev gd name stack1 stack2 s = do {
     devname \<leftarrow> (case name of
         Some fmt \<Rightarrow> do { (_, buf) \<leftarrow> vsnprintf stack1 fmt []; c_string buf }
       | None \<Rightarrow> do { g \<leftarrow> at (disks s) gd; if length (disk_name g) < length stack1 then Some (disk_name g) else None });
     path \<leftarrow> dev_path stack2 devname;
     (r, v) \<leftarrow> create_new_dentry path (S_IFREG OR mode_755) (kfs s);
     case r of Inl e \<Rightarrow> Some (Inl e, s\<lparr>kfs := v\<rparr>)
     | Inr d \<Rightarrow> do {
         e \<leftarrow> at (dentries v) d;
         g \<leftarrow> at (disks s) gd;
         (_, v) \<leftarrow> devfs_mount_blk_device (d_inode e) dev (gd_major g) v;
         Some (Inr 0, s\<lparr>kfs := v\<rparr>) } }"

text \<open>
  \<open>junk\<close> is what the new disk's block holds: \<open>part0\<close> and the queue are not set. The major number that is drawn is overwritten by the argument.
\<close>

definition gendisk_alloc :: "u32 \<Rightarrow> u32 \<Rightarrow> gendisk \<Rightarrow> u8 list \<Rightarrow> kernel \<Rightarrow> ((int + nat) \<times> kernel) option" where
  "gendisk_alloc maj mins junk stack s = (let (a, v) = vkmalloc (kfs s); s = s\<lparr>kfs := v\<rparr> in
     if a = 0 then Some (Inl (- ENOMEM), s)
     else do {
       let s = (if maj = 0 then s\<lparr>blk_dev_major := blk_dev_major s + 1\<rparr> else s);
       (_, buf) \<leftarrow> snprintf stack (ascii ''sd%c'') [Word (ucast (disk_letter s))];
       name \<leftarrow> c_string buf;
       Some (Inr a, s\<lparr>disk_letter := disk_letter s + 1,
         disks := (disks s)(a \<mapsto> junk\<lparr>gd_major := maj, first_minor := 0, minors := mins, disk_name := name,
           gd_state := gd_state junk AND 0 AND 3\<rparr>)\<rparr>) })"

definition put_disk :: "nat \<Rightarrow> kernel \<Rightarrow> kernel" where
  "put_disk gd s = s\<lparr>disks := free_at (disks s) gd\<rparr>"

text \<open>
  A partition becomes a block device of its own, whose name is the disk's with a digit. The descriptor is allocated before the slot is looked at.
\<close>

definition add_mbr_son_disk ::
    "nat \<Rightarrow> mbr_table \<Rightarrow> nat \<Rightarrow> u8 list \<Rightarrow> u8 list \<Rightarrow> kernel \<Rightarrow> (int \<times> kernel) option" where
  "add_mbr_son_disk dev p i stack1 stack2 s = (let (a, v) = vkmalloc (kfs s); s = s\<lparr>kfs := v\<rparr> in
     if a = 0 then Some (- ENOMEM, s)
     else if check_empty_MBR_Table p i then Some (-1, s)
     else do {
       d \<leftarrow> at (bdevices s) dev;
       let son = \<lparr>bd_start_sect = ucast (get_partiton_data (Some p) (int i) 1), bd_nr_sects = ucast (get_partiton_data (Some p) (int i) 2),
         bd_queue = bd_queue d, bd_disk = bd_disk d, bd_dev = bd_dev d\<rparr>;
       let s = s\<lparr>bdevices := (bdevices s)(a \<mapsto> son, dev \<mapsto> d\<lparr>bd_dev := bd_dev d + 1\<rparr>)\<rparr>;
       g \<leftarrow> at (disks s) (bd_disk d);
       if length (disk_name g) + 2 > 32 then None
       else do {
         (_, s) \<leftarrow> register_disk a (bd_disk d) (Some (disk_name g @ [48 + of_nat i])) stack1 stack2 s;
         Some (0, s) } })"

fun son_disks :: "nat \<Rightarrow> mbr_table \<Rightarrow> nat list \<Rightarrow> u8 list \<Rightarrow> u8 list \<Rightarrow> kernel \<Rightarrow> kernel option" where
  "son_disks dev p [] stack1 stack2 s = Some s"
| "son_disks dev p (i # l) stack1 stack2 s = do {
     (r, s) \<leftarrow> add_mbr_son_disk dev p i stack1 stack2 s;
     if r < 0 then Some s else son_disks dev p l stack1 stack2 s }"

text \<open>The table and the sector it is read from are a block each; a device that cannot be read has no partitions.\<close>

definition register_son_disk :: "(nat \<Rightarrow> device) \<Rightarrow> nat \<Rightarrow> u8 list \<Rightarrow> u8 list \<Rightarrow> kernel \<Rightarrow> kernel option" where
  "register_son_disk media dev stack1 stack2 s = (let (a, v) = vkmalloc (kfs s);
       (b, v) = (if a = 0 then (0, v) else vkmalloc v); s = s\<lparr>kfs := v\<rparr> in
     case get_partition_from_device (a \<noteq> 0 \<and> b \<noteq> 0) (media dev) of
       Inl _ \<Rightarrow> Some s
     | Inr p \<Rightarrow> son_disks dev p [0..<4] stack1 stack2 s)"

text \<open>\<open>junk\<close> is what the block of a new descriptor holds.\<close>

definition add_disk ::
    "(nat \<Rightarrow> device) \<Rightarrow> disk_device \<Rightarrow> nat \<Rightarrow> u8 list \<Rightarrow> u8 list \<Rightarrow> kernel \<Rightarrow> (int \<times> kernel) option" where
  "add_disk media junk gd stack1 stack2 s = do {
     g \<leftarrow> at (disks s) gd;
     let (a, v) = (if part0 g = 0 then vkmalloc (kfs s) else (part0 g, kfs s));
     if a = 0 then Some (- ENOMEM, s\<lparr>kfs := v\<rparr>)
     else do {
       d \<leftarrow> (if part0 g = 0 then Some junk else at (bdevices s) a);
       let s = s\<lparr>kfs := v, disks := (disks s)(gd \<mapsto> g\<lparr>part0 := a\<rparr>),
         bdevices := (bdevices s)(a \<mapsto> d\<lparr>bd_disk := gd, bd_queue := gd_queue g, bd_dev := gd_major g\<rparr>)\<rparr>;
       (_, s) \<leftarrow> register_disk a gd None stack1 stack2 s;
       s \<leftarrow> register_son_disk media a stack1 stack2 s;
       Some (0, s) } }"

end
