(* ===== verification/DeviceSpec.thy ===== *)
theory DeviceSpec
  imports Device
begin

text \<open>
  What \<open>Device\<close> promises: the file that is made for a device leads to what was registered. The way goes through the printing of
  the name, the creation of a file in the directory \<^verbatim>\<open>/dev\<close>, its node in the file system, the registry of character devices,
  the path walk and the table of operations.
\<close>

section \<open>Printing a path\<close>

lemma dev_prefix: "ascii ''/dev/'' = [47, 100, 101, 118, 47]" "ascii ''dev'' = [100, 101, 118]" "ascii ''/dev/%s'' = [47, 100, 101, 118, 47, 37, 115]"
  by (simp_all add: ascii_def)

lemma print_string: "length s < 2147483647 \<Longrightarrow> vs_loop [37, 115] [Str (Some s)] b = Some (puts s b)"
  by (simp add: vs_loop_directive get_directive_def get_int_def get_precision_def get_qualifier_def isdigit_def convert_def put_bytes_def
      field_def vs_loop.simps [of "[]"] Let_def)

lemma dev_path_name:
  assumes "length stack = 128" "length name < 123" "0 \<notin> set name"
  shows "dev_path stack name = Some (ascii ''/dev/'' @ name)"
proof -
  let ?t = "ascii ''/dev/'' @ name"
  have "vs_loop (ascii ''/dev/%s'') [Str (Some name)] (stack, 0) = Some (puts ?t (stack, 0))"
    using assms(2) by (simp add: dev_prefix vs_loop_char print_string)
  from vsnprintf_text [OF this] show ?thesis
    using assms c_string_terminated [of ?t] by (simp add: dev_path_def snprintf_def dev_prefix)
qed

section \<open>Paths below /dev\<close>

lemma dev_names:
  assumes "47 \<notin> set name" "name \<noteq> []" "length name < 128"
  shows "get_dir_number (ascii ''/dev/'' @ name) = 2"
    "get_dir_name (ascii ''/dev/'' @ name) 128 1 = Some (0, Some (ascii ''dev''))"
    "get_dir_name (ascii ''/dev/'' @ name) 128 2 = Some (0, Some name)"
proof -
  have "get_dir_number name = 0" using assms(1) by (induction name) auto
  then show "get_dir_number (ascii ''/dev/'' @ name) = 2" using assms(2) by (simp add: dev_prefix)
  show "get_dir_name (ascii ''/dev/'' @ name) 128 1 = Some (0, Some (ascii ''dev''))"
    by (simp add: dev_prefix get_dir_name_def)
  have n: "takeWhile (\<lambda>c. c \<noteq> 47) name = name" using assms(1) by (auto simp: takeWhile_eq_all_conv)
  then show "get_dir_name (ascii ''/dev/'' @ name) 128 2 = Some (0, Some name)"
    using assms(3) by (simp add: dev_prefix get_dir_name_def n)
qed

definition cached :: "nat \<Rightarrow> u8 list \<Rightarrow> nat \<Rightarrow> vfs \<Rightarrow> bool" where
  "cached dir name d v \<longleftrightarrow> d \<noteq> 0 \<and> d_lookup_dentry dir name v = Some d"

lemma find_cached: "cached dir name d v \<Longrightarrow> find_dentry dir name v = Some (Inr d, v)"
  by (simp add: cached_def find_dentry_def)

lemma select_dev:
  assumes "47 \<notin> set name" "name \<noteq> []" "length name < 128" "cached (root_dentry v) (ascii ''dev'') dd v"
  shows "select_file (ascii ''/dev/'' @ name) 1 v = Some (Inr dd, v)"
    "select_file (ascii ''/dev/'' @ name) 0 v = find_dentry dd name v"
proof -
  have "ascii ''/dev/'' @ name \<noteq> [47]" by (simp add: dev_prefix)
  moreover have "[1..<Suc 1] = [1]" "[1..<Suc 2] = [1, 2]" by (simp_all add: upt_rec)
  moreover have "Option.bind (find_dentry dd name v) (\<lambda>(r, v). case r of Inl e \<Rightarrow> Some (Inl e, v) | Inr d \<Rightarrow> Some (Inr d, v)) = find_dentry dd name v"
    by (cases "find_dentry dd name v") (auto split: sum.splits)
  ultimately show "select_file (ascii ''/dev/'' @ name) 1 v = Some (Inr dd, v)"
    "select_file (ascii ''/dev/'' @ name) 0 v = find_dentry dd name v"
    using find_cached [OF assms(4)] dev_names [OF assms(1-3)] by (simp_all add: select_file_def cong: sum.case_cong)
qed

text \<open>A change of the cache that keeps every dentry's name and the lists of all directories but one.\<close>

lemma d_find_stays:
  assumes "d_find ds l name = Some d" "d \<noteq> 0" "\<And>y e. ds y = Some e \<Longrightarrow> \<exists>e'. ds' y = Some e' \<and> d_name e' = d_name e"
  shows "d_find ds' l name = Some d"
  using assms(1)
proof (induction l)
  case (Cons x l)
  then obtain e n where "0 < x" "ds x = Some e" "d_name e = Some n" by (auto simp: bind_eq_Some_conv at_Some)
  then show ?case using Cons assms(3) [of x e] by (auto split: if_splits)
qed (use assms(2) in simp)

lemma vkmalloc_avail: "vkmalloc v = (a, w) \<Longrightarrow> set (avail (fsm w)) \<subseteq> set (avail (fsm v))"
  by (auto simp: vkmalloc_def kmalloc_def split: list.splits)

lemma dentry_rename_avail: "dentry_rename d name v = Some (r, w) \<Longrightarrow> set (avail (fsm w)) \<subseteq> set (avail (fsm v))"
  by (auto simp: dentry_rename_def bind_eq_Some_conv Let_def split: if_splits prod.splits dest!: vkmalloc_avail)

lemma d_alloc_raw_avail: "d_alloc_raw sb name v = Some (r, w) \<Longrightarrow> set (avail (fsm w)) \<subseteq> set (avail (fsm v))"
  by (auto simp: d_alloc_raw_def bind_eq_Some_conv split: if_splits prod.splits
      dest!: vkmalloc_avail dentry_rename_avail) blast+

lemma d_alloc_avail:
  assumes "d_alloc parent name v = Some (d, w)"
  shows "set (avail (fsm w)) \<subseteq> set (avail (fsm v))"
proof -
  obtain p r u where u: "at (dentries v) parent = Some p" "d_alloc_raw (d_sb p) name v = Some (r, u)"
    using assms by (auto simp: d_alloc_def bind_eq_Some_conv)
  then have "fsm w = fsm u" using assms by (cases r) (auto simp: d_alloc_def bind_eq_Some_conv)
  then show ?thesis using d_alloc_raw_avail [OF u(2)] by simp
qed

lemma d_alloc_root:
  assumes "d_alloc parent name v = Some (d, w)"
  shows "root_dentry w = root_dentry v"
proof -
  have k: "root_dentry w = root_dentry v" if "vkmalloc v = (a, w)" for a and v w :: vfs
    using that by (auto simp: vkmalloc_def kmalloc_def split: list.splits)
  have n: "root_dentry w = root_dentry v" if "dentry_rename d name v = Some (r, w)" for d r and v w :: vfs
    using that by (auto simp: dentry_rename_def bind_eq_Some_conv Let_def split: if_splits prod.splits dest!: k)
  have "root_dentry w = root_dentry v" if "d_alloc_raw sb name v = Some (r, w)" for sb r and v w :: vfs
    using that by (auto simp: d_alloc_raw_def bind_eq_Some_conv split: if_splits prod.splits dest!: k n)
  moreover obtain p r u where u: "at (dentries v) parent = Some p" "d_alloc_raw (d_sb p) name v = Some (r, u)"
    using assms by (auto simp: d_alloc_def bind_eq_Some_conv)
  moreover have "root_dentry w = root_dentry u" using assms u by (cases r) (auto simp: d_alloc_def bind_eq_Some_conv)
  ultimately show ?thesis by simp
qed

lemma fs_lookup_avail [simp]: "fs_lookup a name (m\<lparr>avail := l\<rparr>) = fs_lookup a name m"
  by (simp add: fs_lookup_def cong: if_cong)

text \<open>The directory of devices in the cache, and a name it does not have.\<close>

definition free_name :: "nat \<Rightarrow> u8 list \<Rightarrow> vfs \<Rightarrow> bool" where
  "free_name dd name v \<longleftrightarrow> (\<forall>a \<in> set (avail (fsm v)). a \<noteq> 0 \<longrightarrow> dentries v a = None) \<and>
     (\<exists>p i K. dentries v dd = Some p \<and> inodes v (d_inode p) = Some i \<and> i_op i = Some K \<and> fs_lookup (i_private i) name (fsm v) = Some 0)"

lemma find_missing:
  assumes f: "free_name dd name v" and r: "find_dentry dd name v = Some (Inl e, w)"
  obtains l where "dentries w = dentries v" "inodes w = inodes v" "fsm w = (fsm v)\<lparr>avail := l\<rparr>" "free_name dd name w" "root_dentry w = root_dentry v"
proof -
  have fresh: "\<forall>a \<in> set (avail (fsm v)). a \<noteq> 0 \<longrightarrow> dentries v a = None" using f by (simp add: free_name_def)
  obtain p i K where p: "dentries v dd = Some p" "inodes v (d_inode p) = Some i" "i_op i = Some K"
    "fs_lookup (i_private i) name (fsm v) = Some 0" using f by (auto simp: free_name_def)
  obtain c v1 where c: "d_alloc dd name v = Some (c, v1)"
    using r by (auto simp: find_dentry_def bind_eq_Some_conv split: if_splits)
  obtain x where x: "dentries v c = None" "c \<noteq> 0" "0 < dd" "dentries v1 = (dentries v)(dd \<mapsto> p\<lparr>d_count := d_count p + 1\<rparr>, c \<mapsto> x)"
    "d_name x = Some name" "d_parent x = dd" "inodes v1 = inodes v" "fsm v1 = (fsm v)\<lparr>avail := avail (fsm v1)\<rparr>"
    using d_alloc_spec [OF c fresh] p(1) by auto
  obtain l where l: "fsm v1 = (fsm v)\<lparr>avail := l\<rparr>" using x(8) by blast
  have l1: "set l \<subseteq> set (avail (fsm v))" using d_alloc_avail [OF c] l by simp
  have ne: "dd \<noteq> c" using x p by auto
  have "d_drop c v1 = Some w"
    using r c p x(1-7) ne l
    by (auto simp: find_dentry_def bind_eq_Some_conv fs_vfs_lookup_def d_getname_def at_Some split: if_splits)
  then have w: "w = v1\<lparr>dentries := free_at ((dentries v1)(dd \<mapsto> p)) c\<rparr>" using x(1-7) ne by (auto simp: d_drop_def bind_eq_Some_conv at_Some upd_Some)
  then have "dentries w = dentries v" using x(1-7) p ne by (auto simp: fun_eq_iff)
  then show thesis using that [of l] w x(7) l l1 p fresh d_alloc_root [OF c] by (fastforce simp: free_name_def)
qed

lemma fs_bind_more:
  assumes "fs_bind K dir d fl node v = Some (0, v')"
  shows "node \<noteq> 0" "root_dentry v' = root_dentry v" "\<exists>e. dentries v' d = Some e \<and> d_inode e \<noteq> 0"
proof -
  obtain v1 where v1: "fs_get_dentry d fl v = Some (d, v1)" and d: "d \<noteq> 0" "fl \<noteq> 0"
    using assms by (auto simp: fs_bind_def bind_eq_Some_conv fs_get_dentry_def split: if_splits)
  then have r1: "root_dentry v1 = root_dentry v" by (auto simp: fs_get_dentry_def bind_eq_Some_conv)
  obtain di :: inode and a v2 where a: "fs_get_inode K node (i_sb di) v1 = Some (a, v2)" "a \<noteq> 0" "d_add d a v2 = Some v'"
    using assms v1 d by (auto simp: fs_bind_def bind_eq_Some_conv at_Some split: if_splits)
  have n: "node = 0 \<Longrightarrow> a = 0" using a(1) by (simp add: fs_get_inode_def)
  have "v2 = v1\<lparr>fsm := (fsm v1)\<lparr>avail := avail (fsm v2)\<rparr>, inodes := inodes v2\<rparr>" using fs_get_inode_spec [OF a(1)] by blast
  then have "root_dentry v2 = root_dentry (v1\<lparr>fsm := (fsm v1)\<lparr>avail := avail (fsm v2)\<rparr>, inodes := inodes v2\<rparr>)" by (rule arg_cong)
  then have r2: "root_dentry v2 = root_dentry v1" by simp
  obtain e' where s: "v' = v2\<lparr>dentries := dentries v'\<rparr>" "dentries v' d = Some e'" "d_inode e' = a"
    using d_add_spec [OF a(3)] by blast
  have "root_dentry v' = root_dentry (v2\<lparr>dentries := dentries v'\<rparr>)" using s(1) by (rule arg_cong)
  then show "node \<noteq> 0" "root_dentry v' = root_dentry v" "\<exists>e. dentries v' d = Some e \<and> d_inode e \<noteq> 0"
    using r1 r2 n a(2) s(2,3) by auto
qed

lemma new_fs_inode_magic [simp]: "fi_magic (new_fs_inode K sb f ma junk) = MAGIC"
  by (cases K) (simp_all add: new_fs_inode_def Let_def)

lemma kmalloc_fsis: "kmalloc m = (a, m') \<Longrightarrow> fsis m' = fsis m"
  by (auto simp: kmalloc_def split: list.splits)

lemma fs_create_file_magic:
  assumes r: "fs_create_file K sb parent (Some f) ma name m = Some (d, m')" and d: "d \<noteq> 0"
  obtains e n where "fsds m' d = Some e" "fsis m' (target_inode e) = Some n" "fi_magic n = MAGIC"
proof -
  obtain i m1 where i: "fs_create_empty_inode K sb (Some f) ma m = Some (i, m1)" "i \<noteq> 0"
    using r d by (auto simp: fs_create_file_def fs_create_inode_def bind_eq_Some_conv split: if_splits)
  then obtain n where n: "fsis m1 i = Some n" "fi_magic n = MAGIC"
    by (auto simp: fs_create_empty_inode_def bind_eq_Some_conv at_Some Let_def split: if_splits prod.splits)
  have "fs_create_dentry parent i name m1 = Some (d, m')"
    using r d i by (auto simp: fs_create_file_def fs_create_inode_def bind_eq_Some_conv split: if_splits)
  then have "\<exists>e n. fsds m' d = Some e \<and> fsis m' (target_inode e) = Some n \<and> fi_magic n = MAGIC"
    using d n by (auto simp: fs_create_dentry_def bind_eq_Some_conv at_Some upd_Some Let_def list_add_def
        split: if_splits prod.splits dest!: kmalloc_fsis)
  then show thesis using that by blast
qed

lemma fs_create_new:
  assumes r: "fs_create K dir d mode v = Some (0, v')" and e: "dentries v d = Some e" "d_name e = Some name"
    and i: "inodes v dir = Some i" "fs_lookup (i_private i) name (fsm v) = Some 0"
  obtains fl node m n where "fs_bind K dir d fl node (v\<lparr>fsm := m\<rparr>) = Some (0, v')" "fsis m node = Some n" "fi_magic n = MAGIC"
proof -
  obtain sb fl m1 m2 e2 where f: "fs_create_file K sb (i_private i) (Some (kind_fops K)) 10 name (fsm v) = Some (fl, m1)" "fl \<noteq> 0"
    "set_target_mode fl (created_mode K mode) m1 = Some m2" "fsds m2 fl = Some e2"
    "fs_bind K dir d fl (target_inode e2) (v\<lparr>fsm := m2\<rparr>) = Some (0, v')"
    using r e i by (auto simp: fs_create_def d_getname_def on_fs_def bind_eq_Some_conv at_Some split: if_splits)
  obtain e1 n where n: "fsds m1 fl = Some e1" "fsis m1 (target_inode e1) = Some n" "fi_magic n = MAGIC"
    by (rule fs_create_file_magic [OF f(1,2)])
  then have "fsds m2 = fsds m1" "fsis m2 (target_inode e1) = Some (n\<lparr>fi_mode := created_mode K mode\<rparr>)"
    using set_target_mode_spec [OF f(3)] by auto
  then show thesis using that [OF f(5)] n f(4) by simp
qed

lemma fs_create_ret: "fs_create K dir d mode v = Some (r, v') \<Longrightarrow> r = 0 \<or> r < 0"
  by (auto simp: fs_create_def fs_bind_def bind_eq_Some_conv Let_def split: if_splits prod.splits)

text \<open>
  What creating a file in the directory of devices leaves: the dentry is found under the name, its inode leads to a node
  of the file system, and every other dentry keeps its name and, unless it is the directory, its list.
\<close>

definition node_at :: "nat \<Rightarrow> nat \<Rightarrow> vfs \<Rightarrow> bool" where
  "node_at d a v \<longleftrightarrow> d \<noteq> 0 \<and> a \<noteq> 0 \<and> (\<exists>e i n. dentries v d = Some e \<and> d_inode e = a \<and> inodes v a = Some i \<and> i_private i \<noteq> 0 \<and>
     fsis (fsm v) (i_private i) = Some n \<and> fi_magic n = MAGIC)"

lemma created_node:
  assumes f: "free_name dd name v" and r: "create_dentry dd name mode v = Some (Inr d, v')" and m: "(mode AND S_IFMT) = S_IFREG"
  obtains a where "node_at d a v'" "cached dd name d v'" "root_dentry v' = root_dentry v"
    "\<And>y x. dentries v y = Some x \<Longrightarrow> \<exists>x'. dentries v' y = Some x' \<and> d_name x' = d_name x \<and> (y \<noteq> dd \<longrightarrow> d_hash x' = d_hash x)"
proof -
  obtain err w where miss: "find_dentry dd name v = Some (Inl err, w)"
  proof -
    obtain res u where u: "find_dentry dd name v = Some (res, u)" using r by (auto simp: create_dentry_def bind_eq_Some_conv)
    then show thesis using r that by (cases res) (auto simp: create_dentry_def)
  qed
  obtain l0 where w: "fsm w = (fsm v)\<lparr>avail := l0\<rparr>" "dentries w = dentries v" "inodes w = inodes v" "free_name dd name w" "root_dentry w = root_dentry v"
    by (rule find_missing [OF f miss])
  have fresh: "\<forall>a \<in> set (avail (fsm w)). a \<noteq> 0 \<longrightarrow> dentries w a = None" using w(4) by (simp add: free_name_def)
  obtain p i K where p: "dentries w dd = Some p" "inodes w (d_inode p) = Some i" "i_op i = Some K"
    "fs_lookup (i_private i) name (fsm w) = Some 0" using w(4) by (auto simp: free_name_def)
  obtain c w1 where c: "d_alloc dd name w = Some (c, w1)"
    using r miss by (auto simp: create_dentry_def bind_eq_Some_conv)
  obtain x where x: "dentries w c = None" "c \<noteq> 0" "0 < dd" "dentries w1 = (dentries w)(dd \<mapsto> p\<lparr>d_count := d_count p + 1\<rparr>, c \<mapsto> x)"
    "d_name x = Some name" "d_parent x = dd" "inodes w1 = inodes w" "fsm w1 = (fsm w)\<lparr>avail := avail (fsm w1)\<rparr>"
    using d_alloc_spec [OF c fresh] p(1) by auto
  obtain l where l: "fsm w1 = (fsm w)\<lparr>avail := l\<rparr>" using x(8) by blast
  have ne: "dd \<noteq> c" using x p by auto
  obtain ret where ret: "fs_create K (d_inode p) c mode w1 = Some (ret, v')" "\<not> ret < 0" "d = c"
    using r miss c p x(1-7) ne m by (auto simp: create_dentry_def bind_eq_Some_conv at_Some split: if_splits)
  then have cr: "fs_create K (d_inode p) c mode w1 = Some (0, v')" using fs_create_ret by fastforce
  have x1: "dentries w1 c = Some x" "inodes w1 (d_inode p) = Some i" "fs_lookup (i_private i) name (fsm w1) = Some 0"
    using x(4,7) p l by simp_all
  obtain fl node m1 n where b: "fs_bind K (d_inode p) c fl node (w1\<lparr>fsm := m1\<rparr>) = Some (0, v')" "fsis m1 node = Some n" "fi_magic n = MAGIC"
    by (rule fs_create_new [OF cr x1(1) x(5) x1(2,3)])
  obtain e' i' l' p1 where s: "dentries v' c = Some e'" "inodes v' (d_inode e') = Some i'" "i_private i' = node" "d_name e' = Some name"
    "fsm v' = m1\<lparr>avail := l'\<rparr>" "dentries w1 dd = Some p1" "dentries v' dd = Some (p1\<lparr>d_hash := c # d_hash p1\<rparr>)"
    "\<forall>y. y \<noteq> c \<longrightarrow> y \<noteq> dd \<longrightarrow> dentries v' y = dentries w1 y"
    using fs_bind_spec [OF b(1)] x1(1) x(5,6) ne by auto
  have p1: "p1 = p\<lparr>d_count := d_count p + 1\<rparr>" using s(6) x(4) ne by simp
  note more = fs_bind_more [OF b(1)]
  have "node_at d (d_inode e') v'" using s(1-3,5) b(2,3) more(1,3) x(2) ret(3) by (simp add: node_at_def)
  moreover have "cached dd name d v'"
    using s(1,4,7) x(2,3) ret(3) d_names.find_first [of c] by (simp add: cached_def d_lookup_dentry_def)
  moreover have "root_dentry v' = root_dentry v" using more(2) w(5) d_alloc_root [OF c] by simp
  moreover have "\<exists>x'. dentries v' y = Some x' \<and> d_name x' = d_name z \<and> (y \<noteq> dd \<longrightarrow> d_hash x' = d_hash z)" if z: "dentries v y = Some z" for y z
  proof -
    have "y \<noteq> c" using z x(1) w(2) by auto
    then show ?thesis using z s(7,8) p(1) p1 x(4) w(2) by (cases "y = dd") auto
  qed
  ultimately show thesis by (rule that)
qed

text \<open>A name that a device can get: no part of a path, short enough for the buffers, and not taken in the directory of devices.\<close>

definition device_name :: "u8 list \<Rightarrow> nat \<Rightarrow> vfs \<Rightarrow> bool" where
  "device_name name dd v \<longleftrightarrow> name \<noteq> [] \<and> 0 \<notin> set name \<and> 47 \<notin> set name \<and> length name < 123 \<and>
     cached (root_dentry v) (ascii ''dev'') dd v \<and> dd \<noteq> root_dentry v \<and> free_name dd name v"

text \<open>\<open>device_node name dd d v\<close>: the path of the device leads to the dentry \<open>d\<close>.\<close>

definition device_node :: "u8 list \<Rightarrow> nat \<Rightarrow> nat \<Rightarrow> vfs \<Rightarrow> bool" where
  "device_node name dd d v \<longleftrightarrow> name \<noteq> [] \<and> 47 \<notin> set name \<and> length name < 123 \<and>
     cached (root_dentry v) (ascii ''dev'') dd v \<and> cached dd name d v"

lemma device_node_stays: "device_node name dd d v \<Longrightarrow> dentries w = dentries v \<Longrightarrow> root_dentry w = root_dentry v \<Longrightarrow> device_node name dd d w"
proof -
  assume n: "device_node name dd d v" and w: "dentries w = dentries v" "root_dentry w = root_dentry v"
  have "d_lookup_dentry a n w = d_lookup_dentry a n v" for a n by (simp only: d_lookup_dentry_def w)
  then show ?thesis using n w(2) by (simp add: device_node_def cached_def)
qed

lemma device_node_select: "device_node name dd d v \<Longrightarrow> select_file (ascii ''/dev/'' @ name) 0 v = Some (Inr d, v)"
  using select_dev(2) [of name v dd] by (auto simp: device_node_def find_cached)

lemma created_device:
  assumes n: "device_name name dd v" and r: "create_new_dentry (ascii ''/dev/'' @ name) mode v = Some (Inr d, v')"
    and m: "(mode AND S_IFMT) = S_IFREG"
  obtains a where "node_at d a v'" "device_node name dd d v'"
proof -
  have p: "name \<noteq> []" "47 \<notin> set name" "length name < 128" "cached (root_dentry v) (ascii ''dev'') dd v" "free_name dd name v" "dd \<noteq> root_dentry v"
    using n by (auto simp: device_name_def)
  have c: "create_dentry dd name mode v = Some (Inr d, v')"
    using r select_dev(1) [OF p(2,1,3,4)] dev_names [OF p(2,1,3)]
    by (auto simp: create_new_dentry_def bind_eq_Some_conv split: if_splits)
  obtain a where a: "node_at d a v'" "cached dd name d v'" "root_dentry v' = root_dentry v"
    "\<And>y x. dentries v y = Some x \<Longrightarrow> \<exists>x'. dentries v' y = Some x' \<and> d_name x' = d_name x \<and> (y \<noteq> dd \<longrightarrow> d_hash x' = d_hash x)"
    by (rule created_node [OF p(5) c m]) blast
  obtain q where q: "0 < root_dentry v" "dentries v (root_dentry v) = Some q" "d_find (dentries v) (d_hash q) (ascii ''dev'') = Some dd" "dd \<noteq> 0"
    using p(4) by (auto simp: cached_def d_lookup_dentry_def bind_eq_Some_conv at_Some)
  have "d_find (dentries v') (d_hash q) (ascii ''dev'') = Some dd" by (rule d_find_stays [OF q(3,4)]) (use a(4) in blast)
  then have "cached (root_dentry v') (ascii ''dev'') dd v'"
    using a(3) a(4) [OF q(2)] q p(6) by (auto simp: cached_def d_lookup_dentry_def)
  then have "device_node name dd d v'" using a(2) n by (simp add: device_node_def device_name_def)
  with a(1) show thesis by (rule that)
qed

text \<open>Opening a node whose operations are those of a driver that always opens.\<close>

lemma open_node:
  assumes n: "device_node name dd d v" and i: "dentries v d = Some e" "d_inode e \<noteq> 0" "d \<noteq> 0" "inodes v (d_inode e) = Some i" "i_fop i = Some (Driver_fops k)"
    and o: "op_open (drv k) = Some (\<lambda>_ _ v. Some (0, v))" and m: "avail (fsm v) = f # l" "f \<noteq> 0"
  obtains v' x where "filp_open drv (ascii ''/dev/'' @ name) fl mode v = Some (Inr f, v')"
    "files v' f = Some x" "f_op x = Some (Driver_fops k)" "f_flags x = fl" "f_inode x = d_inode e" "inodes v' (d_inode e) \<noteq> None"
proof -
  let ?x = "\<lparr>f_op = Some (Driver_fops k), f_inode = d_inode e, f_flags = fl, f_mode = ucast mode, f_pos = 0, f_path = d_name e\<rparr>"
  let ?v = "v\<lparr>fsm := (fsm v)\<lparr>avail := l\<rparr>, inodes := (inodes v)(d_inode e \<mapsto> i\<lparr>i_count := i_count i + 1\<rparr>), files := (files v)(f \<mapsto> ?x)\<rparr>"
  have "filp_open drv (ascii ''/dev/'' @ name) fl mode v = Some (Inr f, ?v)"
    using i o m by (simp add: filp_open_def device_node_select [OF n] f_get_def inode_get_def vkmalloc_def kmalloc_def fops_of_def upd_def)
  then show thesis by (intro that [of ?v ?x]) simp_all
qed

lemma node_at_alloc: "node_at d a v \<Longrightarrow> vkmalloc v = (b, w) \<Longrightarrow> node_at d a w \<and> dentries w = dentries v \<and> root_dentry w = root_dentry v"
  by (auto simp: node_at_def vkmalloc_def kmalloc_def split: list.splits)

lemma mount_device:
  assumes "node_at d a v"
  obtains v' i where "devfs_mount_device a ma fop v = Some (0, v')" "dentries v' = dentries v" "root_dentry v' = root_dentry v"
    "inodes v' a = Some i" "i_fop i = fop"
  using assms by (auto simp: node_at_def devfs_mount_device_def)

text \<open>The file that opening a driver's device gives.\<close>

lemma device_opened:
  assumes name: "device_name name dd (kfs s)"
    and fop: "find_chrdev (chr s) (unat devt) 0 = Some (Some (Driver_fops k))"
    and bufs: "length stack2 = 128" "vsnprintf stack1 fmt ap = Some (n, name @ 0 # rest)"
    and made: "device_create cls par devt stack1 stack2 fmt ap s = Some (Inr a, s')"
    and drv: "op_open (drv k) = Some (\<lambda>_ _ v. Some (0, v))" and mem: "avail (fsm (kfs s')) = f # l" "f \<noteq> 0"
  obtains v' x where "filp_open drv (ascii ''/dev/'' @ name) fl mode (kfs s') = Some (Inr f, v')"
    "at (files v') f = Some x" "f_op x = Some (Driver_fops k)" "f_flags x = fl" "\<exists>i. at (inodes v') (f_inode x) = Some i"
proof -
  have n: "length name < 123" "0 \<notin> set name" using name by (simp_all add: device_name_def)
  note buf = bufs(2) c_string_terminated [OF n(2)] dev_path_name [OF bufs(1) n]
  obtain d v1 where r: "create_new_dentry (ascii ''/dev/'' @ name) (S_IFREG OR mode_755) (kfs s) = Some (Inr d, v1)"
  proof -
    obtain x u where u: "create_new_dentry (ascii ''/dev/'' @ name) (S_IFREG OR mode_755) (kfs s) = Some (x, u)"
      using made buf by (auto simp: device_create_def bind_eq_Some_conv)
    then show ?thesis using made buf that by (cases x) (auto simp: device_create_def)
  qed
  obtain i where i: "node_at d i v1" "device_node name dd d v1" by (rule created_device [OF name r]) simp
  obtain b w where k: "vkmalloc v1 = (b, w)" by (cases "vkmalloc v1")
  note w = node_at_alloc [OF i(1) k]
  obtain e where e: "dentries w d = Some e" "d_inode e = i" "d \<noteq> 0" "i \<noteq> 0" using w by (auto simp: node_at_def)
  obtain v2 j where v2: "devfs_mount_device i devt (Some (Driver_fops k)) w = Some (0, v2)" "dentries v2 = dentries w"
    "root_dentry v2 = root_dentry w" "inodes v2 i = Some j" "i_fop j = Some (Driver_fops k)"
    using mount_device w by metis
  have s': "kfs s' = v2"
    using made buf r k fop e v2(1) by (auto simp: device_create_def split: if_splits)
  have "device_node name dd d v2" using device_node_stays [OF i(2)] w v2 by simp
  moreover have "dentries v2 d = Some e" using v2 e by simp
  ultimately obtain v' x where "filp_open drv (ascii ''/dev/'' @ name) fl mode v2 = Some (Inr f, v')"
    "files v' f = Some x" "f_op x = Some (Driver_fops k)" "f_flags x = fl" "f_inode x = d_inode e" "inodes v' (d_inode e) \<noteq> None"
    using open_node [of name dd d v2 e j k drv f l fl mode] e v2 drv mem s' by metis
  then show thesis using that [of v' x] s' e mem(2) by auto
qed

lemma registered_driver:
  assumes "chrdev_ok c" "0 < ma" "ma < CHRDEV_MAJOR_MAX" "0 < ct" "ct \<le> MINORS" "register_chrdev c ma 0 ct nm fop = (0, c')"
  shows "find_chrdev c' (unat (of_nat ma :: u32)) 0 = Some (Some fop)"
  using registered_range [OF assms(1-4) _ assms(6)] assms(3-5) by (simp add: unat_of_nat_small)

lemma class_create_frame:
  assumes "class_create ow name s = (r, s')"
  shows "chr s' = chr s" "devs s' = devs s" "device_name nm dd (kfs s) \<Longrightarrow> device_name nm dd (kfs s')"
proof -
  have v: "device_name nm dd w" if k: "vkmalloc v = (a, w)" and n: "device_name nm dd v" for v w a
  proof -
    have "w = v\<lparr>fsm := (fsm v)\<lparr>avail := avail (fsm w)\<rparr>\<rparr>" "set (avail (fsm w)) \<subseteq> set (avail (fsm v))"
      using k by (auto simp: vkmalloc_def kmalloc_def split: list.splits)
    then obtain l where l: "w = v\<lparr>fsm := (fsm v)\<lparr>avail := l\<rparr>\<rparr>" "set l \<subseteq> set (avail (fsm v))" by blast
    show ?thesis using n l(2) unfolding l(1) by (fastforce simp: device_name_def cached_def d_lookup_dentry_def free_name_def)
  qed
  show "chr s' = chr s" "devs s' = devs s" using assms by (auto simp: class_create_def Let_def split: if_splits prod.splits)
  show "device_name nm dd (kfs s) \<Longrightarrow> device_name nm dd (kfs s')"
    using assms by (auto simp: class_create_def Let_def split: if_splits prod.splits dest: v)
qed

lemma device_create_failed:
  assumes "device_create cls par devt stack1 stack2 fmt ap s = Some (Inl e, s')"
  shows "devs s' = devs s"
proof -
  obtain n buf nm path r v where p: "vsnprintf stack1 fmt ap = Some (n, buf)" "c_string buf = Some nm" "dev_path stack2 nm = Some path"
    "create_new_dentry path (S_IFREG OR mode_755) (kfs s) = Some (r, v)"
    using assms by (auto simp: device_create_def bind_eq_Some_conv)
  then show ?thesis using assms by (cases r) (auto simp: device_create_def Let_def bind_eq_Some_conv split: if_splits prod.splits)
qed

text \<open>C21: A driver that has registered its operations under a major number and has made a device is reached by the device's path:
  opening it gives an open file, and what is read from the file or asked of it by \<open>ioctl\<close> goes to the driver's operations. The
  name is whatever the driver's format prints, as long as it is new in the directory of devices and fits its buffer.\<close>

theorem device_opens_driver:
  assumes name: "device_name name dd (kfs s)"
    and reg: "chrdev_ok c" "0 < ma" "ma < CHRDEV_MAJOR_MAX" "0 < ct" "ct \<le> MINORS" "register_chrdev c ma 0 ct nm (Driver_fops k) = (0, chr s)"
    and bufs: "length stack2 = 128" "vsnprintf stack1 fmt ap = Some (n, name @ 0 # rest)"
    and made: "device_create cls par (of_nat ma) stack1 stack2 fmt ap s = Some (Inr a, s')"
    and drv: "op_open (drv k) = Some (\<lambda>_ _ v. Some (0, v))" and mem: "avail (fsm (kfs s')) = f # l" "f \<noteq> 0"
  shows "\<exists>v'. filp_open drv (ascii ''/dev/'' @ name) fl mode (kfs s') = Some (Inr f, v') \<and>
     (\<forall>count off. kernel_read drv f count off v' =
        (case op_read (drv k) of None \<Rightarrow> Some (- EBADF, [], off, v') | Some rd \<Rightarrow> rd f count off v')) \<and>
     (\<forall>cmd arg. vfs_ioctl drv f cmd arg v' =
        (if (fl AND O_ACCMODE) = O_RDONLY then Some (- EBADF, v')
         else case op_ioctl (drv k) of None \<Rightarrow> Some (- EBADF, v') | Some io \<Rightarrow> io f cmd arg v'))"
proof -
  obtain v' x where v': "filp_open drv (ascii ''/dev/'' @ name) fl mode (kfs s') = Some (Inr f, v')"
    "at (files v') f = Some x" "f_op x = Some (Driver_fops k)" "f_flags x = fl" "\<exists>i. at (inodes v') (f_inode x) = Some i"
    by (rule device_opened [where drv = drv and k = k, OF name registered_driver [OF reg] bufs made drv mem]) (rule that)
  then have "kernel_read drv f count off v' =
      (case op_read (drv k) of None \<Rightarrow> Some (- EBADF, [], off, v') | Some rd \<Rightarrow> rd f count off v')" for count off
    using mem(2) by (auto simp: kernel_read_def fops_of_def)
  moreover have "vfs_ioctl drv f cmd arg v' = (if (fl AND O_ACCMODE) = O_RDONLY then Some (- EBADF, v')
         else case op_ioctl (drv k) of None \<Rightarrow> Some (- EBADF, v') | Some io \<Rightarrow> io f cmd arg v')" for cmd arg
    using v' mem(2) by (auto simp: vfs_ioctl_def fops_of_def)
  ultimately show ?thesis using v'(1) by blast
qed

section \<open>Disks as files\<close>

lemma mount_blk_device:
  assumes "node_at d a v"
  obtains v' where "devfs_mount_blk_device a dev ma v = Some (0, v')" "dentries v' = dentries v" "root_dentry v' = root_dentry v"
    "devfs_get_blk_dev a v' = Some dev"
proof -
  have "((S_IFBLK OR (x AND mode_777)) AND S_IFMT) = (S_IFBLK :: u32)" for x
    by (simp add: bit.conj_disj_distrib2 and.assoc)
  then show thesis using assms that by (auto simp: node_at_def devfs_mount_blk_device_def devfs_get_blk_dev_def)
qed

text \<open>A disk that has been registered under its name is what \<open>blkdev_get_by_path\<close> gives for the path of that name; nothing is
  changed by asking.\<close>

theorem disk_opens:
  assumes name: "device_name name dd (kfs s)" and g: "0 < gd" "disks s gd = Some g" "disk_name g = name" "length name < 64"
    and bufs: "length stack1 = 64" "length stack2 = 128"
    and made: "register_disk dev gd None stack1 stack2 s = Some (Inr r, s')"
  shows "blkdev_get_by_path (ascii ''/dev/'' @ name) (kfs s') = Some (dev, kfs s')"
proof -
  have n: "length name < 123" "0 \<notin> set name" using name by (simp_all add: device_name_def)
  obtain d v1 where r: "create_new_dentry (ascii ''/dev/'' @ name) (S_IFREG OR mode_755) (kfs s) = Some (Inr d, v1)"
  proof -
    obtain x u where u: "create_new_dentry (ascii ''/dev/'' @ name) (S_IFREG OR mode_755) (kfs s) = Some (x, u)"
      using made g bufs(1) dev_path_name [OF bufs(2) n] by (auto simp: register_disk_def bind_eq_Some_conv)
    then show thesis using made g bufs(1) dev_path_name [OF bufs(2) n] that by (cases x) (auto simp: register_disk_def)
  qed
  obtain i where i: "node_at d i v1" "device_node name dd d v1" by (rule created_device [OF name r]) simp
  obtain e where e: "dentries v1 d = Some e" "d_inode e = i" "d \<noteq> 0" using i by (auto simp: node_at_def)
  obtain v2 where v2: "devfs_mount_blk_device i dev (gd_major g) v1 = Some (0, v2)" "dentries v2 = dentries v1"
    "root_dentry v2 = root_dentry v1" "devfs_get_blk_dev i v2 = Some dev"
    using mount_blk_device [OF i(1)] by metis
  have s': "kfs s' = v2" using made g bufs(1) dev_path_name [OF bufs(2) n] r e v2(1) by (auto simp: register_disk_def)
  have "device_node name dd d v2" using device_node_stays [OF i(2)] v2 by simp
  then show ?thesis using v2 e s' by (simp add: blkdev_get_by_path_def device_node_select)
qed

section \<open>A kernel with a directory of devices\<close>

definition dev_fs :: vfs where
  "dev_fs = (boot_w [])\<lparr>fsm := mounted_w\<lparr>avail := [30..<50]\<rparr>,
     inodes := [24 \<mapsto> (fresh_inode 0)\<lparr>i_op := Some Devfs, i_private := 1, i_mode := S_IFDIR OR mode_755\<rparr>],
     dentries := [20 \<mapsto> blank_dentry\<lparr>d_hash := [23]\<rparr>, 23 \<mapsto> blank_dentry\<lparr>d_name := Some (ascii ''dev''), d_parent := 20, d_inode := 24\<rparr>],
     root_dentry := 20\<rparr>"

definition no_devices :: "file_operations chrdev_state" where
  "no_devices = \<lparr>chrdevs = (\<lambda>_. []), fails = []\<rparr>"

definition dev_w :: kernel where
  "dev_w = \<lparr>kfs = dev_fs, chr = snd (register_chrdev no_devices 4 0 256 [116] (Driver_fops 0)), classes = Map.empty, devs = Map.empty,
     disks = [60 \<mapsto> \<lparr>gd_major = 0, first_minor = 0, minors = 1, disk_name = ascii ''sda'', part0 = 61, gd_queue = 62, gd_state = 0\<rparr>],
     bdevices = Map.empty, disk_letter = 98, blk_dev_major = 254\<rparr>"

lemma dev_w_name: "name \<noteq> [] \<Longrightarrow> 0 \<notin> set name \<Longrightarrow> 47 \<notin> set name \<Longrightarrow> length name < 123 \<Longrightarrow> device_name name 23 (kfs dev_w)"
  by (simp add: device_name_def dev_w_def dev_fs_def cached_def d_lookup_dentry_def free_name_def fs_lookup_def mounted_w_def root_inode_w_def
      boot_w_def blank_dentry_def)

lemma dev_w_create:
  assumes "name \<noteq> []" "0 \<notin> set name" "47 \<notin> set name" "length name < 123"
  shows "\<exists>v. create_new_dentry (ascii ''/dev/'' @ name) (S_IFREG OR mode_755) dev_fs = Some (Inr 32, v) \<and> avail (fsm v) = [38..<50] \<and> node_at 32 37 v"
proof -
  have n: "device_name name 23 dev_fs" using dev_w_name [OF assms] by (simp add: dev_w_def)
  then have "select_file (ascii ''/dev/'' @ name) 1 dev_fs = Some (Inr 23, dev_fs)"
    using select_dev(1) [of name dev_fs 23] by (auto simp: device_name_def)
  moreover have "get_dir_name (ascii ''/dev/'' @ name) 128 (get_dir_number (ascii ''/dev/'' @ name)) = Some (0, Some name)"
    using dev_names [of name] assms by simp
  moreover have "\<exists>v. create_dentry 23 name (S_IFREG OR mode_755) dev_fs = Some (Inr 32, v) \<and> avail (fsm v) = [38..<50] \<and> node_at 32 37 v"
    by (simp add: assms(1) create_dentry_def find_dentry_def d_lookup_dentry_def d_alloc_def d_alloc_raw_def dentry_rename_def fs_vfs_lookup_def
        d_getname_def fs_lookup_def dev_fs_def vfs_eval d_drop_def fs_create_def fs_create_file_def fs_create_inode_def fs_create_empty_inode_def
        fs_create_dentry_def new_fs_inode_def set_target_mode_def fs_bind_def fs_get_dentry_def fs_get_inode_def new_inode_def d_add_def
        d_hash_add_def upt_rec node_at_def)
  ultimately show ?thesis by (simp add: create_new_dentry_def) (simp add: dev_fs_def boot_w_def fresh_inode_def blank_dentry_def)
qed

definition gpios :: "u8 list" where
  "gpios = ascii ''gpios''"

lemma dev_w_registered: "register_chrdev no_devices 4 0 256 [116] (Driver_fops 0) = (0, chr dev_w)"
  by (simp add: dev_w_def register_chrdev_def register_region_def no_devices_def kzalloc_def cdev_alloc_def cdev_add_def Let_def)

lemma print_gpios: "vsnprintf (replicate 128 1) gpios [] = Some (5, gpios @ 0 # replicate 122 1)"
  using vsnprintf_text [OF print_plain, of gpios "replicate 128 1"] by (simp add: gpios_def ascii_def)

theorem device_opens_driver_witness:
  "\<exists>s' v'. device_create 0 0 4 (replicate 128 1) (replicate 128 1) gpios [] dev_w = Some (Inr 38, s') \<and>
     filp_open (\<lambda>_. nop_fops) (ascii ''/dev/gpios'') 2 0 (kfs s') = Some (Inr 39, v') \<and>
     kernel_read (\<lambda>_. nop_fops) 39 8 0 v' = Some (0, [], 0, v')"
proof -
  have g: "gpios \<noteq> []" "0 \<notin> set gpios" "47 \<notin> set gpios" "length gpios < 123" by (simp_all add: gpios_def ascii_def)
  obtain v where v: "create_new_dentry (ascii ''/dev/'' @ gpios) (S_IFREG OR mode_755) dev_fs = Some (Inr 32, v)" "avail (fsm v) = [38..<50]"
    "node_at 32 37 v" using dev_w_create [OF g] by blast
  have ok: "chrdev_ok no_devices" by (simp add: no_devices_def chrdev_ok_def table_ok_def)
  have fop: "find_chrdev (chr dev_w) 4 0 = Some (Some (Driver_fops 0))"
    using registered_range [OF ok _ _ _ _ dev_w_registered] by simp
  have "kfs dev_w = dev_fs" by (simp add: dev_w_def)
  then have "\<exists>s'. device_create 0 0 4 (replicate 128 1) (replicate 128 1) gpios [] dev_w = Some (Inr 38, s') \<and> avail (fsm (kfs s')) = [39..<50]"
    using v fop dev_path_name [OF _ g(4,2), of "replicate 128 1"]
    by (auto simp: device_create_def print_gpios c_string_terminated [OF g(2)] vkmalloc_def kmalloc_def devfs_mount_device_def node_at_def upt_rec)
  then obtain s' where s': "device_create 0 0 (of_nat 4) (replicate 128 1) (replicate 128 1) gpios [] dev_w = Some (Inr 38, s')"
    "avail (fsm (kfs s')) = 39 # [40..<50]" by (auto simp: upt_rec)
  have "op_open nop_fops = Some (\<lambda>_ _ v. Some (0, v))" by (simp add: nop_fops_def)
  from device_opens_driver [OF dev_w_name [OF g] ok _ _ _ _ dev_w_registered _ print_gpios s'(1) this s'(2), of 2 0]
  obtain v' where v': "filp_open (\<lambda>_. nop_fops) (ascii ''/dev/'' @ gpios) 2 0 (kfs s') = Some (Inr 39, v')"
    "kernel_read (\<lambda>_. nop_fops) 39 8 0 v' = Some (0, [], 0, v')" by (auto simp: nop_fops_def)
  have "ascii ''/dev/gpios'' = ascii ''/dev/'' @ gpios" by (simp add: gpios_def ascii_def)
  with s'(1) v' show ?thesis by auto
qed

theorem disk_opens_witness:
  "\<exists>s'. register_disk 61 60 None (replicate 64 1) (replicate 128 1) dev_w = Some (Inr 0, s') \<and>
     blkdev_get_by_path (ascii ''/dev/sda'') (kfs s') = Some (61, kfs s')"
proof -
  let ?sda = "ascii ''sda''"
  have g: "?sda \<noteq> []" "0 \<notin> set ?sda" "47 \<notin> set ?sda" "length ?sda < 123" by (simp_all add: ascii_def)
  obtain v where v: "create_new_dentry (ascii ''/dev/'' @ ?sda) (S_IFREG OR mode_755) dev_fs = Some (Inr 32, v)" "node_at 32 37 v"
    using dev_w_create [OF g] by blast
  have w: "kfs dev_w = dev_fs" "0 < (60 :: nat)" "\<exists>g. disks dev_w 60 = Some g \<and> disk_name g = ?sda" by (simp_all add: dev_w_def)
  then have "\<exists>s'. register_disk 61 60 None (replicate 64 1) (replicate 128 1) dev_w = Some (Inr 0, s')"
    using v dev_path_name [OF _ g(4,2), of "replicate 128 1"] g
    by (auto simp: register_disk_def devfs_mount_blk_device_def node_at_def ascii_def)
  then obtain s' where s': "register_disk 61 60 None (replicate 64 1) (replicate 128 1) dev_w = Some (Inr 0, s')" by blast
  obtain g where "disks dev_w 60 = Some g" "disk_name g = ?sda" using w(3) by blast
  from disk_opens [OF dev_w_name [OF g] w(2) this _ _ _ s']
  have "blkdev_get_by_path (ascii ''/dev/'' @ ?sda) (kfs s') = Some (61, kfs s')" by (simp add: ascii_def)
  moreover have "ascii ''/dev/sda'' = ascii ''/dev/'' @ ?sda" by (simp add: ascii_def)
  ultimately show ?thesis using s' by auto
qed

end
