(* ===== verification/Console.thy ===== *)
theory Console
  imports DeviceSpec Irq "HOL-Library.Signed_Division"
begin

text \<open>
  The kernel's messages: \<^verbatim>\<open>lib/printk/printk.c\<close> and \<^verbatim>\<open>lib/printk/early_printk.c\<close>, and the
  initialisation of the serial driver they end in (\<^verbatim>\<open>main_tty_dev_init\<close>). A message is formatted, then written
  through the virtual file system to the serial device, or, as long as there is none, through the boot loader's \<open>putchar\<close>.

  The lock of \<open>printk\<close> is taken for each whole message. \<open>now\<close> is what the clock gives, \<open>junk\<close> what the local buffer of
  \<open>early_printk\<close> holds at first, and \<open>drv\<close> the drivers' tables of operations. The messages that the modelled functions
  print about themselves are left out.
\<close>

record machine =
  krn :: kernel
  irqs :: irq_state
  tty_major :: u32
  tty_device :: nat
  printk_buf :: "u8 list"
  log_threshold :: int
  show_log_level :: int
  put_char :: nat
  early_line :: "u8 list"

section \<open>The serial driver\<close>

text \<open>The driver's operations change the console and keep the offset.\<close>

definition tty_fop :: file_ops_table where
  "tty_fop = \<lparr>op_open = Some (\<lambda>_ _ v. Some (0, v)), op_release = Some (\<lambda>_ _ v. Some (0, v)),
     op_read = Some (\<lambda>_ n off v. do { (cs, t) \<leftarrow> tty_read n (console v); Some (int (length cs), cs, off, v\<lparr>console := t\<rparr>) }),
     op_write = Some (\<lambda>_ buf off v. let (n, t) = tty_write buf (console v) in Some (n, off, v\<lparr>console := t\<rparr>)),
     op_ioctl = None\<rparr>"

text \<open>The names of the handler and of the table of operations. An error in the place of a pointer is kept as one.\<close>

abbreviation (input) usart1_handler :: nat where "usart1_handler \<equiv> 1"
abbreviation (input) ttyS0_ops :: nat where "ttyS0_ops \<equiv> 2"

definition err_ptr :: "int + nat \<Rightarrow> nat" where
  "err_ptr r = (case r of Inl e \<Rightarrow> unat (of_int e :: u32) | Inr a \<Rightarrow> a)"

definition main_tty_dev_init :: "u8 list \<Rightarrow> u8 list \<Rightarrow> machine \<Rightarrow> machine option" where
  "main_tty_dev_init stack1 stack2 m = do {
     (_, t) \<leftarrow> request_irq 37 usart1_handler 0 (ascii ''usart1'') 0 (irqs m);
     let (r, c) = register_chrdev (chr (krn m)) (unat (tty_major m)) 0 256 (ascii ''ttyS0'') (Driver_fops ttyS0_ops);
     let maj = (of_int r :: u32);
     let (cls, k) = class_create 0 (ascii ''ttyS0'') ((krn m)\<lparr>chr := c\<rparr>);
     (_, k) \<leftarrow> device_create (err_ptr cls) 0 maj stack1 stack2 (ascii ''ttyS%d'') [Word 0] k;
     Some (m\<lparr>irqs := t, tty_major := maj, krn := k\<rparr>) }"

section \<open>Messages\<close>

definition early_printk :: "u8 list \<Rightarrow> u8 list \<Rightarrow> va list \<Rightarrow> machine \<Rightarrow> machine option" where
  "early_printk junk fmt ap m = do {
     (_, buf) \<leftarrow> vsnprintf junk fmt ap;
     s \<leftarrow> c_string buf;
     if s \<noteq> [] \<and> put_char m = 0 then None
     else Some (m\<lparr>early_line := early_line m @ crlf s\<rparr>) }"

text \<open>\<open>tty_write\<close> of \<^verbatim>\<open>printk.c\<close>: without a device the message is the format of the early output.\<close>

definition printk_tty_write :: "(nat \<Rightarrow> file_ops_table) \<Rightarrow> u8 list \<Rightarrow> u8 list \<Rightarrow> machine \<Rightarrow> machine option" where
  "printk_tty_write drv junk buf m =
     (if tty_device m \<noteq> 0 then do {
        let v = kfs (krn m);
        x \<leftarrow> at (files v) (tty_device m);
        (_, pos, v) \<leftarrow> kernel_write drv (tty_device m) buf (f_pos x) v;
        fs \<leftarrow> upd (files v) (tty_device m) (\<lambda>x. x\<lparr>f_pos := pos\<rparr>);
        Some (m\<lparr>krn := (krn m)\<lparr>kfs := v\<lparr>files := fs\<rparr>\<rparr>\<rparr>) }
      else early_printk junk buf [] m)"

abbreviation (input) HZ :: int where "HZ \<equiv> 1000000"

definition log_level_str :: "u8 list list" where
  "log_level_str = map ascii [''<0>'', ''<1>'', ''<2>'', ''<3>'', ''<4>'', ''<5>'', ''<6>'', ''<7>'']"

definition print_stamp :: "int \<Rightarrow> u64 \<Rightarrow> machine \<Rightarrow> u8 list option" where
  "print_stamp level now m = do {
     let sec = (of_int (sint now sdiv HZ) :: u32);
     let nsec = (of_int (sint now smod HZ) :: u32) * (1000000 div of_int HZ);
     (_, buf) \<leftarrow> (if show_log_level m = 1
       then if nat level < length log_level_str
         then snprintf (printk_buf m) (13 # ascii ''[   %u.%06u] %s '') [Word sec, Word nsec, Str (Some (log_level_str ! nat level))]
         else None
       else snprintf (printk_buf m) (13 # ascii ''[   %u.%06u]'') [Word sec, Word nsec]);
     Some buf }"

definition printk :: "(nat \<Rightarrow> file_ops_table) \<Rightarrow> u8 list \<Rightarrow> u64 \<Rightarrow> int \<Rightarrow> u8 list \<Rightarrow> va list \<Rightarrow> machine \<Rightarrow> machine option" where
  "printk drv junk now level fmt ap m =
     (if level < 0 \<or> level > log_threshold m then Some m
      else do {
        m \<leftarrow> (if now \<noteq> 0 then do {
            buf \<leftarrow> print_stamp level now m;
            s \<leftarrow> c_string buf;
            printk_tty_write drv junk s (m\<lparr>printk_buf := buf\<rparr>) }
          else Some m);
        (_, buf) \<leftarrow> vsnprintf (printk_buf m) fmt ap;
        s \<leftarrow> c_string buf;
        printk_tty_write drv junk s (m\<lparr>printk_buf := buf\<rparr>) })"

text \<open>
  When the device cannot be opened, \<open>printk\<close> is called without a level: the address \<open>msg\<close> of the text is taken for it and the
  path for the format.
\<close>

definition printk_service_init :: "(nat \<Rightarrow> file_ops_table) \<Rightarrow> u8 list \<Rightarrow> u64 \<Rightarrow> u32 \<Rightarrow> machine \<Rightarrow> (int \<times> machine) option" where
  "printk_service_init drv junk now msg m = do {
     (r, v) \<leftarrow> filp_open drv (ascii ''/dev/ttyS0'') 2 0 (kfs (krn m));
     let m = m\<lparr>krn := (krn m)\<lparr>kfs := v\<rparr>, tty_device := err_ptr r\<rparr>;
     case r of
       Inl e \<Rightarrow> do {
         m \<leftarrow> printk drv junk now (sint msg) (ascii ''/dev/ttyS0'') [] m;
         Some (-1, m\<lparr>tty_device := 0\<rparr>) }
     | Inr f \<Rightarrow> Some (0, m) }"


section \<open>The line\<close>

text \<open>What stands before a message once the clock runs.\<close>

definition log_stamp :: "int \<Rightarrow> u64 \<Rightarrow> int \<Rightarrow> u8 list" where
  "log_stamp sh now level = 13 # ascii ''[   '' @ decimal 1 (unat (of_int (sint now sdiv HZ) :: u32)) @ [46] @
     decimal 6 (unat (of_int (sint now smod HZ) :: u32)) @ (if sh = 1 then ascii ''] '' @ log_level_str ! nat level @ [32] else [93])"

lemma level_strings: "nat level < 8 \<Longrightarrow> 0 \<notin> set (log_level_str ! nat level) \<and> length (log_level_str ! nat level) = 3"
proof -
  assume "nat level < 8"
  then have "log_level_str ! nat level \<in> set log_level_str" by (intro nth_mem) (simp add: log_level_str_def)
  then show ?thesis by (auto simp: log_level_str_def ascii_def)
qed

lemma stamp_bounds:
  assumes "nat level < 8"
  shows "length (log_stamp sh now level) < 512" "0 \<notin> set (log_stamp sh now level)"
proof -
  have "unat (w :: u32) < 2 ^ LENGTH(32)" for w by (rule unsigned_less)
  then have "unat (w :: u32) < 10 ^ 10" for w by (rule order_less_trans) simp
  then have "length (decimal 1 (unat (w :: u32))) \<le> 10" "length (decimal 6 (unat w)) \<le> 10" for w by (auto intro: decimal_length)
  then have "length (decimal 1 (unat (v :: u32))) + length (decimal 6 (unat (w :: u32))) \<le> 20" for v w by (metis add_mono numeral_Bit0)
  from this [of "of_int (sint now sdiv HZ)" "of_int (sint now smod HZ)"]
  show "length (log_stamp sh now level) < 512" using level_strings [OF assms] by (simp add: log_stamp_def ascii_def)
  show "0 \<notin> set (log_stamp sh now level)" using level_strings [OF assms] by (auto simp: log_stamp_def ascii_def dest: decimal_digits)
qed

lemma print_stamp_text:
  assumes l: "nat level < 8" and b: "length (printk_buf m) = 512"
  obtains buf where "print_stamp level now m = Some buf" "c_string buf = Some (log_stamp (show_log_level m) now level)" "length buf = 512"
proof -
  let ?sec = "of_int (sint now sdiv HZ) :: u32" and ?nsec = "of_int (sint now smod HZ) :: u32"
  let ?l = "log_level_str ! nat level"
  have p: "writes (13 # ascii ''[   %u.%06u] %s '') [Word ?sec, Word ?nsec, Str (Some ?l)]
      (13 # ascii ''[   '' @ decimal 1 (unat ?sec) @ [46] @ decimal 6 (unat ?nsec) @ ascii ''] '' @ ?l @ [32])"
    "writes (13 # ascii ''[   %u.%06u]'') [Word ?sec, Word ?nsec]
      (13 # ascii ''[   '' @ decimal 1 (unat ?sec) @ [46] @ decimal 6 (unat ?nsec) @ [93])"
    using level_strings [OF l] by (simp_all add: ascii_def writes_char writes_unsigned writes_padded writes_string writes_Nil del: One_nat_def)
  let ?fa = "if show_log_level m = 1 then (13 # ascii ''[   %u.%06u] %s '', [Word ?sec, Word ?nsec, Str (Some ?l)])
    else (13 # ascii ''[   %u.%06u]'', [Word ?sec, Word ?nsec])"
  have p': "prints (fst ?fa) (snd ?fa) (log_stamp (show_log_level m) now level)" using p stamp_bounds(1) [OF l, of "show_log_level m" now] by (simp add: prints_def) (simp add: log_stamp_def)
  have "printk_buf m \<noteq> []" using b by auto
  from prints_buffer [OF p' this _ stamp_bounds(2) [OF l]] b
  obtain n buf where "vsnprintf (printk_buf m) (fst ?fa) (snd ?fa) = Some (n, buf)"
    "c_string buf = Some (take 511 (log_stamp (show_log_level m) now level))" "length buf = 512" by auto
  then show thesis using stamp_bounds(1) [OF l, of "show_log_level m" now] l
    by (intro that [of buf]) (auto simp: print_stamp_def snprintf_def log_level_str_def Let_def split: if_splits)
qed

text \<open>The serial device is open for writing.\<close>

definition tty_opened :: "machine \<Rightarrow> bool" where
  "tty_opened m \<longleftrightarrow> tty_device m \<noteq> 0 \<and> (\<exists>x i. at (files (kfs (krn m))) (tty_device m) = Some x \<and> f_op x = Some (Driver_fops ttyS0_ops) \<and>
     (f_flags x AND O_ACCMODE) \<noteq> O_RDONLY \<and> at (inodes (kfs (krn m))) (f_inode x) = Some i)"

definition line :: "machine \<Rightarrow> u8 list" where
  "line m = tx_line (console (kfs (krn m)))"

definition tty_sent :: "u8 list \<Rightarrow> machine \<Rightarrow> machine" where
  "tty_sent s m = m\<lparr>krn := (krn m)\<lparr>kfs := (kfs (krn m))\<lparr>console := tty_send s (console (kfs (krn m)))\<rparr>\<rparr>\<rparr>"

lemma tty_sent_simps [simp]: "line (tty_sent s m) = line m @ crlf s" "tty_opened (tty_sent s m) = tty_opened m"
  "log_threshold (tty_sent s m) = log_threshold m" "show_log_level (tty_sent s m) = show_log_level m" "printk_buf (tty_sent s m) = printk_buf m"
  "line (m\<lparr>printk_buf := buf\<rparr>) = line m" "tty_opened (m\<lparr>printk_buf := buf\<rparr>) = tty_opened m"
  by (simp_all add: line_def tty_sent_def tty_send_line tty_opened_def)

lemma printk_tty_write_sends:
  assumes "drv ttyS0_ops = tty_fop" "tty_opened m"
  shows "printk_tty_write drv junk s m = Some (tty_sent s m)"
proof -
  obtain x i where x: "tty_device m \<noteq> 0" "at (files (kfs (krn m))) (tty_device m) = Some x" "f_op x = Some (Driver_fops ttyS0_ops)"
     "(f_flags x AND O_ACCMODE) \<noteq> O_RDONLY" "at (inodes (kfs (krn m))) (f_inode x) = Some i"
    using assms(2) by (auto simp: tty_opened_def)
  have "files (kfs (krn m)) (tty_device m) = Some x" using x(1,2) by (simp add: at_def)
  then have "(files (kfs (krn m)))(tty_device m \<mapsto> x) = files (kfs (krn m))" by auto
  then show ?thesis using assms(1) x
    by (simp add: printk_tty_write_def kernel_write_def fops_of_def tty_fop_def tty_write_def upd_def tty_sent_def Let_def)
qed

lemma printk_line:
  assumes drv: "drv ttyS0_ops = tty_fop" and o: "tty_opened m" and l: "0 \<le> level" "level \<le> log_threshold m" "log_threshold m \<le> 7"
    and b: "length (printk_buf m) = 512" and p: "prints fmt ap t" and t: "0 \<notin> set t"
  obtains m' where "printk drv junk now level fmt ap m = Some m'" "tty_opened m'" "length (printk_buf m') = 512" "log_threshold m' = log_threshold m"
    "show_log_level m' = show_log_level m"
    "line m' = line m @ (if now = 0 then [] else crlf (log_stamp (show_log_level m) now level)) @ crlf (take 511 t)"
proof -
  note w = printk_tty_write_sends [where drv = drv, OF drv]
  have l8: "nat level < 8" using l by simp
  obtain buf1 where s1: "print_stamp level now m = Some buf1" "c_string buf1 = Some (log_stamp (show_log_level m) now level)" "length buf1 = 512"
    by (rule print_stamp_text [OF l8 b])
  define m1 where "m1 = (if now = 0 then m else tty_sent (log_stamp (show_log_level m) now level) (m\<lparr>printk_buf := buf1\<rparr>))"
  have m1: "tty_opened m1" "length (printk_buf m1) = 512" "log_threshold m1 = log_threshold m" "show_log_level m1 = show_log_level m"
    "line m1 = line m @ (if now = 0 then [] else crlf (log_stamp (show_log_level m) now level))"
    using o b s1(3) by (simp_all add: m1_def)
  have "printk_buf m1 \<noteq> []" using m1(2) by auto
  from prints_buffer [OF p this _ t] m1(2)
  obtain n2 buf2 where s2: "vsnprintf (printk_buf m1) fmt ap = Some (n2, buf2)" "c_string buf2 = Some (take 511 t)" "length buf2 = 512" by auto
  have "printk drv junk now level fmt ap m = Some (tty_sent (take 511 t) (m1\<lparr>printk_buf := buf2\<rparr>))"
    using l o s1 s2 m1(1) by (auto simp: printk_def m1_def w split: if_splits)
  then show thesis using m1 s2(3) by (intro that [of "tty_sent (take 511 t) (m1\<lparr>printk_buf := buf2\<rparr>)"]) simp_all
qed

section \<open>From the driver to the message\<close>

lemma error_as_u32: "- 4096 < r \<Longrightarrow> r < 0 \<Longrightarrow> \<not> (of_int r :: u32) < 512"
proof -
  assume r: "- 4096 < r" "r < 0"
  have "r mod 4294967296 = (r + 4294967296) mod 4294967296" by simp
  also have "\<dots> = r + 4294967296" using r by (intro mod_pos_pos_trivial) simp_all
  finally show ?thesis using r by (simp add: word_less_def uint_word_of_int)
qed

lemma ttyS0_name: "length stack = 128 \<Longrightarrow>
    \<exists>rest. vsnprintf stack (ascii ''ttyS%d'') [Word 0] = Some (5, ascii ''ttyS0'' @ 0 # rest)"
proof -
  assume l: "length stack = 128"
  have d: "get_directive [100] ap = Some (\<lparr>flags = 0, width = 0, precision = -1, qualifier = None\<rparr>, [100], ap)" for ap
    by (simp add: get_directive_def get_int_def get_precision_def get_qualifier_def isdigit_def)
  have "number_layout 10 0 0 \<lparr>flags = SIGN, width = 0, precision = -1, qualifier = None\<rparr> = \<lparr>flags = SIGN, width = 0, precision = 1, qualifier = None\<rparr>"
    by (simp add: number_layout_def)
  then have "put_number 100 10 \<lparr>flags = SIGN, width = 0, precision = -1, qualifier = None\<rparr> [Word 0] b = Some (puts [48] b, [])" for b
    by (simp add: put_number_def get_number_def get_sign_def number_10 put_bytes_def field_def)
  then have "convert 100 \<lparr>flags = 0, width = 0, precision = -1, qualifier = None\<rparr> [Word 0] b = Some (Some (puts [48] b, []))" for b
    by (simp add: convert_def number_base_def)
  then have "vs_loop (ascii ''ttyS%d'') [Word 0] b = Some (puts (ascii ''ttyS0'') b)" for b
    by (simp add: ascii_def vs_loop_char vs_loop_directive d vs_loop.simps [of "[]"])
  from vsnprintf_text [OF this, of stack] l show ?thesis by (simp add: ascii_def)
qed

text \<open>C20: The console comes up: after \<open>main_tty_dev_init\<close> has made its device, \<open>printk_service_init\<close> opens it, and from then on a message whose level is
  admitted goes over the serial line. What is sent is the time stamp, when the clock has started, and the first 511 bytes of the text that the
  format prints, each new line followed by a carriage return. On the way are the registry of character devices, the file of the device,
  the path walk, the table of operations and the transmitter.\<close>

theorem console_comes_up:
  assumes init: "main_tty_dev_init stack1 stack2 m = Some m1" and stacks: "length stack1 = 128" "length stack2 = 128"
    and m: "tty_major m = 0" "chrdev_ok (chr (krn m))" "device_name (ascii ''ttyS0'') dd (kfs (krn m))" "devs (krn m) = Map.empty"
    and made: "tty_major m1 < 512" "devs (krn m1) \<noteq> Map.empty" and mem: "avail (fsm (kfs (krn m1))) = f # l" "f \<noteq> 0"
    and log: "log_threshold m \<le> 7" "length (printk_buf m) = 512" and drv: "drv ttyS0_ops = tty_fop"
  shows "\<exists>m2. printk_service_init drv junk now0 msg m1 = Some (0, m2) \<and>
     (\<forall>level fmt ap t now. 0 \<le> level \<longrightarrow> level \<le> log_threshold m \<longrightarrow> prints fmt ap t \<longrightarrow> 0 \<notin> set t \<longrightarrow>
       (\<exists>m3. printk drv junk now level fmt ap m2 = Some m3 \<and> tty_opened m3 \<and>
          line m3 = line m2 @ (if now = 0 then [] else crlf (log_stamp (show_log_level m) now level)) @ crlf (take 511 t)))"
proof -
  obtain q t where irq: "request_irq 37 usart1_handler 0 (ascii ''usart1'') 0 (irqs m) = Some (q, t)"
    using init by (auto simp: main_tty_dev_init_def bind_eq_Some_conv)
  obtain r c where reg: "register_chrdev (chr (krn m)) 0 0 256 (ascii ''ttyS0'') (Driver_fops ttyS0_ops) = (r, c)" by fastforce
  obtain cls k1 where cls: "class_create 0 (ascii ''ttyS0'') ((krn m)\<lparr>chr := c\<rparr>) = (cls, k1)" by fastforce
  obtain d k2 where dev: "device_create (err_ptr cls) 0 (of_int r) stack1 stack2 (ascii ''ttyS%d'') [Word 0] k1 = Some (d, k2)"
    "m1 = m\<lparr>irqs := t, tty_major := of_int r, krn := k2\<rparr>"
    using init m(1) irq reg cls by (auto simp: main_tty_dev_init_def bind_eq_Some_conv Let_def)
  note frame = class_create_frame [OF cls]
  have "devs k1 = Map.empty" using frame(2) m(4) by simp
  then obtain a where a: "d = Inr a"
    using dev made(2) by (cases d) (auto dest: device_create_failed)
  have "\<not> (- 4096 < r \<and> r < 0)" using made(1) dev(2) error_as_u32 [of r] by auto
  then have r: "384 \<le> r" "r < 512" "register_chrdev (chr (krn m)) (nat r) 0 256 (ascii ''ttyS0'') (Driver_fops ttyS0_ops) = (0, c)"
    using register_dynamic [OF reg m(2)] by auto
  have "find_chrdev c (unat (of_nat (nat r) :: u32)) 0 = Some (Some (Driver_fops ttyS0_ops))"
    by (rule registered_driver [OF m(2) _ _ _ _ r(3)]) (use r in auto)
  then have fop: "find_chrdev (chr k1) (unat (of_int r :: u32)) 0 = Some (Some (Driver_fops ttyS0_ops))" using r frame(1) by simp
  have name: "device_name (ascii ''ttyS0'') dd (kfs k1)" using frame(3) m(3) by simp
  obtain rest where b: "vsnprintf stack1 (ascii ''ttyS%d'') [Word 0] = Some (5, ascii ''ttyS0'' @ 0 # rest)"
    using ttyS0_name [OF stacks(1)] by blast
  have o: "op_open (drv ttyS0_ops) = Some (\<lambda>_ _ v. Some (0, v))" by (simp add: drv tty_fop_def)
  obtain v' x where v': "filp_open drv (ascii ''/dev/'' @ ascii ''ttyS0'') 2 0 (kfs k2) = Some (Inr f, v')"
    "at (files v') f = Some x" "f_op x = Some (Driver_fops ttyS0_ops)" "f_flags x = 2" "\<exists>i. at (inodes v') (f_inode x) = Some i"
    by (rule device_opened [where drv = drv and k = ttyS0_ops, OF name fop stacks(2) b dev(1) [unfolded a] o _ mem(2)]) (use mem(1) dev(2) that in auto)
  let ?m2 = "m1\<lparr>krn := (krn m1)\<lparr>kfs := v'\<rparr>, tty_device := f\<rparr>"
  have "ascii ''/dev/ttyS0'' = ascii ''/dev/'' @ ascii ''ttyS0''" by (simp add: ascii_def)
  then have "printk_service_init drv junk now0 msg m1 = Some (0, ?m2)"
    using v'(1) dev(2) by (simp add: printk_service_init_def err_ptr_def)
  moreover have o2: "tty_opened ?m2" using v' mem(2) by (simp add: tty_opened_def)
  have log2: "log_threshold ?m2 = log_threshold m" "show_log_level ?m2 = show_log_level m" "length (printk_buf ?m2) = 512"
    using dev(2) log(2) by simp_all
  have "\<exists>m3. printk drv junk now level fmt ap ?m2 = Some m3 \<and> tty_opened m3 \<and>
          line m3 = line ?m2 @ (if now = 0 then [] else crlf (log_stamp (show_log_level m) now level)) @ crlf (take 511 t)"
    if "0 \<le> level" "level \<le> log_threshold m" "prints fmt ap t" "0 \<notin> set t" for level fmt ap t now
    by (rule printk_line [where drv = drv, OF drv o2 that(1) _ _ log2(3) that(3,4)])
      (use that(2) log(1) in \<open>simp_all only: log2, blast\<close>)
  ultimately show ?thesis by blast
qed

lemma fault_on_directive: "37 \<notin> set p \<Longrightarrow> vs_loop (p @ 37 # 100 # q) [] b = None"
proof (induction p arbitrary: b)
  case Nil
  have "get_directive (100 # q) [] = Some (\<lparr>flags = 0, width = 0, precision = -1, qualifier = None\<rparr>, 100 # q, [])"
    by (simp add: get_directive_def get_int_def get_precision_def get_qualifier_def isdigit_def)
  then show ?case by (simp add: vs_loop_directive convert_def number_base_def put_number_def get_number_def)
qed (auto simp: vs_loop_char)

text \<open>C40: Before there is a device a message that has been printed is printed once more, as a format without arguments: a text without per cent signs
  comes out, cut to 255 bytes, but one in which \<open>%d\<close> is the first directive makes the code read an argument that is not there.\<close>

theorem early_output_reinterprets:
  assumes m: "tty_device m = 0" "put_char m \<noteq> 0" "0 \<le> level" "level \<le> log_threshold m" "length (printk_buf m) = 512" "length junk = 256"
    and s: "0 \<notin> set s" "length s < 512"
  shows "(37 \<notin> set s \<longrightarrow> (\<exists>m'. printk drv junk 0 level (ascii ''%s'') [Str (Some s)] m = Some m' \<and>
            early_line m' = early_line m @ crlf (take 255 s))) \<and>
     (\<forall>p q. s = p @ ascii ''%d'' @ q \<longrightarrow> 37 \<notin> set p \<longrightarrow> printk drv junk 0 level (ascii ''%s'') [Str (Some s)] m = None)"
proof -
  have "prints (ascii ''%s'') [Str (Some s)] s" using writes_string [OF _ writes_Nil, of s "[]"] s(2) by (simp add: prints_def ascii_def)
  moreover have "printk_buf m \<noteq> []" "length (printk_buf m) < 2 ^ 32" using m(5) by auto
  ultimately obtain n buf where "vsnprintf (printk_buf m) (ascii ''%s'') [Str (Some s)] = Some (n, buf)" "c_string buf = Some s"
    by (rule prints_buffer) (use s m(5) that in auto)
  then have p: "printk drv junk 0 level (ascii ''%s'') [Str (Some s)] m = early_printk junk s [] (m\<lparr>printk_buf := buf\<rparr>)"
    using m by (simp add: printk_def printk_tty_write_def)
  have "\<exists>m'. early_printk junk s [] (m\<lparr>printk_buf := buf\<rparr>) = Some m' \<and> early_line m' = early_line m @ crlf (take 255 s)" if "37 \<notin> set s"
  proof -
    have "prints s [] s" using writes_plain [OF that writes_Nil] s(2) by (simp add: prints_def)
    moreover have "junk \<noteq> []" "length junk < 2 ^ 32" using m(6) by auto
    ultimately obtain n b where "vsnprintf junk s [] = Some (n, b)" "c_string b = Some (take 255 s)"
      by (rule prints_buffer) (use s m(6) that in auto)
    then show ?thesis using m(2) by (simp add: early_printk_def)
  qed
  moreover have "early_printk junk s [] (m\<lparr>printk_buf := buf\<rparr>) = None" if "s = p @ ascii ''%d'' @ q" "37 \<notin> set p" for p q
    using fault_on_directive [OF that(2)] that(1) by (simp add: early_printk_def vsnprintf_def ascii_def)
  ultimately show ?thesis unfolding p by blast
qed

definition machine_w :: machine where
  "machine_w = \<lparr>krn = dev_w\<lparr>kfs := dev_fs\<lparr>fsm := (fsm dev_fs)\<lparr>avail := 28 # 29 # [30..<50]\<rparr>\<rparr>, chr := no_devices\<rparr>,
     irqs = \<lparr>IRQ_list = (\<lambda>_. 0), acts = Map.empty, names = Map.empty, supply_of = [4, 8], last_byte = (\<lambda>_. 0)\<rparr>,
     tty_major = 0, tty_device = 0, printk_buf = replicate 512 0, log_threshold = 7, show_log_level = 1, put_char = 1, early_line = []\<rparr>"

theorem early_output_reinterprets_witness:
  "printk (\<lambda>_. nop_fops) (replicate 256 0) 0 6 (ascii ''%s'') [Str (Some (ascii ''50%d''))] machine_w = None"
proof -
  have "ascii ''50%d'' = ascii ''50'' @ ascii ''%d'' @ []" "37 \<notin> set (ascii ''50'')" by (simp_all add: ascii_def)
  moreover have "tty_device machine_w = 0" "put_char machine_w \<noteq> 0" "6 \<le> log_threshold machine_w" "length (printk_buf machine_w) = 512"
    by (simp_all add: machine_w_def)
  then have "\<forall>p q. ascii ''50%d'' = p @ ascii ''%d'' @ q \<longrightarrow> 37 \<notin> set p \<longrightarrow>
      printk (\<lambda>_. nop_fops) (replicate 256 0) 0 6 (ascii ''%s'') [Str (Some (ascii ''50%d''))] machine_w = None"
    by (intro early_output_reinterprets [THEN conjunct2]) (simp_all add: ascii_def)
  ultimately show ?thesis by blast
qed

lemma machine_w_class: "class_create 0 (ascii ''ttyS0'') ((krn machine_w)\<lparr>chr := c\<rparr>) =
    (Inr 28, dev_w\<lparr>chr := c, classes := (classes dev_w)(28 \<mapsto> \<lparr>cl_owner = 0, cl_name = ascii ''ttyS0''\<rparr>)\<rparr>)"
  by (simp add: class_create_def machine_w_def vkmalloc_def kmalloc_def dev_w_def) (simp add: dev_fs_def boot_w_def)

lemma machine_w_name: "device_name (ascii ''ttyS0'') 23 (kfs (krn machine_w))"
proof -
  have "device_name (ascii ''ttyS0'') 23 (kfs dev_w)" by (rule dev_w_name) (simp_all add: ascii_def)
  then show ?thesis
    by (simp add: machine_w_def device_name_def cached_def d_lookup_dentry_def free_name_def dev_w_def) (simp add: dev_fs_def boot_w_def)
qed

lemma machine_w_up:
  obtains m1 where "main_tty_dev_init (replicate 128 1) (replicate 128 1) machine_w = Some m1" "tty_major m1 < 512" "devs (krn m1) \<noteq> Map.empty"
    "avail (fsm (kfs (krn m1))) = 39 # [40..<50]"
proof -
  let ?n = "ascii ''ttyS0''" and ?op = "Driver_fops ttyS0_ops"
  have g: "?n \<noteq> []" "0 \<notin> set ?n" "47 \<notin> set ?n" "length ?n < 123" by (simp_all add: ascii_def)
  obtain t where irq: "request_irq 37 usart1_handler 0 (ascii ''usart1'') 0 (irqs machine_w) = Some (0, t)"
    by (simp add: machine_w_def request_irq_def new_irq_create_def irq_alloc_def add_irq_to_table_def at_def upd_def)
  have fw: "chrdev_ok no_devices" by (simp add: no_devices_def chrdev_ok_def table_ok_def)
  have "find_dynamic_major no_devices = 511" by (simp add: dynamic_major no_devices_def scan_majors.simps)
  then obtain c where reg: "register_chrdev no_devices 0 0 256 ?n ?op = (511, c)"
    by (simp add: register_chrdev_def register_region_def no_devices_def kzalloc_def cdev_alloc_def cdev_add_def Let_def)
  have "register_chrdev no_devices 511 0 256 ?n ?op = (0, c)" using register_dynamic [OF reg fw] by simp
  from registered_driver [OF fw _ _ _ _ this] have fop: "find_chrdev c 511 0 = Some (Some ?op)" by simp
  obtain v where v: "create_new_dentry (ascii ''/dev/'' @ ?n) (S_IFREG OR mode_755) dev_fs = Some (Inr 32, v)" "avail (fsm v) = [38..<50]"
    "node_at 32 37 v" using dev_w_create [OF g] by blast
  obtain rest where b: "vsnprintf (replicate 128 1) (ascii ''ttyS%d'') [Word 0] = Some (5, ?n @ 0 # rest)"
    using ttyS0_name [of "replicate 128 1"] by auto
  let ?k = "dev_w\<lparr>chr := c, classes := (classes dev_w)(28 \<mapsto> \<lparr>cl_owner = 0, cl_name = ?n\<rparr>)\<rparr>"
  have "kfs ?k = dev_fs" by (simp add: dev_w_def)
  then obtain k2 where k2: "device_create 28 0 511 (replicate 128 1) (replicate 128 1) (ascii ''ttyS%d'') [Word 0] ?k = Some (Inr 38, k2)"
    "avail (fsm (kfs k2)) = [39..<50]" "devs k2 \<noteq> Map.empty"
    using v fop dev_path_name [OF _ g(4,2), of "replicate 128 1"] b
    by (auto simp: device_create_def c_string_terminated [OF g(2)] vkmalloc_def kmalloc_def devfs_mount_device_def node_at_def upt_rec)
  have "tty_major machine_w = 0" "chr (krn machine_w) = no_devices" by (simp_all add: machine_w_def)
  then have "main_tty_dev_init (replicate 128 1) (replicate 128 1) machine_w = Some (machine_w\<lparr>irqs := t, tty_major := 511, krn := k2\<rparr>)"
    using irq reg machine_w_class [of c] k2(1) by (simp add: main_tty_dev_init_def err_ptr_def Let_def)
  then show thesis using k2 by (intro that) (auto simp: upt_rec)
qed

theorem console_comes_up_witness:
  "\<exists>m1 m2 m3. main_tty_dev_init (replicate 128 1) (replicate 128 1) machine_w = Some m1 \<and>
     printk_service_init (\<lambda>_. tty_fop) [] 0 0 m1 = Some (0, m2) \<and>
     printk (\<lambda>_. tty_fop) [] 0 6 [111, 107, 10] [] m2 = Some m3 \<and> line m3 = line m2 @ [111, 107, 10, 13]"
proof -
  obtain m1 where m1: "main_tty_dev_init (replicate 128 1) (replicate 128 1) machine_w = Some m1" "tty_major m1 < 512" "devs (krn m1) \<noteq> Map.empty"
    "avail (fsm (kfs (krn m1))) = 39 # [40..<50]" by (rule machine_w_up)
  have w: "tty_major machine_w = 0" "chrdev_ok (chr (krn machine_w))" "devs (krn machine_w) = Map.empty" "log_threshold machine_w = 7"
    "length (printk_buf machine_w) = 512" "show_log_level machine_w = 1"
    by (simp_all add: machine_w_def dev_w_def no_devices_def chrdev_ok_def table_ok_def)
  have p: "prints [111, 107, 10] [] [111, 107, 10]" by (simp add: prints_def writes_char writes_Nil)
  have "\<exists>m2. printk_service_init (\<lambda>_. tty_fop) [] 0 0 m1 = Some (0, m2) \<and>
     (\<forall>level fmt ap t now. 0 \<le> level \<longrightarrow> level \<le> log_threshold machine_w \<longrightarrow> prints fmt ap t \<longrightarrow> 0 \<notin> set t \<longrightarrow>
       (\<exists>m3. printk (\<lambda>_. tty_fop) [] now level fmt ap m2 = Some m3 \<and> tty_opened m3 \<and>
          line m3 = line m2 @ (if now = 0 then [] else crlf (log_stamp (show_log_level machine_w) now level)) @ crlf (take 511 t)))"
    by (rule console_comes_up [OF m1(1) _ _ w(1,2) machine_w_name w(3) m1(2-4) _ _ w(5)]) (simp_all add: w(4))
  then obtain m2 where m2: "printk_service_init (\<lambda>_. tty_fop) [] 0 0 m1 = Some (0, m2)"
    "\<And>level fmt ap t now. 0 \<le> level \<Longrightarrow> level \<le> log_threshold machine_w \<Longrightarrow> prints fmt ap t \<Longrightarrow> 0 \<notin> set t \<Longrightarrow>
       (\<exists>m3. printk (\<lambda>_. tty_fop) [] now level fmt ap m2 = Some m3 \<and> tty_opened m3 \<and>
          line m3 = line m2 @ (if now = 0 then [] else crlf (log_stamp (show_log_level machine_w) now level)) @ crlf (take 511 t))"
    by blast
  from m2(2) [of 6, OF _ _ p, of 0] m1(1) m2(1) w(4) show ?thesis by auto
qed

end
