(* ===== verification/Gpio.thy ===== *)
theory Gpio
  imports Prelude
begin

unbundle bit_operations_syntax

text \<open>
  The driver of the pins, \<^verbatim>\<open>drivers/gpio/stm32f4/stm32f4_gpio.c\<close>. A port is the record of its registers, found at its address; a
  register keeps what is written to it, and \<open>BSRR\<close> what was written last. Shifts are those of 32 bits. The driver's messages, and
  with them \<open>print_gpio_number\<close> and \<open>print_gpio_type\<close>, are left out.
\<close>

section \<open>Registers\<close>

record gpio_port =
  MODER :: u32
  OTYPER :: u32
  OSPEEDR :: u32
  PUPDR :: u32
  IDR :: u32
  BSRR :: u32
  AFR0 :: u32
  AFR1 :: u32

record GPIO_InitTypeDef =
  GPIO_Pin :: u16
  GPIO_Mode :: u16
  GPIO_Speed :: u16
  GPIO_OType :: u16
  GPIO_PuPd :: u16
  GPIO_AF :: u8

text \<open>What an open file has of the driver, and the hardware: the ports that exist and the register of clocks.\<close>

record gpio_device =
  gpio_number :: u16
  gpio_type :: nat
  GPIO_InitStructure :: GPIO_InitTypeDef

record gpio_hw =
  ports :: "nat \<Rightarrow> gpio_port option"
  RCC_AHB1ENR :: u32

abbreviation (input) GPIO_Mode_OUT :: u16 where "GPIO_Mode_OUT \<equiv> 1"
abbreviation (input) GPIO_Mode_AF :: u16 where "GPIO_Mode_AF \<equiv> 2"

definition gpio_Types :: "nat list" where
  "gpio_Types = map (\<lambda>i. 1073872896 + 1024 * i) [0..<11]"

definition gpio_pins :: "u16 list" where
  "gpio_pins = map (\<lambda>i. push_bit i 1) [0..<16]"

text \<open>A field of \<open>k\<close> bits is cleared, then the value is put over it, whatever its size.\<close>

definition put_field :: "nat \<Rightarrow> nat \<Rightarrow> u32 \<Rightarrow> u32 \<Rightarrow> u32" where
  "put_field k p v r = (r AND NOT (push_bit (p * k) (mask k))) OR push_bit (p * k) v"

text \<open>The loop looks for the highest bit; without one it shifts too far.\<close>

function pin_position :: "u16 \<Rightarrow> nat \<Rightarrow> nat option" where
  "pin_position pin pos = (if drop_bit pos pin = 1 then Some pos else if pos \<ge> 31 then None else pin_position pin (pos + 1))"
  by auto
termination by (relation "measure (\<lambda>(_, pos). 32 - pos)") auto

declare pin_position.simps [simp del]

definition GPIO_SetAF :: "u16 \<Rightarrow> u8 \<Rightarrow> gpio_port \<Rightarrow> gpio_port option" where
  "GPIO_SetAF pin af x = do {
     p \<leftarrow> pin_position pin 0;
     Some (if p < 8 then x\<lparr>AFR0 := put_field 4 p (ucast af) (AFR0 x)\<rparr>
       else x\<lparr>AFR1 := put_field 4 (p - 8) (ucast af) (AFR1 x)\<rparr>) }"

definition GPIO_GetAF :: "u16 \<Rightarrow> gpio_port \<Rightarrow> u8 option" where
  "GPIO_GetAF pin x = do {
     p \<leftarrow> pin_position pin 0;
     Some (ucast (if p < 8 then drop_bit (p * 4) (AFR0 x) AND 15 else drop_bit ((p - 8) * 4) (AFR1 x) AND 15)) }"

definition init_pin :: "GPIO_InitTypeDef \<Rightarrow> nat \<Rightarrow> gpio_port \<Rightarrow> gpio_port option" where
  "init_pin c p x = (if GPIO_Pin c AND push_bit p 1 \<noteq> push_bit p 1 then Some x
     else do {
       let x = x\<lparr>MODER := put_field 2 p (ucast (GPIO_Mode c)) (MODER x)\<rparr>;
       let x = (if GPIO_Mode c = GPIO_Mode_OUT \<or> GPIO_Mode c = GPIO_Mode_AF
         then x\<lparr>OTYPER := put_field 1 p (ucast (GPIO_OType c)) (OTYPER x), OSPEEDR := put_field 2 p (ucast (GPIO_Speed c)) (OSPEEDR x)\<rparr> else x);
       let x = x\<lparr>PUPDR := put_field 2 p (ucast (GPIO_PuPd c)) (PUPDR x)\<rparr>;
       if GPIO_Mode c = GPIO_Mode_AF then GPIO_SetAF (push_bit p 1) (GPIO_AF c) x else Some x })"

fun init_pins :: "GPIO_InitTypeDef \<Rightarrow> nat list \<Rightarrow> gpio_port \<Rightarrow> gpio_port option" where
  "init_pins c [] x = Some x"
| "init_pins c (p # ps) x = do { x \<leftarrow> init_pin c p x; init_pins c ps x }"

definition on_port :: "nat \<Rightarrow> (gpio_port \<Rightarrow> gpio_port option) \<Rightarrow> gpio_hw \<Rightarrow> gpio_hw option" where
  "on_port a f h = do { x \<leftarrow> at (ports h) a; x \<leftarrow> f x; Some (h\<lparr>ports := (ports h)(a \<mapsto> x)\<rparr>) }"

definition GPIO_Init :: "nat \<Rightarrow> GPIO_InitTypeDef \<Rightarrow> gpio_hw \<Rightarrow> gpio_hw option" where
  "GPIO_Init a c = on_port a (init_pins c [0..<16])"

definition GPIO_SetBits :: "nat \<Rightarrow> u16 \<Rightarrow> gpio_hw \<Rightarrow> gpio_hw option" where
  "GPIO_SetBits a pin = on_port a (\<lambda>x. Some (x\<lparr>BSRR := ucast pin\<rparr>))"

definition GPIO_ResetBits :: "nat \<Rightarrow> u16 \<Rightarrow> gpio_hw \<Rightarrow> gpio_hw option" where
  "GPIO_ResetBits a pin = on_port a (\<lambda>x. Some (x\<lparr>BSRR := push_bit 16 (ucast pin)\<rparr>))"

definition GPIO_ReadInputDataBit :: "nat \<Rightarrow> u16 \<Rightarrow> gpio_hw \<Rightarrow> u8 option" where
  "GPIO_ReadInputDataBit a pin h = do { x \<leftarrow> at (ports h) a; Some (if IDR x AND ucast pin \<noteq> 0 then 1 else 0) }"

definition RCC_AHB1PeriphClockCmd :: "u32 \<Rightarrow> u8 \<Rightarrow> gpio_hw \<Rightarrow> gpio_hw" where
  "RCC_AHB1PeriphClockCmd src new h = h\<lparr>RCC_AHB1ENR := if new \<noteq> 0 then RCC_AHB1ENR h OR src else RCC_AHB1ENR h AND NOT src\<rparr>"

section \<open>Numbers of pins\<close>

definition get_gpio_number :: "u16 \<Rightarrow> u16" where
  "get_gpio_number pin = gpio_pins ! (unat pin mod 16)"

definition get_gpio_type :: "u16 \<Rightarrow> nat" where
  "get_gpio_type pin = (let i = unat pin div 16 in if i < 11 then gpio_Types ! i else 0)"

fun rcc_of :: "nat list \<Rightarrow> nat \<Rightarrow> nat \<Rightarrow> u32" where
  "rcc_of [] k a = 4294967295"
| "rcc_of (b # bs) k a = (if a = b then push_bit k 1 else rcc_of bs (k + 1) a)"

definition Get_APB_RCC_Source :: "nat \<Rightarrow> u32" where
  "Get_APB_RCC_Source a = rcc_of gpio_Types 0 a"

section \<open>File operations\<close>

definition gpio_open :: "bool \<Rightarrow> GPIO_InitTypeDef \<Rightarrow> int + gpio_device" where
  "gpio_open granted junk = (if \<not> granted then Inl (- ENOMEM)
     else Inr \<lparr>gpio_number = 65535, gpio_type = 0, GPIO_InitStructure = junk\<rparr>)"

text \<open>The first byte of the buffer is what counts; a NUL is read from an empty one.\<close>

definition gpio_write :: "gpio_device \<Rightarrow> u8 list \<Rightarrow> gpio_hw \<Rightarrow> (int \<times> gpio_hw) option" where
  "gpio_write d buf h = (case buf of [] \<Rightarrow> None
     | c # _ \<Rightarrow>
       if gpio_number d = 65535 then Some (- EINVAL, h)
       else if c = 48 then map_option (Pair (int (length buf))) (GPIO_ResetBits (gpio_type d) (gpio_number d) h)
       else if c = 49 then map_option (Pair (int (length buf))) (GPIO_SetBits (gpio_type d) (gpio_number d) h)
       else Some (- EINVAL, h))"

definition gpio_read :: "gpio_device \<Rightarrow> nat \<Rightarrow> gpio_hw \<Rightarrow> (int \<times> u8 list) option" where
  "gpio_read d len h = (if gpio_number d = 65535 then Some (- EINVAL, [])
     else do {
       b \<leftarrow> GPIO_ReadInputDataBit (gpio_type d) (gpio_number d) h;
       Some (int len, if b = 0 then [48] else [49]) })"

text \<open>
  The port is that of the argument, while the pin that is configured is the one the file was given before.
\<close>

definition configure :: "nat \<Rightarrow> (GPIO_InitTypeDef \<Rightarrow> GPIO_InitTypeDef) \<Rightarrow> gpio_device \<Rightarrow> gpio_hw \<Rightarrow> (int \<times> gpio_device \<times> gpio_hw) option" where
  "configure a f d h = (let d = d\<lparr>GPIO_InitStructure := f (GPIO_InitStructure d)\<rparr> in
     map_option (\<lambda>h. (0, d, h)) (GPIO_Init a (GPIO_InitStructure d) h))"

definition compat_ioctl :: "gpio_device \<Rightarrow> u32 \<Rightarrow> u32 \<Rightarrow> gpio_hw \<Rightarrow> (int \<times> gpio_device \<times> gpio_hw) option" where
  "compat_ioctl d cmd arg h =
     (if cmd \<noteq> 64 \<and> gpio_number d = 65535 then Some (- EINVAL, d, h)
      else let pin = get_gpio_number (ucast arg); a = get_gpio_type (ucast arg); src = Get_APB_RCC_Source a in
        if cmd = 64 then
          if a = 0 \<or> src = 4294967295 then Some (- EINVAL, d, h)
          else let d = d\<lparr>gpio_number := pin, gpio_type := a\<rparr> in
            configure a (\<lambda>_. \<lparr>GPIO_Pin = pin, GPIO_Mode = GPIO_Mode_OUT, GPIO_Speed = 2, GPIO_OType = 0, GPIO_PuPd = 0, GPIO_AF = 0\<rparr>) d
              (RCC_AHB1PeriphClockCmd src 1 h)
        else if cmd = 16 then configure a (\<lambda>c. c\<lparr>GPIO_PuPd := 1\<rparr>) d h
        else if cmd = 32 then configure a (\<lambda>c. c\<lparr>GPIO_PuPd := 2\<rparr>) d h
        else if cmd = 1 then configure a (\<lambda>c. c\<lparr>GPIO_Mode := 0\<rparr>) d h
        else if cmd = 2 then configure a (\<lambda>c. c\<lparr>GPIO_Mode := GPIO_Mode_OUT\<rparr>) d h
        else if cmd = 8 then map_option (\<lambda>h. (0, d, h)) (GPIO_SetBits a pin h)
        else if cmd = 4 then map_option (\<lambda>h. (0, d, h)) (GPIO_ResetBits a pin h)
        else if cmd = 256 then configure a (\<lambda>c. c\<lparr>GPIO_Mode := GPIO_Mode_AF, GPIO_AF := ucast (drop_bit 16 arg AND 15)\<rparr>) d h
        else if cmd = 257 then do { x \<leftarrow> at (ports h) a; af \<leftarrow> GPIO_GetAF pin x; Some (int (unat af), d, h) }
        else Some (- EINVAL, d, h))"

section \<open>Fields\<close>

definition field_at :: "nat \<Rightarrow> nat \<Rightarrow> u32 \<Rightarrow> u32" where
  "field_at k q r = drop_bit (q * k) r AND mask k"

lemma same_field:
  assumes "n < k" "p * k \<le> q * k + n" "q * k + n < p * k + k"
  shows "p = (q :: nat)"
proof -
  have "p * k < (q + 1) * k" "q * k < (p + 1) * k" using assms by (simp_all add: algebra_simps)
  then show ?thesis by (simp only: mult_less_cancel2) simp
qed

lemma bit_below: "unat (v :: 'a :: len word) < 2 ^ k \<Longrightarrow> bit v j \<Longrightarrow> j < k"
proof (rule ccontr)
  assume v: "unat v < 2 ^ k" "bit v j" "\<not> j < k"
  then have "bit (take_bit k (unat v)) j" by (simp add: take_bit_nat_eq_self bit_unsigned_iff)
  then show False using v(3) by (simp add: bit_simps)
qed

lemma put_field_at:
  assumes v: "unat v < 2 ^ k" and p: "p * k + k \<le> 32"
  shows "field_at k q (put_field k p v r) = (if q = p then v else field_at k q r)"
proof (rule bit_word_eqI)
  fix n assume n: "n < LENGTH(32)"
  note vb = bit_below [OF v]
  show "bit (field_at k q (put_field k p v r)) n = bit (if q = p then v else field_at k q r) n"
  proof (cases "n < k")
    case False
    then show ?thesis using vb [of n] by (auto simp: field_at_def bit_simps)
  next
    case True
    have len: "bit v j \<Longrightarrow> p * k + j < 32" for j using vb [of j] p by linarith
    have eq: "p * k \<le> q * k + n \<Longrightarrow> q * k + n - p * k < k \<Longrightarrow> p = q" using same_field [OF True, of p q] by linarith
    show ?thesis using True p n vb len eq
      by (auto simp: field_at_def put_field_def bit_simps add.commute [of n] dest: bit_imp_le_length)
  qed
qed

section \<open>What a configuration sets\<close>

lemma pin_position_at: "p < 16 \<Longrightarrow> pos \<le> p \<Longrightarrow> pin_position (push_bit p 1) pos = Some p"
proof (induction "p - pos" arbitrary: pos)
  case 0
  then have "pos = p" by simp
  moreover have "drop_bit p (push_bit p 1 :: u16) = 1" using 0 by (intro bit_word_eqI) (auto simp: bit_simps)
  ultimately show ?case by (subst pin_position.simps) simp
next
  case (Suc n)
  then have "bit (drop_bit pos (push_bit p 1 :: u16)) (p - pos)" "p - pos \<noteq> 0" by (auto simp: bit_simps)
  then have "drop_bit pos (push_bit p 1 :: u16) \<noteq> 1" by (metis bit_1_iff)
  then show ?case using Suc by (subst pin_position.simps) (auto simp: Suc_diff_Suc)
qed

text \<open>The settings of the pin \<open>q\<close> of a port.\<close>

definition pin_setting :: "nat \<Rightarrow> gpio_port \<Rightarrow> u32 list" where
  "pin_setting q x = [field_at 2 q (MODER x), field_at 1 q (OTYPER x), field_at 2 q (OSPEEDR x), field_at 2 q (PUPDR x),
     if q < 8 then field_at 4 q (AFR0 x) else field_at 4 (q - 8) (AFR1 x)]"

text \<open>What a configuration asks for, with the fields it leaves.\<close>

definition configured :: "GPIO_InitTypeDef \<Rightarrow> u32 list \<Rightarrow> u32 list" where
  "configured c old = (let out = GPIO_Mode c = GPIO_Mode_OUT \<or> GPIO_Mode c = GPIO_Mode_AF in
     [ucast (GPIO_Mode c), if out then ucast (GPIO_OType c) else old ! 1, if out then ucast (GPIO_Speed c) else old ! 2,
      ucast (GPIO_PuPd c), if GPIO_Mode c = GPIO_Mode_AF then ucast (GPIO_AF c) else old ! 4])"

definition in_range :: "GPIO_InitTypeDef \<Rightarrow> bool" where
  "in_range c \<longleftrightarrow> GPIO_Mode c < 4 \<and> GPIO_OType c < 2 \<and> GPIO_Speed c < 4 \<and> GPIO_PuPd c < 4 \<and> GPIO_AF c < 16"

lemma unat_widen: "LENGTH('a) \<le> 32 \<Longrightarrow> unat (ucast (x :: 'a :: len word) :: u32) = unat x"
proof -
  assume "LENGTH('a) \<le> 32"
  then have "(2 :: nat) ^ LENGTH('a) \<le> 2 ^ 32" by (intro power_increasing) simp_all
  moreover have "unat x < 2 ^ LENGTH('a)" by (rule unsigned_less)
  ultimately have "unat x < 2 ^ 32" by linarith
  then show ?thesis by (simp add: unsigned_ucast_eq take_bit_nat_eq_self)
qed

lemma init_pin_other: "GPIO_Pin c AND push_bit p 1 \<noteq> push_bit p 1 \<Longrightarrow> init_pin c p x = Some x"
  by (simp add: init_pin_def)

lemma init_pins_other: "\<forall>p \<in> set ps. GPIO_Pin c AND push_bit p 1 \<noteq> push_bit p 1 \<Longrightarrow> init_pins c ps x = Some x"
  by (induction ps) (auto simp: init_pin_other)

lemma pins_differ: "p < 16 \<Longrightarrow> q < 16 \<Longrightarrow> (push_bit p 1 :: u16) AND push_bit q 1 = push_bit q 1 \<longleftrightarrow> p = q"
proof
  assume p: "p < 16" "q < 16" "(push_bit p 1 :: u16) AND push_bit q 1 = push_bit q 1"
  then have "bit ((push_bit p 1 :: u16) AND push_bit q 1) q" by (simp add: bit_simps)
  then show "p = q" using p by (auto simp: bit_simps)
qed simp

lemma init_pin_sets:
  assumes c: "in_range c" "GPIO_Pin c = push_bit p 1" "p < 16"
  obtains x' where "init_pin c p x = Some x'" "pin_setting p x' = configured c (pin_setting p x)"
    "\<And>q. q < 16 \<Longrightarrow> q \<noteq> p \<Longrightarrow> pin_setting q x' = pin_setting q x" "BSRR x' = BSRR x" "IDR x' = IDR x"
proof -
  have v: "unat (ucast (GPIO_Mode c) :: u32) < 2 ^ 2" "unat (ucast (GPIO_OType c) :: u32) < 2 ^ 1" "unat (ucast (GPIO_Speed c) :: u32) < 2 ^ 2"
    "unat (ucast (GPIO_PuPd c) :: u32) < 2 ^ 2" "unat (ucast (GPIO_AF c) :: u32) < 2 ^ 4"
    using c(1) by (simp_all add: in_range_def unat_widen word_less_nat_alt)
  have b: "p * 2 + 2 \<le> 32" "p * 1 + 1 \<le> 32" "p < 8 \<Longrightarrow> p * 4 + 4 \<le> 32" "(p - 8) * 4 + 4 \<le> 32" using c(3) by simp_all
  note put = put_field_at [OF v(1) b(1)] put_field_at [OF v(2) b(2)] put_field_at [OF v(3) b(1)] put_field_at [OF v(4) b(1)]
    put_field_at [OF v(5) b(3)] put_field_at [OF v(5) b(4)]
  have pos: "pin_position (push_bit p 1) 0 = Some p" using c(3) by (simp only: pin_position_at)
  have "init_pin c p x \<noteq> None" by (simp add: init_pin_def GPIO_SetAF_def c(2) pos [simplified] Let_def)
  then obtain x' where x': "init_pin c p x = Some x'" by blast
  then have e: "MODER x' = put_field 2 p (ucast (GPIO_Mode c)) (MODER x)"
    "OTYPER x' = (if GPIO_Mode c = GPIO_Mode_OUT \<or> GPIO_Mode c = GPIO_Mode_AF then put_field 1 p (ucast (GPIO_OType c)) (OTYPER x) else OTYPER x)"
    "OSPEEDR x' = (if GPIO_Mode c = GPIO_Mode_OUT \<or> GPIO_Mode c = GPIO_Mode_AF then put_field 2 p (ucast (GPIO_Speed c)) (OSPEEDR x) else OSPEEDR x)"
    "PUPDR x' = put_field 2 p (ucast (GPIO_PuPd c)) (PUPDR x)"
    "AFR0 x' = (if GPIO_Mode c = GPIO_Mode_AF \<and> p < 8 then put_field 4 p (ucast (GPIO_AF c)) (AFR0 x) else AFR0 x)"
    "AFR1 x' = (if GPIO_Mode c = GPIO_Mode_AF \<and> \<not> p < 8 then put_field 4 (p - 8) (ucast (GPIO_AF c)) (AFR1 x) else AFR1 x)"
    "BSRR x' = BSRR x" "IDR x' = IDR x"
    by (auto simp: init_pin_def GPIO_SetAF_def c(2) pos [simplified] Let_def split: if_splits)
  have "pin_setting p x' = configured c (pin_setting p x)"
    by (simp add: pin_setting_def configured_def e put Let_def del: One_nat_def)
  moreover have "pin_setting q x' = pin_setting q x" if "q < 16" "q \<noteq> p" for q
    using that by (auto simp: pin_setting_def e put simp del: One_nat_def)
  ultimately show thesis using x' e by (intro that)
qed

lemma init_pins_append: "init_pins c (ps @ qs) x = do { x \<leftarrow> init_pins c ps x; init_pins c qs x }"
  by (induction ps arbitrary: x) (auto split: bind_splits)

lemma GPIO_Init_sets:
  assumes c: "in_range c" "GPIO_Pin c = push_bit p 1" "p < 16" and x: "at (ports h) a = Some x"
  obtains x' where "GPIO_Init a c h = Some (h\<lparr>ports := (ports h)(a \<mapsto> x')\<rparr>)" "pin_setting p x' = configured c (pin_setting p x)"
    "\<And>q. q < 16 \<Longrightarrow> q \<noteq> p \<Longrightarrow> pin_setting q x' = pin_setting q x"
proof -
  obtain x' where x': "init_pin c p x = Some x'" "pin_setting p x' = configured c (pin_setting p x)"
    "\<And>q. q < 16 \<Longrightarrow> q \<noteq> p \<Longrightarrow> pin_setting q x' = pin_setting q x" by (rule init_pin_sets [OF c]) blast
  have "[0..<16] = [0..<p] @ p # [Suc p..<16]" using c(3) using upt_add_eq_append [of 0 p "16 - p"] upt_conv_Cons [of p 16] by simp
  moreover have d: "GPIO_Pin c AND push_bit q 1 \<noteq> push_bit q 1" if "q < 16" "q \<noteq> p" for q
    unfolding c(2) using pins_differ [OF c(3) that(1)] that(2) by blast
  have "init_pins c [0..<p] x = Some x" "init_pins c [Suc p..<16] x' = Some x'"
    by (rule init_pins_other, intro ballI d; use c(3) in simp)+
  ultimately have "init_pins c [0..<16] x = Some x'" using x'(1) by (simp add: init_pins_append)
  then show thesis using x x' by (intro that [of x']) (auto simp: GPIO_Init_def on_port_def)
qed

lemma rcc_of_nth: "distinct bs \<Longrightarrow> i < length bs \<Longrightarrow> rcc_of bs k (bs ! i) = push_bit (k + i) 1"
proof (induction bs arbitrary: i k)
  case (Cons b bs)
  then show ?case by (cases i) (auto simp del: push_bit_of_1)
qed simp

lemma clock_of_port: "n < 11 \<Longrightarrow> Get_APB_RCC_Source (1073872896 + 1024 * n) = push_bit n 1"
  using rcc_of_nth [of gpio_Types n 0]
  by (simp add: Get_APB_RCC_Source_def gpio_Types_def distinct_map inj_on_def del: upt_Suc push_bit_of_1)

lemma gpio_of_arg:
  fixes arg :: u32
  assumes "unat arg < 176"
  shows "get_gpio_number (ucast arg) = push_bit (unat arg mod 16) 1" "get_gpio_type (ucast arg) = 1073872896 + 1024 * (unat arg div 16)"
    "Get_APB_RCC_Source (1073872896 + 1024 * (unat arg div 16)) = push_bit (unat arg div 16) 1"
proof -
  have u: "unat (ucast arg :: u16) = unat arg" using assms by (simp add: unsigned_ucast_eq take_bit_nat_eq_self)
  have d: "unat arg div 16 < 11" using assms by simp
  then show "get_gpio_number (ucast arg) = push_bit (unat arg mod 16) 1" "get_gpio_type (ucast arg) = 1073872896 + 1024 * (unat arg div 16)"
    using u by (simp_all add: get_gpio_number_def gpio_pins_def get_gpio_type_def gpio_Types_def Let_def nth_append del: upt_Suc)
  show "Get_APB_RCC_Source (1073872896 + 1024 * (unat arg div 16)) = push_bit (unat arg div 16) 1" by (rule clock_of_port [OF d])
qed

section \<open>Selecting a pin\<close>

text \<open>The port with the given number, and the settings of its pins.\<close>

definition port_of :: "nat \<Rightarrow> nat" where
  "port_of n = 1073872896 + 1024 * n"

definition all_ports :: "gpio_hw \<Rightarrow> bool" where
  "all_ports h \<longleftrightarrow> (\<forall>n < 11. \<exists>x. ports h (port_of n) = Some x)"

definition setting_at :: "gpio_hw \<Rightarrow> nat \<Rightarrow> nat \<Rightarrow> u32 list" where
  "setting_at h n q = pin_setting q (the (ports h (port_of n)))"

lemma port_of_simps [simp]: "0 < port_of n" "port_of n \<noteq> 0" "port_of n = port_of m \<longleftrightarrow> n = m"
  by (simp_all add: port_of_def)

lemma all_ports_at: "all_ports h \<Longrightarrow> n < 11 \<Longrightarrow> \<exists>x. at (ports h) (port_of n) = Some x \<and> ports h (port_of n) = Some x"
  by (auto simp: all_ports_def)

lemma configure_sets:
  assumes h: "all_ports h" "n < 11" and c: "in_range (f (GPIO_InitStructure d))" "GPIO_Pin (f (GPIO_InitStructure d)) = push_bit p 1" "p < 16"
  obtains h' where "configure (port_of n) f d h = Some (0, d\<lparr>GPIO_InitStructure := f (GPIO_InitStructure d)\<rparr>, h')" "all_ports h'"
    "RCC_AHB1ENR h' = RCC_AHB1ENR h"
    "\<And>m q. q < 16 \<Longrightarrow> setting_at h' m q =
       (if m = n \<and> q = p then configured (f (GPIO_InitStructure d)) (setting_at h n p) else setting_at h m q)"
proof -
  obtain x where x: "at (ports h) (port_of n) = Some x" "ports h (port_of n) = Some x" using all_ports_at [OF h] by blast
  obtain x' where x': "GPIO_Init (port_of n) (f (GPIO_InitStructure d)) h = Some (h\<lparr>ports := (ports h)(port_of n \<mapsto> x')\<rparr>)"
    "pin_setting p x' = configured (f (GPIO_InitStructure d)) (pin_setting p x)"
    "\<And>q. q < 16 \<Longrightarrow> q \<noteq> p \<Longrightarrow> pin_setting q x' = pin_setting q x" by (rule GPIO_Init_sets [OF c x(1)]) blast
  show thesis
    by (rule that [of "h\<lparr>ports := (ports h)(port_of n \<mapsto> x')\<rparr>"])
      (use h(1) x x' in \<open>auto simp: configure_def Let_def all_ports_def setting_at_def\<close>)
qed

lemma one_bit: "push_bit p 1 \<noteq> (65535 :: u16)" "push_bit p 1 \<noteq> (4294967295 :: u32)"
proof
  assume p: "push_bit p 1 = (65535 :: u16)"
  have "bit (push_bit p 1 :: u16) 0" "bit (push_bit p 1 :: u16) 1" unfolding p by simp_all
  then show False by (auto simp: bit_simps)
next
  show "push_bit p 1 \<noteq> (4294967295 :: u32)"
  proof
    assume p: "push_bit p 1 = (4294967295 :: u32)"
    have "bit (push_bit p 1 :: u32) 0" "bit (push_bit p 1 :: u32) 1" unfolding p by simp_all
    then show False by (auto simp: bit_simps)
  qed
qed

lemma select_pin:
  fixes arg :: u32
  assumes h: "all_ports h" and a: "unat arg < 176"
  defines "n \<equiv> unat arg div 16" and "p \<equiv> unat arg mod 16"
  obtains d' h' where "compat_ioctl d 64 arg h = Some (0, d', h')" "all_ports h'" "RCC_AHB1ENR h' = RCC_AHB1ENR h OR push_bit n 1"
    "gpio_number d' = push_bit p 1" "gpio_type d' = port_of n"
    "GPIO_InitStructure d' = \<lparr>GPIO_Pin = push_bit p 1, GPIO_Mode = GPIO_Mode_OUT, GPIO_Speed = 2, GPIO_OType = 0, GPIO_PuPd = 0, GPIO_AF = 0\<rparr>"
    "\<And>m q. q < 16 \<Longrightarrow> setting_at h' m q = (if m = n \<and> q = p then [1, 0, 2, 0, setting_at h n p ! 4] else setting_at h m q)"
proof -
  let ?c = "\<lparr>GPIO_Pin = push_bit p 1, GPIO_Mode = GPIO_Mode_OUT, GPIO_Speed = 2, GPIO_OType = 0, GPIO_PuPd = 0, GPIO_AF = 0\<rparr>"
  let ?d = "d\<lparr>gpio_number := push_bit p 1, gpio_type := port_of n\<rparr>"
  let ?h = "RCC_AHB1PeriphClockCmd (push_bit n 1) 1 h"
  have n: "n < 11" "p < 16" using a by (simp_all add: n_def p_def)
  have g: "get_gpio_number (ucast arg) = push_bit p 1" "get_gpio_type (ucast arg) = port_of n" "Get_APB_RCC_Source (port_of n) = push_bit n 1"
    using gpio_of_arg [OF a] by (simp_all only: n_def p_def port_of_def)
  have h1: "all_ports ?h" "setting_at ?h = setting_at h" using h by (simp_all add: all_ports_def RCC_AHB1PeriphClockCmd_def setting_at_def fun_eq_iff)
  have r: "in_range ?c" by (simp add: in_range_def)
  obtain h' where h': "configure (port_of n) (\<lambda>_. ?c) ?d ?h = Some (0, ?d\<lparr>GPIO_InitStructure := ?c\<rparr>, h')" "all_ports h'"
    "RCC_AHB1ENR h' = RCC_AHB1ENR ?h"
    "\<And>m q. q < 16 \<Longrightarrow> setting_at h' m q = (if m = n \<and> q = p then configured ?c (setting_at ?h n p) else setting_at ?h m q)"
    by (rule configure_sets [OF h1(1) n(1), where f = "\<lambda>_. ?c" and d = ?d and p = p]) (use r n in auto)
  have "(push_bit n 1 :: u32) \<noteq> 4294967295" by (rule one_bit)
  then have "compat_ioctl d 64 arg h = configure (port_of n) (\<lambda>_. ?c) ?d ?h"
    by (simp add: compat_ioctl_def g Let_def del: push_bit_of_1)
  moreover have "configured ?c (setting_at h n p) = [1, 0, 2, 0, setting_at h n p ! 4]" by (simp add: configured_def)
  ultimately show thesis using h' h1(2) by (intro that [of "?d\<lparr>GPIO_InitStructure := ?c\<rparr>" h']) (auto simp: RCC_AHB1PeriphClockCmd_def)
qed

lemma af_argument:
  fixes arg af :: u32
  assumes "unat arg < 176" "unat af < 16"
  shows "drop_bit 16 (push_bit 16 af OR arg) AND 15 = af" "(ucast (push_bit 16 af OR arg) :: u16) = ucast arg"
proof -
  have a: "bit arg j \<Longrightarrow> j < 8" "bit af j \<Longrightarrow> j < 4" for j using assms bit_below [of arg 8 j] bit_below [of af 4 j] by simp_all
  have m: "(15 :: u32) = mask 4" by (simp add: mask_eq_exp_minus_1)
  show "drop_bit 16 (push_bit 16 af OR arg) AND 15 = af"
    unfolding m by (rule bit_word_eqI) (auto simp: bit_simps dest: a)
  show "(ucast (push_bit 16 af OR arg) :: u16) = ucast arg"
    by (rule bit_word_eqI) (auto simp: bit_simps dest: a)
qed

text \<open>C13: 
  Selecting the pin number 16n + q makes pin q of port n a fast push-pull output without pull and enables the port's clock;
  setting an alternate function then gives it that function, which reading it back returns. No setting of another pin of
  any port changes.
\<close>

theorem gpio_pin_selected:
  fixes arg af :: u32
  assumes h: "all_ports h" and a: "unat arg < 176" "unat af < 16"
  shows "\<exists>d1 h1 d2 h2. compat_ioctl d 64 arg h = Some (0, d1, h1) \<and>
     RCC_AHB1ENR h1 = RCC_AHB1ENR h OR push_bit (unat arg div 16) 1 \<and>
     (\<forall>n q. q < 16 \<longrightarrow> setting_at h1 n q =
        (if 16 * n + q = unat arg then [1, 0, 2, 0, setting_at h n q ! 4] else setting_at h n q)) \<and>
     compat_ioctl d1 256 (push_bit 16 af OR arg) h1 = Some (0, d2, h2) \<and>
     (\<forall>n q. q < 16 \<longrightarrow> setting_at h2 n q = (if 16 * n + q = unat arg then [2, 0, 2, 0, af] else setting_at h n q)) \<and>
     compat_ioctl d2 257 arg h2 = Some (int (unat af), d2, h2)"
proof -
  define n p where np: "n = unat arg div 16" "p = unat arg mod 16"
  have n: "n < 11" "p < 16" using a by (simp_all add: np)
  have iff: "m = n \<and> q = p \<longleftrightarrow> 16 * m + q = unat arg" if "q < 16" for m q
  proof
    assume "16 * m + q = unat arg"
    then show "m = n \<and> q = p" using that unfolding np by (metis add.commute add_0 div_less div_mult_self2 mod_less mod_mult_self2 zero_neq_numeral)
  qed (simp add: np)
  obtain d1 h1 where s1: "compat_ioctl d 64 arg h = Some (0, d1, h1)" "all_ports h1" "RCC_AHB1ENR h1 = RCC_AHB1ENR h OR push_bit n 1"
    "gpio_number d1 = push_bit p 1" "gpio_type d1 = port_of n"
    "GPIO_InitStructure d1 = \<lparr>GPIO_Pin = push_bit p 1, GPIO_Mode = GPIO_Mode_OUT, GPIO_Speed = 2, GPIO_OType = 0, GPIO_PuPd = 0, GPIO_AF = 0\<rparr>"
    "\<And>m q. q < 16 \<Longrightarrow> setting_at h1 m q = (if m = n \<and> q = p then [1, 0, 2, 0, setting_at h n p ! 4] else setting_at h m q)"
    unfolding np by (rule select_pin [OF h a(1), of d]) blast
  let ?f = "\<lambda>c. c\<lparr>GPIO_Mode := GPIO_Mode_AF, GPIO_AF := ucast af\<rparr>"
  have u: "unat (ucast af :: u8) = unat af" using a(2) by (simp add: unsigned_ucast_eq take_bit_nat_eq_self)
  have c2: "in_range (?f (GPIO_InitStructure d1))" "GPIO_Pin (?f (GPIO_InitStructure d1)) = push_bit p 1"
    using a(2) by (simp_all add: s1(6) in_range_def word_less_nat_alt u)
  obtain h2 where s2: "configure (port_of n) ?f d1 h1 = Some (0, d1\<lparr>GPIO_InitStructure := ?f (GPIO_InitStructure d1)\<rparr>, h2)" "all_ports h2"
    "\<And>m q. q < 16 \<Longrightarrow> setting_at h2 m q = (if m = n \<and> q = p then configured (?f (GPIO_InitStructure d1)) (setting_at h1 n p) else setting_at h1 m q)"
    by (rule configure_sets [where f = ?f and d = d1, OF s1(2) n(1) c2 n(2)]) blast
  let ?d2 = "d1\<lparr>GPIO_InitStructure := ?f (GPIO_InitStructure d1)\<rparr>"
  note arg = af_argument [OF a] gpio_of_arg [OF a(1), folded np, folded port_of_def]
  have two: "compat_ioctl d1 256 (push_bit 16 af OR arg) h1 = Some (0, ?d2, h2)"
    using s2(1) by (simp add: compat_ioctl_def s1(4) one_bit(1) arg Let_def del: push_bit_of_1 drop_bit_or)
  obtain x where x: "at (ports h2) (port_of n) = Some x" "ports h2 (port_of n) = Some x" using all_ports_at [OF s2(2) n(1)] by blast
  have set2: "setting_at h2 m q = (if 16 * m + q = unat arg then [2, 0, 2, 0, af] else setting_at h m q)" if "q < 16" for m q
    using iff [OF that, of m] s2(3) [OF that, of m] s1(7) [OF that, of m] s1(7) [OF n(2), of n] u
    by (auto simp: configured_def s1(6) word_unat_eq_iff [of _ af] unat_widen)
  have "setting_at h2 n p = [2, 0, 2, 0, af]" using set2 [OF n(2), of n] by (simp add: np)
  then have "(if p < 8 then field_at 4 p (AFR0 x) else field_at 4 (p - 8) (AFR1 x)) = af" by (simp add: setting_at_def x(2) pin_setting_def)
  moreover have m: "mask 4 = (15 :: u32)" by (simp add: mask_eq_exp_minus_1)
  ultimately have "GPIO_GetAF (push_bit p 1) x = Some (ucast af)"
    using pin_position_at [OF n(2), of 0] by (auto simp: GPIO_GetAF_def field_at_def m split: if_splits)
  moreover have "uint (ucast af :: u8) = uint af" using arg_cong [OF u, of int] by simp
  ultimately have three: "compat_ioctl ?d2 257 arg h2 = Some (int (unat af), ?d2, h2)"
    using x(1) by (simp add: compat_ioctl_def s1(4) one_bit(1) arg Let_def del: push_bit_of_1)
  have set1: "setting_at h1 m q = (if 16 * m + q = unat arg then [1, 0, 2, 0, setting_at h m q ! 4] else setting_at h m q)" if "q < 16" for m q
    using iff [OF that, of m] s1(7) [OF that, of m] by auto
  show ?thesis using s1(1,3) two three set1 set2 unfolding np by blast
qed

text \<open>
  The first steps of the flash driver, \<open>cs_pin_init\<close> of \<^verbatim>\<open>w25qxx.h\<close>: the pin is selected, then made an output once more
  with the argument 0. What opening the file gives is \<open>gpio_open\<close>; the virtual file system passes the calls on.
\<close>

definition cs_pin_init :: "bool \<Rightarrow> GPIO_InitTypeDef \<Rightarrow> int \<Rightarrow> gpio_hw \<Rightarrow> (int \<times> gpio_device option \<times> gpio_hw) option" where
  "cs_pin_init granted junk pin h = (if pin = -1 then Some (0, None, h)
     else case gpio_open granted junk of Inl e \<Rightarrow> Some (-1, None, h)
     | Inr d \<Rightarrow> do {
         (i, d, h) \<leftarrow> compat_ioctl d 64 (of_int pin) h;
         if i < 0 then Some (-1, Some d, h)
         else do {
           (_, d, h) \<leftarrow> compat_ioctl d 2 0 h;
           Some (0, Some d, h) } })"

text \<open>C39: 
  Opening the flash driver's select pin also makes the pin of the same number on port A an output: the second call takes
  its port from the argument 0 and its pin from the file.
\<close>

theorem cs_pin_init_port_a:
  assumes h: "all_ports h" and pin: "0 \<le> pin" "pin < 176"
  shows "\<exists>d' h'. cs_pin_init True junk pin h = Some (0, Some d', h') \<and>
     gpio_number d' = push_bit (nat pin mod 16) 1 \<and> gpio_type d' = port_of (nat pin div 16) \<and>
     (\<forall>n q. q < 16 \<longrightarrow> setting_at h' n q =
        (if q = nat pin mod 16 \<and> (n = nat pin div 16 \<or> n = 0) then [1, 0, 2, 0, setting_at h n q ! 4] else setting_at h n q))"
proof -
  define n p where np: "n = nat pin div 16" "p = nat pin mod 16"
  have u: "unat (of_int pin :: u32) = nat pin" using pin by (simp add: unat_eq_nat_uint uint_word_of_int)
  have n: "n < 11" "p < 16" using pin by (simp_all add: np)
  obtain d0 where d0: "gpio_open True junk = Inr d0" by (simp add: gpio_open_def)
  have a: "unat (of_int pin :: u32) < 176" using pin u by simp
  obtain d1 h1 where s1: "compat_ioctl d0 64 (of_int pin) h = Some (0, d1, h1)" "all_ports h1"
    "gpio_number d1 = push_bit p 1" "gpio_type d1 = port_of n"
    "GPIO_InitStructure d1 = \<lparr>GPIO_Pin = push_bit p 1, GPIO_Mode = GPIO_Mode_OUT, GPIO_Speed = 2, GPIO_OType = 0, GPIO_PuPd = 0, GPIO_AF = 0\<rparr>"
    "\<And>m q. q < 16 \<Longrightarrow> setting_at h1 m q = (if m = n \<and> q = p then [1, 0, 2, 0, setting_at h n p ! 4] else setting_at h m q)"
    unfolding np by (rule select_pin [OF h a, of d0]) (simp add: u)
  let ?f = "\<lambda>c. c\<lparr>GPIO_Mode := GPIO_Mode_OUT\<rparr>"
  have c2: "in_range (?f (GPIO_InitStructure d1))" "GPIO_Pin (?f (GPIO_InitStructure d1)) = push_bit p 1" "0 < (11 :: nat)"
    by (simp_all add: s1(5) in_range_def)
  obtain h2 where s2: "configure (port_of 0) ?f d1 h1 = Some (0, d1\<lparr>GPIO_InitStructure := ?f (GPIO_InitStructure d1)\<rparr>, h2)"
    "\<And>m q. q < 16 \<Longrightarrow> setting_at h2 m q = (if m = 0 \<and> q = p then configured (?f (GPIO_InitStructure d1)) (setting_at h1 0 p) else setting_at h1 m q)"
    by (rule configure_sets [where f = ?f and d = d1, OF s1(2) c2(3,1,2) n(2)]) blast
  have z: "get_gpio_type (ucast (0 :: u32)) = port_of 0" using gpio_of_arg(2) [of 0] by (simp add: port_of_def)
  have "compat_ioctl d1 2 0 h1 = Some (0, d1\<lparr>GPIO_InitStructure := ?f (GPIO_InitStructure d1)\<rparr>, h2)"
    using s2(1) z by (simp add: compat_ioctl_def s1(3) one_bit(1) Let_def del: push_bit_of_1)
  moreover have "setting_at h2 m q = (if q = p \<and> (m = n \<or> m = 0) then [1, 0, 2, 0, setting_at h m q ! 4] else setting_at h m q)" if "q < 16" for m q
    using s2(2) [OF that, of m] s1(6) [OF that, of m] s1(6) [OF n(2), of 0] by (auto simp: configured_def s1(5))
  ultimately show ?thesis using pin d0 s1(1,3,4) by (auto simp: cs_pin_init_def np)
qed

definition ports_w :: gpio_hw where
  "ports_w = \<lparr>ports = (\<lambda>_. Some \<lparr>MODER = 0, OTYPER = 0, OSPEEDR = 0, PUPDR = 0, IDR = 0, BSRR = 0, AFR0 = 0, AFR1 = 0\<rparr>), RCC_AHB1ENR = 0\<rparr>"

definition init_w :: GPIO_InitTypeDef where
  "init_w = \<lparr>GPIO_Pin = 0, GPIO_Mode = 0, GPIO_Speed = 0, GPIO_OType = 0, GPIO_PuPd = 0, GPIO_AF = 0\<rparr>"

lemma ports_w: "all_ports ports_w"
  by (simp add: all_ports_def ports_w_def)

text \<open>The pin PC2 with the function 5, and the pin PA2 beside it.\<close>

theorem gpio_pin_selected_witness:
  "\<exists>d1 h1 d2 h2. compat_ioctl \<lparr>gpio_number = 65535, gpio_type = 0, GPIO_InitStructure = init_w\<rparr> 64 34 ports_w = Some (0, d1, h1) \<and>
     compat_ioctl d1 256 327714 h1 = Some (0, d2, h2) \<and> setting_at h2 2 2 = [2, 0, 2, 0, 5] \<and> setting_at h2 0 2 = [0, 0, 0, 0, 0]"
proof -
  have "setting_at ports_w 0 2 = [0, 0, 0, 0, 0]" by (simp add: setting_at_def ports_w_def pin_setting_def field_at_def)
  moreover have "unat (34 :: u32) < 176" "unat (5 :: u32) < 16" "push_bit 16 5 OR 34 = (327714 :: u32)" by simp_all
  ultimately show ?thesis
    using gpio_pin_selected [OF ports_w, of 34 5 "\<lparr>gpio_number = 65535, gpio_type = 0, GPIO_InitStructure = init_w\<rparr>"] by fastforce
qed

text \<open>The pin PB3 is asked for, and PA3 becomes an output as well.\<close>

theorem cs_pin_init_port_a_witness:
  "\<exists>d' h'. cs_pin_init True init_w 19 ports_w = Some (0, Some d', h') \<and> setting_at ports_w 0 3 = [0, 0, 0, 0, 0] \<and>
     setting_at h' 1 3 = [1, 0, 2, 0, 0] \<and> setting_at h' 0 3 = [1, 0, 2, 0, 0]"
proof -
  have s: "setting_at ports_w n 3 = [0, 0, 0, 0, 0]" for n by (simp add: setting_at_def ports_w_def pin_setting_def field_at_def)
  obtain d' h' where "cs_pin_init True init_w 19 ports_w = Some (0, Some d', h')" and h': "\<And>n q. q < 16 \<Longrightarrow> setting_at h' n q =
      (if q = nat 19 mod 16 \<and> (n = nat 19 div 16 \<or> n = 0) then [1, 0, 2, 0, setting_at ports_w n q ! 4] else setting_at ports_w n q)"
    using cs_pin_init_port_a [OF ports_w, of 19 init_w] by auto
  then show ?thesis using h' [of 3 1] h' [of 3 0] s by auto
qed

end
