(* ===== verification/Spi.thy ===== *)
theory Spi
  imports Gpio W25q
begin

text \<open>
  The serial bus, \<^verbatim>\<open>drivers/spi/stm32f4/stm32f4_spi.c\<close>, and the wires of the flash driver, the first part of
  \<^verbatim>\<open>drivers/storage/w25qxx/w25qxx.h\<close>: how its four functions reach the chip through the files of the pin and of the bus.

  The chip is a parameter: \<open>exchange\<close> is what it answers to a byte, \<open>edge\<close> what it makes of a value written to the \<open>BSRR\<close> of a port.
  The waits for the flags of the bus end.
\<close>

section \<open>The bus\<close>

record 'c spi_bus =
  SPI1_CR1 :: u32
  chip :: 'c

definition SPI1_SetSpeed :: "u8 \<Rightarrow> 'c spi_bus \<Rightarrow> 'c spi_bus" where
  "SPI1_SetSpeed prescaler b = b\<lparr>SPI1_CR1 := (SPI1_CR1 b AND NOT (push_bit 3 7)) OR push_bit 3 (ucast prescaler)\<rparr>"

definition get_spi_speed :: "u32 \<Rightarrow> u16" where
  "get_spi_speed speed = (let pclk2 = 168000000 div 2 in
     if speed \<ge> pclk2 div 2 then 0
     else if speed \<ge> pclk2 div 4 then 1
     else if speed \<ge> pclk2 div 8 then 2
     else if speed \<ge> pclk2 div 16 then 3
     else if speed \<ge> pclk2 div 32 then 4
     else if speed \<ge> pclk2 div 64 then 5
     else if speed \<ge> pclk2 div 128 then 6
     else 7)"

definition SPI1_ReadWriteByte :: "(u8 \<Rightarrow> 'c \<Rightarrow> u8 \<times> 'c) \<Rightarrow> u8 \<Rightarrow> 'c spi_bus \<Rightarrow> u8 \<times> 'c spi_bus" where
  "SPI1_ReadWriteByte exchange x b = (let (r, c) = exchange x (chip b) in (r, b\<lparr>chip := c\<rparr>))"

text \<open>
  The loop over the bytes: what is sent is the buffer's or \<open>0xFF\<close>, what comes back goes to the other buffer or nowhere. An access
  outside a buffer is a fault. The result is the buffer that is read into.
\<close>

fun swap_loop :: "(u8 \<Rightarrow> 'c \<Rightarrow> u8 \<times> 'c) \<Rightarrow> u8 list option \<Rightarrow> u8 list option \<Rightarrow> nat \<Rightarrow> nat \<Rightarrow> 'c spi_bus \<Rightarrow> (u8 list option \<times> 'c spi_bus) option" where
  "swap_loop exchange p q i 0 b = Some (q, b)"
| "swap_loop exchange p q i (Suc n) b = do {
     x \<leftarrow> (case p of None \<Rightarrow> Some 255 | Some s \<Rightarrow> if i < length s then Some (s ! i) else None);
     let (r, b) = SPI1_ReadWriteByte exchange x b;
     q \<leftarrow> (case q of None \<Rightarrow> Some None | Some s \<Rightarrow> if i < length s then Some (Some (s[i := r])) else None);
     swap_loop exchange p q (i + 1) n b }"

definition spi_device_swap :: "(u8 \<Rightarrow> 'c \<Rightarrow> u8 \<times> 'c) \<Rightarrow> u8 list option \<Rightarrow> u8 list option \<Rightarrow> int \<Rightarrow> 'c spi_bus
    \<Rightarrow> (int \<times> u8 list option \<times> 'c spi_bus) option" where
  "spi_device_swap exchange p q len b = (if p = None \<and> q = None then Some (-1, q, b)
     else map_option (\<lambda>(q, b). (len, q, b)) (swap_loop exchange p q 0 (nat len) b))"

record spi_ioc_transfer =
  tx_buf :: "u8 list option"
  rx_buf :: "u8 list option"
  xfer_len :: u32
  speed_hz :: u32

definition spi_unlocked_ioctl :: "(u8 \<Rightarrow> 'c \<Rightarrow> u8 \<times> 'c) \<Rightarrow> u32 \<Rightarrow> spi_ioc_transfer option \<Rightarrow> 'c spi_bus
    \<Rightarrow> (int \<times> u8 list option \<times> 'c spi_bus) option" where
  "spi_unlocked_ioctl exchange cmd arg b = (case arg of None \<Rightarrow> Some (- EINVAL, None, b)
     | Some t \<Rightarrow> if cmd = 1
         then spi_device_swap exchange (tx_buf t) (rx_buf t) (sint (xfer_len t)) (SPI1_SetSpeed (ucast (get_spi_speed (speed_hz t))) b)
         else Some (- EINVAL, rx_buf t, b))"

section \<open>The wires of the flash chip\<close>

record 'c flash_bus =
  pins :: gpio_hw
  cs_file :: gpio_device
  spi :: "'c spi_bus"
  xfer_speed :: u32

text \<open>\<open>set_cs_pin_high\<close> and \<open>set_cs_pin_low\<close> write a digit to the file of the pin; an error is only printed.\<close>

definition cs_write :: "(nat \<Rightarrow> u32 \<Rightarrow> 'c \<Rightarrow> 'c) \<Rightarrow> u8 \<Rightarrow> 'c flash_bus \<Rightarrow> 'c flash_bus option" where
  "cs_write edge digit b = do {
     (r, h) \<leftarrow> gpio_write (cs_file b) [digit] (pins b);
     if r < 0 then Some b
     else do {
       x \<leftarrow> at (ports h) (gpio_type (cs_file b));
       Some (b\<lparr>pins := h, spi := (spi b)\<lparr>chip := edge (gpio_type (cs_file b)) (BSRR x) (chip (spi b))\<rparr>\<rparr>) } }"

definition set_cs_pin_high :: "(nat \<Rightarrow> u32 \<Rightarrow> 'c \<Rightarrow> 'c) \<Rightarrow> 'c flash_bus \<Rightarrow> 'c flash_bus option" where
  "set_cs_pin_high edge = cs_write edge 49"

definition set_cs_pin_low :: "(nat \<Rightarrow> u32 \<Rightarrow> 'c \<Rightarrow> 'c) \<Rightarrow> 'c flash_bus \<Rightarrow> 'c flash_bus option" where
  "set_cs_pin_low edge = cs_write edge 48"

definition w25qxx_send_data :: "(u8 \<Rightarrow> 'c \<Rightarrow> u8 \<times> 'c) \<Rightarrow> u8 list \<Rightarrow> nat \<Rightarrow> 'c flash_bus \<Rightarrow> (int \<times> 'c flash_bus) option" where
  "w25qxx_send_data exchange data len b = do {
     (i, _, s) \<leftarrow> spi_unlocked_ioctl exchange 1
       (Some \<lparr>tx_buf = Some data, rx_buf = None, xfer_len = of_nat len, speed_hz = xfer_speed b\<rparr>) (spi b);
     Some (i, b\<lparr>spi := s\<rparr>) }"

definition w25qxx_read_data :: "(u8 \<Rightarrow> 'c \<Rightarrow> u8 \<times> 'c) \<Rightarrow> u8 list \<Rightarrow> nat \<Rightarrow> 'c flash_bus \<Rightarrow> (int \<times> u8 list \<times> 'c flash_bus) option" where
  "w25qxx_read_data exchange data len b = do {
     (i, q, s) \<leftarrow> spi_unlocked_ioctl exchange 1
       (Some \<lparr>tx_buf = None, rx_buf = Some data, xfer_len = of_nat len, speed_hz = xfer_speed b\<rparr>) (spi b);
     q \<leftarrow> q;
     Some (i, q, b\<lparr>spi := s\<rparr>) }"

section \<open>What the chip sees\<close>

fun exchange_all :: "(u8 \<Rightarrow> 'c \<Rightarrow> u8 \<times> 'c) \<Rightarrow> u8 list \<Rightarrow> 'c \<Rightarrow> u8 list \<times> 'c" where
  "exchange_all exchange [] c = ([], c)"
| "exchange_all exchange (x # xs) c = (let (r, c) = exchange x c; (rs, c) = exchange_all exchange xs c in (r # rs, c))"

text \<open>The functions of the driver as acts on the chip alone, which is how \<open>W25q\<close> takes them.\<close>

definition wired :: "(u8 \<Rightarrow> 'c \<Rightarrow> u8 \<times> 'c) \<Rightarrow> ('c \<Rightarrow> 'c) \<Rightarrow> ('c \<Rightarrow> 'c) \<Rightarrow> 'c w25qxx_dev" where
  "wired exchange lo hi = \<lparr>send_start = lo, send_stop = hi, send_data = (\<lambda>s c. snd (exchange_all exchange s c)),
     read_data = (\<lambda>n c. exchange_all exchange (replicate n 255) c)\<rparr>"

lemma swap_loop_sends: "i + n \<le> length s \<Longrightarrow> swap_loop exchange (Some s) None i n b =
    Some (None, b\<lparr>chip := snd (exchange_all exchange (take n (drop i s)) (chip b))\<rparr>)"
proof (induction n arbitrary: i b)
  case (Suc n)
  then have "take (Suc n) (drop i s) = s ! i # take n (drop (i + 1) s)" by (simp add: Cons_nth_drop_Suc [symmetric])
  with Suc show ?case by (simp add: SPI1_ReadWriteByte_def split_beta Let_def)
qed simp

lemma swap_loop_reads: "i + n \<le> length s \<Longrightarrow> swap_loop exchange None (Some s) i n b =
    Some (Some (take i s @ fst (exchange_all exchange (replicate n 255) (chip b)) @ drop (i + n) s),
      b\<lparr>chip := snd (exchange_all exchange (replicate n 255) (chip b))\<rparr>)"
proof (induction n arbitrary: i b s)
  case (Suc n)
  let ?r = "fst (exchange 255 (chip b))"
  have "take (i + 1) (s[i := ?r]) = take i s @ [?r]" using Suc.prems by (simp add: take_Suc_conv_app_nth take_update_cancel)
  moreover have "drop (i + 1 + n) (s[i := ?r]) = drop (i + Suc n) s" by (simp add: drop_update_cancel)
  ultimately show ?case using Suc.prems Suc.IH [of "i + 1" "s[i := ?r]" "b\<lparr>chip := snd (exchange 255 (chip b))\<rparr>"]
    by (simp add: SPI1_ReadWriteByte_def split_beta Let_def)
qed simp

lemma cs_write_edge:
  assumes f: "gpio_number (cs_file b) = push_bit p 1" "p < 16" "at (ports (pins b)) (gpio_type (cs_file b)) = Some x"
    and d: "digit = 48 \<and> w = push_bit 16 (ucast (push_bit p 1 :: u16)) \<or> digit = 49 \<and> w = ucast (push_bit p 1 :: u16)"
  obtains h where "cs_write edge digit b = Some (b\<lparr>pins := h, spi := (spi b)\<lparr>chip := edge (gpio_type (cs_file b)) w (chip (spi b))\<rparr>\<rparr>)"
    "\<exists>x. at (ports h) (gpio_type (cs_file b)) = Some x"
proof -
  let ?a = "gpio_type (cs_file b)" and ?h = "(pins b)\<lparr>ports := (ports (pins b))(gpio_type (cs_file b) \<mapsto> x\<lparr>BSRR := w\<rparr>)\<rparr>"
  have a: "?a \<noteq> 0" using f(3) by (auto simp: at_def split: if_splits)
  have "gpio_write (cs_file b) [digit] (pins b) = Some (1, ?h)"
    using d f(3) one_bit(1)
    by (auto simp: gpio_write_def f(1) GPIO_SetBits_def GPIO_ResetBits_def on_port_def simp del: push_bit_of_1)
  then show thesis using a by (intro that [of ?h]) (simp_all add: cs_write_def at_def)
qed

text \<open>The clock of the bus is the peripheral clock of 84 MHz over a power of two.\<close>

theorem spi_speed_bound:
  "unat (get_spi_speed s) \<le> 7 \<and> (84000000 div 2 ^ (unat (get_spi_speed s) + 1) \<le> unat s \<longleftrightarrow> 328125 \<le> unat s) \<and>
     (0 < unat (get_spi_speed s) \<longrightarrow> unat s < 84000000 div 2 ^ unat (get_spi_speed s))"
  by (simp add: get_spi_speed_def Let_def word_le_nat_alt not_le)

text \<open>C12: 
  The four functions of the flash driver, through the file of the pin and that of the bus, act on the chip alone as the
  operations \<open>W25q\<close> is given: a level on the select pin, the exchange of bytes, and the bytes read in the buffer's front. The
  divisor of the bus is that of the requested speed.
\<close>

theorem flash_wires:
  fixes edge :: "nat \<Rightarrow> u32 \<Rightarrow> 'c \<Rightarrow> 'c" and exchange :: "u8 \<Rightarrow> 'c \<Rightarrow> u8 \<times> 'c" and s :: "u8 list"
  assumes f: "gpio_number (cs_file b) = push_bit p 1" "p < 16" "at (ports (pins b)) (gpio_type (cs_file b)) = Some x"
    and e: "edge (gpio_type (cs_file b)) (push_bit p 1) = hi" "edge (gpio_type (cs_file b)) (push_bit (p + 16) 1) = lo"
    and n: "n \<le> length s" "n < 2147483648"
  shows "let dev = wired exchange lo hi; c = chip (spi b) in (\<exists>h. set_cs_pin_low edge b = Some (b\<lparr>pins := h, spi := (spi b)\<lparr>chip := send_start dev c\<rparr>\<rparr>) \<and>
        (\<exists>x. at (ports h) (gpio_type (cs_file b)) = Some x)) \<and>
     (\<exists>h. set_cs_pin_high edge b = Some (b\<lparr>pins := h, spi := (spi b)\<lparr>chip := send_stop dev c\<rparr>\<rparr>) \<and>
        (\<exists>x. at (ports h) (gpio_type (cs_file b)) = Some x)) \<and>
     (\<exists>r. w25qxx_send_data exchange s n b = Some (int n, b\<lparr>spi := \<lparr>SPI1_CR1 = r, chip = send_data dev (take n s) c\<rparr>\<rparr>) \<and>
        drop_bit 3 r AND 7 = ucast (get_spi_speed (xfer_speed b))) \<and>
     (\<exists>r. w25qxx_read_data exchange s n b = Some (int n, fst (read_data dev n c) @ drop n s,
          b\<lparr>spi := \<lparr>SPI1_CR1 = r, chip = snd (read_data dev n c)\<rparr>\<rparr>) \<and>
        drop_bit 3 r AND 7 = ucast (get_spi_speed (xfer_speed b)))"
proof -
  let ?dev = "wired exchange lo hi" and ?c = "chip (spi b)"
  let ?r = "(SPI1_CR1 (spi b) AND NOT (push_bit 3 7)) OR push_bit 3 (ucast (ucast (get_spi_speed (xfer_speed b)) :: u8) :: u32)"
  have w: "ucast (push_bit p 1 :: u16) = (push_bit p 1 :: u32)" "push_bit 16 (push_bit p 1 :: u32) = push_bit (p + 16) 1"
    using f(2) by (auto intro!: bit_word_eqI simp: bit_simps)
  obtain h1 where h1: "cs_write edge 48 b = Some (b\<lparr>pins := h1, spi := (spi b)\<lparr>chip := lo (chip (spi b))\<rparr>\<rparr>)"
    "\<exists>x. at (ports h1) (gpio_type (cs_file b)) = Some x"
    using cs_write_edge [where edge = edge and digit = 48 and w = "push_bit (p + 16) 1", OF f] e(2) w by metis
  obtain h2 where h2: "cs_write edge 49 b = Some (b\<lparr>pins := h2, spi := (spi b)\<lparr>chip := hi (chip (spi b))\<rparr>\<rparr>)"
    "\<exists>x. at (ports h2) (gpio_type (cs_file b)) = Some x"
    using cs_write_edge [where edge = edge and digit = 49 and w = "push_bit p 1", OF f] e(1) w by metis
  have k: "unat (get_spi_speed (xfer_speed b)) < 8" using spi_speed_bound [of "xfer_speed b"] by simp
  have r: "drop_bit 3 ?r AND 7 = ucast (get_spi_speed (xfer_speed b))"
  proof -
    have u: "unat (ucast (get_spi_speed (xfer_speed b)) :: u8) = unat (get_spi_speed (xfer_speed b))"
      using k by (simp add: unsigned_ucast_eq take_bit_nat_eq_self)
    then have "unat (ucast (ucast (get_spi_speed (xfer_speed b)) :: u8) :: u32) < 2 ^ 3" using k by (simp add: unat_widen)
    from put_field_at [OF this, of 1 1 "SPI1_CR1 (spi b)"]
    have "drop_bit 3 ?r AND mask 3 = ucast (ucast (get_spi_speed (xfer_speed b)) :: u8)" by (simp add: put_field_def field_at_def mask_eq_exp_minus_1)
    also have "\<dots> = ucast (get_spi_speed (xfer_speed b))" using u by (simp add: word_unat_eq_iff unat_widen)
    finally show ?thesis by (simp add: mask_eq_exp_minus_1)
  qed
  have s1: "w25qxx_send_data exchange s n b = Some (int n, b\<lparr>spi := \<lparr>SPI1_CR1 = ?r, chip = send_data ?dev (take n s) ?c\<rparr>\<rparr>)"
    using n swap_loop_sends [of 0 n s exchange]
    by (simp add: w25qxx_send_data_def spi_unlocked_ioctl_def spi_device_swap_def sint_length SPI1_SetSpeed_def wired_def)
  have s2: "w25qxx_read_data exchange s n b = Some (int n, fst (read_data ?dev n ?c) @ drop n s,
          b\<lparr>spi := \<lparr>SPI1_CR1 = ?r, chip = snd (read_data ?dev n ?c)\<rparr>\<rparr>)"
    using n swap_loop_reads [of 0 n s exchange]
    by (simp add: w25qxx_read_data_def spi_unlocked_ioctl_def spi_device_swap_def sint_length SPI1_SetSpeed_def wired_def)
  show ?thesis using h1 h2 s1 s2 r by (auto simp: Let_def set_cs_pin_low_def set_cs_pin_high_def wired_def)
qed

definition flash_bus_w :: "u32 list flash_bus" where
  "flash_bus_w = \<lparr>pins = ports_w, cs_file = \<lparr>gpio_number = 16, gpio_type = port_of 0, GPIO_InitStructure = init_w\<rparr>,
     spi = \<lparr>SPI1_CR1 = 0x37F, chip = []\<rparr>, xfer_speed = 1000000\<rparr>"

text \<open>A chip that keeps what it sees, selected by PA4. It is asked for three bytes at one megahertz; a divisor of 128 is set.\<close>

theorem flash_wires_witness:
  "(\<exists>h. set_cs_pin_low (\<lambda>_ w c. c @ [w]) flash_bus_w = Some (flash_bus_w\<lparr>pins := h, spi := \<lparr>SPI1_CR1 = 0x37F, chip = [0x100000]\<rparr>\<rparr>)) \<and>
   (\<exists>r. w25qxx_read_data (\<lambda>x c. (7, c @ [ucast x])) [1, 2, 3, 4] 3 flash_bus_w =
      Some (3, [7, 7, 7, 4], flash_bus_w\<lparr>spi := \<lparr>SPI1_CR1 = r, chip = [255, 255, 255]\<rparr>\<rparr>) \<and> drop_bit 3 r AND 7 = 6)"
proof -
  have "(1000000 :: u32) < 84000000 div 64" "(1000000 :: u32) \<ge> 84000000 div 128" by simp_all
  then have "get_spi_speed 1000000 = 6" by (simp add: get_spi_speed_def Let_def)
  moreover have "at (ports (pins flash_bus_w)) (gpio_type (cs_file flash_bus_w)) \<noteq> None" by (simp add: flash_bus_w_def ports_w_def)
  then obtain x where x: "at (ports (pins flash_bus_w)) (gpio_type (cs_file flash_bus_w)) = Some x" by blast
  have p: "gpio_number (cs_file flash_bus_w) = push_bit 4 1" by (simp add: flash_bus_w_def)
  note wires = flash_wires [where edge = "\<lambda>_ w c. c @ [w]" and exchange = "\<lambda>x c. (7, c @ [ucast x])" and s = "[1, 2, 3, 4]" and n = 3,
      OF p _ x refl refl]
  ultimately show ?thesis using wires by (auto simp: wired_def flash_bus_w_def numeral_3_eq_3)
qed

end
