(* ===== verification/ErrorLog.thy ===== *)
theory ErrorLog
  imports KHeap VsprintfSpec "HOL-Library.Signed_Division"
begin

text \<open>
  Error reports: \<^verbatim>\<open>lib/error.c\<close> and the inline functions of \<^verbatim>\<open>include/linux/error.h\<close>. A report is an object with a message
  buffer and a name of its own, three blocks of the kernel heap; the state is the heap, the reports in it and what was handed to \<open>printk\<close>.

  What a fresh block holds, the time, the frequency \<open>HZ\<close> of the clock and the size of the structure are parameters.
\<close>

section \<open>Error numbers\<close>

text \<open>The cases of the switch in \<open>l_error_exception\<close>, by number.\<close>

definition error_table :: "(int \<times> string) list" where
  "error_table =
    [(1, ''ERROR: EPERM: Operation not permitted''),
     (2, ''ERROR: ENOENT: No such file or directory''),
     (3, ''ERROR: ESRCH: No such process''),
     (4, ''WARN: EINTR: Interrupted system call''),
     (5, ''ERROR: EIO: I/O error''),
     (6, ''ERROR: ENXIO: No such device or address''),
     (7, ''ERROR: E2BIG: Argument list too long''),
     (8, ''ERROR: ENOEXEC: Exec format error''),
     (9, ''ERROR: EBADF: Bad file descriptor''),
     (10, ''ERROR: ECHILD: No child processes''),
     (35, ''WARN: EAGAIN: Resource temporarily unavailable''),
     (12, ''ERROR: ENOMEM: Out of memory''),
     (13, ''ERROR: EACCES: Permission denied''),
     (14, ''ERROR: EFAULT: Bad address''),
     (15, ''ERROR: ENOTBLK: Block device required''),
     (16, ''ERROR: EBUSY: Device or resource busy''),
     (17, ''ERROR: EEXIST: File exists''),
     (18, ''ERROR: EXDEV: Cross-device link''),
     (19, ''ERROR: ENODEV: No such device''),
     (20, ''ERROR: ENOTDIR: Not a directory''),
     (21, ''ERROR: EISDIR: Is a directory''),
     (22, ''ERROR: EINVAL: Invalid argument''),
     (23, ''ERROR: ENFILE: File table overflow''),
     (24, ''ERROR: EMFILE: Too many open files''),
     (25, ''ERROR: ENOTTY: Not a terminal''),
     (26, ''ERROR: ETXTBSY: Text file busy''),
     (27, ''ERROR: EFBIG: File too large''),
     (28, ''ERROR: ENOSPC: No space left on device''),
     (29, ''ERROR: ESPIPE: Illegal seek''),
     (30, ''ERROR: EROFS: Read-only file system''),
     (31, ''ERROR: EMLINK: Too many links''),
     (32, ''ERROR: EPIPE: Broken pipe''),
     (33, ''ERROR: EDOM: Math argument out of domain''),
     (34, ''ERROR: ERANGE: Math result not representable''),
     (11, ''ERROR: EDEADLK: Resource deadlock would occur''),
     (63, ''ERROR: ENAMETOOLONG: File name too long''),
     (77, ''ERROR: ENOLCK: No record locks available''),
     (78, ''ERROR: ENOSYS: Function not implemented''),
     (66, ''ERROR: ENOTEMPTY: Directory not empty''),
     (62, ''ERROR: ELOOP: Too many symbolic links encountered''),
     (38, ''ERROR: ENOTSOCK: Socket operation on non-socket''),
     (39, ''ERROR: EDESTADDRREQ: Destination address required''),
     (40, ''ERROR: EMSGSIZE: Message too long''),
     (41, ''ERROR: EPROTOTYPE: Protocol wrong type for socket''),
     (42, ''ERROR: ENOPROTOOPT: Protocol not available''),
     (43, ''ERROR: EPROTONOSUPPORT: Protocol not supported''),
     (44, ''ERROR: ESOCKTNOSUPPORT: Socket type not supported''),
     (45, ''ERROR: EOPNOTSUPP: Operation not supported''),
     (46, ''ERROR: EPFNOSUPPORT: Protocol family not supported''),
     (47, ''ERROR: EAFNOSUPPORT: Address family not supported''),
     (48, ''ERROR: EADDRINUSE: Address already in use''),
     (49, ''ERROR: EADDRNOTAVAIL: Cannot assign requested address''),
     (50, ''ERROR: ENETDOWN: Network is down''),
     (51, ''ERROR: ENETUNREACH: Network is unreachable''),
     (52, ''ERROR: ENETRESET: Network dropped connection on reset''),
     (53, ''ERROR: ECONNABORTED: Software caused connection abort''),
     (54, ''ERROR: ECONNRESET: Connection reset by peer''),
     (55, ''ERROR: ENOBUFS: No buffer space available''),
     (56, ''ERROR: EISCONN: Transport endpoint is already connected''),
     (57, ''ERROR: ENOTCONN: Transport endpoint is not connected''),
     (58, ''ERROR: ESHUTDOWN: Cannot send after transport endpoint shutdown''),
     (59, ''ERROR: ETOOMANYREFS: Too many references''),
     (60, ''ERROR: ETIMEDOUT: Connection timed out''),
     (61, ''ERROR: ECONNREFUSED: Connection refused''),
     (64, ''ERROR: EHOSTDOWN: Host is down''),
     (65, ''ERROR: EHOSTUNREACH: No route to host''),
     (37, ''INFO: EALREADY: Operation already in progress''),
     (36, ''INFO: EINPROGRESS: Operation now in progress''),
     (70, ''ERROR: ESTALE: Stale file handle''),
     (117, ''ERROR: EUCLEAN: Structure needs cleaning''),
     (118, ''ERROR: ENOTNAM: Not a XENIX named type file''),
     (119, ''ERROR: ENAVAIL: No XENIX semaphores available''),
     (120, ''ERROR: EISNAM: Is a named type file''),
     (121, ''ERROR: EREMOTEIO: Remote I/O error''),
     (69, ''ERROR: EDQUOT: Disk quota exceeded''),
     (129, ''ERROR: ENOMEDIUM: No medium found''),
     (130, ''ERROR: EMEDIUMTYPE: Wrong medium type''),
     (131, ''WARN: ECANCELED: Operation canceled''),
     (132, ''ERROR: ENOKEY: Required key not available''),
     (133, ''ERROR: EKEYEXPIRED: Key has expired''),
     (134, ''ERROR: EKEYREVOKED: Key has been revoked''),
     (135, ''ERROR: EKEYREJECTED: Key was rejected by service''),
     (136, ''ERROR: EOWNERDEAD: Owner died''),
     (137, ''ERROR: ENOTRECOVERABLE: State not recoverable''),
     (138, ''ERROR: ERFKILL: Operation not possible due to RF-kill''),
     (139, ''ERROR: EHWPOISON: Memory page has hardware error'')]"

definition error_text :: "int \<Rightarrow> string" where
  "error_text n = (case map_of error_table n of Some t \<Rightarrow> t | None \<Rightarrow> ''ERROR: Unknown error code'')"

section \<open>Reports\<close>

datatype error_exception_mode = ERROR_SAVE_ONLY | ERROR_SAVE_AND_PRINT_TO_LOG | ERROR_SAVE_AND_BLOCK | ERROR_SAVE_AND_DO_HOOK

record error =
  er_name :: "u8 list"
  er_name_at :: nat
  errnum :: int
  er_time :: u32
  er_line :: u32
  errmsg :: "u8 list"
  errmsg_at :: nat
  error_count :: u32
  er_mode :: error_exception_mode
  er_target :: nat
  haper_size :: nat

record error_log =
  kh :: kheap
  errors :: "nat \<Rightarrow> error option"
  printed :: "va list list"

text \<open>
  \<open>bytes\<close> and \<open>junk\<close> are what the blocks hold; \<open>this_file\<close> is the name used when none is given.
\<close>

definition l_error_create ::
    "nat \<Rightarrow> (nat \<Rightarrow> u8) \<Rightarrow> error \<Rightarrow> u8 list \<Rightarrow> nat \<Rightarrow> u8 list option \<Rightarrow> nat \<Rightarrow> error_exception_mode \<Rightarrow> error_log
     \<Rightarrow> ((int + nat) \<times> error_log) option" where
  "l_error_create sizeof_error bytes junk this_file target name n md s = do {
     (e, k) \<leftarrow> smalloc (kh s) sizeof_error;
     if e = 0 then Some (Inl (- 4095), s\<lparr>kh := k\<rparr>)
     else do {
       let n = (if n = 0 then 512 else n);
       (m, k) \<leftarrow> smalloc k n;
       if m = 0 then do { k \<leftarrow> sfree k e; Some (Inl (- ENOMEM), s\<lparr>kh := k\<rparr>) }
       else do {
         let name = (case name of None \<Rightarrow> this_file | Some t \<Rightarrow> t);
         (a, k) \<leftarrow> smalloc k (length name + 1);
         if a = 0 then do { k \<leftarrow> sfree k m; k \<leftarrow> sfree k e; Some (Inl (- ENOMEM), s\<lparr>kh := k\<rparr>) }
         else Some (Inr e, s\<lparr>kh := k, errors := (errors s)(e \<mapsto> junk\<lparr>er_name := name, er_name_at := a, errmsg := map bytes [0..<n],
           errmsg_at := m, er_target := target, error_count := 0, er_mode := md\<rparr>)\<rparr>) } } }"

definition l_delete_error :: "nat \<Rightarrow> error_log \<Rightarrow> error_log option" where
  "l_delete_error e s = (if e = 0 then Some s else do {
     x \<leftarrow> at (errors s) e;
     k \<leftarrow> (if er_name_at x \<noteq> 0 then sfree (kh s) (er_name_at x) else Some (kh s));
     k \<leftarrow> (if errmsg_at x \<noteq> 0 then sfree k (errmsg_at x) else Some k);
     k \<leftarrow> sfree k e;
     Some (s\<lparr>kh := k, errors := free_at (errors s) e\<rparr>) })"

text \<open>The line that is printed, its format first.\<close>

definition report_format :: "u8 list" where
  "report_format = map of_char ''(%u.%06u) (%d)[ '' @ [34] @ map of_char ''%s'' @ [34] @ map of_char '':(%d)] %s free memory size:%db'' @ [10]"

definition report_args :: "int \<Rightarrow> error \<Rightarrow> va list option" where
  "report_args hz x = (if hz = 0 then None else do {
     msg \<leftarrow> c_string (errmsg x);
     Some [Word (of_int (sint (er_time x) sdiv hz)), Word (of_int (sint (er_time x) smod hz)), Word (error_count x), Str (Some (er_name x)),
       Word (er_line x), Str (Some msg), Word (of_nat (haper_size x))] })"

text \<open>
  The report goes to the caller's buffer if there is one, else to \<open>printk\<close>; the length is compared, as an unsigned number, with the size of the
  report's own buffer. The second way ends without a value (\<open>None\<close>).
\<close>

definition l_output_error_message :: "int \<Rightarrow> nat \<Rightarrow> u8 list option \<Rightarrow> bool \<Rightarrow> error_log \<Rightarrow> (int option \<times> u8 list option \<times> error_log) option" where
  "l_output_error_message hz e buffer out s = (if e = 0 then Some (Some (- 1), buffer, s) else do {
     x \<leftarrow> at (errors s) e;
     case buffer of
       Some buf \<Rightarrow> do {
         args \<leftarrow> report_args hz x;
         (len, buf) \<leftarrow> snprintf buf report_format args;
         Some (Some (if length (errmsg x) \<le> unat (of_int len :: u32) then - 1 else len), Some buf, s) }
     | None \<Rightarrow> if out then do { args \<leftarrow> report_args hz x; Some (None, None, s\<lparr>printed := printed s @ [args]\<rparr>) }
         else Some (None, None, s) })"

text \<open>
  Recording an error. The mode that blocks loops without end, and so has no result; the mode that is meant to call a hook calls none.
\<close>

definition l_error_exception ::
    "int \<Rightarrow> u32 \<Rightarrow> nat \<Rightarrow> int \<Rightarrow> u32 \<Rightarrow> (u8 list \<times> va list) option \<Rightarrow> error_log \<Rightarrow> error_log option" where
  "l_error_exception hz now e err line msg s = (if e = 0 \<or> err \<ge> 0 then Some s else do {
     x \<leftarrow> at (errors s) e;
     free \<leftarrow> get_global_heap_size (kh s);
     (_, buf) \<leftarrow> (case msg of Some (fmt, ap) \<Rightarrow> vsnprintf (errmsg x) fmt ap
       | None \<Rightarrow> vsnprintf (errmsg x) (map of_char (error_text (- err))) []);
     let x = x\<lparr>errnum := err, er_line := line, er_time := now, haper_size := free, error_count := error_count x + 1, errmsg := buf\<rparr>;
     let s = s\<lparr>errors := (errors s)(e \<mapsto> x)\<rparr>;
     case er_mode x of
       ERROR_SAVE_ONLY \<Rightarrow> Some s
     | ERROR_SAVE_AND_PRINT_TO_LOG \<Rightarrow> do { (_, _, s) \<leftarrow> l_output_error_message hz e None True s; Some s }
     | ERROR_SAVE_AND_BLOCK \<Rightarrow> None
     | ERROR_SAVE_AND_DO_HOOK \<Rightarrow> Some s })"

section \<open>The inline functions\<close>

definition create_Exception where
  "create_Exception sizeof_error bytes junk this_file target name =
     l_error_create sizeof_error bytes junk this_file target name 512 ERROR_SAVE_AND_PRINT_TO_LOG"

definition create_Custom_Exception where
  "create_Custom_Exception sizeof_error bytes junk this_file target name n md =
     l_error_create sizeof_error bytes junk this_file target name n md"

definition delete_Exception :: "nat \<Rightarrow> error_log \<Rightarrow> error_log option" where
  "delete_Exception e s = l_delete_error e s"

definition catchException_line :: "int \<Rightarrow> u32 \<Rightarrow> nat \<Rightarrow> int \<Rightarrow> u32 \<Rightarrow> error_log \<Rightarrow> (int \<times> error_log) option" where
  "catchException_line hz now e err line s = do { s \<leftarrow> l_error_exception hz now e err line None s; Some (err, s) }"

definition print_Exception_message :: "int \<Rightarrow> nat \<Rightarrow> error_log \<Rightarrow> error_log option" where
  "print_Exception_message hz e s = do { (_, _, s) \<leftarrow> l_output_error_message hz e None True s; Some s }"

definition get_Exception_message :: "int \<Rightarrow> nat \<Rightarrow> u8 list \<Rightarrow> error_log \<Rightarrow> (u8 list \<times> error_log) option" where
  "get_Exception_message hz e buffer s = do {
     (_, buf, s) \<leftarrow> l_output_error_message hz e (Some buffer) False s; buf \<leftarrow> buf; Some (buf, s) }"

definition set_Exception_mode :: "nat \<Rightarrow> error_exception_mode \<Rightarrow> error_log \<Rightarrow> error_log option" where
  "set_Exception_mode e md s = (if e = 0 then Some s else do {
     es \<leftarrow> upd (errors s) e (\<lambda>x. x\<lparr>er_mode := md\<rparr>); Some (s\<lparr>errors := es\<rparr>) })"

definition set_Exception_target :: "nat \<Rightarrow> nat \<Rightarrow> error_log \<Rightarrow> error_log option" where
  "set_Exception_target e t s = (if e = 0 then Some s else do {
     es \<leftarrow> upd (errors s) e (\<lambda>x. x\<lparr>er_target := t\<rparr>); Some (s\<lparr>errors := es\<rparr>) })"

section \<open>Creating and deleting\<close>

text \<open>C23: Creating a report either gives one with three blocks of its own in the heap, a structure, a message buffer and a name, or
  fails with -MAX_ERRNO or -ENOMEM and then has kept nothing, at whichever of the three allocations; and deleting the report gives the
  heap back its blocks, no more and no fewer.\<close>

theorem error_lifecycle:
  assumes ok: "kheap_ok (kh s)" and sizes: "sizeof_error < 4294967296" "n < 4294967296"
    "length (case name of None \<Rightarrow> this_file | Some t \<Rightarrow> t) + 1 < 4294967296"
  shows "\<exists>r s'. l_error_create sizeof_error bytes junk this_file target name n md s = Some (r, s') \<and> kheap_ok (kh s') \<and> (case r of
       Inl err \<Rightarrow> err \<in> {- 4095, - ENOMEM} \<and> kheap_live (kh s') = kheap_live (kh s) \<and> errors s' = errors s
     | Inr e \<Rightarrow> \<exists>x. errors s' e = Some x \<and> e \<noteq> 0 \<and> (\<exists>i j k. kheap_live (kh s') =
           kheap_live (kh s) \<union> {(e, i), (errmsg_at x, j), (er_name_at x, k)} \<and> sizeof_error \<le> i \<and> length (errmsg x) \<le> j \<and> length (er_name x) < k)
         \<and> (\<exists>s''. l_delete_error e s' = Some s'' \<and> kheap_ok (kh s'') \<and> kheap_live (kh s'') = kheap_live (kh s) \<and> errors s'' e = None))"
proof -
  let ?n = "if n = 0 then 512 else n" and ?name = "case name of None \<Rightarrow> this_file | Some t \<Rightarrow> t"
  have n: "?n < 4294967296" using sizes by simp
  show ?thesis
  proof (cases rule: kernel_heap.alloc_cases [OF ok sizes(1)])
    case (1 k)
    then show ?thesis by (intro exI [of _ "Inl (- 4095)"] exI [of _ "s\<lparr>kh := k\<rparr>"]) (simp_all add: l_error_create_def)
  next
    case a: (2 e i k1)
    show ?thesis
    proof (cases rule: kernel_heap.alloc_cases [OF a(3) n])
      case (1 k2)
      obtain k3 where "sfree k2 e = Some k3" "kheap_ok k3" "kheap_live k3 = kheap_live (kh s)"
        using kernel_heap.release_newest [of k2 e i] 1 a by metis
      then show ?thesis using 1 a by (intro exI [of _ "Inl (- ENOMEM)"] exI [of _ "s\<lparr>kh := k3\<rparr>"]) (simp_all add: l_error_create_def cong: if_cong)
    next
      case b: (2 m j k2)
      show ?thesis
      proof (cases rule: kernel_heap.alloc_cases [OF b(3) sizes(3)])
        case (1 k3)
        obtain k4 where k4: "sfree k3 m = Some k4" "kheap_ok k4" "kheap_live k4 = kheap_live k1"
          using kernel_heap.release_newest [of k3 m j] 1 b by metis
        obtain k5 where "sfree k4 e = Some k5" "kheap_ok k5" "kheap_live k5 = kheap_live (kh s)"
          using kernel_heap.release_newest [of k4 e i] k4 a by metis
        then show ?thesis using 1 a b k4 by (intro exI [of _ "Inl (- ENOMEM)"] exI [of _ "s\<lparr>kh := k5\<rparr>"]) (simp_all add: l_error_create_def Let_def cong: if_cong)
      next
        case c: (2 q l k3)
        let ?x = "junk\<lparr>er_name := ?name, er_name_at := q, errmsg := map bytes [0..<?n], errmsg_at := m, er_target := target,
          error_count := 0, er_mode := md\<rparr>"
        let ?s = "s\<lparr>kh := k3, errors := (errors s)(e \<mapsto> ?x)\<rparr>"
        have "l_error_create sizeof_error bytes junk this_file target name n md s = Some (Inr e, ?s)"
          using a b c by (simp add: l_error_create_def Let_def cong: if_cong)
        moreover obtain k4 where k4: "sfree k3 q = Some k4" "kheap_ok k4" "kheap_live k4 = kheap_live k2"
          using kernel_heap.release_newest [of k3 q l] c by metis
        moreover obtain k5 where k5: "sfree k4 m = Some k5" "kheap_ok k5" "kheap_live k5 = kheap_live k1"
          using kernel_heap.release_newest [of k4 m j] k4 b by metis
        moreover obtain k6 where k6: "sfree k5 e = Some k6" "kheap_ok k6" "kheap_live k6 = kheap_live (kh s)"
          using kernel_heap.release_newest [of k5 e i] k5 a by metis
        moreover have "kheap_live k3 = kheap_live (kh s) \<union> {(e, i), (m, j), (q, l)}" using a(6) b(6) c(6) by auto
        moreover have "l_delete_error e ?s = Some (?s\<lparr>kh := k6, errors := free_at (errors ?s) e\<rparr>)"
          using a(2) b(2) c(2) k4(1) k5(1) k6(1) by (simp add: l_delete_error_def)
        moreover have "errors ?s e = Some ?x" "length (errmsg ?x) = ?n" by simp_all
        ultimately show ?thesis
          using a(2,4) b(4) c(3,4) k6(2,3)
          by (intro exI [of _ "Inr e"] exI [of _ ?s] conjI, simp, simp, unfold sum.case)
            (intro exI [of _ ?x] conjI exI [of _ i] exI [of _ j] exI [of _ l] exI [of _ "?s\<lparr>kh := k6, errors := free_at (errors ?s) e\<rparr>"]; simp)
      qed
    qed
  qed
qed

section \<open>Recording\<close>

definition error_bytes :: "int \<Rightarrow> u8 list" where
  "error_bytes n = map of_char (error_text n)"

lemma error_plain: "list_all (\<lambda>(n, t). length t < 100 \<and> list_all (\<lambda>c. (of_char c :: u8) \<noteq> 37 \<and> (of_char c :: u8) \<noteq> 0) t) error_table"
  by (simp add: error_table_def)

lemma error_numbers: "distinct (map fst error_table)" "distinct (map snd error_table)"
  by (simp_all add: error_table_def)

lemma error_bytes_plain: "length (error_bytes n) < 100" "37 \<notin> set (error_bytes n)" "0 \<notin> set (error_bytes n)"
proof -
  have "length t < 100 \<and> (37 :: u8) \<notin> of_char ` set t \<and> (0 :: u8) \<notin> of_char ` set t" if "t = error_text n" for t
  proof (cases "map_of error_table n")
    case None
    then show ?thesis using that by (simp add: error_text_def)
  next
    case (Some u)
    then have "(n, u) \<in> set error_table" by (rule map_of_SomeD)
    then show ?thesis using error_plain that Some by (fastforce simp: list_all_iff error_text_def)
  qed
  then show "length (error_bytes n) < 100" "37 \<notin> set (error_bytes n)" "0 \<notin> set (error_bytes n)" by (simp_all add: error_bytes_def)
qed

lemma error_text_inj:
  assumes "(a, s) \<in> set error_table" "(b, t) \<in> set error_table" "error_text a = error_text b"
  shows "a = b"
proof -
  have "s = t" using assms error_numbers(1) by (simp add: error_text_def)
  then show ?thesis using assms error_numbers(2) by (metis distinct_map inj_onD snd_conv prod.inject)
qed

lemma unat_of_char: "unat (of_char c :: u8) = of_char c"
proof -
  have "unat (of_nat (of_char c) :: u8) = of_char c" using nat_of_char_less_256 [of c] by (intro unat_of_nat_small) simp
  then show ?thesis by (simp only: of_nat_of_char)
qed
lemma of_char_inj: "(of_char c :: u8) = of_char d \<Longrightarrow> c = d"
proof -
  assume "(of_char c :: u8) = of_char d"
  then have "(of_char c :: nat) = of_char d" using unat_of_char by metis
  then show ?thesis by simp
qed
lemma of_char_list_inj: "map of_char s = (map of_char t :: u8 list) \<Longrightarrow> s = t"
  using inj_map_eq_map [of "of_char :: char \<Rightarrow> u8" s t] of_char_inj by (auto intro: injI)

lemma record_text:
  assumes "buf \<noteq> []"
  shows "vsnprintf buf (error_bytes n) [] = Some (int (length (error_bytes n)), truncated (error_bytes n) buf)"
proof -
  have p: "length (take (length buf) t @ drop (length t) buf) = length buf" for t :: "u8 list" by simp
  have l: "length (error_bytes n) < 2147483648" using error_bytes_plain(1) [of n] by simp
  then have u: "unat (of_nat (length (error_bytes n)) :: u32) = length (error_bytes n)" by (intro unat_of_nat_small) simp
  show ?thesis using assms l print_plain [OF error_bytes_plain(2), of n "[]" "(buf, 0)"]
    by (simp add: vsnprintf_def puts_buffer p u sint_length terminate_truncated del: length_append length_drop length_take) (auto simp: truncated_def)
qed

lemma recorded_string: "100 \<le> length buf \<Longrightarrow> c_string (truncated (error_bytes n) buf) = Some (error_bytes n)"
  using error_bytes_plain(1,3) [of n] c_string_terminated [of "error_bytes n"] by (auto simp: truncated_def)

text \<open>Recording an error number into a report with a buffer of 100 bytes or more sets the number, the line, the time and the free
  memory, counts it, and leaves in the buffer the message of that number, whole and terminated. Different numbers of the table have different
  messages, so the buffer tells which error it was. Then the report is printed or not as its mode says; the mode that
  blocks never returns.\<close>

theorem error_report:
  assumes "kheap_ok (kh s)" "e \<noteq> 0" "errors s e = Some x" "100 \<le> length (errmsg x)" "err < 0"
  shows "\<exists>free y. get_global_heap_size (kh s) = Some free \<and>
    y = x\<lparr>errnum := err, er_line := line, er_time := now, haper_size := free, error_count := error_count x + 1, errmsg := errmsg y\<rparr> \<and>
    length (errmsg y) = length (errmsg x) \<and> c_string (errmsg y) = Some (error_bytes (- err)) \<and>
    l_error_exception hz now e err line None s = (let s' = s\<lparr>errors := (errors s)(e \<mapsto> y)\<rparr> in case er_mode x of
        ERROR_SAVE_AND_BLOCK \<Rightarrow> None | ERROR_SAVE_AND_PRINT_TO_LOG \<Rightarrow> print_Exception_message hz e s' | _ \<Rightarrow> Some s') \<and>
    (\<forall>m \<in> fst ` set error_table. - err \<in> fst ` set error_table \<longrightarrow> error_bytes m = error_bytes (- err) \<longrightarrow> m = - err)"
proof -
  obtain free where free: "get_global_heap_size (kh s) = Some free" using global_heap_size_total [OF assms(1)] by blast
  define y where "y = x\<lparr>errnum := err, er_line := line, er_time := now, haper_size := free, error_count := error_count x + 1,
    errmsg := truncated (error_bytes (- err)) (errmsg x)\<rparr>"
  have b: "errmsg x \<noteq> []" using assms(4) by auto
  have "length (truncated (error_bytes (- err)) (errmsg x)) = length (errmsg x)"
    using assms(4) error_bytes_plain(1) [of "- err"] by (simp add: truncated_def)
  then have y: "y = x\<lparr>errnum := err, er_line := line, er_time := now, haper_size := free, error_count := error_count x + 1, errmsg := errmsg y\<rparr>"
    "length (errmsg y) = length (errmsg x)" "c_string (errmsg y) = Some (error_bytes (- err))"
    using recorded_string [OF assms(4)] by (simp_all add: y_def)
  have "l_error_exception hz now e err line None s = (let s' = s\<lparr>errors := (errors s)(e \<mapsto> y)\<rparr> in case er_mode x of
        ERROR_SAVE_AND_BLOCK \<Rightarrow> None | ERROR_SAVE_AND_PRINT_TO_LOG \<Rightarrow> print_Exception_message hz e s' | _ \<Rightarrow> Some s')"
    using assms(2,3,5) free record_text [OF b, of "- err"]
    by (simp add: l_error_exception_def print_Exception_message_def y_def error_bytes_def Let_def split: error_exception_mode.split)
  moreover have "m = - err" if "m \<in> fst ` set error_table" "- err \<in> fst ` set error_table" "error_bytes m = error_bytes (- err)" for m
    using that of_char_list_inj error_text_inj by (fastforce simp: error_bytes_def)
  ultimately show ?thesis using free y by blast
qed


definition blank_error :: error where
  "blank_error = \<lparr>er_name = [], er_name_at = 0, errnum = 0, er_time = 0, er_line = 0, errmsg = replicate 128 1, errmsg_at = 0,
     error_count = 0, er_mode = ERROR_SAVE_ONLY, er_target = 0, haper_size = 0\<rparr>"

definition log_on :: "kheap \<Rightarrow> error_log" where
  "log_on k = \<lparr>kh = k, errors = [40 \<mapsto> blank_error], printed = []\<rparr>"

lemma booted_heap: "\<exists>k. sys_heap_init (bss_kheap (\<lambda>_. zero_block)) 4096 8192 = Some k \<and> kheap_ok k"
  using boot_state [of 8192 4096 "\<lambda>_. zero_block"] boot_ok by fastforce

theorem error_lifecycle_witness:
  "\<exists>k r s'. sys_heap_init (bss_kheap (\<lambda>_. zero_block)) 4096 8192 = Some k \<and>
     l_error_create 48 (\<lambda>_. 1) blank_error [101] 0 None 0 ERROR_SAVE_ONLY (log_on k) = Some (r, s') \<and> kheap_ok (kh s')"
proof -
  obtain k where k: "sys_heap_init (bss_kheap (\<lambda>_. zero_block)) 4096 8192 = Some k" "kheap_ok k" using booted_heap by blast
  then have "kheap_ok (kh (log_on k))" by (simp add: log_on_def)
  from error_lifecycle [OF this, where sizeof_error = 48 and n = 0 and name = None and this_file = "[101]" and bytes = "\<lambda>_. 1"
      and junk = blank_error and target = 0 and md = ERROR_SAVE_ONLY] k(1) show ?thesis by auto
qed

theorem error_report_witness:
  "\<exists>k s' y. l_error_exception 1000 7 40 (- 2) 5 None (log_on k) = Some s' \<and> errors s' 40 = Some y \<and> error_count y = 1 \<and>
     c_string (errmsg y) = Some (map of_char ''ERROR: ENOENT: No such file or directory'')"
proof -
  obtain k where k: "kheap_ok k" using booted_heap by blast
  have "kheap_ok (kh (log_on k))" "errors (log_on k) 40 = Some blank_error" "100 \<le> length (errmsg blank_error)" "(40 :: nat) \<noteq> 0" "- 2 < (0 :: int)"
    using k by (simp_all add: log_on_def blank_error_def)
  from error_report [OF this(1,4,2,3,5), where now = 7 and line = 5 and hz = 1000] obtain free y where
    "y = blank_error\<lparr>errnum := - 2, er_line := 5, er_time := 7, haper_size := free, error_count := error_count blank_error + 1, errmsg := errmsg y\<rparr>"
    "c_string (errmsg y) = Some (error_bytes 2)"
    "l_error_exception 1000 7 40 (- 2) 5 None (log_on k) = Some ((log_on k)\<lparr>errors := (errors (log_on k))(40 \<mapsto> y)\<rparr>)"
    by (auto simp: blank_error_def Let_def)
  moreover have "error_bytes 2 = map of_char ''ERROR: ENOENT: No such file or directory''"
    by (simp add: error_bytes_def error_text_def error_table_def)
  moreover from calculation(1) have "error_count y = error_count (blank_error\<lparr>errnum := - 2, er_line := 5, er_time := 7, haper_size := free,
      error_count := error_count blank_error + 1, errmsg := errmsg y\<rparr>)" by (rule arg_cong)
  then have "error_count y = 1" by (simp add: blank_error_def)
  ultimately show ?thesis by (intro exI [of _ k] exI [of _ "(log_on k)\<lparr>errors := (errors (log_on k))(40 \<mapsto> y)\<rparr>"] exI [of _ y]) simp
qed

end
