(* ===== verification/Spec2Isabelle.thy ===== *)
theory Spec2Isabelle
  imports KHeap StringSpec Crc CharDev Sched MountSpec VsprintfSpec Locks Irq Loader Console Spi ErrorLog
begin

text \<open>
  A model of the McLinOS kernel, a small kernel in the manner of Linux for Cortex-M processors, as functions and
  step relations of higher-order logic, with the theorems that make its parts correct or that show where they
  are not.

  \<^bold>\<open>The program.\<close> The boot code brings up the heap, registers character devices, file system types and task pools,
  mounts the root file system, reads a configuration file and the table of system calls, and starts the scheduler.
  Tasks then allocate from the heap, open paths through the virtual file system, reach devices and pipes through its
  tables of operations, and are switched by the scheduler on interrupts.

  \<^bold>\<open>Theories, in the order they build on each other.\<close>

  \<^item> \<open>Prelude\<close>: machine words, error numbers, partial stores of objects, and the lemmas all share. It holds the
    interface \<open>name_search\<close>, the search of a list of entries by name, which \<open>FsTree\<close> and \<open>Vfs\<close> interpret on their
    directories.

  \<^item> \<open>Heap\<close>, \<open>HeapSpec\<close>, \<open>HeapAlloc\<close>, \<open>KHeap\<close>: the arenas of \<^verbatim>\<open>include/linux/mempool_super_haper.h\<close>
    and the entry points of \<^verbatim>\<open>kernel/mm/haper.c\<close>. The store maps addresses to block headers; \<open>arena m s bs\<close> relates it
    to the list \<open>bs\<close> of the blocks that tile the region. Each operation refines one on that list: the choice of
    the best fit, splitting, merging with free neighbours. \<open>allocator\<close> is the interface of a heap (fresh disjoint blocks,
    release of a live one, refusal of anything else); its session theorem speaks of any sequence of requests and is
    interpreted on the seven arenas of the kernel.

  \<^item> \<open>Bytes\<close>, \<open>Strings\<close>, \<open>StringSpec\<close>: byte memory and the routines of \<^verbatim>\<open>lib/_string.c\<close>, specified by
    what a range of bytes holds before and after, and those that \<^verbatim>\<open>arch/arm_m/boot/compressed/string.c\<close> has in their place.

  \<^item> \<open>Crc\<close>: the checksums of \<^verbatim>\<open>lib/crc4.c\<close> to \<^verbatim>\<open>lib/crc32.c\<close> against division of polynomials bit by bit. The locale \<open>lsb_crc\<close>
    is interpreted on CRC-8, CRC-16 and CRC-32.

  \<^item> \<open>Vsprintf\<close>, \<open>VsprintfSpec\<close>: \<^verbatim>\<open>lib/vsprintf.c\<close>; digits without division against the digits of the number,
    and truncation to the buffer, with the position a word that wraps round.

  \<^item> \<open>CharDev\<close>: \<^verbatim>\<open>fs/char_device.c\<close>, ranges of device numbers in a hash table, through the interface \<open>registry\<close>
    (all or nothing claims that can be undone).

  \<^item> \<open>Task\<close>, \<open>TimeLoop\<close>, \<open>Preemptive\<close>, \<open>Sched\<close>: the task control blocks of \<^verbatim>\<open>include/linux/sched.h\<close>, the two task pools
    (\<^verbatim>\<open>lib/time_loop.c\<close>, \<^verbatim>\<open>lib/Preemptive.c\<close>) and the schedulers over them (\<^verbatim>\<open>kernel/sched\<close>,
    \<^verbatim>\<open>arch/arm_m/kernel/sched/csched.c\<close>). A pool is a record of operations, as in the code; \<open>task_policy\<close> is what the scheduler
    relies on, interpreted on both pools.

  \<^item> \<open>Pipe\<close>: the ring buffer of a pipe, which implements the interface \<open>bounded_queue\<close>, and the loops of its two ends
    as a step relation that interleaves them in any order.

  \<^item> \<open>FsTree\<close>, \<open>FsInv\<close>: the directory tree a file system keeps for itself. \<^verbatim>\<open>fs/pipefs/pipefs.c\<close>, \<^verbatim>\<open>fs/devfs/devfs.c\<close>,
    \<^verbatim>\<open>fs/initramfs/initramfs.c\<close> and \<^verbatim>\<open>fs/sysfs/sysfs.c\<close> are copies of one code; \<open>fs_kind\<close> selects where
    they differ, and \<open>FsKinds\<close> names each function of the copies as an instance. The invariant is that of link counts,
    single parents and fresh addresses.

  \<^item> \<open>Vfs\<close>, \<open>FsKinds\<close>, \<open>FileOps\<close>, \<open>Namei\<close>, \<open>VfsSpec\<close>, \<open>MountSpec\<close>: the objects of the virtual file system
    (\<^verbatim>\<open>fs/fs_inode.c\<close>, \<^verbatim>\<open>fs/fs_file.c\<close>, \<^verbatim>\<open>fs/fs_superblock.c\<close>), the dentry cache (\<^verbatim>\<open>fs/dcache.c\<close>), the tables through which a
    file system is reached, path walk and opening (\<^verbatim>\<open>fs/vfs.c\<close>), types and mounting (\<^verbatim>\<open>fs/file_system_type.c\<close>,
    \<^verbatim>\<open>fs/mount.c\<close>) and descriptors (\<^verbatim>\<open>lib/sys/sys_fs.c\<close>).

  \<^item> \<open>Locks\<close>: the spin lock of \<^verbatim>\<open>lib/lock/spinlock.c\<close> access by access, and \<^verbatim>\<open>lib/lockref.c\<close>. \<open>Irq\<close>: the chains of
    \<^verbatim>\<open>kernel/irq/irq.c\<close> against a list of actions per interrupt.

  \<^item> \<open>Ini\<close>, \<open>IniSpec\<close>, \<open>Syscall\<close>, \<open>Loader\<close>: the scanner of configuration files (\<^verbatim>\<open>lib/script/kini.c\<close>), the table of
    system calls (\<^verbatim>\<open>ipc/systemcall.c\<close>, \<^verbatim>\<open>kernel/symbol_table/get_symbl.c\<close>), and the application loader
    (\<^verbatim>\<open>kernel/loader/user_application_loader.c\<close>); the later two read their settings through the first.

  \<^item> \<open>Partition\<close>, \<open>W25q\<close>, \<open>Block\<close>: MBR partition tables (\<^verbatim>\<open>block/partition.c\<close>), the driver of a flash chip, which erases
    and writes back whole blocks, and the bios, requests and circular queues between them. \<open>fifo\<close> is the interface of
    a queue; it is interpreted on the list of the code, with heads, links and freed objects.

  \<^item> \<open>Device\<close>, \<open>DeviceSpec\<close>: classes, devices and disks (\<^verbatim>\<open>drivers/driver.c\<close>, \<^verbatim>\<open>block/gendisk.c\<close>,
    \<^verbatim>\<open>block/add_disk.c\<close>). This is where components meet: a driver is registered under a number, its device is
    named by the printing functions and mounted in devfs, and a path that is opened reaches the driver's operations.

  \<^item> \<open>Tty\<close>, \<open>Console\<close>: the serial driver (\<^verbatim>\<open>drivers/tty/stm32f4/stm32f4_tty0.c\<close>), whose ring is a pipe's
    buffer that drops its oldest byte, the clock (\<^verbatim>\<open>drivers/timer/rp2350/timer.c\<close>), and \<^verbatim>\<open>printk\<close> with its
    service, from the registration of the driver to the bytes on the line.

  \<^item> \<open>Gpio\<close>, \<open>Spi\<close>: the drivers of the pins and of the serial bus
    (\<^verbatim>\<open>drivers/gpio/stm32f4\<close>, \<^verbatim>\<open>drivers/spi/stm32f4\<close>) on the registers of the hardware, and
    the wires of the flash driver over them, which act on the chip as \<open>W25q\<close> assumes.

  \<^item> \<open>ErrorLog\<close>: the error objects of \<^verbatim>\<open>lib/error.c\<close>, on the heap from their creation to their release, and
    the texts of \<^verbatim>\<open>include/linux/error.h\<close>.

  \<^bold>\<open>Conventions.\<close> A definition has the name of the function it models. \<open>None\<close> is a fault: a dereference of NULL, of a freed
  object or outside an object, or a loop that never returns. Error pointers and negative results are \<open>Inl\<close> of the
  error number or the number itself, as the caller sees them. Machine integers are words, or natural numbers with the
  reduction written out. Loops over memory that may not end are \<open>partial_function (option)\<close> and are proved to end under
  the invariant that makes them end; no fuel is used. Theorems with hypotheses have a witness at a concrete
  input.

  \<^bold>\<open>What is a parameter.\<close> What an allocation returns inside the file systems, the task pools, the application loader and the interrupt table: the
  next of a list of addresses, 0 for a failure, fresh by hypothesis where a theorem needs it; the heap theories show
  that \<^verbatim>\<open>kmalloc\<close> keeps this promise. What a fresh block holds, a device driver's table of operations, the counter of the clock, the files behind
  the reader of configuration files, the sectors of a disk, the bytes of a flash chip,
  and the number of the core.

  \<^bold>\<open>Concurrency.\<close> The two ends of a pipe, the arrivals and reads of the serial line, and the tasks at a spin lock are interleaved step by
  step. Every other operation is
  one step, as the locks in the code mean it to be. The theorem on the spin lock shows that they do not make it so:
  the flag and the owner share a word, so that the lock excludes nobody. What is proved of the locked operations therefore
  holds of runs in which they do not overlap.

  \<^bold>\<open>What is not modelled.\<close> Register access, exception entry and the vendor's code under \<^verbatim>\<open>bootloader\<close>,
  \<^verbatim>\<open>drivers\<close> and \<^verbatim>\<open>arch\<close>, apart from the frame of a new task, the context switch, the flash chip, the serial lines and the
  pins; the messages that functions print
  about what they do;
  the vendored device tree library; the new thread on which a request is submitted; the hooks and the default
  output of an error report; \<^verbatim>\<open>fs/ext2\<close>, a stub, and the
  template of a file system, which is a further copy of the code modelled; reading an application's image into raw memory; the programs
  under \<^verbatim>\<open>user\<close>.
\<close>

end
